(* ===== verification/Shark_Prelude.thy ===== *)
theory Shark_Prelude
  imports Main "HOL-Library.Word"
begin

text \<open>
  Shared vocabulary of the development: the named collections the component
  theories fill, the fixed-width integer types the C sources use, C strings,
  and the generic list and word lemmas the component proofs share.
\<close>

unbundle bit_operations_syntax

named_theorems queue_ops \<open>definitions of the intrusive queue macros\<close>
named_theorems uv_defs \<open>definitions of the event loop operations\<close>

type_synonym uint8 = "8 word"
type_synonym uint16 = "16 word"
type_synonym uint32 = "32 word"
type_synonym uint64 = "64 word"

subsection \<open>Lists\<close>

lemma distinct_middle_iff:
  "distinct (xs @ q # ys) \<longleftrightarrow> distinct (xs @ ys) \<and> q \<notin> set (xs @ ys)"
  by auto

lemma remove1_middle [simp]:
  "q \<notin> set xs \<Longrightarrow> remove1 q (xs @ q # ys) = xs @ ys"
  by (simp add: remove1_append)

lemma set_remove1_distinct:
  "distinct xs \<Longrightarrow> set (remove1 q xs) = set xs - {q}"
  by simp

lemma map_remove1_inj:
  "inj f \<Longrightarrow> map f (remove1 x xs) = remove1 (f x) (map f xs)"
  by (induction xs) (auto simp: inj_eq)

subsection \<open>Functions\<close>

lemma inj_on_swap:
  assumes "inj_on f A" and "i \<in> A" and "j \<in> A"
  shows "inj_on (f(i := f j, j := f i)) A"
proof (rule inj_onI)
  fix x y assume "x \<in> A" "y \<in> A" and "(f(i := f j, j := f i)) x = (f(i := f j, j := f i)) y"
  then show "x = y" using assms inj_on_eq_iff [OF assms(1)]
    by (simp split: if_splits)
qed

lemma swap_image:
  assumes "i \<in> A" and "j \<in> A"
  shows "(f(i := f j, j := f i)) ` A = f ` A"
proof -
  have "f x \<in> (f(i := f j, j := f i)) ` A" if "x \<in> A" for x
    using that assms
    by (cases "x = i"; cases "x = j") (auto intro!: image_eqI [of _ _ "if x = i then j else if x = j then i else x"])
  with assms show ?thesis by auto
qed

lemma inj_on_extend:
  assumes "inj_on f {1..n}" and "q \<notin> f ` {1..n}"
  shows "inj_on (f(Suc n := q)) {1..Suc n}"
proof -
  have "{1..Suc n} = insert (Suc n) {1..n}" by auto
  moreover have "(f(Suc n := q)) ` {1..n} = f ` {1..n}" by auto
  moreover have "inj_on (f(Suc n := q)) {1..n}" using assms by (rule inj_on_fun_updI)
  ultimately show ?thesis using assms(2) by simp
qed

subsection \<open>Words\<close>

lemma unat_less_power_iff_take_bit:
  fixes x :: "'a::len word"
  shows "unat x < 2 ^ j \<longleftrightarrow> take_bit j x = x"
  by (simp add: word_unat_eq_iff unsigned_take_bit_eq take_bit_nat_eq_self_iff)

lemma unat_uint64_less: "unat w < 2 ^ 64" for w :: uint64
  using unsigned_less [of w] by simp

lemma unat_of_nat_small: "n < 2 ^ LENGTH('a) \<Longrightarrow> unat (of_nat n :: 'a::len word) = n"
  by (simp add: unat_of_nat)

lemma odd_unat_iff: "m AND 1 \<noteq> 0 \<longleftrightarrow> odd (unat m)" for m :: "'a::len word"
proof -
  have "odd (unat m) \<longleftrightarrow> bit (unat m) 0" by (simp add: bit_0)
  also have "\<dots> \<longleftrightarrow> odd m" by (metis bit_0 bit_unsigned_iff possible_bit_0)
  finally show ?thesis by (simp add: and_one_eq even_iff_mod_2_eq_zero)
qed

end
