(* ===== verification/Uv_Queue.thy ===== *)
theory Uv_Queue
  imports Shark_Prelude
begin

text \<open>
  The intrusive circular doubly linked queue of \<^verbatim>\<open>core/libuv/src/queue.h\<close>.
  A \<^verbatim>\<open>QUEUE\<close> is a pair of pointers (next, prev) embedded in another object;
  here the two pointer fields of all queue nodes are one memory, a record of
  two maps over node addresses \<open>'a\<close>, and every macro is a function on that
  memory that performs the macro's assignments in the macro's order.
\<close>

section \<open>The macros\<close>

record 'a queue_mem =
  qnext :: "'a \<Rightarrow> 'a"
  qprev :: "'a \<Rightarrow> 'a"

definition QUEUE_NEXT :: "'a queue_mem \<Rightarrow> 'a \<Rightarrow> 'a" where
  "QUEUE_NEXT m q = qnext m q"

definition QUEUE_PREV :: "'a queue_mem \<Rightarrow> 'a \<Rightarrow> 'a" where
  "QUEUE_PREV m q = qprev m q"

text \<open>Assignments through the lvalue macros.\<close>

definition set_QUEUE_NEXT :: "'a \<Rightarrow> 'a \<Rightarrow> 'a queue_mem \<Rightarrow> 'a queue_mem" where
  "set_QUEUE_NEXT q v m = m\<lparr>qnext := (qnext m)(q := v)\<rparr>"

definition set_QUEUE_PREV :: "'a \<Rightarrow> 'a \<Rightarrow> 'a queue_mem \<Rightarrow> 'a queue_mem" where
  "set_QUEUE_PREV q v m = m\<lparr>qprev := (qprev m)(q := v)\<rparr>"

definition set_QUEUE_PREV_NEXT :: "'a \<Rightarrow> 'a \<Rightarrow> 'a queue_mem \<Rightarrow> 'a queue_mem" where
  "set_QUEUE_PREV_NEXT q v m = set_QUEUE_NEXT (QUEUE_PREV m q) v m"

definition set_QUEUE_NEXT_PREV :: "'a \<Rightarrow> 'a \<Rightarrow> 'a queue_mem \<Rightarrow> 'a queue_mem" where
  "set_QUEUE_NEXT_PREV q v m = set_QUEUE_PREV (QUEUE_NEXT m q) v m"

definition QUEUE_EMPTY :: "'a queue_mem \<Rightarrow> 'a \<Rightarrow> bool" where
  "QUEUE_EMPTY m q \<longleftrightarrow> q = QUEUE_NEXT m q"

definition QUEUE_HEAD :: "'a queue_mem \<Rightarrow> 'a \<Rightarrow> 'a" where
  "QUEUE_HEAD m q = QUEUE_NEXT m q"

definition QUEUE_INIT :: "'a \<Rightarrow> 'a queue_mem \<Rightarrow> 'a queue_mem" where
  "QUEUE_INIT q m =
     (let m = set_QUEUE_NEXT q q m
      in set_QUEUE_PREV q q m)"

definition QUEUE_ADD :: "'a \<Rightarrow> 'a \<Rightarrow> 'a queue_mem \<Rightarrow> 'a queue_mem" where
  "QUEUE_ADD h n m =
     (let m = set_QUEUE_PREV_NEXT h (QUEUE_NEXT m n) m;
          m = set_QUEUE_NEXT_PREV n (QUEUE_PREV m h) m;
          m = set_QUEUE_PREV h (QUEUE_PREV m n) m
      in set_QUEUE_PREV_NEXT h h m)"

definition QUEUE_SPLIT :: "'a \<Rightarrow> 'a \<Rightarrow> 'a \<Rightarrow> 'a queue_mem \<Rightarrow> 'a queue_mem" where
  "QUEUE_SPLIT h q n m =
     (let m = set_QUEUE_PREV n (QUEUE_PREV m h) m;
          m = set_QUEUE_PREV_NEXT n n m;
          m = set_QUEUE_NEXT n q m;
          m = set_QUEUE_PREV h (QUEUE_PREV m q) m;
          m = set_QUEUE_PREV_NEXT h h m
      in set_QUEUE_PREV q n m)"

definition QUEUE_INSERT_HEAD :: "'a \<Rightarrow> 'a \<Rightarrow> 'a queue_mem \<Rightarrow> 'a queue_mem" where
  "QUEUE_INSERT_HEAD h q m =
     (let m = set_QUEUE_NEXT q (QUEUE_NEXT m h) m;
          m = set_QUEUE_PREV q h m;
          m = set_QUEUE_NEXT_PREV q q m
      in set_QUEUE_NEXT h q m)"

definition QUEUE_INSERT_TAIL :: "'a \<Rightarrow> 'a \<Rightarrow> 'a queue_mem \<Rightarrow> 'a queue_mem" where
  "QUEUE_INSERT_TAIL h q m =
     (let m = set_QUEUE_NEXT q h m;
          m = set_QUEUE_PREV q (QUEUE_PREV m h) m;
          m = set_QUEUE_PREV_NEXT q q m
      in set_QUEUE_PREV h q m)"

definition QUEUE_REMOVE :: "'a \<Rightarrow> 'a queue_mem \<Rightarrow> 'a queue_mem" where
  "QUEUE_REMOVE q m =
     (let m = set_QUEUE_PREV_NEXT q (QUEUE_NEXT m q) m
      in set_QUEUE_NEXT_PREV q (QUEUE_PREV m q) m)"

declare QUEUE_NEXT_def [queue_ops] QUEUE_PREV_def [queue_ops]
  set_QUEUE_NEXT_def [queue_ops] set_QUEUE_PREV_def [queue_ops]
  set_QUEUE_PREV_NEXT_def [queue_ops] set_QUEUE_NEXT_PREV_def [queue_ops]
  QUEUE_EMPTY_def [queue_ops] QUEUE_HEAD_def [queue_ops]
  QUEUE_INIT_def [queue_ops] QUEUE_ADD_def [queue_ops] QUEUE_SPLIT_def [queue_ops]
  QUEUE_INSERT_HEAD_def [queue_ops] QUEUE_INSERT_TAIL_def [queue_ops]
  QUEUE_REMOVE_def [queue_ops] Let_def [queue_ops]

section \<open>The list a queue holds\<close>

text \<open>
  \<open>qseg m a xs b\<close>: following next from \<open>a\<close> visits exactly \<open>xs\<close> and then
  \<open>b\<close>, and the prev pointers mirror it. A queue with header \<open>h\<close> holds \<open>xs\<close>
  when the segment closes at \<open>h\<close> and no node occurs twice.
\<close>

fun qseg :: "'a queue_mem \<Rightarrow> 'a \<Rightarrow> 'a list \<Rightarrow> 'a \<Rightarrow> bool" where
  "qseg m a [] b \<longleftrightarrow> qnext m a = b \<and> qprev m b = a"
| "qseg m a (x # xs) b \<longleftrightarrow> qnext m a = x \<and> qprev m x = a \<and> qseg m x xs b"

definition queue_repr :: "'a queue_mem \<Rightarrow> 'a \<Rightarrow> 'a list \<Rightarrow> bool" where
  "queue_repr m h xs \<longleftrightarrow> distinct (h # xs) \<and> qseg m h xs h"

lemma qseg_append [simp]:
  "qseg m a (xs @ y # ys) b \<longleftrightarrow> qseg m a xs y \<and> qseg m y ys b"
  by (induction xs arbitrary: a) auto

lemma qseg_frame:
  assumes "\<And>c. c = a \<or> c \<in> set xs \<Longrightarrow> qnext m' c = qnext m c"
    and "\<And>c. c = b \<or> c \<in> set xs \<Longrightarrow> qprev m' c = qprev m c"
  shows "qseg m' a xs b = qseg m a xs b"
  using assms by (induction xs arbitrary: a) auto

lemma qseg_first: "qseg m a xs b \<Longrightarrow> qnext m a = hd (xs @ [b])"
  by (cases xs) auto

lemma qseg_last: "qseg m a xs b \<Longrightarrow> qprev m b = last (a # xs)"
  by (induction xs arbitrary: a) auto

lemma qseg_last_next: "qseg m a xs b \<Longrightarrow> qnext m (last (a # xs)) = b"
  by (induction xs arbitrary: a) auto

lemma queue_repr_frame:
  assumes "queue_repr m h xs"
    and "\<And>c. c \<in> set (h # xs) \<Longrightarrow> qnext m' c = qnext m c \<and> qprev m' c = qprev m c"
  shows "queue_repr m' h xs"
proof -
  have "qseg m' h xs h = qseg m h xs h"
    using assms(2) by (intro qseg_frame) auto
  with assms(1) show ?thesis by (simp add: queue_repr_def)
qed

section \<open>What each macro does to the list\<close>

lemma queue_repr_init: "queue_repr (QUEUE_INIT q m) q []"
  by (simp add: queue_repr_def queue_ops)

lemma queue_repr_empty: "queue_repr m h xs \<Longrightarrow> QUEUE_EMPTY m h \<longleftrightarrow> xs = []"
  by (cases xs) (auto simp: queue_repr_def queue_ops)

lemma queue_repr_head: "queue_repr m h (x # xs) \<Longrightarrow> QUEUE_HEAD m h = x"
  by (simp add: queue_repr_def queue_ops)

lemma queue_repr_insert_head:
  assumes "queue_repr m h xs" and "q \<notin> set (h # xs)"
  shows "queue_repr (QUEUE_INSERT_HEAD h q m) h (q # xs)"
proof (cases xs)
  case Nil
  with assms show ?thesis by (auto simp: queue_repr_def queue_ops)
next
  case (Cons x ys)
  let ?m = "QUEUE_INSERT_HEAD h q m"
  from assms Cons have d: "distinct (q # h # x # ys)" and s: "qseg m x ys h" and n: "qnext m h = x"
    by (auto simp: queue_repr_def)
  have "qseg ?m x ys h = qseg m x ys h"
    using d n by (intro qseg_frame) (auto simp: queue_ops)
  with d s n Cons show ?thesis by (auto simp: queue_repr_def queue_ops)
qed

lemma queue_repr_insert_tail:
  assumes "queue_repr m h xs" and "q \<notin> set (h # xs)"
  shows "queue_repr (QUEUE_INSERT_TAIL h q m) h (xs @ [q])"
proof (cases xs rule: rev_cases)
  case Nil
  with assms show ?thesis by (auto simp: queue_repr_def queue_ops)
next
  case (snoc ys x)
  let ?m = "QUEUE_INSERT_TAIL h q m"
  from assms snoc have d: "distinct (q # h # ys @ [x])" and s: "qseg m h ys x" and p: "qprev m h = x"
    by (auto simp: queue_repr_def)
  have "qseg ?m h ys x = qseg m h ys x"
    using d p by (intro qseg_frame) (auto simp: queue_ops)
  with d s p snoc show ?thesis by (auto simp: queue_repr_def queue_ops)
qed

text \<open>Unlinking a node: the two segments around it are joined.\<close>

lemma qseg_unlink:
  assumes "qseg m a xs q" and "qseg m q ys b"
    and "distinct (xs @ q # ys)" and "a \<notin> set (xs @ q # ys)" and "b \<notin> set (xs @ q # ys)"
  shows "qseg (QUEUE_REMOVE q m) a (xs @ ys) b"
proof -
  let ?m = "QUEUE_REMOVE q m"
  have pq: "qprev m q = last (a # xs)" and nq: "qnext m q = hd (ys @ [b])"
    using assms(1,2) by (auto simp: qseg_last qseg_first)
  have nx: "qnext ?m = (qnext m)(last (a # xs) := hd (ys @ [b]))"
    using pq nq by (simp add: queue_ops)
  have px: "qprev ?m = (qprev m)(hd (ys @ [b]) := last (a # xs))"
    using pq nq assms(3,4) by (auto simp: queue_ops split: if_splits)
  show ?thesis
  proof (cases xs rule: rev_cases)
    case Nil
    show ?thesis
    proof (cases ys)
      case Nil
      with \<open>xs = []\<close> nx px show ?thesis by simp
    next
      case (Cons y zs)
      have "qseg ?m y zs b = qseg m y zs b"
        using assms(3-5) Cons \<open>xs = []\<close> nx px by (intro qseg_frame) auto
      with Cons \<open>xs = []\<close> nx px assms(2) show ?thesis by simp
    qed
  next
    case (snoc us u)
    have left: "qseg ?m a us u"
      using assms(1,3-5) snoc nx px
      by (subst qseg_frame [where m = m]) (auto simp: hd_append split: list.splits)
    show ?thesis
    proof (cases ys)
      case Nil
      with snoc left nx px show ?thesis by simp
    next
      case (Cons y zs)
      have "qseg ?m y zs b = qseg m y zs b"
        using assms(3-5) Cons snoc nx px by (intro qseg_frame) auto
      with Cons snoc left nx px assms(2) show ?thesis by simp
    qed
  qed
qed

lemma queue_repr_remove:
  assumes "queue_repr m h (xs @ q # ys)"
  shows "queue_repr (QUEUE_REMOVE q m) h (xs @ ys)"
  using assms qseg_unlink [of m h xs q ys h] by (auto simp: queue_repr_def)

lemma queue_repr_split:
  assumes "queue_repr m h (xs @ q # ys)" and "n \<notin> set (h # xs @ q # ys)"
  shows "queue_repr (QUEUE_SPLIT h q n m) h xs" and "queue_repr (QUEUE_SPLIT h q n m) n (q # ys)"
proof -
  let ?m = "QUEUE_SPLIT h q n m"
  from assms have d: "distinct (n # h # xs @ q # ys)"
    and s: "qseg m h xs q" "qseg m q ys h"
    by (auto simp: queue_repr_def)
  have ph: "qprev m h = last (q # ys)" and pq: "qprev m q = last (h # xs)"
    using s by (auto simp: qseg_last)
  have nx: "qnext ?m = (qnext m)(last (q # ys) := n, n := q, last (h # xs) := h)"
    using d ph pq by (auto simp: queue_ops)
  have px: "qprev ?m = (qprev m)(n := last (q # ys), h := last (h # xs), q := n)"
    using d ph pq by (auto simp: queue_ops)
  have "qseg ?m h xs h"
  proof (cases xs rule: rev_cases)
    case Nil
    with d nx px show ?thesis by auto
  next
    case (snoc us u)
    have "qseg ?m h us u = qseg m h us u"
      using d snoc nx px by (intro qseg_frame) (auto split: if_splits)
    with snoc s d nx px show ?thesis by auto
  qed
  with d show "queue_repr ?m h xs" by (simp add: queue_repr_def)
  have lx: "last (h # xs) \<notin> set (n # q # ys)"
    using d last_in_set [of "h # xs"] by auto
  have "qseg ?m q ys n"
  proof (cases ys rule: rev_cases)
    case Nil
    with d lx nx px show ?thesis by (auto split: if_splits)
  next
    case (snoc us u)
    have "qseg ?m q us u = qseg m q us u"
      using d lx snoc nx px by (intro qseg_frame) (auto split: if_splits)
    with snoc s d lx nx px show ?thesis by (auto split: if_splits)
  qed
  with d lx nx px show "queue_repr ?m n (q # ys)"
    by (auto simp: queue_repr_def split: if_splits)
qed

lemma queue_repr_add:
  assumes "queue_repr m h xs" and "queue_repr m n ys" and "set (h # xs) \<inter> set (n # ys) = {}"
  shows "queue_repr (QUEUE_ADD h n m) h (xs @ ys)"
proof (cases ys)
  case Nil
  define l where "l = last (h # xs)"
  have e: "qnext m n = n" "qprev m n = n"
    using assms(2) Nil by (auto simp: queue_repr_def)
  have p: "qprev m h = l" and ln: "qnext m l = h"
    using assms(1) qseg_last [of m h xs h] qseg_last_next [of m h xs h]
    unfolding queue_repr_def l_def by blast+
  have "h \<noteq> n" "l \<noteq> n"
    using assms(3) last_in_set [of "h # xs"] unfolding l_def by auto
  then have "qnext (QUEUE_ADD h n m) = (qnext m)(l := h)" and "qprev (QUEUE_ADD h n m) = (qprev m)(n := l, h := l)"
    using e p by (auto simp: queue_ops)
  then have "qnext (QUEUE_ADD h n m) = qnext m" and "qprev (QUEUE_ADD h n m) = (qprev m)(n := l)"
    using \<open>h \<noteq> n\<close> by (simp_all add: fun_upd_twist [of n h] fun_upd_idem [of "qprev m", OF p]
      fun_upd_idem [of "qnext m", OF ln])
  then have "queue_repr (QUEUE_ADD h n m) h xs"
    using assms(3) by (intro queue_repr_frame [OF assms(1)]) auto
  with Nil show ?thesis by simp
next
  case (Cons y zs)
  let ?m = "QUEUE_ADD h n m"
  from assms have d: "distinct (h # n # xs @ ys)"
    and s: "qseg m h xs h" "qseg m n ys n"
    by (auto simp: queue_repr_def)
  have ph: "qprev m h = last (h # xs)" and pn: "qprev m n = last ys" and nn: "qnext m n = y"
    using s Cons by (auto simp: qseg_last)
  have nx: "qnext ?m = (qnext m)(last (h # xs) := y, last ys := h)"
    using d ph pn nn Cons by (auto simp: queue_ops split: if_splits)
  have px: "qprev ?m = (qprev m)(y := last (h # xs), h := last ys)"
    using d ph pn nn Cons by (auto simp: queue_ops split: if_splits)
  have lx: "last (h # xs) \<notin> set ys" and ly: "last ys \<notin> set (h # xs)"
    using d Cons last_in_set [of "h # xs"] last_in_set [of ys] by auto
  have tl: "qseg ?m y zs h"
  proof (cases zs rule: rev_cases)
    case Nil
    with Cons d lx nx px show ?thesis by (auto split: if_splits)
  next
    case (snoc us u)
    have "qseg ?m y us u = qseg m y us u"
      using d lx Cons snoc nx px by (intro qseg_frame) (auto split: if_splits)
    with Cons snoc s d lx nx px show ?thesis by (auto split: if_splits)
  qed
  have "qseg ?m h (xs @ ys) h"
  proof (cases xs rule: rev_cases)
    case Nil
    with Cons tl d ly lx nx px show ?thesis by (auto split: if_splits)
  next
    case (snoc us u)
    have "qseg ?m h us u = qseg m h us u"
      using d ly lx Cons snoc nx px by (intro qseg_frame) (auto split: if_splits)
    with Cons snoc tl s d ly lx nx px show ?thesis by (auto split: if_splits)
  qed
  with d show ?thesis by (simp add: queue_repr_def)
qed

section \<open>Frames: the nodes a macro may write\<close>

text \<open>
  A macro on one queue only writes that queue's own nodes, so any other queue
  keeps its list. This is what lets one memory hold all queues of a loop.
\<close>

lemma queue_frame_init:
  "queue_repr m g ys \<Longrightarrow> q \<notin> set (g # ys) \<Longrightarrow> queue_repr (QUEUE_INIT q m) g ys"
  by (erule queue_repr_frame) (auto simp: queue_ops)

lemma queue_frame_insert_head:
  assumes "queue_repr m g ys" and "queue_repr m h xs" and "set (g # ys) \<inter> set (q # h # xs) = {}"
  shows "queue_repr (QUEUE_INSERT_HEAD h q m) g ys"
proof (rule queue_repr_frame [OF assms(1)])
  fix c assume c: "c \<in> set (g # ys)"
  have "qnext m h \<in> set (h # xs)"
    using assms(2) by (cases xs) (auto simp: queue_repr_def)
  with c assms(3) show "qnext (QUEUE_INSERT_HEAD h q m) c = qnext m c \<and>
      qprev (QUEUE_INSERT_HEAD h q m) c = qprev m c"
    by (auto simp: queue_ops split: if_splits)
qed

lemma queue_frame_insert_tail:
  assumes "queue_repr m g ys" and "queue_repr m h xs" and "set (g # ys) \<inter> set (q # h # xs) = {}"
  shows "queue_repr (QUEUE_INSERT_TAIL h q m) g ys"
proof (rule queue_repr_frame [OF assms(1)])
  fix c assume c: "c \<in> set (g # ys)"
  have "qprev m h \<in> set (h # xs)"
    using assms(2) qseg_last [of m h xs h] last_in_set [of "h # xs"]
    by (auto simp: queue_repr_def split: if_splits)
  with c assms(3) show "qnext (QUEUE_INSERT_TAIL h q m) c = qnext m c \<and>
      qprev (QUEUE_INSERT_TAIL h q m) c = qprev m c"
    by (auto simp: queue_ops split: if_splits)
qed

lemma queue_frame_remove:
  assumes "queue_repr m g ys" and "queue_repr m h (xs @ q # zs)"
    and "set (g # ys) \<inter> set (h # xs @ q # zs) = {}"
  shows "queue_repr (QUEUE_REMOVE q m) g ys"
proof (rule queue_repr_frame [OF assms(1)])
  fix c assume c: "c \<in> set (g # ys)"
  from assms(2) have s: "qseg m h xs q" "qseg m q zs h" by (auto simp: queue_repr_def)
  have "qprev m q \<in> set (h # xs)"
    using qseg_last [OF s(1)] last_in_set [of "h # xs"] by (auto split: if_splits)
  moreover have "qnext m q \<in> set (zs @ [h])"
    using qseg_first [OF s(2)] by (cases zs) auto
  ultimately show "qnext (QUEUE_REMOVE q m) c = qnext m c \<and> qprev (QUEUE_REMOVE q m) c = qprev m c"
    using c assms(3) by (auto simp: queue_ops split: if_splits)
qed

text \<open>\<open>QUEUE_REMOVE\<close> leaves the removed node's own pointers as they were.\<close>

lemma queue_remove_keeps_own_next:
  assumes "qprev m q \<noteq> q"
  shows "qnext (QUEUE_REMOVE q m) q = qnext m q"
  using assms by (auto simp: queue_ops)

section \<open>The queue interface\<close>

text \<open>
  What the event loop relies on: the operations, the list each queue of a
  memory holds, and the laws. The loops of the clients (drain the queue from
  its head) are verified once against these laws.
\<close>

locale uv_queue =
  fixes init :: "'a \<Rightarrow> 'm \<Rightarrow> 'm"
    and empty :: "'m \<Rightarrow> 'a \<Rightarrow> bool"
    and head :: "'m \<Rightarrow> 'a \<Rightarrow> 'a"
    and insert_head :: "'a \<Rightarrow> 'a \<Rightarrow> 'm \<Rightarrow> 'm"
    and insert_tail :: "'a \<Rightarrow> 'a \<Rightarrow> 'm \<Rightarrow> 'm"
    and remove :: "'a \<Rightarrow> 'm \<Rightarrow> 'm"
    and repr :: "'m \<Rightarrow> 'a \<Rightarrow> 'a list \<Rightarrow> bool"
  assumes repr_init: "repr (init q m) q []"
    and repr_distinct: "repr m h xs \<Longrightarrow> distinct (h # xs)"
    and repr_empty: "repr m h xs \<Longrightarrow> empty m h \<longleftrightarrow> xs = []"
    and repr_head: "repr m h (x # xs) \<Longrightarrow> head m h = x"
    and repr_insert_head: "repr m h xs \<Longrightarrow> q \<notin> set (h # xs) \<Longrightarrow> repr (insert_head h q m) h (q # xs)"
    and repr_insert_tail: "repr m h xs \<Longrightarrow> q \<notin> set (h # xs) \<Longrightarrow> repr (insert_tail h q m) h (xs @ [q])"
    and repr_remove: "repr m h (xs @ q # ys) \<Longrightarrow> repr (remove q m) h (xs @ ys)"
    and frame_insert_head: "repr m g ys \<Longrightarrow> repr m h xs \<Longrightarrow> set (g # ys) \<inter> set (q # h # xs) = {} \<Longrightarrow>
      repr (insert_head h q m) g ys"
    and frame_insert_tail: "repr m g ys \<Longrightarrow> repr m h xs \<Longrightarrow> set (g # ys) \<inter> set (q # h # xs) = {} \<Longrightarrow>
      repr (insert_tail h q m) g ys"
    and frame_remove: "repr m g ys \<Longrightarrow> repr m h (xs @ q # zs) \<Longrightarrow>
      set (g # ys) \<inter> set (h # xs @ q # zs) = {} \<Longrightarrow> repr (remove q m) g ys"
begin

lemma remove_member:
  assumes "repr m h xs" and "q \<in> set xs"
  shows "repr (remove q m) h (remove1 q xs)"
proof -
  obtain us vs where us: "xs = us @ q # vs" "q \<notin> set us"
    using assms(2) by (meson split_list_first)
  with assms(1) show ?thesis using repr_remove [of m h us q vs] by simp
qed

lemma frame_remove_member:
  assumes "repr m g ys" and "repr m h xs" and "q \<in> set xs" and "set (g # ys) \<inter> set (h # xs) = {}"
  shows "repr (remove q m) g ys"
proof -
  obtain us vs where us: "xs = us @ q # vs" using assms(3) by (meson split_list)
  then show ?thesis using assms frame_remove [of m g ys h us q vs] by simp
qed

lemma remove_head:
  "repr m h (x # xs) \<Longrightarrow> repr (remove (head m h) m) h xs"
  using repr_remove [of m h "[]" x xs] by (simp add: repr_head)

lemma insert_tail_remove:
  assumes "repr m h xs" and "q \<notin> set (h # xs)"
  shows "repr (remove q (insert_tail h q m)) h xs"
  using repr_remove [of _ h xs q "[]", OF repr_insert_tail [OF assms, simplified]] by simp

end

interpretation uvq: uv_queue QUEUE_INIT QUEUE_EMPTY QUEUE_HEAD QUEUE_INSERT_HEAD QUEUE_INSERT_TAIL
  QUEUE_REMOVE queue_repr
proof
  show "distinct (h # xs)" if "queue_repr m h xs" for m h and xs :: "'a list"
    using that by (simp add: queue_repr_def)
qed (fact queue_repr_init queue_repr_empty queue_repr_head queue_repr_insert_head
  queue_repr_insert_tail queue_repr_remove queue_frame_insert_head queue_frame_insert_tail
  queue_frame_remove)+

section \<open>Properties\<close>

text \<open>
  Property C17. The insert and remove macros refine lists: on a queue that holds
  \<open>xs\<close>, inserting a fresh node puts it in front or at the end, removing any
  node of a queue takes exactly that node out, and the head is the first.
\<close>
theorem queue_macros_refine_lists:
  assumes "queue_repr m h (xs @ ys)" and "q \<notin> set (h # xs @ ys)"
  shows "queue_repr (QUEUE_INSERT_HEAD h q m) h (q # xs @ ys) \<and>
    queue_repr (QUEUE_INSERT_TAIL h q m) h ((xs @ ys) @ [q]) \<and>
    (\<forall>zs. ys = z # zs \<longrightarrow> queue_repr (QUEUE_REMOVE z m) h (xs @ zs)) \<and>
    (QUEUE_EMPTY m h \<longleftrightarrow> xs @ ys = []) \<and> (xs @ ys \<noteq> [] \<longrightarrow> QUEUE_HEAD m h = hd (xs @ ys))"
proof (intro conjI)
  show "xs @ ys \<noteq> [] \<longrightarrow> QUEUE_HEAD m h = hd (xs @ ys)"
    using queue_repr_head [of m h "hd (xs @ ys)" "tl (xs @ ys)"] assms(1) by (metis list.collapse)
qed (use queue_repr_insert_head [OF assms] queue_repr_insert_tail [OF assms] queue_repr_remove [of m h xs z]
    queue_repr_empty [OF assms(1)] assms(1) in auto)

definition three_nodes :: "nat queue_mem" where
  "three_nodes = QUEUE_INSERT_TAIL 0 2 (QUEUE_INSERT_TAIL 0 1 (QUEUE_INIT 0 \<lparr>qnext = id, qprev = id\<rparr>))"

lemma three_nodes_repr: "queue_repr three_nodes 0 [1, 2]"
  by (simp add: three_nodes_def queue_repr_def queue_ops)

theorem queue_macros_refine_lists_witness:
  "queue_repr (QUEUE_INSERT_HEAD 0 3 three_nodes) 0 [3, 1, 2] \<and>
   queue_repr (QUEUE_INSERT_TAIL 0 3 three_nodes) 0 [1, 2, 3] \<and>
   queue_repr (QUEUE_REMOVE 2 three_nodes) 0 [1] \<and> QUEUE_HEAD three_nodes 0 = 1"
  using queue_macros_refine_lists [of three_nodes 0 "[1]" "[2]" 3 2] three_nodes_repr by simp

text \<open>
  Splitting a queue at one of its nodes into a second header and
  appending the second queue to the first again gives the queue back.
\<close>
theorem queue_split_add_roundtrip:
  assumes "queue_repr m h (xs @ q # ys)" and "n \<notin> set (h # xs @ q # ys)"
  shows "queue_repr (QUEUE_SPLIT h q n m) h xs \<and> queue_repr (QUEUE_SPLIT h q n m) n (q # ys) \<and>
    queue_repr (QUEUE_ADD h n (QUEUE_SPLIT h q n m)) h (xs @ q # ys)"
proof -
  note split = queue_repr_split [OF assms]
  have "set (h # xs) \<inter> set (n # q # ys) = {}" using assms by (auto simp: queue_repr_def)
  from queue_repr_add [OF split this] split show ?thesis by simp
qed

theorem queue_split_add_roundtrip_witness:
  "queue_repr (QUEUE_SPLIT 0 2 9 three_nodes) 9 [2] \<and>
   queue_repr (QUEUE_ADD 0 9 (QUEUE_SPLIT 0 2 9 three_nodes)) 0 [1, 2]"
  using queue_split_add_roundtrip [of three_nodes 0 "[1]" 2 "[]" 9] three_nodes_repr by simp

end
