(* ===== verification/Uv_Heap.thy ===== *)
theory Uv_Heap
  imports Shark_Prelude
begin

text \<open>
  The intrusive binary min heap of \<^verbatim>\<open>core/libuv/src/heap-inl.h\<close>, which holds
  the timers of a loop. Nodes are linked by left, right and parent pointers and
  the heap keeps the root and the number of elements; the position of the last
  node is computed from the bits of that number. The model keeps the pointer
  structure: a heap is a record with the node memory, a null pointer is
  \<open>None\<close>, and the result \<open>None\<close> of an operation stands for a null pointer
  dereference or for a loop that does not end.
\<close>

section \<open>The code\<close>

record 'a heap_node =
  left :: "'a option"
  right :: "'a option"
  parent :: "'a option"

record 'a heap =
  hmin :: "'a option"
  nelts :: uint32
  hnodes :: "'a \<Rightarrow> 'a heap_node"

definition upd_node :: "'a \<Rightarrow> ('a heap_node \<Rightarrow> 'a heap_node) \<Rightarrow> 'a heap \<Rightarrow> 'a heap" where
  "upd_node p g H = H\<lparr>hnodes := (hnodes H)(p := g (hnodes H p))\<rparr>"

definition heap_init :: "'a heap \<Rightarrow> 'a heap" where
  "heap_init H = H\<lparr>hmin := None, nelts := 0\<rparr>"

definition heap_min :: "'a heap \<Rightarrow> 'a option" where
  "heap_min H = hmin H"

text \<open>
  Two statements that occur in both the swap and the removal:
  \<^verbatim>\<open>if (x != NULL) x->parent = v\<close>, and the redirection of the pointer to a
  moved node (the root pointer or a child pointer of its parent \<open>g\<close>).
\<close>

definition set_parent_of :: "'a option \<Rightarrow> 'a \<Rightarrow> 'a heap \<Rightarrow> 'a heap" where
  "set_parent_of x v H =
     (case x of None \<Rightarrow> H | Some s \<Rightarrow> upd_node s (\<lambda>y. y\<lparr>parent := Some v\<rparr>) H)"

definition relink :: "'a option \<Rightarrow> 'a \<Rightarrow> 'a \<Rightarrow> 'a heap \<Rightarrow> 'a heap" where
  "relink g old new H =
     (case g of
        None \<Rightarrow> H\<lparr>hmin := Some new\<rparr>
      | Some g \<Rightarrow>
          if left (hnodes H g) = Some old then upd_node g (\<lambda>x. x\<lparr>left := Some new\<rparr>) H
          else upd_node g (\<lambda>x. x\<lparr>right := Some new\<rparr>) H)"

definition heap_node_swap :: "'a \<Rightarrow> 'a \<Rightarrow> 'a heap \<Rightarrow> 'a heap" where
  "heap_node_swap p c H =
     (let t = hnodes H p;
          H = upd_node p (\<lambda>_. hnodes H c) H;
          H = upd_node c (\<lambda>_. t) H;
          H = upd_node p (\<lambda>x. x\<lparr>parent := Some c\<rparr>) H;
          (H, sibling) =
            (if left (hnodes H c) = Some c
             then (upd_node c (\<lambda>x. x\<lparr>left := Some p\<rparr>) H, right (hnodes H c))
             else (upd_node c (\<lambda>x. x\<lparr>right := Some p\<rparr>) H, left (hnodes H c)));
          H = set_parent_of sibling c H;
          H = set_parent_of (left (hnodes H p)) p H;
          H = set_parent_of (right (hnodes H p)) p H
      in relink (parent (hnodes H c)) p c H)"

text \<open>
  The path from the root to position \<open>n\<close>: the bits of \<open>n\<close> below the leading
  one, lowest level first, and their number.
\<close>

function heap_path :: "uint32 \<Rightarrow> uint32 \<Rightarrow> uint32 \<Rightarrow> uint32 \<times> uint32" where
  "heap_path path k n =
     (if n \<ge> 2 then heap_path (push_bit 1 path OR (n AND 1)) (k + 1) (n div 2) else (path, k))"
  by pat_completeness auto
termination
proof (relation "measure (\<lambda>(path, k, n). unat n)", goal_cases)
  case (2 path k n)
  then have "2 \<le> unat n" by (simp add: word_le_nat_alt)
  then show ?case by (simp add: unat_div)
qed simp

declare heap_path.simps [simp del]

text \<open>
  The pointers to pointers \<open>parent\<close>, \<open>child\<close> and \<open>max\<close> of the C code
  address the root field or a child field of a node.
\<close>

datatype 'a slot = MinSlot | LeftOf 'a | RightOf 'a

fun slot_read :: "'a heap \<Rightarrow> 'a slot \<Rightarrow> 'a option" where
  "slot_read H MinSlot = hmin H"
| "slot_read H (LeftOf p) = left (hnodes H p)"
| "slot_read H (RightOf p) = right (hnodes H p)"

fun slot_write :: "'a slot \<Rightarrow> 'a option \<Rightarrow> 'a heap \<Rightarrow> 'a heap" where
  "slot_write MinSlot v H = H\<lparr>hmin := v\<rparr>"
| "slot_write (LeftOf p) v H = upd_node p (\<lambda>x. x\<lparr>left := v\<rparr>) H"
| "slot_write (RightOf p) v H = upd_node p (\<lambda>x. x\<lparr>right := v\<rparr>) H"

function heap_walk :: "'a heap \<Rightarrow> 'a slot \<Rightarrow> 'a slot \<Rightarrow> uint32 \<Rightarrow> uint32 \<Rightarrow> ('a slot \<times> 'a slot) option" where
  "heap_walk H par chi path k =
     (if k > 0
      then case slot_read H chi of
             None \<Rightarrow> None
           | Some x \<Rightarrow> heap_walk H chi (if path AND 1 \<noteq> 0 then RightOf x else LeftOf x)
                         (drop_bit 1 path) (k - 1)
      else Some (par, chi))"
  by pat_completeness auto
termination
proof (relation "measure (\<lambda>(H, par, chi, path, k). unat k)", goal_cases)
  case (2 H par chi path k x)
  then show ?case by (simp add: unat_minus_one word_gt_0 unat_gt_0)
qed simp

declare heap_walk.simps [simp del]

partial_function (option) heap_sift_up :: "('a \<Rightarrow> 'a \<Rightarrow> bool) \<Rightarrow> 'a \<Rightarrow> 'a heap \<Rightarrow> 'a heap option" where
  "heap_sift_up lt node H =
     (case parent (hnodes H node) of
        None \<Rightarrow> Some H
      | Some p \<Rightarrow> if lt node p
                  then heap_sift_up lt node (heap_node_swap p node H)
                  else Some H)"

definition smallest_of :: "('a \<Rightarrow> 'a \<Rightarrow> bool) \<Rightarrow> 'a option \<Rightarrow> 'a \<Rightarrow> 'a" where
  "smallest_of lt x smallest =
     (case x of None \<Rightarrow> smallest | Some y \<Rightarrow> if lt y smallest then y else smallest)"

partial_function (option) heap_sift_down :: "('a \<Rightarrow> 'a \<Rightarrow> bool) \<Rightarrow> 'a \<Rightarrow> 'a heap \<Rightarrow> 'a heap option" where
  "heap_sift_down lt child H =
     (let smallest = smallest_of lt (left (hnodes H child)) child;
          smallest = smallest_of lt (right (hnodes H child)) smallest
      in if smallest = child then Some H
         else heap_sift_down lt child (heap_node_swap child smallest H))"

definition heap_insert :: "('a \<Rightarrow> 'a \<Rightarrow> bool) \<Rightarrow> 'a \<Rightarrow> 'a heap \<Rightarrow> 'a heap option" where
  "heap_insert lt newnode H =
     (let H = upd_node newnode (\<lambda>x. x\<lparr>left := None, right := None, parent := None\<rparr>) H;
          (path, k) = heap_path 0 0 (1 + nelts H)
      in case heap_walk H MinSlot MinSlot path k of
           None \<Rightarrow> None
         | Some (par, chi) \<Rightarrow>
             (let H = upd_node newnode (\<lambda>x. x\<lparr>parent := slot_read H par\<rparr>) H;
                  H = slot_write chi (Some newnode) H;
                  H = H\<lparr>nelts := nelts H + 1\<rparr>
              in heap_sift_up lt newnode H))"

text \<open>The replacement of the removed node by the last one.\<close>

definition heap_replace :: "'a \<Rightarrow> 'a \<Rightarrow> 'a heap \<Rightarrow> 'a heap" where
  "heap_replace node child H =
     (let H = upd_node child (\<lambda>x. x\<lparr>left := left (hnodes H node)\<rparr>) H;
          H = upd_node child (\<lambda>x. x\<lparr>right := right (hnodes H node)\<rparr>) H;
          H = upd_node child (\<lambda>x. x\<lparr>parent := parent (hnodes H node)\<rparr>) H;
          H = set_parent_of (left (hnodes H child)) child H;
          H = set_parent_of (right (hnodes H child)) child H
      in relink (parent (hnodes H node)) node child H)"

definition heap_remove :: "('a \<Rightarrow> 'a \<Rightarrow> bool) \<Rightarrow> 'a option \<Rightarrow> 'a heap \<Rightarrow> 'a heap option" where
  "heap_remove lt node H =
     (if nelts H = 0 then Some H
      else
        (let (path, k) = heap_path 0 0 (nelts H)
         in case heap_walk H MinSlot MinSlot path k of
              None \<Rightarrow> None
            | Some (_, maxs) \<Rightarrow>
                (let H = H\<lparr>nelts := nelts H - 1\<rparr>;
                     child = slot_read H maxs;
                     H = slot_write maxs None H
                 in if child = node
                    then Some (if child = hmin H then H\<lparr>hmin := None\<rparr> else H)
                    else case (child, node) of
                           (Some c, Some nd) \<Rightarrow>
                             Option.bind (heap_sift_down lt c (heap_replace nd c H))
                               (heap_sift_up lt c)
                         | _ \<Rightarrow> None)))"

definition heap_dequeue :: "('a \<Rightarrow> 'a \<Rightarrow> bool) \<Rightarrow> 'a heap \<Rightarrow> 'a heap option" where
  "heap_dequeue lt H = heap_remove lt (hmin H) H"

section \<open>Positions\<close>

text \<open>
  A well-formed heap of \<open>n\<close> nodes is a complete binary tree: there is an
  injective numbering \<open>f\<close> of its nodes by \<open>1..n\<close>, level by level, in which
  the children of \<open>f i\<close> are \<open>f (2i)\<close> and \<open>f (2i+1)\<close>.
\<close>

definition node_at :: "nat \<Rightarrow> (nat \<Rightarrow> 'a) \<Rightarrow> nat \<Rightarrow> 'a option" where
  "node_at n f j = (if 1 \<le> j \<and> j \<le> n then Some (f j) else None)"

definition heap_shape :: "'a heap \<Rightarrow> (nat \<Rightarrow> 'a) \<Rightarrow> nat \<Rightarrow> bool" where
  "heap_shape H f n \<longleftrightarrow>
     inj_on f {1..n} \<and> hmin H = node_at n f 1 \<and>
     (\<forall>i\<in>{1..n}. hnodes H (f i) =
        \<lparr>left = node_at n f (2 * i), right = node_at n f (2 * i + 1), parent = node_at n f (i div 2)\<rparr>)"

definition heap_rep :: "'a heap \<Rightarrow> (nat \<Rightarrow> 'a) \<Rightarrow> nat \<Rightarrow> bool" where
  "heap_rep H f n \<longleftrightarrow> nelts H = of_nat n \<and> n < 2 ^ 32 \<and> heap_shape H f n"

section \<open>Swapping a parent with its child\<close>

lemma upd_node_simps [simp]:
  "hmin (upd_node p g H) = hmin H" "nelts (upd_node p g H) = nelts H"
  "hnodes (upd_node p g H) = (hnodes H)(p := g (hnodes H p))"
  by (simp_all add: upd_node_def)

lemma set_parent_of_simps [simp]:
  "hmin (set_parent_of x v H) = hmin H" "nelts (set_parent_of x v H) = nelts H"
  "hnodes (set_parent_of x v H) =
     (\<lambda>y. if x = Some y then (hnodes H y)\<lparr>parent := Some v\<rparr> else hnodes H y)"
  by (auto simp: set_parent_of_def split: option.split)

lemma relink_simps [simp]:
  "hmin (relink g old new H) = (if g = None then Some new else hmin H)"
  "nelts (relink g old new H) = nelts H"
  "hnodes (relink g old new H) =
     (\<lambda>y. if g = Some y
           then (if left (hnodes H y) = Some old then (hnodes H y)\<lparr>left := Some new\<rparr>
                 else (hnodes H y)\<lparr>right := Some new\<rparr>)
           else hnodes H y)"
  by (auto simp: relink_def split: option.split)

lemma node_at_simps [simp]:
  "node_at n f 0 = None" "node_at n f j = None \<longleftrightarrow> j = 0 \<or> n < j"
  by (auto simp: node_at_def)

lemma node_at_beyond [simp]: "n < j \<Longrightarrow> node_at n f j = None"
  by (simp add: node_at_def)

lemma node_at_Some: "node_at n f j = Some x \<longleftrightarrow> 1 \<le> j \<and> j \<le> n \<and> f j = x"
  by (auto simp: node_at_def)

lemma node_at_fun_upd_other: "j \<noteq> i \<Longrightarrow> node_at n (f(i := x)) j = node_at n f j"
  by (simp add: node_at_def)

text \<open>
  The memory after a swap, under the condition that the nodes it touches are
  different from each other.
\<close>

definition swap_sibling :: "'a heap_node \<Rightarrow> 'a \<Rightarrow> 'a option" where
  "swap_sibling x c = (if left x = Some c then right x else left x)"

definition swap_child :: "'a heap_node \<Rightarrow> 'a \<Rightarrow> 'a \<Rightarrow> 'a heap_node" where
  "swap_child x p c = (if left x = Some c then x\<lparr>left := Some p\<rparr> else x\<lparr>right := Some p\<rparr>)"

lemma swap_child_parent [simp]: "parent (swap_child x p c) = parent x"
  by (simp add: swap_child_def)

lemma heap_node_swap_eq:
  fixes H p c defines "N \<equiv> hnodes H"
  assumes "p \<noteq> c" and "swap_sibling (N p) c \<notin> {Some p, Some c}"
    and "left (N c) \<notin> {Some p, Some c}" "right (N c) \<notin> {Some p, Some c}"
  shows "heap_node_swap p c H =
    relink (parent (N p)) p c
      (set_parent_of (right (N c)) p (set_parent_of (left (N c)) p
        (set_parent_of (swap_sibling (N p) c) c
          (H\<lparr>hnodes := N(p := (N c)\<lparr>parent := Some c\<rparr>, c := swap_child (N p) p c)\<rparr>))))"
proof -
  have e: "upd_node c g (upd_node p g2 (upd_node c g1 (upd_node p g0 H))) =
      H\<lparr>hnodes := (hnodes H)(p := g2 (g0 (hnodes H p)), c := g (g1 (hnodes H c)))\<rparr>" for g g0 g1 g2
    using assms(2) by (simp add: upd_node_def fun_upd_twist)
  show ?thesis
    using assms(2-) by (simp add: heap_node_swap_def swap_sibling_def swap_child_def Let_def N_def e
      split: if_splits)
qed

text \<open>Swapping the nodes at positions \<open>i\<close> and \<open>j\<close>, \<open>i\<close> the parent of \<open>j\<close>.\<close>

lemma heap_shape_node:
  "heap_shape H f n \<Longrightarrow> 1 \<le> i \<Longrightarrow> i \<le> n \<Longrightarrow> hnodes H (f i) =
    \<lparr>left = node_at n f (2 * i), right = node_at n f (2 * i + 1), parent = node_at n f (i div 2)\<rparr>"
  by (simp add: heap_shape_def)

lemma heap_shape_inj:
  "heap_shape H f n \<Longrightarrow> 1 \<le> i \<Longrightarrow> i \<le> n \<Longrightarrow> 1 \<le> j \<Longrightarrow> j \<le> n \<Longrightarrow> f i = f j \<longleftrightarrow> i = j"
  unfolding heap_shape_def by (auto dest: inj_onD)

lemma node_at_eq:
  "heap_shape H f n \<Longrightarrow> 1 \<le> i \<Longrightarrow> i \<le> n \<Longrightarrow> node_at n f k = Some (f i) \<longleftrightarrow> k = i"
  by (auto simp: node_at_Some heap_shape_inj)

text \<open>
  The node numbered \<open>l\<close> after the swap, and the swap as three parent updates
  and one redirection on the memory in which the two nodes are exchanged.
\<close>

lemma node_at_swap:
  "1 \<le> i \<Longrightarrow> i \<le> n \<Longrightarrow> 1 \<le> j \<Longrightarrow> j \<le> n \<Longrightarrow> node_at n (f(i := f j, j := f i)) l =
    (if l = j then Some (f i) else if l = i then Some (f j) else node_at n f l)"
  by (simp add: node_at_def)

definition sibling_pos :: "nat \<Rightarrow> nat" where
  "sibling_pos j = (if even j then j + 1 else j - 1)"

lemma sibling_pos:
  assumes "1 \<le> i" and "j div 2 = i"
  shows "sibling_pos j \<noteq> i" "sibling_pos j \<noteq> j" "sibling_pos j div 2 = i" "sibling_pos j div 2 \<noteq> j"
    "{j, sibling_pos j} = {2 * i, 2 * i + 1}"
proof -
  from assms(2) have "j = 2 * i \<or> j = 2 * i + 1" by linarith
  then show "sibling_pos j \<noteq> i" "sibling_pos j \<noteq> j" "sibling_pos j div 2 = i" "sibling_pos j div 2 \<noteq> j"
    "{j, sibling_pos j} = {2 * i, 2 * i + 1}"
    using assms(1) by (auto simp: sibling_pos_def)
qed

lemma heap_swap_form:
  assumes sh: "heap_shape H f n" and i: "1 \<le> i" "j div 2 = i" "j \<le> n"
  shows "heap_node_swap (f i) (f j) H =
    relink (node_at n f (i div 2)) (f i) (f j)
      (set_parent_of (node_at n f (2 * j + 1)) (f i) (set_parent_of (node_at n f (2 * j)) (f i)
        (set_parent_of (node_at n f (sibling_pos j)) (f j)
          (H\<lparr>hnodes := (hnodes H)(f i := (hnodes H (f j))\<lparr>parent := Some (f j)\<rparr>,
                f j := swap_child (hnodes H (f i)) (f i) (f j))\<rparr>))))"
proof -
  have ij: "i < j" "1 \<le> j" "i \<le> n" "j = 2 * i \<or> j = 2 * i + 1" using i by auto
  have eqi: "node_at n f k = Some (f i) \<longleftrightarrow> k = i" and eqj: "node_at n f k = Some (f j) \<longleftrightarrow> k = j" for k
    using node_at_eq [OF sh] i ij by auto
  have ni: "hnodes H (f i) = \<lparr>left = node_at n f (2 * i), right = node_at n f (2 * i + 1), parent = node_at n f (i div 2)\<rparr>"
    and nj: "hnodes H (f j) = \<lparr>left = node_at n f (2 * j), right = node_at n f (2 * j + 1), parent = node_at n f i\<rparr>"
    using heap_shape_node [OF sh] i ij by auto
  have ne: "f i \<noteq> f j" using heap_shape_inj [OF sh] i ij by simp
  have sib: "swap_sibling (hnodes H (f i)) (f j) = node_at n f (sibling_pos j)"
    using ij by (auto simp: swap_sibling_def sibling_pos_def ni eqj)
  from heap_node_swap_eq [OF ne, of H] i(1) ij sibling_pos [OF i(1,2)] show ?thesis
    unfolding sib by (auto simp: ni nj eqi eqj)
qed

lemma heap_swap_other_node:
  assumes sh: "heap_shape H f n" and i: "1 \<le> i" "j div 2 = i" "j \<le> n"
    and k: "1 \<le> k" "k \<le> n" "k \<noteq> i" "k \<noteq> j"
  shows "hnodes (heap_node_swap (f i) (f j) H) (f k) =
    \<lparr>left = (if 2 * k = i then Some (f j) else node_at n f (2 * k)),
     right = (if 2 * k + 1 = i then Some (f j) else node_at n f (2 * k + 1)),
     parent = (if k div 2 = j then Some (f i) else if k div 2 = i then Some (f j) else node_at n f (k div 2))\<rparr>"
proof -
  have ij: "i < j" "i \<le> n" "1 \<le> j" using i by auto
  have at: "node_at n f l = Some (f m) \<longleftrightarrow> l = m" if "m \<in> {i, j, k}" for l m
    using node_at_eq [OF sh] i ij k that by blast
  have nk: "f k \<noteq> f i" "f k \<noteq> f j" using k i ij heap_shape_inj [OF sh] by auto
  have par: "i div 2 = k \<longleftrightarrow> 2 * k = i \<or> 2 * k + 1 = i" for k by linarith
  have chj: "k div 2 = j \<longleftrightarrow> k = 2 * j \<or> k = 2 * j + 1" by linarith
  have chi: "k div 2 = i \<longleftrightarrow> sibling_pos j = k"
    using sibling_pos [OF i(1,2)] k(4) by (auto simp: doubleton_eq_iff)
  have nx: "sibling_pos j = k \<Longrightarrow> \<not> (2 * k = i \<or> 2 * k + 1 = i)" "k = 2 * j \<or> k = 2 * j + 1 \<Longrightarrow> \<not> (2 * k = i \<or> 2 * k + 1 = i)"
    "sibling_pos j = k \<Longrightarrow> \<not> (k = 2 * j \<or> k = 2 * j + 1)"
    using sibling_pos [OF i(1,2)] i(1) ij(1) by auto
  show ?thesis
    unfolding heap_swap_form [OF sh i] using nk nx heap_shape_node [OF sh k(1,2)]
    by (auto simp: at par chj chi)
qed

lemma heap_swap_node:
  assumes sh: "heap_shape H f n" and i: "1 \<le> i" "j div 2 = i" "j \<le> n" and k: "1 \<le> k" "k \<le> n"
  shows "hnodes (heap_node_swap (f i) (f j) H) ((f(i := f j, j := f i)) k) =
      \<lparr>left = node_at n (f(i := f j, j := f i)) (2 * k),
       right = node_at n (f(i := f j, j := f i)) (2 * k + 1),
       parent = node_at n (f(i := f j, j := f i)) (k div 2)\<rparr>"
proof -
  let ?H = "heap_node_swap (f i) (f j) H"
  have ij: "i < j" "1 \<le> j" "i \<le> n" "j = 2 * i \<or> j = 2 * i + 1" using i by auto
  note eq = heap_swap_form [OF sh i] and nd = heap_shape_node [OF sh]
  have nf: "node_at n (f(i := f j, j := f i)) l =
      (if l = j then Some (f i) else if l = i then Some (f j) else node_at n f l)" for l
    using i ij by (intro node_at_swap)
  have at: "node_at n f l = Some (f m) \<longleftrightarrow> l = m" if "m \<in> {i, j}" for l m
    using node_at_eq [OF sh] i ij that by blast
  have ne: "f i \<noteq> f j" using heap_shape_inj [OF sh] i ij by simp
  consider "k = i" | "k = j" | "k \<noteq> i" "k \<noteq> j" by blast
  then show ?thesis
  proof cases
    case 1
    have "hnodes ?H (f j) = swap_child (hnodes H (f i)) (f i) (f j)"
      unfolding eq using i(1) ij(1) sibling_pos [OF i(1,2)] by (simp add: at ne)
    with 1 show ?thesis
      using i(1) ij nd [of i] by (auto simp: swap_child_def at nf)
  next
    case 2
    have "hnodes ?H (f i) = (hnodes H (f j))\<lparr>parent := Some (f j)\<rparr>"
      unfolding eq using i(1) ij(1) sibling_pos [OF i(1,2)] by (simp add: at ne)
    with 2 show ?thesis using i ij nd [of j] by (auto simp: nf)
  next
    case 3
    have "2 * k \<noteq> j" "2 * k + 1 \<noteq> j" using ij(4) 3 by auto
    with 3 heap_swap_other_node [OF sh i k 3] show ?thesis by (simp add: nf)
  qed
qed

lemma heap_shape_swap:
  assumes sh: "heap_shape H f n" and i: "1 \<le> i" "j div 2 = i" "j \<le> n"
  shows "heap_shape (heap_node_swap (f i) (f j) H) (f(i := f j, j := f i)) n"
proof -
  have ij: "1 \<le> j" "i \<le> n" using i by auto
  have "inj_on (f(i := f j, j := f i)) {1..n}"
    using sh i ij unfolding heap_shape_def by (intro inj_on_swap) auto
  moreover have "hmin (heap_node_swap (f i) (f j) H) = node_at n (f(i := f j, j := f i)) 1"
    using sh i ij unfolding heap_swap_form [OF sh i] heap_shape_def by (auto simp: node_at_def)
  ultimately show ?thesis
    using heap_swap_node [OF sh i] unfolding heap_shape_def by simp
qed

lemma nelts_heap_node_swap [simp]: "nelts (heap_node_swap p c H) = nelts H"
  by (simp add: heap_node_swap_def Let_def)

section \<open>Walking to a position\<close>

definition slot_of :: "(nat \<Rightarrow> 'a) \<Rightarrow> nat \<Rightarrow> 'a slot" where
  "slot_of f m = (if m \<le> 1 then MinSlot else if even m then LeftOf (f (m div 2)) else RightOf (f (m div 2)))"

lemma slot_read_slot_of:
  "heap_shape H f n \<Longrightarrow> 1 \<le> m \<Longrightarrow> m div 2 \<le> n \<Longrightarrow> slot_read H (slot_of f m) = node_at n f m"
  using heap_shape_node [of H f n "m div 2"]
  by (cases "m = 1") (auto simp: slot_of_def heap_shape_def)

lemma path_bit_simps:
  fixes p m :: uint32
  assumes "unat p < 2 ^ 31"
  shows "drop_bit 1 (push_bit 1 p OR (m AND 1)) = p"
    and "(push_bit 1 p OR (m AND 1)) AND 1 \<noteq> 0 \<longleftrightarrow> odd (unat m)"
proof -
  have "drop_bit 1 (push_bit 1 p OR (m AND 1)) = take_bit 31 p"
    by (rule bit_word_eqI) (auto simp: bit_simps mult.commute [of p])
  also have "\<dots> = p" using assms
    by (simp only: unat_less_power_iff_take_bit)
  finally show "drop_bit 1 (push_bit 1 p OR (m AND 1)) = p" .
  have "(push_bit 1 p OR (m AND 1)) AND 1 = m AND 1"
    by (rule bit_word_eqI) (auto simp: bit_simps mult.commute [of p])
  then show "(push_bit 1 p OR (m AND 1)) AND 1 \<noteq> 0 \<longleftrightarrow> odd (unat m)"
    by (simp add: odd_unat_iff)
qed

lemma path_bound:
  fixes p m :: uint32
  assumes "unat p < 2 ^ j"
  shows "unat (push_bit 1 p OR (m AND 1)) < 2 ^ Suc j"
proof -
  have bj: "bit p b \<Longrightarrow> b < j" for b
    using assms unfolding unat_less_power_iff_take_bit by (metis bit_take_bit_iff)
  show ?thesis unfolding unat_less_power_iff_take_bit
    by (rule bit_word_eqI) (auto simp: bit_simps mult.commute [of p] dest: bj)
qed

lemma heap_walk_path:
  assumes sh: "heap_shape H f n"
    and "heap_path p k m = (P, K)" and "1 \<le> unat m" and "unat m div 2 \<le> n"
    and "unat p < 2 ^ unat k" and "2 ^ unat k * unat m < 2 ^ 32"
  shows "heap_walk H MinSlot MinSlot P K = heap_walk H (slot_of f (unat m div 2)) (slot_of f (unat m)) p k"
  using assms(2-)
proof (induction p k m rule: heap_path.induct)
  case (1 p k m)
  show ?case
  proof (cases "2 \<le> m")
    case False
    with 1(3) have "unat m = 1" by (simp add: word_le_nat_alt)
    with False 1(2) show ?thesis by (simp add: heap_path.simps [of p k m] slot_of_def)
  next
    case True
    then have m2: "2 \<le> unat m" by (simp add: word_le_nat_alt)
    have k31: "2 ^ unat k < (2 :: nat) ^ 31"
    proof -
      have "2 ^ unat k * 2 \<le> 2 ^ unat k * unat m" using m2 by simp
      from le_less_trans [OF this 1(6)] show ?thesis by simp
    qed
    then have kk: "unat k < 31" by (rule power_less_imp_less_exp [rotated]) simp
    then have uk: "unat (k + 1) = Suc (unat k)" by (simp add: unat_word_ariths)
    have p31: "unat p < 2 ^ 31" using 1(5) k31 by simp
    let ?p = "push_bit 1 p OR (m AND 1)"
    have pk: "unat ?p < 2 ^ unat (k + 1)" using path_bound [OF 1(5)] by (simp add: uk)
    have um: "unat (m div 2) = unat m div 2" by (simp add: unat_div)
    have "2 ^ unat (k + 1) * (unat m div 2) \<le> 2 ^ unat k * unat m" by (simp add: uk)
    with 1(6) have km: "2 ^ unat (k + 1) * (unat m div 2) < 2 ^ 32" by linarith
    have IH: "heap_walk H MinSlot MinSlot P K =
        heap_walk H (slot_of f (unat m div 2 div 2)) (slot_of f (unat m div 2)) ?p (k + 1)"
      using 1(1) [OF True] 1(2,4) True m2 pk km by (simp add: heap_path.simps [of p k m] um)
    have "slot_read H (slot_of f (unat m div 2)) = Some (f (unat m div 2))"
      using slot_read_slot_of [OF sh, of "unat m div 2"] 1(4) m2 by (auto simp: node_at_Some)
    moreover have "k + 1 > 0" using uk by (simp add: word_gt_0 unat_gt_0 [symmetric] del: unat_gt_0)
    ultimately show ?thesis
      unfolding IH using m2 path_bit_simps [OF p31, of m]
      by (simp add: heap_walk.simps [of H _ "slot_of f (unat m div 2)"] slot_of_def [of f "unat m"])
  qed
qed

text \<open>Going to position \<open>m\<close> from the root, as the two loops of the insertion and the removal do.\<close>

lemma heap_walk_to:
  assumes "heap_shape H f n" and "1 \<le> m" and "m div 2 \<le> n" and "m < 2 ^ 32"
    and "heap_path 0 0 (of_nat m) = (P, K)"
  shows "heap_walk H MinSlot MinSlot P K = Some (slot_of f (m div 2), slot_of f m)"
proof -
  have um: "unat (of_nat m :: uint32) = m" using assms(4) by (simp add: unat_of_nat take_bit_eq_mod)
  show ?thesis
    using heap_walk_path [OF assms(1,5)] assms(2-4)
    by (simp add: um heap_walk.simps [of _ _ _ 0 0])
qed

section \<open>Linking and unlinking the last position\<close>

lemma slot_write_simps [simp]:
  "nelts (slot_write s v H) = nelts H"
  by (cases s) simp_all

lemma heap_shape_cong:
  assumes "heap_shape H f n" and "hmin H' = hmin H" and "\<And>i. 1 \<le> i \<Longrightarrow> i \<le> n \<Longrightarrow> hnodes H' (f i) = hnodes H (f i)"
  shows "heap_shape H' f n"
  using assms by (auto simp: heap_shape_def)

lemma heap_shape_nelts [simp]: "heap_shape (H\<lparr>nelts := x\<rparr>) f n = heap_shape H f n"
  by (simp add: heap_shape_def)

lemma heap_shape_link:
  assumes sh: "heap_shape H f n" and new: "q \<notin> f ` {1..n}"
    and q: "hnodes H q = \<lparr>left = None, right = None, parent = node_at n f (Suc n div 2)\<rparr>"
  shows "heap_shape (slot_write (slot_of f (Suc n)) (Some q) H) (f(Suc n := q)) (Suc n)"
proof -
  let ?f = "f(Suc n := q)" and ?m = "Suc n" and ?H = "slot_write (slot_of f (Suc n)) (Some q) H"
  have nf: "node_at ?m ?f l = (if l = ?m then Some q else node_at n f l)" for l
    by (auto simp: node_at_def)
  have fq: "f i \<noteq> q" if "1 \<le> i" "i \<le> n" for i using new that by auto
  have "inj_on ?f {1..?m}"
    using sh new unfolding heap_shape_def by (intro inj_on_extend) auto
  moreover have "hmin ?H = node_at ?m ?f 1"
    using sh by (auto simp: slot_of_def heap_shape_def nf)
  moreover have "hnodes ?H (?f i) =
    \<lparr>left = node_at ?m ?f (2 * i), right = node_at ?m ?f (2 * i + 1), parent = node_at ?m ?f (i div 2)\<rparr>"
    if i: "1 \<le> i" "i \<le> ?m" for i
  proof (cases "i = ?m")
    case True
    moreover have "f (?m div 2) \<noteq> q" if "1 < ?m" using fq [of "?m div 2"] that by auto
    ultimately show ?thesis using q by (auto simp: slot_of_def nf)
  next
    case False
    with i have i: "1 \<le> i" "i \<le> n" by auto
    have "f i = f (?m div 2) \<longleftrightarrow> i = ?m div 2" if "1 < ?m"
      using heap_shape_inj [OF sh, of i "?m div 2"] i that by auto
    moreover have "?m div 2 = i \<longleftrightarrow> 2 * i = ?m \<or> 2 * i + 1 = ?m" by linarith
    ultimately show ?thesis
      using heap_shape_node [OF sh i] i by (auto simp: slot_of_def nf)
  qed
  ultimately show ?thesis unfolding heap_shape_def by auto
qed

lemma heap_shape_unlink:
  assumes sh: "heap_shape H f (Suc n)"
  shows "heap_shape (slot_write (slot_of f (Suc n)) None H) f n"
proof -
  let ?m = "Suc n" and ?H = "slot_write (slot_of f (Suc n)) None H"
  have nf: "node_at n f l = (if l = ?m then None else node_at ?m f l)" for l
    by (auto simp: node_at_def)
  have "inj_on f {1..n}" using sh unfolding heap_shape_def by (auto intro: inj_on_subset)
  moreover have "hmin ?H = node_at n f 1"
    using sh by (auto simp: slot_of_def heap_shape_def nf)
  moreover have "hnodes ?H (f i) =
    \<lparr>left = node_at n f (2 * i), right = node_at n f (2 * i + 1), parent = node_at n f (i div 2)\<rparr>"
    if i: "1 \<le> i" "i \<le> n" for i
  proof -
    have "f i = f (?m div 2) \<longleftrightarrow> i = ?m div 2" if "1 < ?m"
      using heap_shape_inj [OF sh, of i "?m div 2"] i that by auto
    moreover have "?m div 2 = i \<longleftrightarrow> 2 * i = ?m \<or> 2 * i + 1 = ?m" by linarith
    moreover have "i div 2 \<noteq> ?m" using i by auto
    ultimately show ?thesis
      using heap_shape_node [OF sh, of i] i by (auto simp: slot_of_def nf)
  qed
  ultimately show ?thesis unfolding heap_shape_def by auto
qed

lemma heap_node_all_fields:
  "x\<lparr>left := a, right := b, parent := d\<rparr> = \<lparr>left = a, right = b, parent = d\<rparr>" for x :: "'a heap_node"
  by simp

lemma heap_shape_replace:
  assumes sh: "heap_shape H f n" and r: "1 \<le> r" "r \<le> n" and c: "c \<notin> f ` {1..n}"
  shows "heap_shape (heap_replace (f r) c H) (f(r := c)) n"
proof -
  let ?f = "f(r := c)" and ?H = "heap_replace (f r) c H"
  have fc: "f i \<noteq> c" if "1 \<le> i" "i \<le> n" for i using c that by auto
  have nc: "node_at n f l \<noteq> Some c" for l using fc by (auto simp: node_at_Some)
  have nf: "node_at n ?f l = (if l = r then Some c else node_at n f l)" for l
    using r by (auto simp: node_at_def)
  have nr: "hnodes H (f r) = \<lparr>left = node_at n f (2 * r), right = node_at n f (2 * r + 1), parent = node_at n f (r div 2)\<rparr>"
    using heap_shape_node [OF sh r] .
  have at: "node_at n f l = Some (f m) \<longleftrightarrow> l = m" if "1 \<le> m" "m \<le> n" for l m
    using node_at_eq [OF sh that] .
  have eq: "?H = relink (node_at n f (r div 2)) (f r) c
      (set_parent_of (node_at n f (2 * r + 1)) c (set_parent_of (node_at n f (2 * r)) c
        (upd_node c (\<lambda>x. \<lparr>left = node_at n f (2 * r), right = node_at n f (2 * r + 1), parent = node_at n f (r div 2)\<rparr>) H)))"
  proof -
    have u: "upd_node c g (upd_node c g1 (upd_node c g2 H)) = upd_node c (\<lambda>x. g (g1 (g2 x))) H" for g g1 g2
      by (simp add: upd_node_def)
    have "f r \<noteq> c" "2 * r \<noteq> r" "2 * r + 1 \<noteq> r" using fc r by auto
    then show ?thesis using nc r by (simp add: heap_replace_def Let_def nr at u heap_node_all_fields)
  qed
  have "inj_on ?f {1..n}"
    using sh c unfolding heap_shape_def by (intro inj_on_fun_updI) auto
  moreover have "hmin ?H = node_at n ?f 1"
    using sh r unfolding eq heap_shape_def by (auto simp: node_at_def)
  moreover have "hnodes ?H (?f i) =
    \<lparr>left = node_at n ?f (2 * i), right = node_at n ?f (2 * i + 1), parent = node_at n ?f (i div 2)\<rparr>"
    if i: "1 \<le> i" "i \<le> n" for i
  proof (cases "i = r")
    case True
    with r nc show ?thesis unfolding eq by (auto simp: nf)
  next
    case False
    have "r div 2 = i \<longleftrightarrow> 2 * i = r \<or> 2 * i + 1 = r" "i div 2 = r \<longleftrightarrow> 2 * r = i \<or> 2 * r + 1 = i" by linarith+
    with False r show ?thesis
      using heap_shape_node [OF sh i] fc [OF i] unfolding eq by (auto simp: nf at [OF i] at [OF r])
  qed
  ultimately show ?thesis unfolding heap_shape_def by auto
qed

section \<open>The comparison a heap relies on\<close>

text \<open>
  The heap is correct for any strict weak order. The client passes the
  comparison as a function pointer; this interface states what it must
  satisfy, and all correctness lemmas of the heap are proved under it.
\<close>

definition heap_ordered :: "('a \<Rightarrow> 'a \<Rightarrow> bool) \<Rightarrow> (nat \<Rightarrow> 'a) \<Rightarrow> nat \<Rightarrow> bool" where
  "heap_ordered lt f n \<longleftrightarrow> (\<forall>k\<in>{2..n}. \<not> lt (f k) (f (k div 2)))"

text \<open>Order everywhere but between position \<open>j\<close> and its parent, or but around position \<open>j\<close>.\<close>

definition except_up :: "('a \<Rightarrow> 'a \<Rightarrow> bool) \<Rightarrow> (nat \<Rightarrow> 'a) \<Rightarrow> nat \<Rightarrow> nat \<Rightarrow> bool" where
  "except_up lt f n j \<longleftrightarrow>
     (\<forall>k\<in>{2..n}. (k \<noteq> j \<longrightarrow> \<not> lt (f k) (f (k div 2))) \<and>
        (k div 2 = j \<longrightarrow> 2 \<le> j \<longrightarrow> \<not> lt (f k) (f (j div 2))))"

definition except_both :: "('a \<Rightarrow> 'a \<Rightarrow> bool) \<Rightarrow> (nat \<Rightarrow> 'a) \<Rightarrow> nat \<Rightarrow> nat \<Rightarrow> bool" where
  "except_both lt f n j \<longleftrightarrow>
     (\<forall>k\<in>{2..n}. (k \<noteq> j \<longrightarrow> k div 2 \<noteq> j \<longrightarrow> \<not> lt (f k) (f (k div 2))) \<and>
        (k div 2 = j \<longrightarrow> 2 \<le> j \<longrightarrow> \<not> lt (f k) (f (j div 2))))"

definition heap_ok :: "('a \<Rightarrow> 'a \<Rightarrow> bool) \<Rightarrow> 'a heap \<Rightarrow> 'a set \<Rightarrow> bool" where
  "heap_ok lt H S \<longleftrightarrow> (\<exists>f n. heap_rep H f n \<and> heap_ordered lt f n \<and> S = f ` {1..n})"

lemma heap_okI:
  "heap_shape H f n \<Longrightarrow> heap_ordered lt f n \<Longrightarrow> nelts H = of_nat n \<Longrightarrow> n < 2 ^ 32 \<Longrightarrow> heap_ok lt H (f ` {1..n})"
  by (auto simp: heap_ok_def heap_rep_def)

text \<open>The heap only compares its own elements.\<close>

lemma heap_ok_cong:
  assumes "heap_ok lt H S" and "\<And>x y. x \<in> S \<Longrightarrow> y \<in> S \<Longrightarrow> lt' x y = lt x y"
  shows "heap_ok lt' H S"
proof -
  obtain f n where rep: "heap_rep H f n" and ord: "heap_ordered lt f n" and S: "S = f ` {1..n}"
    using assms(1) by (auto simp: heap_ok_def)
  have "lt' (f k) (f (k div 2)) = lt (f k) (f (k div 2))" if "k \<in> {2..n}" for k
    using that by (intro assms(2)) (auto simp: S intro!: imageI)
  with ord have "heap_ordered lt' f n" by (simp add: heap_ordered_def)
  with rep S show ?thesis by (auto simp: heap_ok_def)
qed

lemma heap_ok_size: "heap_ok lt H S \<Longrightarrow> unat (nelts H) = card S" and heap_ok_finite: "heap_ok lt H S \<Longrightarrow> finite S"
proof -
  assume "heap_ok lt H S"
  then obtain f n where "heap_rep H f n" and S: "S = f ` {1..n}"
    by (auto simp: heap_ok_def)
  then have "inj_on f {1..n}" "nelts H = of_nat n" "n < 2 ^ 32"
    by (auto simp: heap_rep_def heap_shape_def)
  then show "unat (nelts H) = card S" "finite S"
    unfolding S by (simp_all add: card_image unat_of_nat take_bit_eq_mod)
qed

locale heap_compare =
  fixes lt :: "'a \<Rightarrow> 'a \<Rightarrow> bool"
  assumes asym: "lt x y \<Longrightarrow> \<not> lt y x"
    and neg_trans: "\<not> lt x y \<Longrightarrow> \<not> lt y z \<Longrightarrow> \<not> lt x z"
begin

lemma irrefl: "\<not> lt x x"
  using asym by blast

lemma except_up_step:
  assumes ex: "except_up lt f n j" and j: "2 \<le> j" "j \<le> n" and less: "lt (f j) (f (j div 2))"
  shows "except_up lt (f(j div 2 := f j, j := f (j div 2))) n (j div 2)"
  unfolding except_up_def
proof (intro ballI conjI impI)
  let ?i = "j div 2" and ?f = "f(j div 2 := f j, j := f (j div 2))"
  have ij: "?i < j" "1 \<le> ?i" using j by auto
  fix k assume k: "k \<in> {2..n}"
  have first: "m \<noteq> j \<Longrightarrow> m \<in> {2..n} \<Longrightarrow> \<not> lt (f m) (f (m div 2))" for m
    using ex by (auto simp: except_up_def)
  have second: "m \<in> {2..n} \<Longrightarrow> m div 2 = j \<Longrightarrow> \<not> lt (f m) (f ?i)" for m
    using ex j by (auto simp: except_up_def)
  have up: "\<not> lt (f m) (f j)" if "m \<in> {2..n}" "m \<noteq> j" "m div 2 = ?i" for m
    using first [OF that(2,1)] that(3) asym [OF less] neg_trans by metis
  { assume "k \<noteq> ?i"
    then show "\<not> lt (?f k) (?f (k div 2))"
      using first [OF _ k] second [OF k] up [OF k] asym [OF less] ij k by auto }
  { assume ki: "k div 2 = ?i" "2 \<le> ?i"
    have top: "\<not> lt (f ?i) (f (?i div 2))" using first [of ?i] ki(2) ij j by auto
    moreover have "?i div 2 \<noteq> j" "?i div 2 \<noteq> ?i" using ij by auto
    ultimately show "\<not> lt (?f k) (?f (?i div 2))"
      using first [OF _ k] ki(1) neg_trans [OF _ top] k ij by (cases "k = j") auto }
qed

lemma except_up_done:
  "except_up lt f n j \<Longrightarrow> j \<le> 1 \<or> \<not> lt (f j) (f (j div 2)) \<Longrightarrow> heap_ordered lt f n"
  by (auto simp: except_up_def heap_ordered_def)

lemma heap_sift_up_correct:
  assumes "heap_shape H f n" and "1 \<le> j" "j \<le> n" and "except_up lt f n j"
  shows "\<exists>H' f'. heap_sift_up lt (f j) H = Some H' \<and> nelts H' = nelts H \<and> heap_shape H' f' n \<and>
    heap_ordered lt f' n \<and> f' ` {1..n} = f ` {1..n}"
  using assms
proof (induction j arbitrary: H f rule: less_induct)
  case (less j)
  let ?i = "j div 2" and ?f = "f(j div 2 := f j, j := f (j div 2))"
  have par: "parent (hnodes H (f j)) = node_at n f ?i"
    using heap_shape_node [OF less(2-4)] by simp
  show ?case
  proof (cases "2 \<le> j \<and> lt (f j) (f ?i)")
    case True
    then have i: "1 \<le> ?i" "?i < j" "?i \<le> n" "?f ?i = f j" using less(4) by auto
    have eq: "heap_sift_up lt (f j) H = heap_sift_up lt (?f ?i) (heap_node_swap (f ?i) (f j) H)"
      using par i True by (subst heap_sift_up.simps) (simp add: node_at_def)
    have sh: "heap_shape (heap_node_swap (f ?i) (f j) H) ?f n"
      using heap_shape_swap [OF less(2) i(1) refl less(4)] .
    have ex: "except_up lt ?f n ?i"
      using except_up_step [OF less(5) _ less(4)] True by blast
    have im: "?f ` {1..n} = f ` {1..n}"
      using i less(4) by (intro swap_image) auto
    show ?thesis
      using less(1) [OF i(2) sh i(1,3) ex] unfolding eq im nelts_heap_node_swap .
  next
    case False
    then have "heap_sift_up lt (f j) H = Some H"
      using par less(3,4) by (subst heap_sift_up.simps) (auto simp: node_at_def split: option.splits)
    moreover have "heap_ordered lt f n" using except_up_done [OF less(5)] False by auto
    ultimately show ?thesis using less(2) by blast
  qed
qed

text \<open>The child that a downward step would swap with, if any.\<close>

lemma smallest_child:
  assumes sh: "heap_shape H f n" and j: "1 \<le> j" "j \<le> n"
    and s: "s = smallest_of lt (right (hnodes H (f j))) (smallest_of lt (left (hnodes H (f j))) (f j))"
  shows "s = f j \<and> (\<forall>k\<in>{2..n}. k div 2 = j \<longrightarrow> \<not> lt (f k) (f j)) \<or>
    (\<exists>c\<in>{2..n}. c div 2 = j \<and> s = f c \<and> s \<noteq> f j \<and> lt (f c) (f j) \<and>
      (\<forall>k\<in>{2..n}. k div 2 = j \<longrightarrow> \<not> lt (f k) (f c)))"
proof -
  have nd: "left (hnodes H (f j)) = node_at n f (2 * j)" "right (hnodes H (f j)) = node_at n f (2 * j + 1)"
    using heap_shape_node [OF sh j] by simp_all
  have ch: "k div 2 = j \<longleftrightarrow> k = 2 * j \<or> k = 2 * j + 1" for k by linarith
  have trans: "lt x y \<Longrightarrow> lt y z \<Longrightarrow> lt x z" for x y z using asym neg_trans by blast
  have mixed: "\<not> lt x y \<Longrightarrow> lt z y \<Longrightarrow> \<not> lt x z" for x y z using asym neg_trans by blast
  consider "n < 2 * j" | "n = 2 * j" | "2 * j + 1 \<le> n" by linarith
  then show ?thesis
  proof cases
    case 1
    then show ?thesis by (auto simp: s nd smallest_of_def ch)
  next
    case 2
    then have "s = smallest_of lt (Some (f (2 * j))) (f j)"
      using j by (simp add: s nd smallest_of_def node_at_def)
    with 2 j show ?thesis
      by (cases "lt (f (2 * j)) (f j)") (auto simp: smallest_of_def ch irrefl)
  next
    case 3
    let ?l = "2 * j" and ?r = "2 * j + 1"
    have s': "s = smallest_of lt (Some (f ?r)) (smallest_of lt (Some (f ?l)) (f j))"
      using 3 j by (simp add: s nd node_at_def)
    have lr: "?l \<in> {2..n}" "?r \<in> {2..n}" using 3 j by auto
    consider "s = f j" "\<not> lt (f ?l) (f j)" "\<not> lt (f ?r) (f j)"
      | "s = f ?l" "lt (f ?l) (f j)" "\<not> lt (f ?r) (f ?l)"
      | "s = f ?r" "lt (f ?r) (f j)" "\<not> lt (f ?l) (f ?r)"
    proof (cases "lt (f ?l) (f j)")
      case True
      with s' have "s = (if lt (f ?r) (f ?l) then f ?r else f ?l)" by (simp add: smallest_of_def)
      with True that(2,3) trans [of "f ?r" "f ?l" "f j"] asym [of "f ?r" "f ?l"] show ?thesis
        by (cases "lt (f ?r) (f ?l)") auto
    next
      case False
      with s' have "s = (if lt (f ?r) (f j) then f ?r else f j)" by (simp add: smallest_of_def)
      with False that(1,3) mixed [of "f ?l" "f j" "f ?r"] show ?thesis
        by (cases "lt (f ?r) (f j)") auto
    qed
    then show ?thesis
    proof cases
      case 1
      then show ?thesis by (auto simp: ch)
    next
      case 2
      moreover have "s \<noteq> f j" using 2 irrefl by metis
      ultimately show ?thesis using lr(1) irrefl by (auto simp: ch intro!: bexI [of _ ?l])
    next
      case 3
      moreover have "s \<noteq> f j" using 3 irrefl by metis
      ultimately show ?thesis using lr(2) irrefl by (auto simp: ch intro!: bexI [of _ ?r])
    qed
  qed
qed

lemma except_both_step:
  assumes ex: "except_both lt f n j" and j: "1 \<le> j" and c: "c \<in> {2..n}" "c div 2 = j"
    and less: "lt (f c) (f j)" and least: "\<forall>k\<in>{2..n}. k div 2 = j \<longrightarrow> \<not> lt (f k) (f c)"
  shows "except_both lt (f(j := f c, c := f j)) n c"
  unfolding except_both_def
proof (intro ballI conjI impI)
  let ?f = "f(j := f c, c := f j)"
  have jc: "j < c" using c by auto
  fix k assume k: "k \<in> {2..n}"
  have out: "k \<noteq> j \<Longrightarrow> k div 2 \<noteq> j \<Longrightarrow> \<not> lt (f k) (f (k div 2))"
    and up: "k div 2 = j \<Longrightarrow> 2 \<le> j \<Longrightarrow> \<not> lt (f k) (f (j div 2))"
    and cup: "2 \<le> j \<Longrightarrow> \<not> lt (f c) (f (j div 2))"
    using ex k c unfolding except_both_def by blast+
  { assume kc: "k \<noteq> c" "k div 2 \<noteq> c"
    have "j div 2 \<noteq> j" "j div 2 \<noteq> c" using j jc by auto
    then show "\<not> lt (?f k) (?f (k div 2))"
      using kc out cup least k jc by (cases "k = j") auto }
  { assume kc: "k div 2 = c" "2 \<le> c"
    then have "k \<noteq> j" "k \<noteq> c" "k div 2 \<noteq> j" using jc by auto
    then show "\<not> lt (?f k) (?f (c div 2))" using out kc c(2) jc by simp }
qed

lemma except_both_done:
  "except_both lt f n j \<Longrightarrow> \<forall>k\<in>{2..n}. k div 2 = j \<longrightarrow> \<not> lt (f k) (f j) \<Longrightarrow> except_up lt f n j"
  unfolding except_both_def except_up_def by auto

lemma heap_sift_down_correct:
  assumes "heap_shape H f n" and "1 \<le> j" "j \<le> n" and "except_both lt f n j"
  shows "\<exists>H' f' j'. heap_sift_down lt (f j) H = Some H' \<and> nelts H' = nelts H \<and> heap_shape H' f' n \<and>
    1 \<le> j' \<and> j' \<le> n \<and> f' j' = f j \<and> except_up lt f' n j' \<and> f' ` {1..n} = f ` {1..n}"
  using assms
proof (induction "n - j" arbitrary: j H f rule: less_induct)
  case (less j)
  define s where "s = smallest_of lt (right (hnodes H (f j))) (smallest_of lt (left (hnodes H (f j))) (f j))"
  from smallest_child [OF less(2-4) s_def] show ?case
  proof (elim disjE bexE conjE)
    assume s: "s = f j" and min: "\<forall>k\<in>{2..n}. k div 2 = j \<longrightarrow> \<not> lt (f k) (f j)"
    then have "heap_sift_down lt (f j) H = Some H"
      by (subst heap_sift_down.simps) (simp add: s_def [symmetric])
    with less(2-4) except_both_done [OF less(5) min] show ?thesis by blast
  next
    fix c assume c: "c \<in> {2..n}" "c div 2 = j" and s: "s = f c" "s \<noteq> f j" and less': "lt (f c) (f j)"
      and least: "\<forall>k\<in>{2..n}. k div 2 = j \<longrightarrow> \<not> lt (f k) (f c)"
    let ?f = "f(j := f c, c := f j)"
    have cn: "1 \<le> c" "c \<le> n" "n - c < n - j" "j \<noteq> c" using c less(3) by auto
    have eq: "heap_sift_down lt (f j) H = heap_sift_down lt (?f c) (heap_node_swap (f j) (f c) H)"
      using s by (subst heap_sift_down.simps) (simp add: s_def [symmetric])
    have sh: "heap_shape (heap_node_swap (f j) (f c) H) ?f n"
      using heap_shape_swap [OF less(2,3) c(2) cn(2)] .
    have ex: "except_both lt ?f n c"
      using except_both_step [OF less(5,3) c less' least] .
    have im: "?f ` {1..n} = f ` {1..n}"
      using cn less(3,4) by (intro swap_image) auto
    have fc: "?f c = f j" by simp
    show ?thesis
      using less(1) [OF cn(3) sh cn(1,2) ex] unfolding eq im fc nelts_heap_node_swap .
  qed
qed

text \<open>Insertion and removal: they return, keep the heap well formed and ordered, and change the set as they should.\<close>

lemma heap_insert_correct:
  assumes ok: "heap_ok lt H S" and new: "q \<notin> S" and room: "unat (nelts H) + 1 < 2 ^ 32"
  shows "\<exists>H'. heap_insert lt q H = Some H' \<and> heap_ok lt H' (insert q S) \<and> nelts H' = nelts H + 1"
proof -
  obtain f n where rep: "heap_rep H f n" and ord: "heap_ordered lt f n" and S: "S = f ` {1..n}"
    using ok by (auto simp: heap_ok_def)
  let ?H1 = "upd_node q (\<lambda>x. x\<lparr>left := None, right := None, parent := None\<rparr>) H" and ?m = "Suc n"
  have n: "nelts H = of_nat n" "?m < 2 ^ 32"
    using rep room by (auto simp: heap_rep_def unat_of_nat take_bit_eq_mod)
  have sh1: "heap_shape ?H1 f n"
    using rep new S by (auto simp: heap_rep_def intro!: heap_shape_cong [of H])
  obtain P K where pk: "heap_path 0 0 (of_nat ?m) = (P, K)" by force
  have walk: "heap_walk ?H1 MinSlot MinSlot P K = Some (slot_of f (?m div 2), slot_of f ?m)"
    using heap_walk_to [OF sh1 _ _ n(2) pk] by simp
  let ?H2 = "upd_node q (\<lambda>x. x\<lparr>parent := slot_read ?H1 (slot_of f (?m div 2))\<rparr>) ?H1"
  have par: "slot_read ?H1 (slot_of f (?m div 2)) = node_at n f (?m div 2)"
    using slot_read_slot_of [OF sh1, of "?m div 2"] sh1 by (cases n) (auto simp: slot_of_def heap_shape_def)
  have sh2: "heap_shape ?H2 f n"
    using new S sh1 by (auto intro!: heap_shape_cong [of ?H1])
  let ?H3 = "(slot_write (slot_of f ?m) (Some q) ?H2)\<lparr>nelts := nelts ?H2 + 1\<rparr>"
  have "hnodes ?H2 q = \<lparr>left = None, right = None, parent = node_at n f (?m div 2)\<rparr>"
    unfolding par by simp
  then have sh3: "heap_shape ?H3 (f(?m := q)) ?m"
    using heap_shape_link [OF sh2, of q] new S unfolding heap_shape_nelts by blast
  have ex: "except_up lt (f(?m := q)) ?m ?m"
    using ord by (auto simp: except_up_def heap_ordered_def)
  obtain H' f' where up: "heap_sift_up lt ((f(?m := q)) ?m) ?H3 = Some H'" "nelts H' = nelts ?H3"
      "heap_shape H' f' ?m" "heap_ordered lt f' ?m" "f' ` {1..?m} = (f(?m := q)) ` {1..?m}"
    using heap_sift_up_correct [OF sh3 _ _ ex] by auto
  have "heap_insert lt q H = Some H'"
    using up(1) walk pk n(1) by (simp add: heap_insert_def Let_def add.commute)
  moreover have "heap_ok lt H' (insert q S)"
    unfolding heap_ok_def heap_rep_def
    using up n S by (intro exI [of _ f'] exI [of _ ?m]) (auto simp: atLeastAtMostSuc_conv)
  ultimately show ?thesis using up(2) by simp
qed


lemma except_both_replace:
  assumes ord: "heap_ordered lt f (Suc n)" and r: "1 \<le> r" "r \<le> n"
  shows "except_both lt (f(r := c)) n r"
  unfolding except_both_def
proof (intro ballI conjI impI)
  fix k assume k: "k \<in> {2..n}"
  have o: "m \<in> {2..n} \<Longrightarrow> \<not> lt (f m) (f (m div 2))" for m
    using ord by (auto simp: heap_ordered_def)
  { assume "k \<noteq> r" "k div 2 \<noteq> r"
    then show "\<not> lt ((f(r := c)) k) ((f(r := c)) (k div 2))" using o [OF k] by simp }
  { assume kr: "k div 2 = r" "2 \<le> r"
    then have "k \<noteq> r" "r div 2 \<noteq> r" by auto
    moreover have "\<not> lt (f k) (f r)" "\<not> lt (f r) (f (r div 2))" using o [OF k] o [of r] kr r by auto
    ultimately show "\<not> lt ((f(r := c)) k) ((f(r := c)) (r div 2))"
      using neg_trans [of "f k" "f r" "f (r div 2)"] by simp }
qed

lemma heap_remove_correct:
  assumes ok: "heap_ok lt H S" and mem: "q \<in> S"
  shows "\<exists>H'. heap_remove lt (Some q) H = Some H' \<and> heap_ok lt H' (S - {q}) \<and> nelts H' = nelts H - 1"
proof -
  obtain f n0 where rep: "heap_rep H f n0" and ord: "heap_ordered lt f n0" and S: "S = f ` {1..n0}"
    using ok by (auto simp: heap_ok_def)
  obtain r where r: "1 \<le> r" "r \<le> n0" "q = f r" using mem S by auto
  then obtain n where n0: "n0 = Suc n" by (cases n0) auto
  let ?m = "Suc n"
  have sh: "heap_shape H f ?m" and n: "nelts H = of_nat ?m" "?m < 2 ^ 32"
    using rep n0 by (auto simp: heap_rep_def)
  have pos: "nelts H \<noteq> 0"
  proof -
    have "unat (nelts H) = Suc n"
      using n by (simp add: unat_of_nat take_bit_eq_mod del: of_nat_Suc)
    then show ?thesis by auto
  qed
  have nm: "nelts H - 1 = of_nat n" using n by simp
  obtain P K where pk: "heap_path 0 0 (nelts H) = (P, K)" by force
  have walk: "heap_walk H MinSlot MinSlot P K = Some (slot_of f (?m div 2), slot_of f ?m)"
    using heap_walk_to [OF sh _ _ n(2)] pk n(1) by auto
  let ?H1 = "H\<lparr>nelts := nelts H - 1\<rparr>"
  have rd: "slot_read ?H1 (slot_of f ?m) = Some (f ?m)"
    using slot_read_slot_of [of ?H1 f ?m ?m] sh by (auto simp: node_at_Some)
  let ?H2 = "slot_write (slot_of f ?m) None ?H1"
  have sh2: "heap_shape ?H2 f n" using heap_shape_unlink [of ?H1 f n] sh by simp
  have inj: "f i = f ?m \<longleftrightarrow> i = ?m" if "1 \<le> i" "i \<le> ?m" for i
    using heap_shape_inj [OF sh that, of ?m] by auto
  have ordn: "heap_ordered lt f n" using ord n0 by (auto simp: heap_ordered_def)
  show ?thesis
  proof (cases "r = ?m")
    case True
    have "hmin ?H2 \<noteq> Some (f ?m)" using sh2 inj by (auto simp: heap_shape_def node_at_Some)
    then have "heap_remove lt (Some q) H = Some ?H2"
      using pos pk walk rd r(3) True by (simp add: heap_remove_def Let_def)
    moreover have "f ` {1..n} = S - {q}"
      unfolding S n0 r(3) True atLeastAtMostSuc_conv [of 1 n, simplified] using inj by auto
    moreover have "heap_ok lt ?H2 (f ` {1..n})"
      using sh2 ordn nm n(2) by (intro heap_okI) auto
    ultimately show ?thesis by auto
  next
    case False
    with r n0 have rn: "r \<le> n" by simp
    have cn: "f ?m \<notin> f ` {1..n}"
    proof
      assume "f ?m \<in> f ` {1..n}"
      then obtain x where "1 \<le> x" "x \<le> n" "f x = f ?m" by force
      with inj [of x] show False by simp
    qed
    note sh3 = heap_shape_replace [OF sh2 r(1) rn cn]
    note ex = except_both_replace [OF ord [unfolded n0] r(1) rn, of "f ?m"]
    obtain H4 f4 j where dn: "heap_sift_down lt (f ?m) (heap_replace (f r) (f ?m) ?H2) = Some H4"
        "nelts H4 = nelts (heap_replace (f r) (f ?m) ?H2)" "heap_shape H4 f4 n" "1 \<le> j" "j \<le> n"
        "f4 j = f ?m" "except_up lt f4 n j" "f4 ` {1..n} = (f(r := f ?m)) ` {1..n}"
      using heap_sift_down_correct [OF sh3 r(1) rn ex] by auto
    obtain H5 f5 where up: "heap_sift_up lt (f ?m) H4 = Some H5" "nelts H5 = nelts H4"
        "heap_shape H5 f5 n" "heap_ordered lt f5 n" "f5 ` {1..n} = f4 ` {1..n}"
      using heap_sift_up_correct [OF dn(3-5,7)] dn(6) by auto
    have "heap_remove lt (Some q) H = Some H5"
      using pos pk walk rd r(3) False inj [of r] r n0 dn(1) up(1) by (simp add: heap_remove_def Let_def)
    moreover have "f5 ` {1..n} = S - {q}"
    proof -
      have "(f(r := f ?m)) ` {1..n} = insert (f ?m) (f ` ({1..n} - {r}))" using r(1) rn by auto
      moreover have "S - {q} = f ` ({1..?m} - {r})"
        using heap_shape_inj [OF sh] r n0 unfolding S by auto
      moreover have "{1..?m} - {r} = insert ?m ({1..n} - {r})" using rn by auto
      ultimately show ?thesis using up(5) dn(8) by simp
    qed
    moreover have "nelts H5 = nelts H - 1"
      using up(2) dn(2) by (simp add: heap_replace_def Let_def)
    ultimately have "heap_remove lt (Some q) H = Some H5" and e: "f5 ` {1..n} = S - {q}" "nelts H5 = nelts H - 1"
      by blast+
    moreover have "heap_ok lt H5 (f5 ` {1..n})" using up(3,4) e(2) nm n(2) by (intro heap_okI) auto
    ultimately show ?thesis by auto
  qed
qed

lemma heap_min_least:
  assumes "heap_ok lt H S"
  shows "heap_min H = None \<longleftrightarrow> S = {}" and "heap_min H = Some q \<Longrightarrow> q \<in> S \<and> (\<forall>x\<in>S. \<not> lt x q)"
proof -
  obtain f n where sh: "heap_shape H f n" and ord: "heap_ordered lt f n" and S: "S = f ` {1..n}"
    using assms by (auto simp: heap_ok_def heap_rep_def)
  have m: "heap_min H = node_at n f 1" using sh by (simp add: heap_min_def heap_shape_def)
  show "heap_min H = None \<longleftrightarrow> S = {}" by (auto simp: m S)
  assume "heap_min H = Some q"
  then have q: "1 \<le> n" "q = f 1" by (auto simp: m node_at_Some)
  have "\<not> lt (f k) (f 1)" if "1 \<le> k" "k \<le> n" for k
    using that
  proof (induction k rule: less_induct)
    case (less k)
    show ?case
    proof (cases "k = 1")
      case False
      then have "\<not> lt (f k) (f (k div 2))" "\<not> lt (f (k div 2)) (f 1)"
        using less ord by (auto simp: heap_ordered_def)
      then show ?thesis by (rule neg_trans)
    qed (simp add: irrefl)
  qed
  with q S show "q \<in> S \<and> (\<forall>x\<in>S. \<not> lt x q)" by auto
qed

lemma heap_ok_init: "heap_ok lt (heap_init H) {}"
  unfolding heap_ok_def heap_rep_def heap_shape_def
  by (rule exI [of _ "\<lambda>_. undefined"], rule exI [of _ 0]) (simp add: heap_init_def heap_ordered_def)

end

end
