(* ===== verification/Uv_Loop.thy ===== *)
theory Uv_Loop
  imports Uv_Queue Uv_Heap "HOL-Library.Monad_Syntax"
begin

text \<open>
  The state of a libuv loop and of its handles (\<^verbatim>\<open>uv_loop_t\<close>, \<^verbatim>\<open>uv_handle_t\<close> and
  the subclass fields the modelled handle kinds use), and the handle macros of
  \<^verbatim>\<open>core/libuv/src/uv-common.h\<close>. Handles, requests and I/O watchers are
  addressed by numbers; the intrusive queue nodes inside them and inside the
  loop are the addresses \<open>qnode\<close> of one queue memory.
\<close>

section \<open>State\<close>

type_synonym hid = nat
type_synonym cbid = nat

datatype uv_handle_type =
    UV_ASYNC | UV_CHECK | UV_FS_EVENT | UV_FS_POLL | UV_HANDLE | UV_IDLE | UV_NAMED_PIPE
  | UV_POLL | UV_PREPARE | UV_PROCESS | UV_STREAM | UV_TCP | UV_TIMER | UV_TTY | UV_UDP
  | UV_SIGNAL | UV_FILE

text \<open>
  One record holds the fields of \<^verbatim>\<open>uv_handle_t\<close>, of \<^verbatim>\<open>uv_timer_t\<close>, of the
  prepare, check and idle handles and of \<^verbatim>\<open>uv_poll_t\<close>, whose embedded
  \<^verbatim>\<open>io_watcher\<close> is named by its number. Function pointers are numbers, the null
  pointer is \<open>None\<close>.
\<close>

record uv_handle =
  htype :: uv_handle_type
  flags :: uint32
  close_cb :: "cbid option"
  next_closing :: "hid option"
  timer_cb :: "cbid option"
  timeout :: uint64
  repeat :: uint64
  start_id :: uint64
  watcher_cb :: "cbid option"
  poll_cb :: "cbid option"
  io_watcher :: nat

datatype watcher_kind = Prepare | Check | Idle

datatype qnode =
    L_handle_queue
  | L_active_reqs
  | L_watchers watcher_kind
  | L_pending_queue
  | L_watcher_queue
  | L_wq
  | L_async_handles
  | L_process_handles
  | H_handle_queue hid
  | H_queue hid
  | R_active_queue nat
  | W_pending_queue nat
  | W_watcher_queue nat

record uv__io =
  io_cb :: cbid
  io_fd :: int
  io_events :: uint32
  io_pevents :: uint32

text \<open>An event in the buffer of \<^verbatim>\<open>epoll_wait\<close>, \<^verbatim>\<open>struct uv__epoll_event\<close>.\<close>

record epoll_event =
  ev_events :: uint32
  ev_data :: uint64

text \<open>A call of \<^verbatim>\<open>epoll_ctl\<close>: operation, descriptor, events, and what it returned (0 or an error number).\<close>

type_synonym ctl_call = "int \<times> int \<times> uint32 \<times> int"

text \<open>
  \<open>watchers\<close> is the array without its two last slots, so that its length is
  \<^verbatim>\<open>nwatchers\<close>; those slots, the list of the events being dispatched and its
  length, are \<open>fake_watchers\<close>, \<open>None\<close> when they are null. Not fields of
  \<^verbatim>\<open>uv_loop_t\<close> are the static variables \<open>no_epoll_pwait\<close> and \<open>no_epoll_wait\<close> of
  \<^verbatim>\<open>uv__io_poll\<close>, and the logs of what the loop has done: \<open>fired\<close> and \<open>io_fired\<close>, the
  calls of user callbacks and of I/O watcher callbacks, \<open>ctl_log\<close> and
  \<open>wait_log\<close>, the system calls \<^verbatim>\<open>epoll_ctl\<close> and \<^verbatim>\<open>epoll_wait\<close> (its timeouts), and
  \<open>clock_reads\<close>, the number of readings of the clock.
\<close>

record uv_loop =
  handles :: "hid \<Rightarrow> uv_handle"
  qmem :: "qnode queue_mem"
  timer_heap :: "hid heap"
  active_handles :: uint32
  closing_handles :: "hid option"
  time :: uint64
  timer_counter :: uint64
  stop_flag :: uint32
  io :: "nat \<Rightarrow> uv__io"
  watchers :: "nat option list"
  nfds :: uint32
  backend_fd :: int
  loop_flags :: uint32
  fake_watchers :: "epoll_event list option"
  no_epoll_pwait :: bool
  no_epoll_wait :: bool
  fired :: "(cbid \<times> hid) list"
  io_fired :: "(nat \<times> uint32) list"
  ctl_log :: "ctl_call list"
  wait_log :: "int list"
  clock_reads :: nat

section \<open>Flags\<close>

abbreviation UV_CLOSING :: uint32 where "UV_CLOSING \<equiv> 0x01"
abbreviation UV_CLOSED :: uint32 where "UV_CLOSED \<equiv> 0x02"
abbreviation UV__HANDLE_INTERNAL :: uint32 where "UV__HANDLE_INTERNAL \<equiv> 0x8000"
abbreviation UV__HANDLE_ACTIVE :: uint32 where "UV__HANDLE_ACTIVE \<equiv> 0x4000"
abbreviation UV__HANDLE_REF :: uint32 where "UV__HANDLE_REF \<equiv> 0x2000"
abbreviation EINVAL :: int where "EINVAL \<equiv> 22"

definition uv__is_active :: "uv_loop \<Rightarrow> hid \<Rightarrow> bool" where
  "uv__is_active L h \<longleftrightarrow> flags (handles L h) AND UV__HANDLE_ACTIVE \<noteq> 0"

definition uv__is_closing :: "uv_loop \<Rightarrow> hid \<Rightarrow> bool" where
  "uv__is_closing L h \<longleftrightarrow> flags (handles L h) AND (UV_CLOSING OR UV_CLOSED) \<noteq> 0"

definition uv__has_ref :: "uv_loop \<Rightarrow> hid \<Rightarrow> bool" where
  "uv__has_ref L h \<longleftrightarrow> flags (handles L h) AND UV__HANDLE_REF \<noteq> 0"

definition uv__has_active_reqs :: "uv_loop \<Rightarrow> bool" where
  "uv__has_active_reqs L \<longleftrightarrow> \<not> QUEUE_EMPTY (qmem L) L_active_reqs"

definition uv__has_active_handles :: "uv_loop \<Rightarrow> bool" where
  "uv__has_active_handles L \<longleftrightarrow> active_handles L > 0"

section \<open>Handle macros\<close>

definition upd_handle :: "hid \<Rightarrow> (uv_handle \<Rightarrow> uv_handle) \<Rightarrow> uv_loop \<Rightarrow> uv_loop" where
  "upd_handle h g L = L\<lparr>handles := (handles L)(h := g (handles L h))\<rparr>"

definition upd_flags :: "hid \<Rightarrow> (uint32 \<Rightarrow> uint32) \<Rightarrow> uv_loop \<Rightarrow> uv_loop" where
  "upd_flags h g = upd_handle h (\<lambda>x. x\<lparr>flags := g (flags x)\<rparr>)"

definition uv__active_handle_add :: "uv_loop \<Rightarrow> uv_loop" where
  "uv__active_handle_add L = L\<lparr>active_handles := active_handles L + 1\<rparr>"

definition uv__active_handle_rm :: "uv_loop \<Rightarrow> uv_loop" where
  "uv__active_handle_rm L = L\<lparr>active_handles := active_handles L - 1\<rparr>"

definition uv__handle_start :: "hid \<Rightarrow> uv_loop \<Rightarrow> uv_loop" where
  "uv__handle_start h L =
     (if uv__is_active L h then L
      else
        let L = upd_flags h (\<lambda>f. f OR UV__HANDLE_ACTIVE) L
        in if uv__has_ref L h then uv__active_handle_add L else L)"

definition uv__handle_stop :: "hid \<Rightarrow> uv_loop \<Rightarrow> uv_loop" where
  "uv__handle_stop h L =
     (if \<not> uv__is_active L h then L
      else
        let L = upd_flags h (\<lambda>f. f AND NOT UV__HANDLE_ACTIVE) L
        in if uv__has_ref L h then uv__active_handle_rm L else L)"

definition uv__handle_ref :: "hid \<Rightarrow> uv_loop \<Rightarrow> uv_loop" where
  "uv__handle_ref h L =
     (if uv__has_ref L h then L
      else
        let L = upd_flags h (\<lambda>f. f OR UV__HANDLE_REF) L
        in if uv__is_active L h then uv__active_handle_add L else L)"

definition uv__handle_unref :: "hid \<Rightarrow> uv_loop \<Rightarrow> uv_loop" where
  "uv__handle_unref h L =
     (if \<not> uv__has_ref L h then L
      else
        let L = upd_flags h (\<lambda>f. f AND NOT UV__HANDLE_REF) L
        in if uv__is_active L h then uv__active_handle_rm L else L)"

definition upd_q :: "(qnode queue_mem \<Rightarrow> qnode queue_mem) \<Rightarrow> uv_loop \<Rightarrow> uv_loop" where
  "upd_q g L = L\<lparr>qmem := g (qmem L)\<rparr>"

definition uv__handle_init :: "hid \<Rightarrow> uv_handle_type \<Rightarrow> uv_loop \<Rightarrow> uv_loop" where
  "uv__handle_init h ty L =
     (let L = upd_handle h (\<lambda>x. x\<lparr>htype := ty, flags := UV__HANDLE_REF\<rparr>) L;
          L = upd_q (QUEUE_INSERT_TAIL L_handle_queue (H_handle_queue h)) L
      in upd_handle h (\<lambda>x. x\<lparr>next_closing := None\<rparr>) L)"

definition uv__req_register :: "nat \<Rightarrow> uv_loop \<Rightarrow> uv_loop" where
  "uv__req_register r = upd_q (QUEUE_INSERT_TAIL L_active_reqs (R_active_queue r))"

text \<open>\<^verbatim>\<open>assert(uv__has_active_reqs(loop))\<close>: the assertion failing is \<open>None\<close>.\<close>

definition uv__req_unregister :: "nat \<Rightarrow> uv_loop \<Rightarrow> uv_loop option" where
  "uv__req_unregister r L =
     (if uv__has_active_reqs L then Some (upd_q (QUEUE_REMOVE (R_active_queue r)) L) else None)"

section \<open>A new loop\<close>

text \<open>
  \<open>hrtime i\<close> is what the \<open>i\<close>-th reading of the monotonic clock returns, in nanoseconds.
\<close>

definition uv__update_time :: "(nat \<Rightarrow> uint64) \<Rightarrow> uv_loop \<Rightarrow> uv_loop" where
  "uv__update_time hrtime L =
     L\<lparr>time := hrtime (clock_reads L) div 1000000, clock_reads := Suc (clock_reads L)\<rparr>"

text \<open>
  The first half of \<^verbatim>\<open>uv_loop_init\<close>: the loop structure is cleared and its queues are
  made empty, before the platform, signal and async watchers are set up.
\<close>

definition uv_loop_init_fields :: "(nat \<Rightarrow> uint64) \<Rightarrow> uv_loop \<Rightarrow> uv_loop" where
  "uv_loop_init_fields hrtime L =
     (let L = L\<lparr>active_handles := 0, time := 0, loop_flags := 0, fake_watchers := None\<rparr>;
          L = L\<lparr>timer_heap := heap_init (timer_heap L)\<rparr>;
          L = upd_q (QUEUE_INIT L_wq) L;
          L = upd_q (QUEUE_INIT L_active_reqs) L;
          L = upd_q (QUEUE_INIT (L_watchers Idle)) L;
          L = upd_q (QUEUE_INIT L_async_handles) L;
          L = upd_q (QUEUE_INIT (L_watchers Check)) L;
          L = upd_q (QUEUE_INIT (L_watchers Prepare)) L;
          L = upd_q (QUEUE_INIT L_handle_queue) L;
          L = L\<lparr>nfds := 0, watchers := []\<rparr>;
          L = upd_q (QUEUE_INIT L_pending_queue) L;
          L = upd_q (QUEUE_INIT L_watcher_queue) L;
          L = L\<lparr>closing_handles := None\<rparr>;
          L = uv__update_time hrtime L;
          L = L\<lparr>backend_fd := - 1\<rparr>;
          L = L\<lparr>timer_counter := 0\<rparr>
      in L\<lparr>stop_flag := 0\<rparr>)"

section \<open>The flag algebra\<close>

lemma flag_and_closing_closed [simp]: "f AND 3 = 0 \<longleftrightarrow> \<not> bit f 0 \<and> \<not> bit f 1" for f :: uint32
  by (simp add: bit_eq_iff bit_simps) (auto simp: less_Suc_eq numeral_eq_Suc)

lemma flag_bits [simp]:
  fixes f :: uint32
  shows "f AND 0x4000 = 0 \<longleftrightarrow> \<not> bit f 14" "f AND 0x2000 = 0 \<longleftrightarrow> \<not> bit f 13"
    "f AND 0x8000 = 0 \<longleftrightarrow> \<not> bit f 15" "f AND 1 = 0 \<longleftrightarrow> \<not> bit f 0" "f AND 2 = 0 \<longleftrightarrow> \<not> bit f 1"
  using and_exp_eq_0_iff_not_bit [of f 14] and_exp_eq_0_iff_not_bit [of f 13]
    and_exp_eq_0_iff_not_bit [of f 15] and_exp_eq_0_iff_not_bit [of f 0] and_exp_eq_0_iff_not_bit [of f 1]
  by simp_all

lemma upd_handle_simps [simp]:
  "handles (upd_handle h g L) = (handles L)(h := g (handles L h))"
  "qmem (upd_handle h g L) = qmem L" "timer_heap (upd_handle h g L) = timer_heap L"
  "active_handles (upd_handle h g L) = active_handles L"
  "closing_handles (upd_handle h g L) = closing_handles L" "time (upd_handle h g L) = time L"
  "timer_counter (upd_handle h g L) = timer_counter L" "stop_flag (upd_handle h g L) = stop_flag L"
  "fired (upd_handle h g L) = fired L"
  "clock_reads (upd_handle h g L) = clock_reads L" "io (upd_handle h g L) = io L" "watchers (upd_handle h g L) = watchers L" "nfds (upd_handle h g L) = nfds L"
  "backend_fd (upd_handle h g L) = backend_fd L"
  "loop_flags (upd_handle h g L) = loop_flags L"
  "fake_watchers (upd_handle h g L) = fake_watchers L"
  "no_epoll_pwait (upd_handle h g L) = no_epoll_pwait L"
  "no_epoll_wait (upd_handle h g L) = no_epoll_wait L"
  "io_fired (upd_handle h g L) = io_fired L"
  "ctl_log (upd_handle h g L) = ctl_log L"
  "wait_log (upd_handle h g L) = wait_log L"
  by (simp_all add: upd_handle_def)

lemma upd_q_simps [simp]:
  "handles (upd_q g L) = handles L" "qmem (upd_q g L) = g (qmem L)" "timer_heap (upd_q g L) = timer_heap L"
  "active_handles (upd_q g L) = active_handles L" "closing_handles (upd_q g L) = closing_handles L"
  "time (upd_q g L) = time L" "timer_counter (upd_q g L) = timer_counter L"
  "stop_flag (upd_q g L) = stop_flag L" "fired (upd_q g L) = fired L"
  "clock_reads (upd_q g L) = clock_reads L" "io (upd_q g L) = io L" "watchers (upd_q g L) = watchers L" "nfds (upd_q g L) = nfds L"
  "backend_fd (upd_q g L) = backend_fd L"
  "loop_flags (upd_q g L) = loop_flags L"
  "fake_watchers (upd_q g L) = fake_watchers L"
  "no_epoll_pwait (upd_q g L) = no_epoll_pwait L"
  "no_epoll_wait (upd_q g L) = no_epoll_wait L"
  "io_fired (upd_q g L) = io_fired L"
  "ctl_log (upd_q g L) = ctl_log L"
  "wait_log (upd_q g L) = wait_log L"
  by (simp_all add: upd_q_def)

lemmas flag_defs = uv__is_active_def uv__is_closing_def uv__has_ref_def
lemmas handle_macros = uv__handle_start_def uv__handle_stop_def uv__handle_ref_def uv__handle_unref_def
  uv__active_handle_add_def uv__active_handle_rm_def upd_flags_def Let_def

text \<open>What the four macros leave alone, and what they do to the flags.\<close>

definition same_but_flags :: "uv_loop \<Rightarrow> uv_loop \<Rightarrow> hid \<Rightarrow> bool" where
  "same_but_flags L' L h \<longleftrightarrow>
     qmem L' = qmem L \<and> timer_heap L' = timer_heap L \<and> closing_handles L' = closing_handles L \<and>
     time L' = time L \<and> timer_counter L' = timer_counter L \<and> stop_flag L' = stop_flag L \<and>
     fired L' = fired L \<and> (\<exists>f. handles L' = (handles L)(h := (handles L h)\<lparr>flags := f\<rparr>))"

lemma same_but_flagsI:
  "handles L' = (handles L)(h := (handles L h)\<lparr>flags := f\<rparr>) \<Longrightarrow> qmem L' = qmem L \<Longrightarrow>
    timer_heap L' = timer_heap L \<Longrightarrow> closing_handles L' = closing_handles L \<Longrightarrow> time L' = time L \<Longrightarrow>
    timer_counter L' = timer_counter L \<Longrightarrow> stop_flag L' = stop_flag L \<Longrightarrow> fired L' = fired L \<Longrightarrow>
    same_but_flags L' L h"
  unfolding same_but_flags_def by blast

lemma same_but_flags_refl: "same_but_flags L L h"
  by (rule same_but_flagsI [of _ _ _ "flags (handles L h)"]) auto

lemma handle_macro_flags:
  "same_but_flags (uv__handle_start h L) L h" "same_but_flags (uv__handle_stop h L) L h"
  "same_but_flags (uv__handle_ref h L) L h" "same_but_flags (uv__handle_unref h L) L h"
  by (simp_all add: handle_macros same_but_flags_refl) (auto intro!: same_but_flagsI)

lemma is_active_macros [simp]:
  "uv__is_active (uv__handle_start h L) g \<longleftrightarrow> g = h \<or> uv__is_active L g"
  "uv__is_active (uv__handle_stop h L) g \<longleftrightarrow> g \<noteq> h \<and> uv__is_active L g"
  "uv__is_active (uv__handle_ref h L) g \<longleftrightarrow> uv__is_active L g"
  "uv__is_active (uv__handle_unref h L) g \<longleftrightarrow> uv__is_active L g"
  by (auto simp: handle_macros flag_defs bit_simps)

lemma has_ref_macros [simp]:
  "uv__has_ref (uv__handle_start h L) g \<longleftrightarrow> uv__has_ref L g"
  "uv__has_ref (uv__handle_stop h L) g \<longleftrightarrow> uv__has_ref L g"
  "uv__has_ref (uv__handle_ref h L) g \<longleftrightarrow> g = h \<or> uv__has_ref L g"
  "uv__has_ref (uv__handle_unref h L) g \<longleftrightarrow> g \<noteq> h \<and> uv__has_ref L g"
  by (auto simp: handle_macros flag_defs bit_simps)

lemma mask_bit:
  "bit (0x4000 :: uint32) b \<longleftrightarrow> b = 14" "bit (0x2000 :: uint32) b \<longleftrightarrow> b = 13"
  "bit (2 :: uint32) b \<longleftrightarrow> b = 1" "bit (1 :: uint32) b \<longleftrightarrow> b = 0"
  using bit_exp_iff [where ?'a = "32 word", of 14 b] bit_exp_iff [where ?'a = "32 word", of 13 b]
    bit_exp_iff [where ?'a = "32 word", of 1 b] bit_exp_iff [where ?'a = "32 word", of 0 b]
  by auto

lemma clear_bit:
  "bit (f AND NOT 0x4000) b \<longleftrightarrow> bit f b \<and> b \<noteq> 14" "bit (f AND NOT 0x2000) b \<longleftrightarrow> bit f b \<and> b \<noteq> 13"
  for f :: uint32
  by (auto simp only: bit_and_iff bit_not_iff mask_bit dest: bit_imp_possible_bit)

lemma set_bit_flag:
  "bit (f OR 0x4000) b \<longleftrightarrow> bit f b \<or> b = 14" "bit (f OR 0x2000) b \<longleftrightarrow> bit f b \<or> b = 13"
  "bit (f OR 2) b \<longleftrightarrow> bit f b \<or> b = 1" "bit (f OR 1) b \<longleftrightarrow> bit f b \<or> b = 0"
  for f :: uint32
  by (auto simp only: bit_or_iff mask_bit)

lemma clear_bit_numeral:
  "bit (f AND - 16385) b \<longleftrightarrow> bit f b \<and> b \<noteq> 14" "bit (f AND - 8193) b \<longleftrightarrow> bit f b \<and> b \<noteq> 13"
  for f :: uint32
  using clear_bit [of f b] by simp_all

lemma flag_bits_start_stop:
  "b \<noteq> 14 \<Longrightarrow> bit (flags (handles (uv__handle_start h L) g)) b = bit (flags (handles L g)) b"
  "b \<noteq> 14 \<Longrightarrow> bit (flags (handles (uv__handle_stop h L) g)) b = bit (flags (handles L g)) b"
  by (auto simp: handle_macros set_bit_flag clear_bit_numeral)

lemma closing_bits_macros [simp]:
  "b < 2 \<Longrightarrow> bit (flags (handles (uv__handle_start h L) g)) b = bit (flags (handles L g)) b"
  "b < 2 \<Longrightarrow> bit (flags (handles (uv__handle_stop h L) g)) b = bit (flags (handles L g)) b"
  "b < 2 \<Longrightarrow> bit (flags (handles (uv__handle_ref h L) g)) b = bit (flags (handles L g)) b"
  "b < 2 \<Longrightarrow> bit (flags (handles (uv__handle_unref h L) g)) b = bit (flags (handles L g)) b"
  by (auto simp: handle_macros flag_defs bit_simps less_Suc_eq numeral_2_eq_2)

section \<open>The reference count of a loop\<close>

text \<open>
  \<open>active_handles\<close> counts the handles that are both active and referenced; the
  loop stays alive as long as it is positive.
\<close>

definition live_set :: "uv_loop \<Rightarrow> hid list \<Rightarrow> hid set" where
  "live_set L hs = {h \<in> set hs. uv__is_active L h \<and> uv__has_ref L h}"

definition refcount_ok :: "uv_loop \<Rightarrow> hid list \<Rightarrow> bool" where
  "refcount_ok L hs \<longleftrightarrow> unat (active_handles L) = card (live_set L hs)"

lemma live_set_card: "card (live_set L hs) \<le> length hs" "finite (live_set L hs)"
proof -
  have "live_set L hs \<subseteq> set hs" by (auto simp: live_set_def)
  then show "card (live_set L hs) \<le> length hs"
    using card_mono [of "set hs"] card_length [of hs] by (meson List.finite_set le_trans)
qed (simp add: live_set_def)

lemma refcount_ok_incr:
  assumes "refcount_ok L hs" and "length hs < 2 ^ 32" and "live_set L' hs = insert h (live_set L hs)"
    and "h \<notin> live_set L hs" and "active_handles L' = active_handles L + 1"
  shows "refcount_ok L' hs"
proof -
  have "card (live_set L' hs) = Suc (card (live_set L hs))"
    using assms(3,4) live_set_card(2) by simp
  moreover have "card (live_set L' hs) < 2 ^ 32"
    using live_set_card(1) [of L' hs] assms(2) by simp
  ultimately show ?thesis
    using assms(1,5) by (simp add: refcount_ok_def unat_word_ariths)
qed

lemma refcount_ok_decr:
  assumes "refcount_ok L hs" and "live_set L' hs = live_set L hs - {h}"
    and "h \<in> live_set L hs" and "active_handles L' = active_handles L - 1"
  shows "refcount_ok L' hs"
proof -
  have "card (live_set L' hs) = card (live_set L hs) - 1" and "card (live_set L hs) > 0"
    using assms(2,3) live_set_card(2) [of L hs] by (auto simp: card_gt_0_iff)
  moreover from this have "active_handles L \<noteq> 0"
    using assms(1) by (auto simp: refcount_ok_def)
  ultimately show ?thesis
    using assms(1,4) by (simp add: refcount_ok_def unat_minus_one)
qed

lemma refcount_ok_same:
  "refcount_ok L hs \<Longrightarrow> live_set L' hs = live_set L hs \<Longrightarrow> active_handles L' = active_handles L \<Longrightarrow>
    refcount_ok L' hs"
  by (simp add: refcount_ok_def)

lemma refcount_ok_cong:
  assumes "refcount_ok L hs" and "active_handles L' = active_handles L"
    and "\<And>h. h \<in> set hs \<Longrightarrow> uv__is_active L' h = uv__is_active L h \<and> uv__has_ref L' h = uv__has_ref L h"
  shows "refcount_ok L' hs"
  using assms by (intro refcount_ok_same [OF assms(1)]) (auto simp: live_set_def)

lemma refcount_ok_handle_start:
  assumes "refcount_ok L hs" and "length hs < 2 ^ 32" and "h \<in> set hs"
  shows "refcount_ok (uv__handle_start h L) hs"
proof (cases "uv__is_active L h \<or> \<not> uv__has_ref L h")
  case True
  then show ?thesis
    using assms(1) by (intro refcount_ok_same [OF assms(1)])
      (auto simp: live_set_def, auto simp: handle_macros flag_defs bit_simps)
next
  case False
  with assms(3) show ?thesis
    by (intro refcount_ok_incr [OF assms(1,2), where h = h])
      (auto simp: live_set_def, auto simp: handle_macros flag_defs bit_simps)
qed

lemma refcount_ok_handle_stop:
  assumes "refcount_ok L hs" and "h \<in> set hs"
  shows "refcount_ok (uv__handle_stop h L) hs"
proof (cases "uv__is_active L h \<and> uv__has_ref L h")
  case False
  then show ?thesis
    by (intro refcount_ok_same [OF assms(1)])
      (auto simp: live_set_def, auto simp: handle_macros flag_defs bit_simps)
next
  case True
  with assms(2) show ?thesis
    by (intro refcount_ok_decr [OF assms(1), where h = h])
      (auto simp: live_set_def, auto simp: handle_macros flag_defs bit_simps)
qed

lemma refcount_ok_handle_ref:
  assumes "refcount_ok L hs" and "length hs < 2 ^ 32" and "h \<in> set hs"
  shows "refcount_ok (uv__handle_ref h L) hs"
proof (cases "uv__has_ref L h \<or> \<not> uv__is_active L h")
  case True
  then show ?thesis
    by (intro refcount_ok_same [OF assms(1)])
      (auto simp: live_set_def, auto simp: handle_macros flag_defs bit_simps)
next
  case False
  with assms(3) show ?thesis
    by (intro refcount_ok_incr [OF assms(1,2), where h = h])
      (auto simp: live_set_def, auto simp: handle_macros flag_defs bit_simps)
qed

lemma refcount_ok_handle_unref:
  assumes "refcount_ok L hs" and "h \<in> set hs"
  shows "refcount_ok (uv__handle_unref h L) hs"
proof (cases "uv__has_ref L h \<and> uv__is_active L h")
  case False
  then show ?thesis
    by (intro refcount_ok_same [OF assms(1)])
      (auto simp: live_set_def, auto simp: handle_macros flag_defs bit_simps)
next
  case True
  with assms(2) show ?thesis
    by (intro refcount_ok_decr [OF assms(1), where h = h])
      (auto simp: live_set_def, auto simp: handle_macros flag_defs bit_simps)
qed

lemmas refcount_ok_macros = refcount_ok_handle_start refcount_ok_handle_stop
  refcount_ok_handle_ref refcount_ok_handle_unref

section \<open>Properties\<close>

text \<open>Sequences of uses of the four macros.\<close>

datatype handle_macro = M_start hid | M_stop hid | M_ref hid | M_unref hid

fun exec_macro :: "handle_macro \<Rightarrow> uv_loop \<Rightarrow> uv_loop" where
  "exec_macro (M_start h) = uv__handle_start h"
| "exec_macro (M_stop h) = uv__handle_stop h"
| "exec_macro (M_ref h) = uv__handle_ref h"
| "exec_macro (M_unref h) = uv__handle_unref h"

fun macro_handle :: "handle_macro \<Rightarrow> hid" where
  "macro_handle (M_start h) = h" | "macro_handle (M_stop h) = h"
| "macro_handle (M_ref h) = h" | "macro_handle (M_unref h) = h"

lemma exec_macro_refcount:
  "refcount_ok L hs \<Longrightarrow> length hs < 2 ^ 32 \<Longrightarrow> macro_handle m \<in> set hs \<Longrightarrow> refcount_ok (exec_macro m L) hs"
  by (cases m) (simp_all add: refcount_ok_macros)

definition zero_handle :: uv_handle where
  "zero_handle = \<lparr>htype = UV_HANDLE, flags = 0, close_cb = None, next_closing = None, timer_cb = None,
     timeout = 0, repeat = 0, start_id = 0, watcher_cb = None, poll_cb = None, io_watcher = 0\<rparr>"

text \<open>A loop in cleared memory, just initialised.\<close>

definition fresh_loop :: uv_loop where
  "fresh_loop = uv_loop_init_fields (\<lambda>_. 0)
     \<lparr>handles = (\<lambda>_. zero_handle), qmem = \<lparr>qnext = id, qprev = id\<rparr>,
      timer_heap = \<lparr>hmin = None, nelts = 0, hnodes = (\<lambda>_. \<lparr>left = None, right = None, parent = None\<rparr>)\<rparr>,
      active_handles = 0, closing_handles = None, time = 0, timer_counter = 0, stop_flag = 0,
      io = (\<lambda>_. \<lparr>io_cb = 0, io_fd = - 1, io_events = 0, io_pevents = 0\<rparr>), watchers = [], nfds = 0,
      backend_fd = - 1, loop_flags = 0, fake_watchers = None, no_epoll_pwait = False, no_epoll_wait = False,
      fired = [], io_fired = [], ctl_log = [], wait_log = [], clock_reads = 0\<rparr>"

lemma fresh_loop_simps [simp]:
  "handles fresh_loop = (\<lambda>_. zero_handle)" "active_handles fresh_loop = 0" "time fresh_loop = 0"
  "closing_handles fresh_loop = None" "stop_flag fresh_loop = 0" "fired fresh_loop = []"
  "timer_counter fresh_loop = 0" "flags zero_handle = 0" "clock_reads fresh_loop = 1"
  by (simp_all add: fresh_loop_def uv_loop_init_fields_def uv__update_time_def zero_handle_def Let_def)

lemma fresh_loop_refcount: "refcount_ok fresh_loop hs"
  by (simp add: refcount_ok_def live_set_def flag_defs)

text \<open>
  Property C15. Whatever sequence of start, stop, ref and unref the code runs on
  the handles of a loop, \<open>active_handles\<close> is the number of handles that are both
  active and referenced, with no wrap-around of the 32-bit counter.
\<close>
theorem handle_macros_keep_refcount:
  assumes "refcount_ok L hs" and "length hs < 2 ^ 32" and "\<forall>m\<in>set ms. macro_handle m \<in> set hs"
  shows "unat (active_handles (fold exec_macro ms L)) = card (live_set (fold exec_macro ms L) hs)"
proof -
  have "refcount_ok (fold exec_macro ms L) hs"
    using assms by (induction ms arbitrary: L) (auto simp: exec_macro_refcount)
  then show ?thesis by (simp add: refcount_ok_def)
qed

theorem handle_macros_keep_refcount_witness:
  "unat (active_handles (fold exec_macro [M_ref 0, M_start 0, M_start 1, M_ref 1, M_unref 0] fresh_loop)) =
     card (live_set (fold exec_macro [M_ref 0, M_start 0, M_start 1, M_ref 1, M_unref 0] fresh_loop) [0, 1])"
  by (rule handle_macros_keep_refcount [OF fresh_loop_refcount]) simp_all

end
