(* ===== verification/Uv_Timer.thy ===== *)
theory Uv_Timer
  imports Uv_Loop
begin

text \<open>
  Timers, \<^verbatim>\<open>core/libuv/src/unix/timer.c\<close>. The active timers of a loop are the
  elements of its timer heap, ordered by expiry and then by the order of
  starting. A result \<open>None\<close> is a crash inside the heap or a loop that does not
  end; user callbacks are an argument \<open>cb\<close>, the effect of calling function
  pointer \<open>c\<close> on handle \<open>h\<close>.
\<close>

section \<open>The code\<close>

type_synonym callback = "cbid \<Rightarrow> hid \<Rightarrow> uv_loop \<Rightarrow> uv_loop option"

definition timer_less_than :: "(hid \<Rightarrow> uv_handle) \<Rightarrow> hid \<Rightarrow> hid \<Rightarrow> bool" where
  "timer_less_than hs a b =
     (if timeout (hs a) < timeout (hs b) then True
      else if timeout (hs b) < timeout (hs a) then False
      else if start_id (hs a) < start_id (hs b) then True
      else False)"

definition uv_timer_init :: "hid \<Rightarrow> uv_loop \<Rightarrow> int \<times> uv_loop" where
  "uv_timer_init h L =
     (let L = uv__handle_init h UV_TIMER L;
          L = upd_handle h (\<lambda>x. x\<lparr>timer_cb := None\<rparr>) L;
          L = upd_handle h (\<lambda>x. x\<lparr>repeat := 0\<rparr>) L
      in (0, L))"

definition uv_timer_stop :: "hid \<Rightarrow> uv_loop \<Rightarrow> (int \<times> uv_loop) option" where
  "uv_timer_stop h L =
     (if \<not> uv__is_active L h then Some (0, L)
      else do {
        H \<leftarrow> heap_remove (timer_less_than (handles L)) (Some h) (timer_heap L);
        Some (0, uv__handle_stop h (L\<lparr>timer_heap := H\<rparr>))
      })"

definition uv_timer_start :: "hid \<Rightarrow> cbid option \<Rightarrow> uint64 \<Rightarrow> uint64 \<Rightarrow> uv_loop \<Rightarrow> (int \<times> uv_loop) option" where
  "uv_timer_start h cb tmo rep L =
     (if cb = None then Some (- EINVAL, L)
      else do {
        (_, L) \<leftarrow> (if uv__is_active L h then uv_timer_stop h L else Some (0, L));
        let clamped_timeout = time L + tmo;
        let clamped_timeout = (if clamped_timeout < tmo then - 1 else clamped_timeout);
        let L = upd_handle h (\<lambda>x. x\<lparr>timer_cb := cb\<rparr>) L;
        let L = upd_handle h (\<lambda>x. x\<lparr>timeout := clamped_timeout\<rparr>) L;
        let L = upd_handle h (\<lambda>x. x\<lparr>repeat := rep\<rparr>) L;
        let L = upd_handle h (\<lambda>x. x\<lparr>start_id := timer_counter L\<rparr>) L;
        let L = L\<lparr>timer_counter := timer_counter L + 1\<rparr>;
        H \<leftarrow> heap_insert (timer_less_than (handles L)) h (timer_heap L);
        Some (0, uv__handle_start h (L\<lparr>timer_heap := H\<rparr>))
      })"

definition uv_timer_again :: "hid \<Rightarrow> uv_loop \<Rightarrow> (int \<times> uv_loop) option" where
  "uv_timer_again h L =
     (if timer_cb (handles L h) = None then Some (- EINVAL, L)
      else if repeat (handles L h) \<noteq> 0 then do {
        (_, L) \<leftarrow> uv_timer_stop h L;
        (_, L) \<leftarrow> uv_timer_start h (timer_cb (handles L h)) (repeat (handles L h)) (repeat (handles L h)) L;
        Some (0, L)
      }
      else Some (0, L))"

definition uv_timer_set_repeat :: "hid \<Rightarrow> uint64 \<Rightarrow> uv_loop \<Rightarrow> uv_loop" where
  "uv_timer_set_repeat h rep = upd_handle h (\<lambda>x. x\<lparr>repeat := rep\<rparr>)"

definition uv_timer_get_repeat :: "hid \<Rightarrow> uv_loop \<Rightarrow> uint64" where
  "uv_timer_get_repeat h L = repeat (handles L h)"

abbreviation INT_MAX :: uint64 where "INT_MAX \<equiv> 2147483647"

definition uv__next_timeout :: "uv_loop \<Rightarrow> int" where
  "uv__next_timeout L =
     (case heap_min (timer_heap L) of
        None \<Rightarrow> - 1
      | Some h \<Rightarrow>
          if timeout (handles L h) \<le> time L then 0
          else
            let diff = timeout (handles L h) - time L;
                diff = (if diff > INT_MAX then INT_MAX else diff)
            in uint diff)"

text \<open>Calling a function pointer: a null pointer crashes; the call is logged.\<close>

definition call_cb :: "callback \<Rightarrow> cbid option \<Rightarrow> hid \<Rightarrow> uv_loop \<Rightarrow> uv_loop option" where
  "call_cb cb c h L =
     (case c of None \<Rightarrow> None | Some c \<Rightarrow> cb c h (L\<lparr>fired := fired L @ [(c, h)]\<rparr>))"

partial_function (option) uv__run_timers :: "callback \<Rightarrow> uv_loop \<Rightarrow> uv_loop option" where
  "uv__run_timers cb L =
     (case heap_min (timer_heap L) of
        None \<Rightarrow> Some L
      | Some h \<Rightarrow>
          if timeout (handles L h) > time L then Some L
          else do {
            (_, L) \<leftarrow> uv_timer_stop h L;
            (_, L) \<leftarrow> uv_timer_again h L;
            L \<leftarrow> call_cb cb (timer_cb (handles L h)) h L;
            uv__run_timers cb L
          })"

definition uv__timer_close :: "hid \<Rightarrow> uv_loop \<Rightarrow> uv_loop option" where
  "uv__timer_close h L = map_option snd (uv_timer_stop h L)"

section \<open>The timer order\<close>

definition timer_key :: "(hid \<Rightarrow> uv_handle) \<Rightarrow> hid \<Rightarrow> nat" where
  "timer_key hs h = unat (timeout (hs h)) * 2 ^ 64 + unat (start_id (hs h))"

lemma timer_less_than_key: "timer_less_than hs a b \<longleftrightarrow> timer_key hs a < timer_key hs b"
proof -
  have lex: "x * 2 ^ 64 + u < y * 2 ^ 64 + v \<longleftrightarrow> x < y \<or> x = y \<and> u < v"
    if "u < 2 ^ 64" "v < 2 ^ 64" for x y u v :: nat
    using that by auto
  show ?thesis
    unfolding timer_less_than_def timer_key_def
    by (subst lex [OF unat_uint64_less unat_uint64_less]) (auto simp: word_less_nat_alt word_unat_eq_iff)
qed

interpretation timer_order: heap_compare "timer_less_than hs" for hs
  by unfold_locales (auto simp: timer_less_than_key)

section \<open>What a timer operation may change\<close>

definition timer_frame :: "uv_loop \<Rightarrow> uv_loop \<Rightarrow> hid \<Rightarrow> bool" where
  "timer_frame L' L h \<longleftrightarrow>
     qmem L' = qmem L \<and> closing_handles L' = closing_handles L \<and> time L' = time L \<and>
     stop_flag L' = stop_flag L \<and> fired L' = fired L \<and>
     (\<forall>g. g \<noteq> h \<longrightarrow> handles L' g = handles L g) \<and>
     htype (handles L' h) = htype (handles L h) \<and> next_closing (handles L' h) = next_closing (handles L h) \<and>
     close_cb (handles L' h) = close_cb (handles L h) \<and> watcher_cb (handles L' h) = watcher_cb (handles L h) \<and>
     (\<forall>b. b \<noteq> 14 \<longrightarrow> bit (flags (handles L' h)) b = bit (flags (handles L h)) b)"

lemma timer_frame_refl: "timer_frame L L h"
  by (simp add: timer_frame_def)

lemma timer_frame_trans: "timer_frame L2 L1 h \<Longrightarrow> timer_frame L1 L h \<Longrightarrow> timer_frame L2 L h"
  by (simp add: timer_frame_def)

lemma timer_frame_flags:
  "timer_frame L' L h \<Longrightarrow> uv__has_ref L' g = uv__has_ref L g"
  "timer_frame L' L h \<Longrightarrow> g \<noteq> h \<Longrightarrow> uv__is_active L' g = uv__is_active L g"
  by (cases "g = h") (auto simp: timer_frame_def flag_defs)

text \<open>
  \<open>timers_ok L T\<close>: the timer heap is a well-formed heap in expiry order that
  holds exactly the timers \<open>T\<close>, each with a callback.
\<close>

definition timers_ok :: "uv_loop \<Rightarrow> hid set \<Rightarrow> bool" where
  "timers_ok L T \<longleftrightarrow>
     heap_ok (timer_less_than (handles L)) (timer_heap L) T \<and> (\<forall>h\<in>T. timer_cb (handles L h) \<noteq> None)"

lemma timers_ok_cong:
  assumes "timers_ok L T" and "timer_heap L' = timer_heap L"
    and "\<And>h. h \<in> T \<Longrightarrow> timeout (handles L' h) = timeout (handles L h) \<and>
        start_id (handles L' h) = start_id (handles L h) \<and> timer_cb (handles L' h) = timer_cb (handles L h)"
  shows "timers_ok L' T"
proof -
  have "timer_less_than (handles L') x y = timer_less_than (handles L) x y" if "x \<in> T" "y \<in> T" for x y
    using assms(3) [OF that(1)] assms(3) [OF that(2)] by (simp add: timer_less_than_def)
  then have "heap_ok (timer_less_than (handles L')) (timer_heap L') T"
    using assms(1,2) heap_ok_cong [of "timer_less_than (handles L)" "timer_heap L" T] by (auto simp: timers_ok_def)
  with assms(1,3) show ?thesis by (simp add: timers_ok_def)
qed

definition same_timer :: "uv_handle \<Rightarrow> uv_handle \<Rightarrow> bool" where
  "same_timer x y \<longleftrightarrow> timer_cb x = timer_cb y \<and> timeout x = timeout y \<and> repeat x = repeat y \<and> start_id x = start_id y"

lemma uv_timer_stop_spec:
  assumes ok: "timers_ok L T" and act: "h \<in> T \<longleftrightarrow> uv__is_active L h"
  shows "\<exists>L'. uv_timer_stop h L = Some (0, L') \<and> timers_ok L' (T - {h}) \<and> timer_frame L' L h \<and>
    \<not> uv__is_active L' h \<and> same_timer (handles L' h) (handles L h) \<and> timer_counter L' = timer_counter L \<and>
    (\<forall>hs. refcount_ok L hs \<longrightarrow> h \<in> set hs \<longrightarrow> refcount_ok L' hs)"
proof (cases "uv__is_active L h")
  case False
  then show ?thesis
    using ok act by (auto simp: uv_timer_stop_def timer_frame_refl same_timer_def)
next
  case True
  with act have "h \<in> T" by simp
  then obtain H where H: "heap_remove (timer_less_than (handles L)) (Some h) (timer_heap L) = Some H"
    "heap_ok (timer_less_than (handles L)) H (T - {h})"
    using timer_order.heap_remove_correct [of "handles L" "timer_heap L" T h] ok by (auto simp: timers_ok_def)
  let ?L = "L\<lparr>timer_heap := H\<rparr>" and ?L' = "uv__handle_stop h (L\<lparr>timer_heap := H\<rparr>)"
  obtain f where f: "handles ?L' = (handles L)(h := (handles L h)\<lparr>flags := f\<rparr>)" "timer_heap ?L' = H"
      "timer_counter ?L' = timer_counter L" "qmem ?L' = qmem L" "closing_handles ?L' = closing_handles L"
      "time ?L' = time L" "stop_flag ?L' = stop_flag L" "fired ?L' = fired L"
    using handle_macro_flags(2) [of h ?L] by (auto simp: same_but_flags_def)
  have "uv_timer_stop h L = Some (0, ?L')"
    using True H(1) by (simp add: uv_timer_stop_def)
  moreover have "timers_ok ?L' (T - {h})"
  proof (rule timers_ok_cong [of ?L])
    show "timers_ok ?L (T - {h})" using H(2) ok by (simp add: timers_ok_def)
  qed (use f in auto)
  moreover have "timer_frame ?L' L h"
    using f(4-8) f(1) flag_bits_start_stop(2) [of _ h ?L h] by (simp add: timer_frame_def)
  moreover have "\<not> uv__is_active ?L' h" "same_timer (handles ?L' h) (handles L h)"
    using f(1) by (auto simp: same_timer_def)
  moreover have "refcount_ok ?L' hs" if "refcount_ok L hs" "h \<in> set hs" for hs
    using that by (intro refcount_ok_handle_stop)
      (auto simp: refcount_ok_def live_set_def flag_defs)
  ultimately show ?thesis using f(3) by blast
qed
text \<open>The saturating addition of \<open>uv_timer_start\<close>.\<close>

definition clamp_timeout :: "uint64 \<Rightarrow> uint64 \<Rightarrow> uint64" where
  "clamp_timeout now tmo = (if now + tmo < tmo then - 1 else now + tmo)"

lemma unat_clamp_timeout: "unat (clamp_timeout now tmo) = min (unat now + unat tmo) (2 ^ 64 - 1)"
proof -
  have b: "unat now < 2 ^ 64" "unat tmo < 2 ^ 64" by (rule unat_uint64_less)+
  have wrap: "now + tmo < tmo \<longleftrightarrow> 2 ^ 64 \<le> unat now + unat tmo"
    using b by (auto simp: word_less_nat_alt unat_word_ariths mod_if)
  show ?thesis
  proof (cases "2 ^ 64 \<le> unat now + unat tmo")
    case True
    then show ?thesis using wrap by (simp add: clamp_timeout_def unsigned_minus_1_eq_mask mask_eq_exp_minus_1)
  next
    case False
    then have "unat (now + tmo) = unat now + unat tmo" by (simp add: unat_word_ariths)
    with False wrap show ?thesis by (simp add: clamp_timeout_def)
  qed
qed

lemma uv_timer_start_spec:
  assumes ok: "timers_ok L T" and act: "h \<in> T \<longleftrightarrow> uv__is_active L h" and room: "card (T - {h}) + 1 < 2 ^ 32"
  shows "\<exists>L'. uv_timer_start h (Some c) tmo rep L = Some (0, L') \<and> timers_ok L' (insert h T) \<and> timer_frame L' L h \<and>
    uv__is_active L' h \<and> timer_cb (handles L' h) = Some c \<and> timeout (handles L' h) = clamp_timeout (time L) tmo \<and>
    repeat (handles L' h) = rep \<and> start_id (handles L' h) = timer_counter L \<and> timer_counter L' = timer_counter L + 1 \<and>
    (\<forall>hs. length hs < 2 ^ 32 \<longrightarrow> refcount_ok L hs \<longrightarrow> h \<in> set hs \<longrightarrow> refcount_ok L' hs)"
proof -
  obtain L1 where L1: "(if uv__is_active L h then uv_timer_stop h L else Some (0, L)) = Some (0, L1)"
      "timers_ok L1 (T - {h})" "timer_frame L1 L h" "\<not> uv__is_active L1 h" "timer_counter L1 = timer_counter L"
      "\<forall>hs. refcount_ok L hs \<longrightarrow> h \<in> set hs \<longrightarrow> refcount_ok L1 hs"
    using uv_timer_stop_spec [OF ok act] ok act by (cases "uv__is_active L h") (auto simp: timer_frame_refl)
  have tL1: "time L1 = time L" using L1(3) by (simp add: timer_frame_def)
  define L2 where "L2 = (upd_handle h (\<lambda>x. x\<lparr>timer_cb := Some c, timeout := clamp_timeout (time L) tmo,
      repeat := rep, start_id := timer_counter L\<rparr>) L1)\<lparr>timer_counter := timer_counter L + 1\<rparr>"
  have ok2: "timers_ok L2 (T - {h})"
    by (rule timers_ok_cong [OF L1(2)]) (auto simp: L2_def)
  have "unat (nelts (timer_heap L2)) + 1 < 2 ^ 32"
    using heap_ok_size [of "timer_less_than (handles L2)" "timer_heap L2" "T - {h}"] ok2 room
    by (simp add: timers_ok_def)
  then obtain H where H: "heap_insert (timer_less_than (handles L2)) h (timer_heap L2) = Some H"
      "heap_ok (timer_less_than (handles L2)) H (insert h (T - {h}))"
    using timer_order.heap_insert_correct [of "handles L2" "timer_heap L2" "T - {h}" h] ok2
    by (auto simp: timers_ok_def)
  let ?L3 = "L2\<lparr>timer_heap := H\<rparr>" and ?L' = "uv__handle_start h (L2\<lparr>timer_heap := H\<rparr>)"
  obtain f where f: "handles ?L' = (handles L2)(h := (handles L2 h)\<lparr>flags := f\<rparr>)" "timer_heap ?L' = H"
      "timer_counter ?L' = timer_counter L2" "qmem ?L' = qmem L2" "closing_handles ?L' = closing_handles L2"
      "time ?L' = time L2" "stop_flag ?L' = stop_flag L2" "fired ?L' = fired L2"
    using handle_macro_flags(1) [of h ?L3] by (auto simp: same_but_flags_def)
  have run: "uv_timer_start h (Some c) tmo rep L = Some (0, ?L')"
    using L1(1,5) H(1) tL1
    by (simp add: uv_timer_start_def clamp_timeout_def L2_def upd_handle_def Let_def cong: if_cong)
  have ok': "timers_ok ?L' (insert h T)"
  proof (rule timers_ok_cong [of ?L3])
    show "timers_ok ?L3 (insert h T)"
      using H(2) ok2 by (auto simp: timers_ok_def L2_def)
  qed (use f in auto)
  have "timer_frame L2 L1 h"
    by (auto simp: L2_def timer_frame_def)
  moreover have "timer_frame ?L' L2 h"
    using f(4-8) f(1) flag_bits_start_stop(1) [of _ h ?L3 h] by (simp add: timer_frame_def)
  ultimately have fr: "timer_frame ?L' L h" using L1(3) timer_frame_trans by blast
  have "refcount_ok ?L' hs" if "length hs < 2 ^ 32" "refcount_ok L hs" "h \<in> set hs" for hs
  proof (rule refcount_ok_handle_start [OF _ that(1,3)])
    have "refcount_ok L1 hs" using L1(6) that by blast
    then show "refcount_ok ?L3 hs" by (rule refcount_ok_cong) (auto simp: flag_defs L2_def)
  qed
  with run ok' fr show ?thesis using f by (auto simp: L2_def)
qed

lemma uv_timer_start_null: "uv_timer_start h None tmo rep L = Some (- EINVAL, L)"
  by (simp add: uv_timer_start_def)

lemma uv_timer_again_spec:
  assumes ok: "timers_ok L T" and act: "h \<in> T \<longleftrightarrow> uv__is_active L h" and room: "card (T - {h}) + 1 < 2 ^ 32"
    and cb: "timer_cb (handles L h) = Some c"
  shows "\<exists>L'. uv_timer_again h L = Some (0, L') \<and> timer_frame L' L h \<and> timer_cb (handles L' h) = Some c \<and>
    repeat (handles L' h) = repeat (handles L h) \<and>
    (if repeat (handles L h) = 0 then L' = L
     else timers_ok L' (insert h T) \<and> uv__is_active L' h \<and>
       timeout (handles L' h) = clamp_timeout (time L) (repeat (handles L h)) \<and> start_id (handles L' h) = timer_counter L) \<and>
    (\<forall>hs. length hs < 2 ^ 32 \<longrightarrow> refcount_ok L hs \<longrightarrow> h \<in> set hs \<longrightarrow> refcount_ok L' hs)"
proof (cases "repeat (handles L h) = 0")
  case True
  then show ?thesis using cb by (auto simp: uv_timer_again_def timer_frame_refl)
next
  case False
  obtain L1 where L1: "uv_timer_stop h L = Some (0, L1)" "timers_ok L1 (T - {h})" "timer_frame L1 L h"
      "\<not> uv__is_active L1 h" "same_timer (handles L1 h) (handles L h)" "timer_counter L1 = timer_counter L"
      "\<forall>hs. refcount_ok L hs \<longrightarrow> h \<in> set hs \<longrightarrow> refcount_ok L1 hs"
    using uv_timer_stop_spec [OF ok act] by blast
  let ?r = "repeat (handles L h)"
  have t1: "time L1 = time L" using L1(3) by (simp add: timer_frame_def)
  obtain L2 where L2: "uv_timer_start h (Some c) ?r ?r L1 = Some (0, L2)" "timers_ok L2 (insert h (T - {h}))"
      "timer_frame L2 L1 h" "uv__is_active L2 h" "timer_cb (handles L2 h) = Some c"
      "timeout (handles L2 h) = clamp_timeout (time L1) ?r" "repeat (handles L2 h) = ?r"
      "start_id (handles L2 h) = timer_counter L1"
      "\<forall>hs. length hs < 2 ^ 32 \<longrightarrow> refcount_ok L1 hs \<longrightarrow> h \<in> set hs \<longrightarrow> refcount_ok L2 hs"
    using uv_timer_start_spec [OF L1(2), of h c ?r ?r] L1(4) room by auto
  have "uv_timer_again h L = Some (0, L2)"
    using False cb L1(1,5) L2(1) by (simp add: uv_timer_again_def same_timer_def)
  then show ?thesis
    using False L1 L2 t1 timer_frame_trans by auto
qed

section \<open>The time to the next timer\<close>

text \<open>The root of the heap is the active timer that expires first.\<close>

lemma timers_ok_min:
  assumes "timers_ok L T"
  shows "heap_min (timer_heap L) = None \<longleftrightarrow> T = {}"
    and "heap_min (timer_heap L) = Some h \<Longrightarrow> h \<in> T \<and> (\<forall>g\<in>T. timer_key (handles L) h \<le> timer_key (handles L) g)"
  using assms timer_order.heap_min_least [of "handles L" "timer_heap L" T]
  by (auto simp: timers_ok_def timer_less_than_key not_less)

lemma timer_key_le_timeout:
  assumes "timer_key hs h \<le> timer_key hs g"
  shows "timeout (hs h) \<le> timeout (hs g)"
proof (rule ccontr)
  assume "\<not> timeout (hs h) \<le> timeout (hs g)"
  then have "timeout (hs g) < timeout (hs h)" by (simp add: not_le)
  then have "timer_less_than hs g h" by (simp add: timer_less_than_def)
  with assms show False by (simp add: timer_less_than_key)
qed
definition ms_until :: "uv_loop \<Rightarrow> hid \<Rightarrow> int" where
  "ms_until L h = min 2147483647 (max 0 (uint (timeout (handles L h)) - uint (time L)))"

lemma uv__next_timeout_min:
  assumes ok: "timers_ok L T"
  shows "uv__next_timeout L = (if T = {} then - 1 else Min (ms_until L ` T))"
proof (cases "heap_min (timer_heap L)")
  case None
  with timers_ok_min(1) [OF ok] show ?thesis by (simp add: uv__next_timeout_def)
next
  case (Some h)
  with timers_ok_min [OF ok] have T: "T \<noteq> {}" and h: "h \<in> T" and
    least: "\<And>g. g \<in> T \<Longrightarrow> timeout (handles L h) \<le> timeout (handles L g)"
    by (auto intro: timer_key_le_timeout)
  have fin: "finite T" using ok heap_ok_finite by (auto simp: timers_ok_def)
  have nt: "uv__next_timeout L = ms_until L h"
  proof (cases "timeout (handles L h) \<le> time L")
    case True
    then show ?thesis using Some by (simp add: uv__next_timeout_def ms_until_def word_le_def)
  next
    case False
    then have lt: "time L < timeout (handles L h)" by simp
    then have d: "uint (timeout (handles L h) - time L) = uint (timeout (handles L h)) - uint (time L)"
      by (metis order_less_imp_le uint_minus_simple_alt)
    show ?thesis using Some False lt
      by (auto simp: uv__next_timeout_def ms_until_def word_less_def d Let_def)
  qed
  have "Min (ms_until L ` T) = ms_until L h"
  proof (rule Min_eqI)
    fix y assume "y \<in> ms_until L ` T"
    then obtain g where g: "g \<in> T" "y = ms_until L g" by auto
    with least [OF g(1)] show "ms_until L h \<le> y" by (auto simp: ms_until_def word_le_def)
  qed (use fin h in auto)
  with T nt show ?thesis by simp
qed

section \<open>Running the due timers\<close>

definition due :: "uv_loop \<Rightarrow> hid set \<Rightarrow> hid set" where
  "due L T = {h \<in> T. timeout (handles L h) \<le> time L}"

text \<open>Callbacks that return and leave the handles, the timers, the clock and the log of calls alone.\<close>

definition timer_quiet :: "callback \<Rightarrow> bool" where
  "timer_quiet cb \<longleftrightarrow> (\<forall>c h L. \<exists>L'. cb c h L = Some L' \<and> handles L' = handles L \<and>
     timer_heap L' = timer_heap L \<and> time L' = time L \<and> timer_counter L' = timer_counter L \<and> fired L' = fired L)"

text \<open>Callbacks that leave the number of active handles alone keep it right.\<close>

definition keeps_refcount :: "callback \<Rightarrow> uv_loop \<Rightarrow> uv_loop \<Rightarrow> hid set \<Rightarrow> bool" where
  "keeps_refcount cb L' L T \<longleftrightarrow>
     ((\<forall>c h K K'. cb c h K = Some K' \<longrightarrow> active_handles K' = active_handles K) \<longrightarrow>
      (\<forall>hs. length hs < 2 ^ 32 \<longrightarrow> T \<subseteq> set hs \<longrightarrow> refcount_ok L hs \<longrightarrow> refcount_ok L' hs))"

lemma keeps_refcount_step:
  assumes "keeps_refcount cb K L {h}" and "keeps_refcount cb M K (D - {h})" and "h \<in> D"
  shows "keeps_refcount cb M L D"
proof -
  have "refcount_ok M hs" if "\<forall>c h K K'. cb c h K = Some K' \<longrightarrow> active_handles K' = active_handles K"
      "length hs < 2 ^ 32" "D \<subseteq> set hs" "refcount_ok L hs" for hs
  proof -
    have "{h} \<subseteq> set hs" "D - {h} \<subseteq> set hs" using that(3) assms(3) by auto
    then show ?thesis using assms(1,2) that(1,2,4) unfolding keeps_refcount_def by simp
  qed
  then show ?thesis unfolding keeps_refcount_def by simp
qed

lemma timers_ok_room: "timers_ok L T \<Longrightarrow> h \<in> T \<Longrightarrow> card (T - {h}) + 1 < 2 ^ 32"
proof -
  assume ok: "timers_ok L T" and hT: "h \<in> T"
  have "card T = unat (nelts (timer_heap L))" and fin: "finite T"
    using heap_ok_size [of "timer_less_than (handles L)" "timer_heap L" T]
      heap_ok_finite [of "timer_less_than (handles L)" "timer_heap L" T] ok by (auto simp: timers_ok_def)
  moreover have "card (T - {h}) + 1 = card T" using card.remove [OF fin hT] by linarith
  ultimately show ?thesis using unsigned_less [of "nelts (timer_heap L)"] by simp
qed

lemma clamp_timeout_later: "now < - 1 \<Longrightarrow> r \<noteq> 0 \<Longrightarrow> now < clamp_timeout now r"
proof -
  assume "now < - 1" "r \<noteq> 0"
  then have "unat r > 0" "unat now < 2 ^ 64 - 1"
    by (simp_all add: unat_gt_0 word_less_nat_alt unsigned_minus_1_eq_mask mask_eq_exp_minus_1)
  then have "unat now < unat (clamp_timeout now r)" by (simp add: unat_clamp_timeout)
  then show ?thesis by (simp add: word_less_nat_alt)
qed

text \<open>
  Callbacks that use timers. \<open>timers_of D L T\<close>: of the timers \<open>D\<close> of the program the active ones are \<open>T\<close>, and these are in the heap.
  \<open>timer_tame D P cb\<close>: a call returns, leaves the clock alone, may start, stop and restart the timers \<open>P\<close>, but makes none of them
  expire at once (one that is due after the call was due before and has not been touched); the timers outside \<open>P\<close> are as they were.
\<close>

definition timers_of :: "hid set \<Rightarrow> uv_loop \<Rightarrow> hid set \<Rightarrow> bool" where
  "timers_of D L T \<longleftrightarrow> timers_ok L T \<and> T \<subseteq> D \<and> (\<forall>g\<in>D. g \<in> T \<longleftrightarrow> uv__is_active L g)"

definition timer_tame :: "hid set \<Rightarrow> hid set \<Rightarrow> callback \<Rightarrow> bool" where
  "timer_tame D P cb \<longleftrightarrow> (\<forall>c h L T. timers_of D L T \<and> time L < - 1 \<longrightarrow>
     (\<exists>L' T'. cb c h L = Some L' \<and> timers_of D L' T' \<and> time L' = time L \<and> fired L' = fired L \<and>
        (\<forall>g\<in>due L' T'. g \<in> T \<and> same_timer (handles L' g) (handles L g)) \<and>
        (\<forall>g\<in>D - P. (g \<in> T' \<longleftrightarrow> g \<in> T) \<and> same_timer (handles L' g) (handles L g))))"

lemma timer_tameD:
  assumes "timer_tame D P cb" and "timers_of D L T" and "time L < - 1"
  obtains L' T' where "cb c h L = Some L'" "timers_of D L' T'" "time L' = time L" "fired L' = fired L"
    "\<forall>g\<in>due L' T'. g \<in> T \<and> same_timer (handles L' g) (handles L g)"
    "\<forall>g\<in>D - P. (g \<in> T' \<longleftrightarrow> g \<in> T) \<and> same_timer (handles L' g) (handles L g)"
  using assms unfolding timer_tame_def by blast

lemma timer_quietD:
  assumes "timer_quiet cb"
  obtains L' where "cb c h L = Some L'" "handles L' = handles L" "timer_heap L' = timer_heap L" "time L' = time L"
    "timer_counter L' = timer_counter L" "fired L' = fired L"
  using assms unfolding timer_quiet_def by blast

lemma timers_of_cong:
  assumes "timers_of D L T" and "handles L' = handles L" and "timer_heap L' = timer_heap L"
  shows "timers_of D L' T"
proof -
  have "timers_ok L' T" by (rule timers_ok_cong [of L]) (use assms in \<open>simp_all add: timers_of_def\<close>)
  then show ?thesis using assms by (simp add: timers_of_def flag_defs)
qed

lemma due_cong: "handles L' = handles L \<Longrightarrow> time L' = time L \<Longrightarrow> due L' T = due L T"
  by (simp add: due_def)

lemma timer_quiet_tame: "timer_quiet cb \<Longrightarrow> timer_tame D P cb"
proof -
  assume q: "timer_quiet cb"
  have "\<exists>L' T'. cb c h L = Some L' \<and> timers_of D L' T' \<and> time L' = time L \<and> fired L' = fired L \<and>
      (\<forall>g\<in>due L' T'. g \<in> T \<and> same_timer (handles L' g) (handles L g)) \<and>
      (\<forall>g\<in>D - P. (g \<in> T' \<longleftrightarrow> g \<in> T) \<and> same_timer (handles L' g) (handles L g))" if "timers_of D L T" for c h L T
  proof -
    obtain L' where L': "cb c h L = Some L'" "handles L' = handles L" "timer_heap L' = timer_heap L" "time L' = time L"
        "fired L' = fired L" using timer_quietD [OF q] by blast
    have "(\<forall>g\<in>due L' T. g \<in> T \<and> same_timer (handles L' g) (handles L g)) \<and>
        (\<forall>g\<in>D - P. (g \<in> T \<longleftrightarrow> g \<in> T) \<and> same_timer (handles L' g) (handles L g))"
      by (simp add: L'(2) due_def same_timer_def)
    then show ?thesis using L' timers_of_cong [OF that L'(2,3)] by blast
  qed
  then show ?thesis unfolding timer_tame_def by blast
qed

text \<open>
  One round before its callback: the first timer is stopped and restarted if it repeats, from the loop's time; it is not
  due any more, and the others are as they were.
\<close>

lemma run_timers_first:
  assumes T: "timers_of D L T" and h: "heap_min (timer_heap L) = Some h" and now: "time L < - 1"
  obtains L1 L' c where "timers_of D L' (if repeat (handles L h) = 0 then T - {h} else T)" and "timer_cb (handles L h) = Some c"
    and "uv_timer_stop h L = Some (0, L1) \<and> uv_timer_again h L1 = Some (0, L') \<and> timer_cb (handles L' h) = Some c"
    and "time L' = time L" and "fired L' = fired L" and "\<forall>g. g \<noteq> h \<longrightarrow> handles L' g = handles L g"
    and "repeat (handles L h) \<noteq> 0 \<longrightarrow> time L < timeout (handles L' h) \<and>
       timeout (handles L' h) = clamp_timeout (time L) (repeat (handles L h))"
    and "\<forall>hs. length hs < 2 ^ 32 \<longrightarrow> refcount_ok L hs \<longrightarrow> h \<in> set hs \<longrightarrow> refcount_ok L' hs"
proof -
  have ok: "timers_ok L T" and TD: "T \<subseteq> D" and act: "\<forall>g\<in>D. g \<in> T \<longleftrightarrow> uv__is_active L g" using T by (simp_all add: timers_of_def)
  have hT: "h \<in> T" using timers_ok_min(2) [OF ok h] by simp
  obtain c where c: "timer_cb (handles L h) = Some c" using ok hT by (auto simp: timers_ok_def)
  have ha: "h \<in> T \<longleftrightarrow> uv__is_active L h" using act hT TD by auto
  obtain L1 where L1: "uv_timer_stop h L = Some (0, L1)" "timers_ok L1 (T - {h})" "timer_frame L1 L h"
      "\<not> uv__is_active L1 h" "same_timer (handles L1 h) (handles L h)"
      "\<forall>hs. refcount_ok L hs \<longrightarrow> h \<in> set hs \<longrightarrow> refcount_ok L1 hs"
    using uv_timer_stop_spec [OF ok ha] by blast
  have room: "card (T - {h} - {h}) + 1 < 2 ^ 32" using timers_ok_room [OF ok hT] by simp
  have c1: "timer_cb (handles L1 h) = Some c" and r1: "repeat (handles L1 h) = repeat (handles L h)"
    and t1: "time L1 = time L" using L1(3,5) c by (simp_all add: same_timer_def timer_frame_def)
  obtain L2 where L2: "uv_timer_again h L1 = Some (0, L2)" "timer_frame L2 L1 h" "timer_cb (handles L2 h) = Some c"
      "if repeat (handles L1 h) = 0 then L2 = L1
       else timers_ok L2 (insert h (T - {h})) \<and> uv__is_active L2 h \<and>
         timeout (handles L2 h) = clamp_timeout (time L1) (repeat (handles L1 h)) \<and> start_id (handles L2 h) = timer_counter L1"
      "\<forall>hs. length hs < 2 ^ 32 \<longrightarrow> refcount_ok L1 hs \<longrightarrow> h \<in> set hs \<longrightarrow> refcount_ok L2 hs"
    using uv_timer_again_spec [OF L1(2) _ room c1] L1(4) by auto
  have fr: "timer_frame L2 L h" using L1(3) L2(2) timer_frame_trans by blast
  let ?T = "if repeat (handles L h) = 0 then T - {h} else T"
  have ok2: "timers_ok L2 ?T" using L1(2) L2(4) r1 hT by (auto simp: insert_absorb split: if_splits)
  have "g \<in> ?T \<longleftrightarrow> uv__is_active L2 g" if "g \<in> D" for g
  proof (cases "g = h")
    case True
    then show ?thesis using L1(4) L2(4) r1 hT by (auto split: if_splits)
  next
    case False
    then show ?thesis using act that timer_frame_flags(2) [OF fr False] by simp
  qed
  then have of: "timers_of D L2 ?T" using ok2 TD by (auto simp: timers_of_def)
  have later: "time L < timeout (handles L2 h) \<and> timeout (handles L2 h) = clamp_timeout (time L) (repeat (handles L h))"
    if "repeat (handles L h) \<noteq> 0"
    using clamp_timeout_later [OF now that] L2(4) that r1 t1 by simp
  have rest: "time L2 = time L" "fired L2 = fired L" "\<forall>g. g \<noteq> h \<longrightarrow> handles L2 g = handles L g"
    using fr by (simp_all add: timer_frame_def)
  have count: "refcount_ok L2 hs" if "length hs < 2 ^ 32" "refcount_ok L hs" "h \<in> set hs" for hs
    using L1(6) L2(5) that by blast
  show ?thesis by (rule that [OF of c, of L1]) (use L1(1) L2(1,3) rest later count in blast)+
qed

lemma run_timers_step:
  assumes "heap_min (timer_heap L) = Some h" and "timeout (handles L h) \<le> time L"
    and "uv_timer_stop h L = Some (0, L1) \<and> uv_timer_again h L1 = Some (0, L2) \<and> timer_cb (handles L2 h) = Some c"
  shows "uv__run_timers cb L = Option.bind (cb c h (L2\<lparr>fired := fired L2 @ [(c, h)]\<rparr>)) (uv__run_timers cb)"
  using assms by (subst uv__run_timers.simps) (simp add: call_cb_def leD)

text \<open>A round with a callback that leaves the timers alone.\<close>

lemma run_timers_round:
  assumes ok: "timers_ok L T" and act: "\<forall>g\<in>T. uv__is_active L g"
    and h: "heap_min (timer_heap L) = Some h" and d: "timeout (handles L h) \<le> time L"
    and q: "timer_quiet cb" and now: "time L < - 1"
  shows "\<exists>L' T' c. uv__run_timers cb L = uv__run_timers cb L' \<and> timers_ok L' T' \<and> (\<forall>g\<in>T'. uv__is_active L' g) \<and>
    due L' T' = due L T - {h} \<and> time L' = time L \<and> fired L' = fired L @ [(c, h)] \<and> timer_cb (handles L h) = Some c \<and>
    (\<forall>g. g \<noteq> h \<longrightarrow> handles L' g = handles L g) \<and>
    T' = (if repeat (handles L h) = 0 then T - {h} else T) \<and>
    (repeat (handles L h) = 0 \<longrightarrow> \<not> uv__is_active L' h) \<and> keeps_refcount cb L' L {h} \<and>
    (repeat (handles L h) \<noteq> 0 \<longrightarrow> timeout (handles L' h) = clamp_timeout (time L) (repeat (handles L h)))"
proof -
  have hT: "h \<in> T" using timers_ok_min(2) [OF ok h] by simp
  have T: "timers_of T L T" using ok act by (simp add: timers_of_def)
  let ?T = "if repeat (handles L h) = 0 then T - {h} else T"
  obtain L1 L2 c where L2: "timers_of T L2 ?T" "timer_cb (handles L h) = Some c"
      "uv_timer_stop h L = Some (0, L1) \<and> uv_timer_again h L1 = Some (0, L2) \<and> timer_cb (handles L2 h) = Some c"
      "time L2 = time L" "fired L2 = fired L" "\<forall>g. g \<noteq> h \<longrightarrow> handles L2 g = handles L g"
      "repeat (handles L h) \<noteq> 0 \<longrightarrow> time L < timeout (handles L2 h) \<and>
         timeout (handles L2 h) = clamp_timeout (time L) (repeat (handles L h))"
      "\<forall>hs. length hs < 2 ^ 32 \<longrightarrow> refcount_ok L hs \<longrightarrow> h \<in> set hs \<longrightarrow> refcount_ok L2 hs"
    by (rule run_timers_first [OF T h now])
  let ?L2 = "L2\<lparr>fired := fired L2 @ [(c, h)]\<rparr>"
  obtain L3 where L3: "cb c h ?L2 = Some L3" "handles L3 = handles L2" "timer_heap L3 = timer_heap L2"
      "time L3 = time L2" "fired L3 = fired L2 @ [(c, h)]"
    using timer_quietD [OF q, of c h ?L2] by auto
  have of3: "timers_of T L3 ?T" by (rule timers_of_cong [OF L2(1) L3(2,3)])
  then have "timers_ok L3 ?T" "\<forall>g\<in>?T. uv__is_active L3 g" "repeat (handles L h) = 0 \<longrightarrow> \<not> uv__is_active L3 h"
    using hT by (auto simp: timers_of_def split: if_splits)
  moreover have run: "uv__run_timers cb L = uv__run_timers cb L3" using run_timers_step [OF h d L2(3)] L3(1) by simp
  moreover have "x \<in> due L3 ?T \<longleftrightarrow> x \<in> due L T - {h}" for x
    using L2(4,6,7) L3(2,4) hT by (cases "x = h") (auto simp: due_def not_le)
  then have "due L3 ?T = due L T - {h}" by blast
  moreover have "refcount_ok L3 hs" if "\<forall>c h K K'. cb c h K = Some K' \<longrightarrow> active_handles K' = active_handles K"
      "length hs < 2 ^ 32" "h \<in> set hs" "refcount_ok L hs" for hs
  proof -
    have "active_handles L3 = active_handles L2" using that(1) L3(1) by fastforce
    with L2(8) [rule_format, OF that(2,4,3)] show ?thesis by (rule refcount_ok_cong) (simp add: flag_defs L3(2))
  qed
  then have "keeps_refcount cb L3 L {h}" by (auto simp: keeps_refcount_def)
  ultimately show ?thesis using L2 L3 by (intro exI [of _ L3] exI [of _ ?T] exI [of _ c]) simp
qed

text \<open>No timer due: nothing is called.\<close>

lemma run_timers_none:
  assumes ok: "timers_ok L T" and none: "due L T = {}"
  shows "uv__run_timers cb L = Some L"
proof (cases "heap_min (timer_heap L)")
  case (Some h)
  with timers_ok_min(2) [OF ok] none have "\<not> timeout (handles L h) \<le> time L" by (auto simp: due_def)
  with Some show ?thesis by (subst uv__run_timers.simps) (simp add: not_le)
qed (subst uv__run_timers.simps, simp)

text \<open>With a timer due, the first of the heap is due, and none has a smaller key.\<close>

lemma due_first:
  assumes "timers_ok L T" and "due L T \<noteq> {}"
  obtains h where "heap_min (timer_heap L) = Some h" and "h \<in> due L T"
    and "\<And>x. x \<in> T \<Longrightarrow> timer_key (handles L) h \<le> timer_key (handles L) x"
proof -
  obtain g where g: "g \<in> T" "timeout (handles L g) \<le> time L" using assms(2) by (auto simp: due_def)
  then obtain h where h: "heap_min (timer_heap L) = Some h" "h \<in> T"
      and least: "\<And>x. x \<in> T \<Longrightarrow> timer_key (handles L) h \<le> timer_key (handles L) x"
    using timers_ok_min [OF assms(1)] by (cases "heap_min (timer_heap L)") auto
  have "timeout (handles L h) \<le> time L" using timer_key_le_timeout [OF least [OF g(1)]] g(2) by simp
  then show ?thesis using h least by (intro that [of h]) (auto simp: due_def)
qed

text \<open>
  How a timer that the callbacks leave alone comes out of a run: due and not repeating it is stopped, due and repeating it is
  active again from the loop's time on, and not due it is as it was.
\<close>

definition run_outcome :: "uv_loop \<Rightarrow> hid set \<Rightarrow> uv_loop \<Rightarrow> hid set \<Rightarrow> hid \<Rightarrow> bool" where
  "run_outcome L T L' T' g \<longleftrightarrow>
     (if g \<in> due L T
      then (g \<in> T' \<longleftrightarrow> repeat (handles L g) \<noteq> 0) \<and>
        (g \<in> T' \<longrightarrow> timeout (handles L' g) = clamp_timeout (time L) (repeat (handles L g)))
      else (g \<in> T' \<longleftrightarrow> g \<in> T) \<and> same_timer (handles L' g) (handles L g))"

text \<open>A round with a tame callback makes no timer due and leaves the first one not due.\<close>

lemma run_timers_tame_round:
  assumes tame: "timer_tame D P cb" and T: "timers_of D L T" and now: "time L < - 1"
    and h: "heap_min (timer_heap L) = Some h" and d: "h \<in> due L T"
  obtains L' T' c where "uv__run_timers cb L = uv__run_timers cb L'" and "timers_of D L' T'" and "time L' = time L"
    and "fired L' = fired L @ [(c, h)]" and "timer_cb (handles L h) = Some c"
    and "\<forall>g\<in>due L' T'. g \<in> due L T - {h} \<and> same_timer (handles L' g) (handles L g)"
    and "\<forall>g\<in>D - P - {h}. (g \<in> T' \<longleftrightarrow> g \<in> T) \<and> same_timer (handles L' g) (handles L g)"
    and "h \<notin> P \<longrightarrow> run_outcome L T L' T' h"
proof -
  let ?T = "if repeat (handles L h) = 0 then T - {h} else T"
  obtain L1 L2 c where L2: "timers_of D L2 ?T" "timer_cb (handles L h) = Some c"
      "uv_timer_stop h L = Some (0, L1) \<and> uv_timer_again h L1 = Some (0, L2) \<and> timer_cb (handles L2 h) = Some c"
      "time L2 = time L" "fired L2 = fired L" "\<forall>g. g \<noteq> h \<longrightarrow> handles L2 g = handles L g"
      "repeat (handles L h) \<noteq> 0 \<longrightarrow> time L < timeout (handles L2 h) \<and>
         timeout (handles L2 h) = clamp_timeout (time L) (repeat (handles L h))"
    by (rule run_timers_first [OF T h now])
  let ?L2 = "L2\<lparr>fired := fired L2 @ [(c, h)]\<rparr>"
  have T2: "timers_of D ?L2 ?T" and now2: "time ?L2 < - 1"
    using timers_of_cong [OF L2(1), of ?L2] L2(4) now by simp_all
  obtain L' T' where L': "cb c h ?L2 = Some L'" "timers_of D L' T'" "time L' = time ?L2" "fired L' = fired ?L2"
      "\<forall>g\<in>due L' T'. g \<in> ?T \<and> same_timer (handles L' g) (handles ?L2 g)"
      "\<forall>g\<in>D - P. (g \<in> T' \<longleftrightarrow> g \<in> ?T) \<and> same_timer (handles L' g) (handles ?L2 g)"
    by (rule timer_tameD [OF tame T2 now2])
  have g: "g \<in> due L T - {h} \<and> same_timer (handles L' g) (handles L g)" if "g \<in> due L' T'" for g
  proof -
    have s: "g \<in> ?T" "same_timer (handles L' g) (handles L2 g)" using L'(5) that by auto
    have t: "timeout (handles L2 g) \<le> time L" using that s(2) L'(3) L2(4) by (simp add: due_def same_timer_def)
    have "g \<noteq> h" using s(1) t L2(7) by (auto simp: not_le [symmetric] split: if_splits)
    then show ?thesis using s t L2(6) by (auto simp: due_def split: if_splits)
  qed
  have o: "(g \<in> T' \<longleftrightarrow> g \<in> T) \<and> same_timer (handles L' g) (handles L g)" if "g \<in> D - P - {h}" for g
    using L'(6) [rule_format, of g] L2(6) that by (simp split: if_splits)
  have "h \<in> D" "h \<in> T" using d T by (auto simp: due_def timers_of_def)
  then have out: "h \<notin> P \<longrightarrow> run_outcome L T L' T' h"
    using L'(6) [rule_format, of h] L2(7) d by (auto simp: run_outcome_def same_timer_def split: if_splits)
  have "uv__run_timers cb L = uv__run_timers cb L'" using run_timers_step [OF h _ L2(3)] d L'(1) by (simp add: due_def)
  then show ?thesis by (rule that [of L' T' c]) (use L'(2-4) L2(2,4,5) g o out in auto)
qed

lemma run_outcome_trans:
  assumes "\<forall>g\<in>due L1 T1. g \<in> due L T - {h} \<and> same_timer (handles L1 g) (handles L g)"
    and "g \<noteq> h \<longrightarrow> (g \<in> T1 \<longleftrightarrow> g \<in> T) \<and> same_timer (handles L1 g) (handles L g)"
    and "g = h \<longrightarrow> run_outcome L T L1 T1 h" and "h \<in> due L T" and "time L1 = time L" and "run_outcome L1 T1 L' T' g"
  shows "run_outcome L T L' T' g"
proof (cases "g = h")
  case True
  have "h \<notin> due L1 T1" using assms(1) by blast
  then show ?thesis using assms(3,4,6) True by (auto simp: run_outcome_def same_timer_def)
next
  case False
  then have s: "g \<in> T1 \<longleftrightarrow> g \<in> T" "same_timer (handles L1 g) (handles L g)" using assms(2) by simp_all
  then have "g \<in> due L1 T1 \<longleftrightarrow> g \<in> due L T" using assms(5) by (simp add: due_def same_timer_def)
  then show ?thesis using assms(5,6) s by (simp add: run_outcome_def same_timer_def split: if_splits)
qed

lemma run_timers_tame:
  assumes tame: "timer_tame D P cb" and "timers_of D L T" and "time L < - 1"
  shows "\<exists>L' T' xs. uv__run_timers cb L = Some L' \<and> timers_of D L' T' \<and> due L' T' = {} \<and> time L' = time L \<and>
    distinct xs \<and> set xs \<subseteq> due L T \<and> due L T - P \<subseteq> set xs \<and> sorted (map (timer_key (handles L)) xs) \<and>
    fired L' = fired L @ map (\<lambda>h. (the (timer_cb (handles L h)), h)) xs \<and> (\<forall>g\<in>D - P. run_outcome L T L' T' g)"
  using assms(2,3)
proof (induction "card (due L T)" arbitrary: L T rule: less_induct)
  case less
  have ok: "timers_ok L T" and TD: "T \<subseteq> D" using less.prems(1) by (simp_all add: timers_of_def)
  then have "finite T" using heap_ok_finite by (auto simp: timers_ok_def)
  then have fin: "finite (due L T)" by (simp add: due_def)
  show ?case
  proof (cases "due L T = {}")
    case True
    then show ?thesis using run_timers_none [OF ok True] less.prems(1)
      by (intro exI [of _ L] exI [of _ T] exI [of _ "[]"]) (simp add: run_outcome_def same_timer_def)
  next
    case False
    obtain h where h: "heap_min (timer_heap L) = Some h" "h \<in> due L T"
        "\<And>x. x \<in> T \<Longrightarrow> timer_key (handles L) h \<le> timer_key (handles L) x"
      using due_first [OF ok False] by blast
    obtain L1 T1 c where r: "uv__run_timers cb L = uv__run_timers cb L1" "timers_of D L1 T1" "time L1 = time L"
        "fired L1 = fired L @ [(c, h)]" "timer_cb (handles L h) = Some c"
        "\<forall>g\<in>due L1 T1. g \<in> due L T - {h} \<and> same_timer (handles L1 g) (handles L g)"
        "\<forall>g\<in>D - P - {h}. (g \<in> T1 \<longleftrightarrow> g \<in> T) \<and> same_timer (handles L1 g) (handles L g)"
        "h \<notin> P \<longrightarrow> run_outcome L T L1 T1 h"
      by (rule run_timers_tame_round [OF tame less.prems h(1,2)])
    have smaller: "card (due L1 T1) < card (due L T)" using fin h(2) r(6) by (intro psubset_card_mono) auto
    have now1: "time L1 < - 1" using r(3) less.prems(2) by simp
    obtain L' T' xs where IH: "uv__run_timers cb L1 = Some L'" "timers_of D L' T'" "due L' T' = {}" "time L' = time L1"
        "distinct xs" "set xs \<subseteq> due L1 T1" "due L1 T1 - P \<subseteq> set xs" "sorted (map (timer_key (handles L1)) xs)"
        "fired L' = fired L1 @ map (\<lambda>h. (the (timer_cb (handles L1 h)), h)) xs" "\<forall>g\<in>D - P. run_outcome L1 T1 L' T' g"
      using less.hyps [OF smaller r(2) now1] by blast
    have xs: "x \<in> due L T" "x \<noteq> h" "same_timer (handles L1 x) (handles L x)" if "x \<in> set xs" for x
      using IH(6) r(6) that by auto
    have keys: "map (timer_key (handles L1)) xs = map (timer_key (handles L)) xs"
      using xs(3) by (auto simp: timer_key_def same_timer_def)
    have "sorted (map (timer_key (handles L)) (h # xs))"
      using IH(8) h(3) keys xs(1) by (auto simp: due_def)
    moreover have "fired L' = fired L @ map (\<lambda>h. (the (timer_cb (handles L h)), h)) (h # xs)"
      using IH(9) r(4,5) xs(3) by (auto simp: same_timer_def)
    moreover have "distinct (h # xs)" "set (h # xs) \<subseteq> due L T" using IH(5) xs(1,2) h(2) by auto
    moreover have "g \<in> set (h # xs)" if g: "g \<in> due L T - P" for g
    proof (cases "g = h")
      case False
      then have "g \<in> due L1 T1 - P" using g TD r(3,7) by (auto simp: due_def same_timer_def)
      then show ?thesis using IH(7) by auto
    qed simp
    then have "due L T - P \<subseteq> set (h # xs)" by blast
    moreover have "run_outcome L T L' T' g" if g: "g \<in> D - P" for g
    proof (rule run_outcome_trans [OF r(6) _ _ h(2) r(3)])
      show "g \<noteq> h \<longrightarrow> (g \<in> T1 \<longleftrightarrow> g \<in> T) \<and> same_timer (handles L1 g) (handles L g)" using r(7) g by blast
      show "g = h \<longrightarrow> run_outcome L T L1 T1 h" using r(8) g by blast
      show "run_outcome L1 T1 L' T' g" using IH(10) g by blast
    qed
    ultimately show ?thesis using IH(1-4) r(1,3) by (intro exI [of _ L'] exI [of _ T'] exI [of _ "h # xs"]) simp
  qed
qed

lemma run_timers_fires_due:
  assumes "timers_ok L T" and "\<forall>g\<in>T. uv__is_active L g" and "timer_quiet cb" and "time L < - 1"
  shows "\<exists>L' xs. uv__run_timers cb L = Some L' \<and> distinct xs \<and> set xs = due L T \<and>
    sorted (map (timer_key (handles L)) xs) \<and>
    fired L' = fired L @ map (\<lambda>h. (the (timer_cb (handles L h)), h)) xs \<and>
    timers_ok L' (T - {h \<in> due L T. repeat (handles L h) = 0}) \<and>
    (\<forall>g\<in>T - {h \<in> due L T. repeat (handles L h) = 0}. time L' < timeout (handles L' g)) \<and> time L' = time L \<and>
    (\<forall>g. g \<notin> due L T \<longrightarrow> handles L' g = handles L g) \<and>
    (\<forall>g\<in>due L T. repeat (handles L g) = 0 \<longrightarrow> \<not> uv__is_active L' g) \<and> keeps_refcount cb L' L (due L T) \<and>
    (\<forall>g\<in>due L T. repeat (handles L g) \<noteq> 0 \<longrightarrow> timeout (handles L' g) = clamp_timeout (time L) (repeat (handles L g))) \<and>
    (\<forall>g\<in>T - {h \<in> due L T. repeat (handles L h) = 0}. uv__is_active L' g)"
  using assms
proof (induction "card (due L T)" arbitrary: L T)
  case 0
  have "finite T" using 0(2) heap_ok_finite by (auto simp: timers_ok_def)
  with 0(1) have none: "due L T = {}" by (simp add: due_def)
  have "uv__run_timers cb L = Some L" by (rule run_timers_none [OF 0(2) none])
  moreover have "\<forall>g\<in>T. time L < timeout (handles L g)" using none by (auto simp: due_def not_le)
  ultimately show ?case using 0(2,3) by (intro exI [of _ L] exI [of _ "[]"]) (simp add: none keeps_refcount_def)
next
  case (Suc n)
  then have "due L T \<noteq> {}" by auto
  then obtain h where h: "heap_min (timer_heap L) = Some h" and hd: "h \<in> due L T"
      and least: "\<And>x. x \<in> T \<Longrightarrow> timer_key (handles L) h \<le> timer_key (handles L) x"
    using due_first [OF Suc(3)] by blast
  have hT: "h \<in> T" and d: "timeout (handles L h) \<le> time L" using hd by (simp_all add: due_def)
  obtain L1 T1 c where r: "uv__run_timers cb L = uv__run_timers cb L1" "timers_ok L1 T1" "\<forall>g\<in>T1. uv__is_active L1 g"
      "due L1 T1 = due L T - {h}" "time L1 = time L" "fired L1 = fired L @ [(c, h)]" "timer_cb (handles L h) = Some c"
      "\<forall>g. g \<noteq> h \<longrightarrow> handles L1 g = handles L g" "T1 = (if repeat (handles L h) = 0 then T - {h} else T)"
      "repeat (handles L h) = 0 \<longrightarrow> \<not> uv__is_active L1 h" "keeps_refcount cb L1 L {h}"
      "repeat (handles L h) \<noteq> 0 \<longrightarrow> timeout (handles L1 h) = clamp_timeout (time L) (repeat (handles L h))"
    using run_timers_round [OF Suc(3,4) h d Suc(5,6)] by blast
  have n1: "n = card (due L1 T1)"
    using Suc(2) hd r(4) by (metis card_Diff_singleton diff_Suc_1)
  have now1: "time L1 < - 1" using r(5) Suc(6) by simp
  obtain L' xs where IH: "uv__run_timers cb L1 = Some L'" "distinct xs" "set xs = due L1 T1"
      "sorted (map (timer_key (handles L1)) xs)"
      "fired L' = fired L1 @ map (\<lambda>h. (the (timer_cb (handles L1 h)), h)) xs"
      "timers_ok L' (T1 - {h \<in> due L1 T1. repeat (handles L1 h) = 0})"
      "\<forall>g\<in>T1 - {h \<in> due L1 T1. repeat (handles L1 h) = 0}. time L' < timeout (handles L' g)" "time L' = time L1"
      "\<forall>g. g \<notin> due L1 T1 \<longrightarrow> handles L' g = handles L1 g"
      "\<forall>g\<in>due L1 T1. repeat (handles L1 g) = 0 \<longrightarrow> \<not> uv__is_active L' g" "keeps_refcount cb L' L1 (due L1 T1)"
      "\<forall>g\<in>due L1 T1. repeat (handles L1 g) \<noteq> 0 \<longrightarrow> timeout (handles L' g) = clamp_timeout (time L1) (repeat (handles L1 g))"
      "\<forall>g\<in>T1 - {h \<in> due L1 T1. repeat (handles L1 h) = 0}. uv__is_active L' g"
    using Suc(1) [OF n1 r(2,3) Suc(5) now1] by blast
  have xs: "x \<in> due L T \<and> x \<noteq> h" if "x \<in> set xs" for x
    using that unfolding IH(3) r(4) by simp
  have same: "handles L1 x = handles L x" if "x \<in> set xs" for x
    using xs [OF that] r(8) by (simp add: due_def)
  have keys: "map (timer_key (handles L1)) xs = map (timer_key (handles L)) xs"
    using same by (auto simp: timer_key_def)
  have "x \<in> due L1 T1 \<and> repeat (handles L1 x) = 0 \<longleftrightarrow> x \<noteq> h \<and> x \<in> due L T \<and> repeat (handles L x) = 0" for x
    using same [of x] unfolding IH(3) r(4) by auto
  then have rest: "T1 - {h \<in> due L1 T1. repeat (handles L1 h) = 0} = T - {h \<in> due L T. repeat (handles L h) = 0}"
    using r(9) hd by (intro set_eqI) (simp; blast)
  have "sorted (map (timer_key (handles L)) (h # xs))"
    using IH(4) least keys xs by (auto simp: due_def)
  moreover have "fired L' = fired L @ map (\<lambda>h. (the (timer_cb (handles L h)), h)) (h # xs)"
    using IH(5) r(6,7) same by auto
  moreover have "distinct (h # xs)" "set (h # xs) = due L T"
    using IH(2,3) xs hd unfolding r(4) by auto
  moreover have "uv__run_timers cb L = Some L'" "time L' = time L" using r(1,5) IH(1,8) by simp_all
  moreover have "\<forall>g. g \<notin> due L T \<longrightarrow> handles L' g = handles L g"
    using IH(9) r(4,8) hd by (metis DiffD1)
  moreover have "\<not> uv__is_active L' g" if "g \<in> due L T" "repeat (handles L g) = 0" for g
  proof (cases "g = h")
    case True
    then have "handles L' g = handles L1 g" using IH(9) r(4) by blast
    then show ?thesis using r(10) that True by (simp add: flag_defs)
  next
    case False
    then show ?thesis using IH(10) r(4,8) that by simp
  qed
  moreover have "timeout (handles L' g) = clamp_timeout (time L) (repeat (handles L g))"
    if "g \<in> due L T" "repeat (handles L g) \<noteq> 0" for g
  proof (cases "g = h")
    case True
    then have "handles L' g = handles L1 g" using IH(9) r(4) by blast
    then show ?thesis using r(12) that True by simp
  next
    case False
    then show ?thesis using IH(12) r(4,5,8) that by simp
  qed
  moreover have "keeps_refcount cb L' L (due L T)"
    using keeps_refcount_step [OF r(11) _ hd] IH(11) r(4) by simp
  ultimately show ?case
    using IH(6,7,13) unfolding rest by blast
qed

section \<open>Callbacks that use timers\<close>

text \<open>Starting a timer with a positive timeout and stopping one are tame, and so are their sequences.\<close>

lemma timers_of_start:
  assumes T: "timers_of D L T" and h: "h \<in> D" and D: "finite D" "card D < 2 ^ 32"
  obtains L' where "uv_timer_start h (Some c) tmo rep L = Some (0, L')" and "timers_of D L' (insert h T)"
    and "timer_frame L' L h" and "timer_cb (handles L' h) = Some c" and "timeout (handles L' h) = clamp_timeout (time L) tmo"
    and "repeat (handles L' h) = rep"
proof -
  have ok: "timers_ok L T" and TD: "T \<subseteq> D" and act: "\<forall>g\<in>D. g \<in> T \<longleftrightarrow> uv__is_active L g"
    using T by (simp_all add: timers_of_def)
  have "card (T - {h}) \<le> card (D - {h})" using D(1) TD by (intro card_mono) auto
  then have room: "card (T - {h}) + 1 < 2 ^ 32" using card.remove [OF D(1) h] D(2) by linarith
  obtain L' where L': "uv_timer_start h (Some c) tmo rep L = Some (0, L')" "timers_ok L' (insert h T)"
      "timer_frame L' L h" "uv__is_active L' h" "timer_cb (handles L' h) = Some c"
      "timeout (handles L' h) = clamp_timeout (time L) tmo" "repeat (handles L' h) = rep"
    using uv_timer_start_spec [OF ok _ room, of c tmo rep] act h by blast
  have "g \<in> insert h T \<longleftrightarrow> uv__is_active L' g" if "g \<in> D" for g
    using act that L'(4) timer_frame_flags(2) [OF L'(3), of g] by (cases "g = h") simp_all
  then have "timers_of D L' (insert h T)" using L'(2) TD h by (auto simp: timers_of_def)
  then show ?thesis by (rule that [OF L'(1) _ L'(3,5,6,7)])
qed

lemma timer_tame_start:
  assumes "h \<in> D \<inter> P" and "finite D" and "card D < 2 ^ 32" and "tmo \<noteq> 0"
  shows "timer_tame D P (\<lambda>_ _ L. map_option snd (uv_timer_start h (Some c) tmo rep L))"
  unfolding timer_tame_def
proof (intro allI impI, elim conjE)
  fix L T assume T: "timers_of D L T" and now: "time L < - 1"
  obtain L' where L': "uv_timer_start h (Some c) tmo rep L = Some (0, L')" "timers_of D L' (insert h T)" "timer_frame L' L h"
      "timeout (handles L' h) = clamp_timeout (time L) tmo"
    using timers_of_start [OF T _ assms(2,3)] assms(1) by blast
  have fr: "time L' = time L" "fired L' = fired L" "\<And>g. g \<noteq> h \<Longrightarrow> handles L' g = handles L g"
    using L'(3) by (simp_all add: timer_frame_def)
  have same: "same_timer (handles L' g) (handles L g)" if "g \<in> D - P" for g
    using fr(3) [of g] assms(1) that by (cases "g = h") (simp_all add: same_timer_def)
  have "g \<in> T \<and> same_timer (handles L' g) (handles L g)" if "g \<in> due L' (insert h T)" for g
    using that fr L'(4) clamp_timeout_later [OF now assms(4)] by (cases "g = h") (auto simp: due_def same_timer_def)
  then show "\<exists>L' T'. map_option snd (uv_timer_start h (Some c) tmo rep L) = Some L' \<and> timers_of D L' T' \<and> time L' = time L \<and>
      fired L' = fired L \<and> (\<forall>g\<in>due L' T'. g \<in> T \<and> same_timer (handles L' g) (handles L g)) \<and>
      (\<forall>g\<in>D - P. (g \<in> T' \<longleftrightarrow> g \<in> T) \<and> same_timer (handles L' g) (handles L g))"
    using L'(1,2) fr(1,2) same assms(1) by (intro exI [of _ L'] exI [of _ "insert h T"]) auto
qed

lemma timer_tame_stop:
  assumes "h \<in> D \<inter> P"
  shows "timer_tame D P (\<lambda>_ _ L. map_option snd (uv_timer_stop h L))"
  unfolding timer_tame_def
proof (intro allI impI, elim conjE)
  fix L T assume T: "timers_of D L T"
  have ok: "timers_ok L T" and act: "\<forall>g\<in>D. g \<in> T \<longleftrightarrow> uv__is_active L g" and TD: "T \<subseteq> D" using T by (simp_all add: timers_of_def)
  then obtain L' where L': "uv_timer_stop h L = Some (0, L')" "timers_ok L' (T - {h})" "timer_frame L' L h" "\<not> uv__is_active L' h"
    using uv_timer_stop_spec [OF ok, of h] assms by blast
  have "g \<in> T - {h} \<longleftrightarrow> uv__is_active L' g" if "g \<in> D" for g
    using act that L'(4) timer_frame_flags(2) [OF L'(3), of g] by (cases "g = h") simp_all
  then have "timers_of D L' (T - {h})" using L'(2) TD by (auto simp: timers_of_def)
  moreover have fr: "time L' = time L" "fired L' = fired L" "\<And>g. g \<noteq> h \<Longrightarrow> handles L' g = handles L g"
    using L'(3) by (simp_all add: timer_frame_def)
  moreover have same: "same_timer (handles L' g) (handles L g)" if "g \<in> D - P" for g
    using fr(3) [of g] assms that by (cases "g = h") (simp_all add: same_timer_def)
  moreover have "\<forall>g\<in>due L' (T - {h}). g \<in> T \<and> same_timer (handles L' g) (handles L g)"
    using fr(3) by (simp add: due_def same_timer_def)
  ultimately show "\<exists>L' T'. map_option snd (uv_timer_stop h L) = Some L' \<and> timers_of D L' T' \<and> time L' = time L \<and>
      fired L' = fired L \<and> (\<forall>g\<in>due L' T'. g \<in> T \<and> same_timer (handles L' g) (handles L g)) \<and>
      (\<forall>g\<in>D - P. (g \<in> T' \<longleftrightarrow> g \<in> T) \<and> same_timer (handles L' g) (handles L g))"
    using L'(1) same assms by (intro exI [of _ L'] exI [of _ "T - {h}"]) auto
qed

lemma timer_tame_seq:
  assumes "timer_tame D P f" and "timer_tame D P g"
  shows "timer_tame D P (\<lambda>c h L. Option.bind (f c h L) (g c h))"
  unfolding timer_tame_def
proof (intro allI impI, elim conjE)
  fix c h L T assume T: "timers_of D L T" and now: "time L < - 1"
  obtain L1 T1 where 1: "f c h L = Some L1" "timers_of D L1 T1" "time L1 = time L" "fired L1 = fired L"
      "\<forall>x\<in>due L1 T1. x \<in> T \<and> same_timer (handles L1 x) (handles L x)"
      "\<forall>x\<in>D - P. (x \<in> T1 \<longleftrightarrow> x \<in> T) \<and> same_timer (handles L1 x) (handles L x)" by (rule timer_tameD [OF assms(1) T now])
  have now1: "time L1 < - 1" using 1(3) now by simp
  obtain L2 T2 where 2: "g c h L1 = Some L2" "timers_of D L2 T2" "time L2 = time L1" "fired L2 = fired L1"
      "\<forall>x\<in>due L2 T2. x \<in> T1 \<and> same_timer (handles L2 x) (handles L1 x)"
      "\<forall>x\<in>D - P. (x \<in> T2 \<longleftrightarrow> x \<in> T1) \<and> same_timer (handles L2 x) (handles L1 x)" by (rule timer_tameD [OF assms(2) 1(2) now1])
  have "x \<in> T \<and> same_timer (handles L2 x) (handles L x)" if "x \<in> due L2 T2" for x
  proof -
    have s: "x \<in> T1" "same_timer (handles L2 x) (handles L1 x)" using 2(5) that by auto
    then have "x \<in> due L1 T1" using that 2(3) by (simp add: due_def same_timer_def)
    then show ?thesis using 1(5) s(2) by (auto simp: same_timer_def)
  qed
  then show "\<exists>L' T'. Option.bind (f c h L) (g c h) = Some L' \<and> timers_of D L' T' \<and> time L' = time L \<and> fired L' = fired L \<and>
      (\<forall>x\<in>due L' T'. x \<in> T \<and> same_timer (handles L' x) (handles L x)) \<and>
      (\<forall>x\<in>D - P. (x \<in> T' \<longleftrightarrow> x \<in> T) \<and> same_timer (handles L' x) (handles L x))"
    using 1(1,3,4,6) 2(1-4,6) by (intro exI [of _ L2] exI [of _ T2]) (simp add: same_timer_def)
qed

text \<open>
  A callback that is not tame: it restarts its own timer with timeout 0. Then the timer is due again at once, and
  \<open>uv__run_timers\<close> does not return from a loop with a timer due.
\<close>

definition restart_at_once :: callback where
  "restart_at_once c h L = map_option snd (uv_timer_start h (Some c) 0 0 L)"

lemma restart_due:
  assumes T: "timers_of D L T" and D: "finite D" "card D < 2 ^ 32" and h: "h \<in> D" and now: "time L < - 1"
  obtains L' where "restart_at_once c h L = Some L'" and "timers_of D L' (insert h T)" and "due L' (insert h T) \<noteq> {}"
    and "time L' = time L"
proof -
  obtain L' where L': "uv_timer_start h (Some c) 0 0 L = Some (0, L')" "timers_of D L' (insert h T)" "timer_frame L' L h"
      "timeout (handles L' h) = clamp_timeout (time L) 0" by (rule timers_of_start [OF T h D])
  have t: "time L' = time L" using L'(3) by (simp add: timer_frame_def)
  then have "h \<in> due L' (insert h T)" using L'(4) by (simp add: due_def clamp_timeout_def)
  then show ?thesis using L'(1,2) t by (intro that [of L']) (auto simp: restart_at_once_def)
qed

theorem uv__run_timers_diverges:
  assumes "timers_of D L T" and "due L T \<noteq> {}" and D: "finite D" "card D < 2 ^ 32" and "time L < - 1"
  shows "uv__run_timers restart_at_once L = None"
proof -
  have "\<forall>T. cb = restart_at_once \<longrightarrow> timers_of D L T \<longrightarrow> time L < - 1 \<longrightarrow> due L T = {}"
    if "uv__run_timers cb L = Some y" for cb L y
    using that
  proof (rule uv__run_timers.raw_induct [rotated], intro allI impI)
    fix f :: "callback \<Rightarrow> uv_loop \<Rightarrow> uv_loop option" and cb L y T
    assume IH: "\<And>cb L y. f cb L = Some y \<Longrightarrow> \<forall>T. cb = restart_at_once \<longrightarrow> timers_of D L T \<longrightarrow> time L < - 1 \<longrightarrow> due L T = {}"
      and cb: "cb = restart_at_once" and T: "timers_of D L T" and now: "time L < - 1"
      and body: "(case heap_min (timer_heap L) of None \<Rightarrow> Some L
          | Some h \<Rightarrow> if timeout (handles L h) > time L then Some L
              else do { (_, L) \<leftarrow> uv_timer_stop h L; (_, L) \<leftarrow> uv_timer_again h L;
                L \<leftarrow> call_cb cb (timer_cb (handles L h)) h L; f cb L }) = Some y"
    show "due L T = {}"
    proof (rule ccontr)
      assume some: "due L T \<noteq> {}"
      have ok: "timers_ok L T" using T by (simp add: timers_of_def)
      obtain h where h: "heap_min (timer_heap L) = Some h" "h \<in> due L T" using due_first [OF ok some] by blast
      then have hD: "h \<in> D" and le: "timeout (handles L h) \<le> time L" using T by (auto simp: timers_of_def due_def)
      obtain L1 L2 c where L2: "timers_of D L2 (if repeat (handles L h) = 0 then T - {h} else T)"
          "uv_timer_stop h L = Some (0, L1) \<and> uv_timer_again h L1 = Some (0, L2) \<and> timer_cb (handles L2 h) = Some c" "time L2 = time L"
        by (rule run_timers_first [OF T h(1) now])
      let ?L2 = "L2\<lparr>fired := fired L2 @ [(c, h)]\<rparr>"
      have T2: "timers_of D ?L2 (if repeat (handles L h) = 0 then T - {h} else T)" and now2: "time ?L2 < - 1"
        using timers_of_cong [OF L2(1), of ?L2] L2(3) now by simp_all
      obtain L3 T3 where L3: "restart_at_once c h ?L2 = Some L3" "timers_of D L3 T3" "due L3 T3 \<noteq> {}" "time L3 = time ?L2"
        by (rule restart_due [OF T2 D hD now2])
      have "f restart_at_once L3 = Some y" using body h(1) le L2(2) L3(1) cb by (simp add: call_cb_def leD)
      then show False using IH [of restart_at_once L3 y] L3(2-4) now2 by simp
    qed
  qed
  then show ?thesis using assms(1,2,5) by (cases "uv__run_timers restart_at_once L") auto
qed

section \<open>Properties\<close>

lemma timers_ok_fresh: "timer_heap L = timer_heap fresh_loop \<Longrightarrow> timers_ok L {}"
  using timer_order.heap_ok_init
  by (simp add: timers_ok_def fresh_loop_def uv_loop_init_fields_def uv__update_time_def Let_def)

text \<open>A loop with one initialised timer, handle 1.\<close>

definition timer_loop :: uv_loop where
  "timer_loop = snd (uv_timer_init 1 fresh_loop)"

lemma timer_loop_facts:
  "timers_ok timer_loop {}" "\<not> uv__is_active timer_loop 1" "time timer_loop = 0" "fired timer_loop = []"
  by (simp_all add: timer_loop_def uv_timer_init_def uv__handle_init_def Let_def timers_ok_fresh flag_defs)

text \<open>
  Property C12. Inserting a timer into the heap and removing one never crash, and
  keep a complete binary tree in expiry order that holds exactly the timers it should.
\<close>
theorem timer_heap_insert_remove:
  assumes "heap_ok (timer_less_than hs) H S"
  shows "(h \<notin> S \<and> unat (nelts H) + 1 < 2 ^ 32 \<longrightarrow>
      (\<exists>H'. heap_insert (timer_less_than hs) h H = Some H' \<and>
        heap_ok (timer_less_than hs) H' (insert h S) \<and> nelts H' = nelts H + 1)) \<and>
    (h \<in> S \<longrightarrow>
      (\<exists>H'. heap_remove (timer_less_than hs) (Some h) H = Some H' \<and>
        heap_ok (timer_less_than hs) H' (S - {h}) \<and> nelts H' = nelts H - 1))"
  using timer_order.heap_insert_correct [OF assms] timer_order.heap_remove_correct [OF assms] by blast

theorem timer_heap_insert_remove_witness:
  "\<exists>H'. heap_insert (timer_less_than (handles timer_loop)) 1 (timer_heap timer_loop) = Some H' \<and>
     heap_ok (timer_less_than (handles timer_loop)) H' {1} \<and> nelts H' = 1"
proof -
  have ok: "heap_ok (timer_less_than (handles timer_loop)) (timer_heap timer_loop) {}"
    using timer_loop_facts(1) by (simp add: timers_ok_def)
  then have "nelts (timer_heap timer_loop) = 0"
    using heap_ok_size [OF ok] by (simp add: unsigned_eq_0_iff)
  then show ?thesis using timer_heap_insert_remove [OF ok, of 1] by simp
qed

text \<open>
  Property C14. \<open>uv_timer_start\<close> with a callback succeeds, running or not: the
  timer is in the heap once, active, and expires at the sum of the loop's time
  and the timeout, cut off at the largest 64-bit value; its start number is the
  loop's counter; the reference count stays right. Without a callback it
  returns \<open>EINVAL\<close> and changes nothing.
\<close>
theorem uv_timer_start_correct:
  assumes "timers_ok L T" and "h \<in> T \<longleftrightarrow> uv__is_active L h" and "card (T - {h}) + 1 < 2 ^ 32"
    and "refcount_ok L hs" and "h \<in> set hs" and "length hs < 2 ^ 32"
  shows "(\<exists>L'. uv_timer_start h (Some c) tmo rep L = Some (0, L') \<and> timers_ok L' (insert h T) \<and>
      uv__is_active L' h \<and> timer_cb (handles L' h) = Some c \<and>
      unat (timeout (handles L' h)) = min (unat (time L) + unat tmo) (2 ^ 64 - 1) \<and>
      repeat (handles L' h) = rep \<and> start_id (handles L' h) = timer_counter L \<and>
      timer_counter L' = timer_counter L + 1 \<and> refcount_ok L' hs \<and>
      (\<forall>g. g \<noteq> h \<longrightarrow> handles L' g = handles L g)) \<and>
    uv_timer_start h None tmo rep L = Some (- EINVAL, L)"
proof -
  obtain L' where "uv_timer_start h (Some c) tmo rep L = Some (0, L')" "timers_ok L' (insert h T)"
      "timer_frame L' L h" "uv__is_active L' h" "timer_cb (handles L' h) = Some c"
      "timeout (handles L' h) = clamp_timeout (time L) tmo" "repeat (handles L' h) = rep"
      "start_id (handles L' h) = timer_counter L" "timer_counter L' = timer_counter L + 1" "refcount_ok L' hs"
    using uv_timer_start_spec [OF assms(1-3), of c tmo rep] assms(4-6) by blast
  then show ?thesis
    by (intro conjI exI [of _ L']) (auto simp: unat_clamp_timeout timer_frame_def uv_timer_start_null)
qed

theorem uv_timer_start_correct_witness:
  "\<exists>L'. uv_timer_start 1 (Some 7) 50 0 timer_loop = Some (0, L') \<and> timers_ok L' {1} \<and>
     unat (timeout (handles L' 1)) = 50"
  using uv_timer_start_correct [of timer_loop "{}" 1 "[1]" 7 50 0] timer_loop_facts
  by (auto simp: refcount_ok_def live_set_def timer_loop_def uv_timer_init_def uv__handle_init_def Let_def)

text \<open>
  \<open>uv_timer_again\<close> restarts a repeating timer from the loop's time
  with its repeat value as the timeout, leaves a timer with no repeat value as it
  is, and refuses a timer that was never started; \<open>uv_timer_stop\<close> takes the timer
  out of the heap and forgets nothing else of it.
\<close>
theorem uv_timer_again_stop_correct:
  assumes "timers_ok L T" and "h \<in> T \<longleftrightarrow> uv__is_active L h" and "card (T - {h}) + 1 < 2 ^ 32"
  shows "(timer_cb (handles L h) = None \<longrightarrow> uv_timer_again h L = Some (- EINVAL, L)) \<and>
    (timer_cb (handles L h) \<noteq> None \<and> repeat (handles L h) = 0 \<longrightarrow> uv_timer_again h L = Some (0, L)) \<and>
    (timer_cb (handles L h) \<noteq> None \<and> repeat (handles L h) \<noteq> 0 \<longrightarrow>
      (\<exists>L'. uv_timer_again h L = Some (0, L') \<and> timers_ok L' (insert h T) \<and> uv__is_active L' h \<and>
        timeout (handles L' h) = clamp_timeout (time L) (repeat (handles L h)) \<and>
        repeat (handles L' h) = repeat (handles L h))) \<and>
    (\<exists>L'. uv_timer_stop h L = Some (0, L') \<and> timers_ok L' (T - {h}) \<and> \<not> uv__is_active L' h \<and>
      same_timer (handles L' h) (handles L h))"
  using uv_timer_again_spec [OF assms] uv_timer_stop_spec [OF assms(1,2)]
  by (intro conjI) (auto simp: uv_timer_again_def)

theorem uv_timer_again_stop_correct_witness:
  "\<exists>L'. uv_timer_stop 1 timer_loop = Some (0, L') \<and> timers_ok L' {} \<and> \<not> uv__is_active L' 1"
  using uv_timer_again_stop_correct [of timer_loop "{}" 1] timer_loop_facts by auto

text \<open>
  Property C16. \<open>uv__next_timeout\<close> is -1 without timers, and otherwise the least
  over all active timers of the milliseconds to its expiry, never negative and
  never above \<open>INT_MAX\<close>.
\<close>
theorem uv__next_timeout_correct:
  assumes "timers_ok L T"
  shows "uv__next_timeout L = (if T = {} then - 1 else Min (ms_until L ` T)) \<and>
    - 1 \<le> uv__next_timeout L \<and> uv__next_timeout L \<le> 2147483647"
proof -
  have "finite T" using assms heap_ok_finite by (auto simp: timers_ok_def)
  then have "T \<noteq> {} \<Longrightarrow> \<exists>h. Min (ms_until L ` T) = ms_until L h" using Min_in [of "ms_until L ` T"] by blast
  moreover have "0 \<le> ms_until L h" "ms_until L h \<le> 2147483647" for h by (simp_all add: ms_until_def)
  ultimately show ?thesis using uv__next_timeout_min [OF assms]
    by (smt (verit, ccfv_threshold))
qed

theorem uv__next_timeout_correct_witness:
  "uv__next_timeout timer_loop = - 1 \<and>
   (\<exists>L. uv_timer_start 1 (Some 7) 50 0 timer_loop = Some (0, L) \<and> uv__next_timeout L = 50)"
proof -
  obtain L where L: "uv_timer_start 1 (Some 7) 50 0 timer_loop = Some (0, L)" "timers_ok L {1}"
      "timer_frame L timer_loop 1" "timeout (handles L 1) = clamp_timeout (time timer_loop) 50"
    using uv_timer_start_spec [of timer_loop "{}" 1 7 50 0] timer_loop_facts by auto
  have "ms_until L 1 = 50"
    using L(3,4) timer_loop_facts(3) by (simp add: ms_until_def timer_frame_def clamp_timeout_def)
  then have "uv__next_timeout L = 50" using uv__next_timeout_correct [OF L(2)] by simp
  then show ?thesis using uv__next_timeout_correct [OF timer_loop_facts(1)] L(1) by simp
qed

text \<open>
  Property C6. Let each call of a callback return, start, stop or restart at most the timers \<open>P\<close>, and make none of them expire at
  once. Then \<open>uv__run_timers\<close> returns and leaves no timer due. The callbacks it called are those of timers that were due when it was
  entered, among them all outside \<open>P\<close>, none twice, in the order of expiry and then of starting. A due timer outside \<open>P\<close> is
  stopped if it does not repeat, and otherwise expires next at the loop's time plus its repeat value, cut off at the largest
  64-bit value; the other timers outside \<open>P\<close> are as they were. (\<open>uv__run_timers_diverges\<close>: with a callback that restarts its timer
  with timeout 0 it does not return.)
\<close>
theorem uv__run_timers_correct:
  assumes "timers_of D L T" and "timer_tame D P cb" and "time L < - 1"
  shows "\<exists>L' T' xs. uv__run_timers cb L = Some L' \<and> timers_of D L' T' \<and>
    (\<forall>g\<in>T'. time L' < timeout (handles L' g)) \<and> time L' = time L \<and>
    distinct xs \<and> due L T - P \<subseteq> set xs \<and> set xs \<subseteq> due L T \<and> sorted (map (timer_key (handles L)) xs) \<and>
    fired L' = fired L @ map (\<lambda>h. (the (timer_cb (handles L h)), h)) xs \<and>
    (\<forall>g\<in>due L T - P. (g \<in> T' \<longleftrightarrow> repeat (handles L g) \<noteq> 0) \<and>
      (g \<in> T' \<longrightarrow> unat (timeout (handles L' g)) = min (unat (time L) + unat (repeat (handles L g))) (2 ^ 64 - 1))) \<and>
    (\<forall>g\<in>D - P - due L T. (g \<in> T' \<longleftrightarrow> g \<in> T) \<and> same_timer (handles L' g) (handles L g))"
proof -
  obtain L' T' xs where 1: "uv__run_timers cb L = Some L'" "timers_of D L' T'" "due L' T' = {}" "time L' = time L"
      "distinct xs" "set xs \<subseteq> due L T" "due L T - P \<subseteq> set xs" "sorted (map (timer_key (handles L)) xs)"
      "fired L' = fired L @ map (\<lambda>h. (the (timer_cb (handles L h)), h)) xs" "\<forall>g\<in>D - P. run_outcome L T L' T' g"
    using run_timers_tame [OF assms(2,1,3)] by blast
  have late: "\<forall>g\<in>T'. time L' < timeout (handles L' g)" using 1(3) by (auto simp: due_def not_le)
  have "due L T - P \<subseteq> D - P" using assms(1) by (auto simp: due_def timers_of_def)
  then have "(g \<in> T' \<longleftrightarrow> repeat (handles L g) \<noteq> 0) \<and>
      (g \<in> T' \<longrightarrow> unat (timeout (handles L' g)) = min (unat (time L) + unat (repeat (handles L g))) (2 ^ 64 - 1))"
    if "g \<in> due L T - P" for g
    using 1(10) that by (auto simp: run_outcome_def unat_clamp_timeout)
  moreover have "\<forall>g\<in>D - P - due L T. (g \<in> T' \<longleftrightarrow> g \<in> T) \<and> same_timer (handles L' g) (handles L g)"
    using 1(10) by (simp add: run_outcome_def)
  ultimately show ?thesis using 1 late by (intro exI [of _ L'] exI [of _ T'] exI [of _ xs]) simp
qed

text \<open>
  Timer 1 is due and repeats every 9 ms, timer 2 expires at 3; the callback restarts timer 2. Exactly timer 1 is called, once,
  and it expires next at 9.
\<close>
theorem uv__run_timers_correct_witness:
  "\<exists>L1 L2 L'. uv_timer_start 1 (Some 7) 0 9 timer_loop = Some (0, L1) \<and> uv_timer_start 2 (Some 8) 3 0 L1 = Some (0, L2) \<and>
     uv__run_timers (\<lambda>_ _ L. map_option snd (uv_timer_start 2 (Some 8) 5 0 L)) L2 = Some L' \<and>
     fired L' = [(7, 1)] \<and> unat (timeout (handles L' 1)) = 9"
proof -
  let ?D = "{1, 2 :: hid}" and ?cb = "(\<lambda>_ _ L. map_option snd (uv_timer_start 2 (Some 8) 5 0 L)) :: callback"
  have D: "finite ?D" "card ?D < 2 ^ 32" "1 \<in> ?D" "2 \<in> ?D" by simp_all
  have T0: "timers_of ?D timer_loop {}"
    using timer_loop_facts(1,2) by (auto simp: timers_of_def timer_loop_def uv_timer_init_def uv__handle_init_def
      fresh_loop_def uv_loop_init_fields_def uv__update_time_def flag_defs Let_def)
  obtain L1 where L1: "uv_timer_start 1 (Some 7) 0 9 timer_loop = Some (0, L1)" "timers_of ?D L1 {1}"
      "timer_frame L1 timer_loop 1" "timer_cb (handles L1 1) = Some 7"
      "timeout (handles L1 1) = clamp_timeout (time timer_loop) 0" "repeat (handles L1 1) = 9"
    by (rule timers_of_start [OF T0 D(3,1,2)])
  obtain L2 where L2: "uv_timer_start 2 (Some 8) 3 0 L1 = Some (0, L2)" "timers_of ?D L2 {2, 1}"
      "timer_frame L2 L1 2" "timeout (handles L2 2) = clamp_timeout (time L1) 3"
    by (rule timers_of_start [OF L1(2) D(4,1,2)])
  have t: "time L1 = 0" "fired L1 = []" "time L2 = 0" "fired L2 = []" "handles L2 1 = handles L1 1"
    using L1(3) L2(3) timer_loop_facts by (simp_all add: timer_frame_def)
  have d: "due L2 {2, 1} = {1}" "{1} - {2 :: hid} = {1}"
    using L1(5) L2(4) t timer_loop_facts(3) by (auto simp: due_def clamp_timeout_def)
  have tame: "timer_tame ?D {2} ?cb" using timer_tame_start [of 2 ?D "{2}" 5] D by simp
  have now: "time L2 < - 1" using t by (simp add: word_neq_0_conv [symmetric])
  obtain L' T' xs where r: "uv__run_timers ?cb L2 = Some L'" "distinct xs" "{1} \<subseteq> set xs" "set xs \<subseteq> {1}"
      "fired L' = fired L2 @ map (\<lambda>h. (the (timer_cb (handles L2 h)), h)) xs"
      "\<forall>g\<in>{1}. (g \<in> T' \<longleftrightarrow> repeat (handles L2 g) \<noteq> 0) \<and>
        (g \<in> T' \<longrightarrow> unat (timeout (handles L' g)) = min (unat (time L2) + unat (repeat (handles L2 g))) (2 ^ 64 - 1))"
    using uv__run_timers_correct [OF L2(2) tame now] unfolding d by (elim exE conjE) (rule that)
  from r(2-4) have "xs = [1]" by (cases xs; cases "tl xs") auto
  with r(1,5,6) L1(1,4,6) L2(1) t show ?thesis by (intro exI conjI) auto
qed

end
