(* ===== verification/Uv_Watcher.thy ===== *)
theory Uv_Watcher
  imports Uv_Timer
begin

text \<open>
  Prepare, check and idle handles, \<^verbatim>\<open>core/libuv/src/unix/loop-watcher.c\<close>. The
  file is one macro instantiated three times; here the instance is an argument
  \<open>k\<close>. A running watcher's embedded queue node is linked into the loop's queue
  of its kind, and \<open>uv__run_watchers\<close> walks that queue by pointers while the
  callbacks change it.
\<close>

section \<open>The code\<close>

fun watcher_type :: "watcher_kind \<Rightarrow> uv_handle_type" where
  "watcher_type Prepare = UV_PREPARE"
| "watcher_type Check = UV_CHECK"
| "watcher_type Idle = UV_IDLE"

definition uv_watcher_init :: "watcher_kind \<Rightarrow> hid \<Rightarrow> uv_loop \<Rightarrow> int \<times> uv_loop" where
  "uv_watcher_init k h L =
     (let L = uv__handle_init h (watcher_type k) L;
          L = upd_handle h (\<lambda>x. x\<lparr>watcher_cb := None\<rparr>) L
      in (0, L))"

definition uv_watcher_start :: "watcher_kind \<Rightarrow> hid \<Rightarrow> cbid option \<Rightarrow> uv_loop \<Rightarrow> int \<times> uv_loop" where
  "uv_watcher_start k h cb L =
     (if uv__is_active L h then (0, L)
      else if cb = None then (- EINVAL, L)
      else
        let L = upd_q (QUEUE_INSERT_HEAD (L_watchers k) (H_queue h)) L;
            L = upd_handle h (\<lambda>x. x\<lparr>watcher_cb := cb\<rparr>) L;
            L = uv__handle_start h L
        in (0, L))"

definition uv_watcher_stop :: "watcher_kind \<Rightarrow> hid \<Rightarrow> uv_loop \<Rightarrow> int \<times> uv_loop" where
  "uv_watcher_stop k h L =
     (if \<not> uv__is_active L h then (0, L)
      else
        let L = upd_q (QUEUE_REMOVE (H_queue h)) L;
            L = uv__handle_stop h L
        in (0, L))"

text \<open>
  \<^verbatim>\<open>QUEUE_FOREACH\<close> from node \<open>q\<close> on: the next pointer is read after the callback
  has returned. \<^verbatim>\<open>QUEUE_DATA\<close> of a node that is no handle's is undefined.
\<close>

partial_function (option) run_watchers_from :: "callback \<Rightarrow> watcher_kind \<Rightarrow> qnode \<Rightarrow> uv_loop \<Rightarrow> uv_loop option" where
  "run_watchers_from cb k q L =
     (if q = L_watchers k then Some L
      else case q of
        H_queue h \<Rightarrow> do {
          L \<leftarrow> call_cb cb (watcher_cb (handles L h)) h L;
          run_watchers_from cb k (QUEUE_NEXT (qmem L) q) L
        }
      | _ \<Rightarrow> None)"

definition uv__run_watchers :: "callback \<Rightarrow> watcher_kind \<Rightarrow> uv_loop \<Rightarrow> uv_loop option" where
  "uv__run_watchers cb k L = run_watchers_from cb k (QUEUE_NEXT (qmem L) (L_watchers k)) L"

definition uv__watcher_close :: "watcher_kind \<Rightarrow> hid \<Rightarrow> uv_loop \<Rightarrow> uv_loop" where
  "uv__watcher_close k h L = snd (uv_watcher_stop k h L)"

section \<open>Starting and stopping\<close>

text \<open>
  \<open>watchers_ok k D L xs\<close>: among the handles \<open>D\<close> of kind \<open>k\<close> the active ones are
  \<open>xs\<close>, in the order the loop will run them, each with a callback.
\<close>

definition watchers_ok :: "watcher_kind \<Rightarrow> hid set \<Rightarrow> uv_loop \<Rightarrow> hid list \<Rightarrow> bool" where
  "watchers_ok k D L xs \<longleftrightarrow>
     queue_repr (qmem L) (L_watchers k) (map H_queue xs) \<and> set xs \<subseteq> D \<and>
     (\<forall>h\<in>D. uv__is_active L h \<longleftrightarrow> h \<in> set xs) \<and> (\<forall>h\<in>set xs. watcher_cb (handles L h) \<noteq> None)"

lemma watchers_ok_distinct: "watchers_ok k D L xs \<Longrightarrow> distinct xs"
  by (auto simp: watchers_ok_def queue_repr_def distinct_map)

text \<open>What a watcher operation leaves alone.\<close>

definition watcher_frame :: "uv_loop \<Rightarrow> uv_loop \<Rightarrow> hid \<Rightarrow> bool" where
  "watcher_frame L' L h \<longleftrightarrow>
     timer_heap L' = timer_heap L \<and> closing_handles L' = closing_handles L \<and> time L' = time L \<and>
     timer_counter L' = timer_counter L \<and> stop_flag L' = stop_flag L \<and> fired L' = fired L \<and>
     (\<forall>g. g \<noteq> h \<longrightarrow> handles L' g = handles L g) \<and>
     htype (handles L' h) = htype (handles L h) \<and> next_closing (handles L' h) = next_closing (handles L h) \<and>
     close_cb (handles L' h) = close_cb (handles L h) \<and>
     (\<forall>b. b \<noteq> 14 \<longrightarrow> bit (flags (handles L' h)) b = bit (flags (handles L h)) b)"

lemma watcher_frame_refl: "watcher_frame L L h"
  by (simp add: watcher_frame_def)

lemma uv_watcher_start_spec:
  assumes ok: "watchers_ok k D L xs" and h: "h \<in> D"
  shows "uv_watcher_start k h None L = (if h \<in> set xs then 0 else - EINVAL, L)"
    and "fst (uv_watcher_start k h (Some c) L) = 0"
    and "watchers_ok k D (snd (uv_watcher_start k h (Some c) L)) (if h \<in> set xs then xs else h # xs)"
    and "watcher_frame (snd (uv_watcher_start k h (Some c) L)) L h"
    and "refcount_ok L hs \<Longrightarrow> length hs < 2 ^ 32 \<Longrightarrow> h \<in> set hs \<Longrightarrow>
      refcount_ok (snd (uv_watcher_start k h (Some c) L)) hs"
    and "h \<notin> set xs \<Longrightarrow> qmem (snd (uv_watcher_start k h (Some c) L)) =
      QUEUE_INSERT_HEAD (L_watchers k) (H_queue h) (qmem L)"
    and "h \<notin> set xs \<Longrightarrow> watcher_cb (handles (snd (uv_watcher_start k h (Some c) L)) h) = Some c"
proof -
  have act: "uv__is_active L h \<longleftrightarrow> h \<in> set xs" using ok h by (simp add: watchers_ok_def)
  let ?L2 = "upd_handle h (\<lambda>x. x\<lparr>watcher_cb := Some c\<rparr>) (upd_q (QUEUE_INSERT_HEAD (L_watchers k) (H_queue h)) L)"
  let ?L' = "uv__handle_start h ?L2"
  obtain f where f: "handles ?L' = (handles ?L2)(h := (handles ?L2 h)\<lparr>flags := f\<rparr>)" "qmem ?L' = qmem ?L2"
      "timer_heap ?L' = timer_heap L" "closing_handles ?L' = closing_handles L" "time ?L' = time L"
      "timer_counter ?L' = timer_counter L" "stop_flag ?L' = stop_flag L" "fired ?L' = fired L"
    using handle_macro_flags(1) [of h ?L2] by (auto simp: same_but_flags_def)
  have s: "snd (uv_watcher_start k h (Some c) L) = (if h \<in> set xs then L else ?L')"
    by (simp add: uv_watcher_start_def act Let_def)
  show "uv_watcher_start k h None L = (if h \<in> set xs then 0 else - EINVAL, L)"
    and "fst (uv_watcher_start k h (Some c) L) = 0"
    by (simp_all add: uv_watcher_start_def act Let_def)
  have "uv__is_active ?L2 g = uv__is_active L g" for g by (simp add: flag_defs)
  then have "uv__is_active ?L' g \<longleftrightarrow> g = h \<or> uv__is_active L g" for g by simp
  moreover have "h \<notin> set xs \<Longrightarrow> queue_repr (qmem ?L') (L_watchers k) (map H_queue (h # xs))"
    unfolding f(2) using ok queue_repr_insert_head [of "qmem L" "L_watchers k" "map H_queue xs" "H_queue h"]
    by (auto simp: watchers_ok_def)
  ultimately show "watchers_ok k D (snd (uv_watcher_start k h (Some c) L)) (if h \<in> set xs then xs else h # xs)"
    using ok h s f(1) by (auto simp: watchers_ok_def)
  show "watcher_frame (snd (uv_watcher_start k h (Some c) L)) L h"
    using s f(3-8) f(1) flag_bits_start_stop(1) [of _ h ?L2 h]
    by (simp add: watcher_frame_refl) (simp add: watcher_frame_def)
  have "refcount_ok ?L' hs" if "refcount_ok L hs" "length hs < 2 ^ 32" "h \<in> set hs"
    by (intro refcount_ok_handle_start that refcount_ok_cong [OF that(1)]) (auto simp: flag_defs)
  then show "refcount_ok L hs \<Longrightarrow> length hs < 2 ^ 32 \<Longrightarrow> h \<in> set hs \<Longrightarrow>
      refcount_ok (snd (uv_watcher_start k h (Some c) L)) hs"
    using s by simp
  show "h \<notin> set xs \<Longrightarrow> qmem (snd (uv_watcher_start k h (Some c) L)) =
      QUEUE_INSERT_HEAD (L_watchers k) (H_queue h) (qmem L)"
    and "h \<notin> set xs \<Longrightarrow> watcher_cb (handles (snd (uv_watcher_start k h (Some c) L)) h) = Some c"
    by (simp_all add: s f)
qed

lemma uv_watcher_stop_spec:
  assumes ok: "watchers_ok k D L xs" and h: "h \<in> D"
  shows "fst (uv_watcher_stop k h L) = 0"
    and "watchers_ok k D (snd (uv_watcher_stop k h L)) (remove1 h xs)"
    and "watcher_frame (snd (uv_watcher_stop k h L)) L h"
    and "refcount_ok L hs \<Longrightarrow> h \<in> set hs \<Longrightarrow> refcount_ok (snd (uv_watcher_stop k h L)) hs"
    and "qmem (snd (uv_watcher_stop k h L)) = (if h \<in> set xs then QUEUE_REMOVE (H_queue h) (qmem L) else qmem L)"
    and "watcher_cb (handles (snd (uv_watcher_stop k h L)) h) = watcher_cb (handles L h)"
proof -
  have act: "uv__is_active L h \<longleftrightarrow> h \<in> set xs" using ok h by (simp add: watchers_ok_def)
  have d: "distinct xs" using ok by (rule watchers_ok_distinct)
  let ?L2 = "upd_q (QUEUE_REMOVE (H_queue h)) L"
  let ?L' = "uv__handle_stop h ?L2"
  obtain f where f: "handles ?L' = (handles ?L2)(h := (handles ?L2 h)\<lparr>flags := f\<rparr>)" "qmem ?L' = qmem ?L2"
      "timer_heap ?L' = timer_heap L" "closing_handles ?L' = closing_handles L" "time ?L' = time L"
      "timer_counter ?L' = timer_counter L" "stop_flag ?L' = stop_flag L" "fired ?L' = fired L"
    using handle_macro_flags(2) [of h ?L2] by (auto simp: same_but_flags_def)
  have s: "snd (uv_watcher_stop k h L) = (if h \<in> set xs then ?L' else L)"
    by (simp add: uv_watcher_stop_def act Let_def)
  show "fst (uv_watcher_stop k h L) = 0"
    by (simp add: uv_watcher_stop_def Let_def)
  have "uv__is_active ?L2 g = uv__is_active L g" for g by (simp add: flag_defs)
  then have "uv__is_active ?L' g \<longleftrightarrow> g \<noteq> h \<and> uv__is_active L g" for g by simp
  moreover have "h \<in> set xs \<Longrightarrow> queue_repr (qmem ?L') (L_watchers k) (map H_queue (remove1 h xs))"
    unfolding f(2) using ok uvq.remove_member [of "qmem L" "L_watchers k" "map H_queue xs" "H_queue h"]
    by (auto simp: watchers_ok_def map_remove1_inj inj_def)
  ultimately show "watchers_ok k D (snd (uv_watcher_stop k h L)) (remove1 h xs)"
    using ok h s f(1) d by (auto simp: watchers_ok_def remove1_idem)
  show "watcher_frame (snd (uv_watcher_stop k h L)) L h"
    using s f(3-8) f(1) flag_bits_start_stop(2) [of _ h ?L2 h]
    by (simp add: watcher_frame_refl) (simp add: watcher_frame_def)
  have "refcount_ok ?L' hs" if "refcount_ok L hs" "h \<in> set hs"
    by (intro refcount_ok_handle_stop that refcount_ok_cong [OF that(1)]) (auto simp: flag_defs)
  then show "refcount_ok L hs \<Longrightarrow> h \<in> set hs \<Longrightarrow> refcount_ok (snd (uv_watcher_stop k h L)) hs"
    using s by simp
  show "qmem (snd (uv_watcher_stop k h L)) = (if h \<in> set xs then QUEUE_REMOVE (H_queue h) (qmem L) else qmem L)"
    and "watcher_cb (handles (snd (uv_watcher_stop k h L)) h) = watcher_cb (handles L h)"
    by (simp_all add: s f)
qed

section \<open>Walking the queue while callbacks change it\<close>

text \<open>
  \<open>iter_ok k D L h post\<close>: the walk stands at handle \<open>h\<close>, the handles still to be
  run are \<open>post\<close>; \<open>h\<close> is either the last of the handles before \<open>post\<close> or has
  been unlinked and still points at the first of \<open>post\<close>.
\<close>

definition iter_ok :: "watcher_kind \<Rightarrow> hid set \<Rightarrow> uv_loop \<Rightarrow> hid \<Rightarrow> hid list \<Rightarrow> bool" where
  "iter_ok k D L h post \<longleftrightarrow>
     (\<exists>pre. watchers_ok k D L (pre @ post) \<and> h \<notin> set post \<and>
        (if h \<in> set pre then last pre = h
         else qnext (qmem L) (H_queue h) = hd (map H_queue post @ [L_watchers k])))"

lemma queue_repr_next_of:
  assumes "queue_repr m a (xs @ q # ys)"
  shows "qnext m q = hd (ys @ [a])"
  using assms qseg_first [of m q ys a] by (simp add: queue_repr_def)

lemma iter_ok_next:
  assumes "iter_ok k D L h post"
  shows "QUEUE_NEXT (qmem L) (H_queue h) = hd (map H_queue post @ [L_watchers k])"
proof -
  obtain pre where pre: "watchers_ok k D L (pre @ post)"
      "if h \<in> set pre then last pre = h else qnext (qmem L) (H_queue h) = hd (map H_queue post @ [L_watchers k])"
    using assms by (auto simp: iter_ok_def)
  show ?thesis
  proof (cases "h \<in> set pre")
    case True
    with pre(2) have "pre = butlast pre @ [h]" by (metis append_butlast_last_id empty_iff empty_set)
    with pre(1) have "queue_repr (qmem L) (L_watchers k) (map H_queue (butlast pre) @ H_queue h # map H_queue post)"
      by (metis append.assoc append_Cons append_Nil list.simps(9) map_append watchers_ok_def)
    from queue_repr_next_of [OF this] show ?thesis by (simp add: QUEUE_NEXT_def)
  qed (use pre(2) in \<open>simp add: QUEUE_NEXT_def\<close>)
qed

lemma iter_ok_start:
  assumes "iter_ok k D L h post" and g: "g \<in> D" "g \<noteq> h" "g \<notin> set post"
  shows "iter_ok k D (snd (uv_watcher_start k g (Some c) L)) h post"
proof -
  let ?L = "snd (uv_watcher_start k g (Some c) L)"
  obtain pre where pre: "watchers_ok k D L (pre @ post)" "h \<notin> set post"
      "if h \<in> set pre then last pre = h else qnext (qmem L) (H_queue h) = hd (map H_queue post @ [L_watchers k])"
    using assms by (auto simp: iter_ok_def)
  show ?thesis
  proof (cases "g \<in> set pre")
    case True
    then have "?L = L" using pre(1) g(1) by (simp add: uv_watcher_start_def watchers_ok_def)
    with assms(1) show ?thesis by simp
  next
    case False
    then have "watchers_ok k D ?L ((g # pre) @ post)"
      using uv_watcher_start_spec(3) [OF pre(1) g(1), of c] g(3) by simp
    moreover have "qnext (qmem ?L) (H_queue h) = qnext (qmem L) (H_queue h)"
      using uv_watcher_start_spec(6) [OF pre(1) g(1), of c] False g by (simp add: queue_ops)
    ultimately show ?thesis using pre(2,3) g(2) unfolding iter_ok_def by (intro exI [of _ "g # pre"]) auto
  qed
qed

lemma queue_remove_keeps_outside:
  assumes "queue_repr m a (xs @ q # ys)" and "p \<notin> set (a # xs @ q # ys)"
  shows "qnext (QUEUE_REMOVE q m) p = qnext m p"
proof -
  have "qprev m q = last (a # xs)" using assms(1) qseg_last [of m a xs q] by (simp add: queue_repr_def)
  moreover have "last (a # xs) \<in> set (a # xs)" by (rule last_in_set) simp
  ultimately have "p \<noteq> qprev m q" using assms(2) by auto
  then show ?thesis by (simp add: queue_ops)
qed

lemma iter_ok_stop:
  assumes "iter_ok k D L h post" and g: "g \<in> D" "g \<notin> set post"
  shows "iter_ok k D (snd (uv_watcher_stop k g L)) h post"
proof -
  let ?L = "snd (uv_watcher_stop k g L)"
  obtain pre where pre: "watchers_ok k D L (pre @ post)" "h \<notin> set post"
      "if h \<in> set pre then last pre = h else qnext (qmem L) (H_queue h) = hd (map H_queue post @ [L_watchers k])"
    using assms by (auto simp: iter_ok_def)
  have d: "distinct (pre @ post)" using pre(1) by (rule watchers_ok_distinct)
  have ok: "watchers_ok k D ?L (remove1 g pre @ post)"
    using uv_watcher_stop_spec(2) [OF pre(1) g(1)] g(2) by (simp add: remove1_append remove1_idem split: if_splits)
  show ?thesis
  proof (cases "g \<in> set pre")
    case False
    then have "?L = L" using pre(1) g by (simp add: uv_watcher_stop_def watchers_ok_def)
    with assms(1) show ?thesis by simp
  next
    case True
    then obtain us vs where us: "pre = us @ g # vs" by (meson split_list)
    have q: "queue_repr (qmem L) (L_watchers k) (map H_queue us @ H_queue g # map H_queue (vs @ post))"
      using pre(1) us by (simp add: watchers_ok_def)
    have m: "qmem ?L = QUEUE_REMOVE (H_queue g) (qmem L)"
      using uv_watcher_stop_spec(5) [OF pre(1) g(1)] True by simp
    have rem: "remove1 g pre = us @ vs" using us d by (simp add: remove1_append)
    show ?thesis
    proof (cases "h \<in> set (us @ vs)")
      case True
      then have "last (us @ vs) = h" using pre(3) us d by (cases vs rule: rev_cases) auto
      with True ok rem pre(2) show ?thesis unfolding iter_ok_def by (intro exI [of _ "us @ vs"]) auto
    next
      case False
      have "qnext (qmem ?L) (H_queue h) = hd (map H_queue post @ [L_watchers k])"
      proof (cases "h = g")
        case True
        then have "vs = []" using pre(3) us d by (cases vs rule: rev_cases) auto
        moreover have "qprev (qmem L) (H_queue g) \<noteq> H_queue g"
          using q qseg_last [of "qmem L" "L_watchers k" "map H_queue us" "H_queue g"] d us
          by (cases us rule: rev_cases) (auto simp: queue_repr_def)
        ultimately show ?thesis
          using queue_remove_keeps_own_next [of "qmem L" "H_queue g"] m True queue_repr_next_of [OF q] by simp
      next
        case ne: False
        then have "H_queue h \<notin> set (L_watchers k # map H_queue us @ H_queue g # map H_queue (vs @ post))"
          using False pre(2) by auto
        from queue_remove_keeps_outside [OF q this] show ?thesis
          using m pre(3) False ne us by auto
      qed
      with False ok rem pre(2) show ?thesis unfolding iter_ok_def by (intro exI [of _ "us @ vs"]) auto
    qed
  qed
qed
text \<open>Callbacks that start and stop watchers of the same kind, given as programs.\<close>

datatype watcher_call = W_start hid cbid | W_stop hid

fun exec_watcher_call :: "watcher_kind \<Rightarrow> watcher_call \<Rightarrow> uv_loop \<Rightarrow> uv_loop" where
  "exec_watcher_call k (W_start g c) L = snd (uv_watcher_start k g (Some c) L)"
| "exec_watcher_call k (W_stop g) L = snd (uv_watcher_stop k g L)"

fun call_target :: "watcher_call \<Rightarrow> hid" where
  "call_target (W_start g c) = g"
| "call_target (W_stop g) = g"

definition watcher_prog :: "watcher_kind \<Rightarrow> (cbid \<Rightarrow> hid \<Rightarrow> watcher_call list) \<Rightarrow> callback" where
  "watcher_prog k P c h L = Some (fold (exec_watcher_call k) (P c h) L)"

text \<open>A callback of \<open>h\<close> keeps its hands off the running handles, itself apart, which it may stop.\<close>

definition polite :: "(cbid \<Rightarrow> hid \<Rightarrow> watcher_call list) \<Rightarrow> hid set \<Rightarrow> hid list \<Rightarrow> bool" where
  "polite P D xs \<longleftrightarrow>
     (\<forall>h\<in>set xs. \<forall>c. \<forall>w\<in>set (P c h). call_target w \<in> D \<and> (call_target w \<notin> set xs \<or> w = W_stop h))"

lemma watcher_call_frame:
  assumes "watchers_ok k D L xs" and "call_target w \<in> D"
  shows "watcher_frame (exec_watcher_call k w L) L (call_target w)"
  using assms uv_watcher_start_spec(4) uv_watcher_stop_spec(3) by (cases w) auto

lemma polite_calls:
  assumes "iter_ok k D L h post"
    and "\<forall>w\<in>set ws. call_target w \<in> D \<and> (call_target w \<notin> set (h # post) \<or> w = W_stop h)"
  shows "iter_ok k D (fold (exec_watcher_call k) ws L) h post \<and>
    fired (fold (exec_watcher_call k) ws L) = fired L \<and>
    (\<forall>g\<in>set post. handles (fold (exec_watcher_call k) ws L) g = handles L g)"
  using assms
proof (induction ws arbitrary: L)
  case (Cons w ws)
  let ?L = "exec_watcher_call k w L"
  have w: "call_target w \<in> D" "call_target w \<notin> set (h # post) \<or> w = W_stop h" using Cons.prems(2) by auto
  have np: "call_target w \<notin> set post" using w(2) Cons.prems(1) by (auto simp: iter_ok_def)
  have "iter_ok k D ?L h post"
    using w np Cons.prems(1) iter_ok_start iter_ok_stop by (cases w) auto
  moreover have "watcher_frame ?L L (call_target w)"
    using watcher_call_frame Cons.prems(1) w(1) by (auto simp: iter_ok_def)
  then have "fired ?L = fired L" "\<And>g. g \<noteq> call_target w \<Longrightarrow> handles ?L g = handles L g"
    by (simp_all add: watcher_frame_def)
  then have "fired ?L = fired L" "\<forall>g\<in>set post. handles ?L g = handles L g" using np by metis+
  ultimately show ?case using Cons.IH [of ?L] Cons.prems(2) by simp
qed simp

lemma watchers_ok_log: "watchers_ok k D (L\<lparr>fired := l\<rparr>) xs = watchers_ok k D L xs"
  by (simp add: watchers_ok_def flag_defs)

lemma run_watchers_from_polite:
  assumes "watchers_ok k D L (pre @ post)"
    and "\<forall>h\<in>set post. \<forall>c. \<forall>w\<in>set (P c h). call_target w \<in> D \<and> (call_target w \<notin> set post \<or> w = W_stop h)"
    and "q = hd (map H_queue post @ [L_watchers k])"
  shows "\<exists>L' ys. run_watchers_from (watcher_prog k P) k q L = Some L' \<and> watchers_ok k D L' ys \<and>
    fired L' = fired L @ map (\<lambda>h. (the (watcher_cb (handles L h)), h)) post"
  using assms
proof (induction post arbitrary: L pre q)
  case Nil
  then show ?case by (subst run_watchers_from.simps) auto
next
  case (Cons h post)
  obtain c where c: "watcher_cb (handles L h) = Some c" using Cons.prems(1) by (auto simp: watchers_ok_def)
  let ?M = "L\<lparr>fired := fired L @ [(c, h)]\<rparr>"
  let ?L = "fold (exec_watcher_call k) (P c h) ?M"
  have "distinct (pre @ h # post)" using Cons.prems(1) by (rule watchers_ok_distinct)
  then have "iter_ok k D ?M h post"
    using Cons.prems(1) unfolding iter_ok_def by (intro exI [of _ "pre @ [h]"]) (simp add: watchers_ok_log)
  then have r: "iter_ok k D ?L h post" "fired ?L = fired L @ [(c, h)]" "\<forall>g\<in>set post. handles ?L g = handles L g"
    using polite_calls [of k D ?M h post "P c h"] Cons.prems(2) by auto
  then obtain pre' where pre': "watchers_ok k D ?L (pre' @ post)" by (auto simp: iter_ok_def)
  have nxt: "QUEUE_NEXT (qmem ?L) (H_queue h) = hd (map H_queue post @ [L_watchers k])"
    using iter_ok_next [OF r(1)] .
  obtain L' ys where IH: "run_watchers_from (watcher_prog k P) k (QUEUE_NEXT (qmem ?L) (H_queue h)) ?L = Some L'"
      "watchers_ok k D L' ys" "fired L' = fired ?L @ map (\<lambda>h. (the (watcher_cb (handles ?L h)), h)) post"
    using Cons.IH [OF pre' _ nxt] Cons.prems(2) by fastforce
  have "run_watchers_from (watcher_prog k P) k q L = Some L'"
    using Cons.prems(3) c IH(1) by (subst run_watchers_from.simps) (simp add: call_cb_def watcher_prog_def)
  with IH(2,3) r(2,3) c show ?case by auto
qed

lemma uv__run_watchers_polite:
  assumes "watchers_ok k D L xs" and "polite P D xs"
  shows "\<exists>L' ys. uv__run_watchers (watcher_prog k P) k L = Some L' \<and> watchers_ok k D L' ys \<and>
    fired L' = fired L @ map (\<lambda>h. (the (watcher_cb (handles L h)), h)) xs"
proof -
  have "QUEUE_NEXT (qmem L) (L_watchers k) = hd (map H_queue xs @ [L_watchers k])"
    using assms(1) qseg_first by (auto simp: watchers_ok_def queue_repr_def QUEUE_NEXT_def)
  then show ?thesis
    using run_watchers_from_polite [of k D L "[]" xs P] assms by (auto simp: uv__run_watchers_def polite_def)
qed

section \<open>Restarting from a callback\<close>

text \<open>
  A callback that stops and restarts its own handle moves it to the front of
  the queue. With two such handles the walk never meets the header again.
\<close>

definition restart_self :: "cbid \<Rightarrow> hid \<Rightarrow> watcher_call list" where
  "restart_self c h = [W_stop h, W_start h c]"

lemma restart_round:
  assumes ok: "watchers_ok k D L [a, b] \<or> watchers_ok k D L [b, a]"
  shows "\<exists>L'. call_cb (watcher_prog k restart_self) (watcher_cb (handles L a)) a L = Some L' \<and>
    watchers_ok k D L' [a, b] \<and> QUEUE_NEXT (qmem L') (H_queue a) = H_queue b"
proof -
  obtain xs where xs: "watchers_ok k D L xs" "xs = [a, b] \<or> xs = [b, a]" using ok by blast
  then have ab: "a \<noteq> b" and aD: "a \<in> D" using watchers_ok_distinct [OF xs(1)] by (auto simp: watchers_ok_def)
  obtain c where c: "watcher_cb (handles L a) = Some c" using xs by (auto simp: watchers_ok_def)
  let ?M = "L\<lparr>fired := fired L @ [(c, a)]\<rparr>"
  let ?L1 = "snd (uv_watcher_stop k a ?M)"
  let ?L2 = "snd (uv_watcher_start k a (Some c) ?L1)"
  have "watchers_ok k D ?L1 (remove1 a xs)"
    using uv_watcher_stop_spec(2) [of k D ?M xs a] xs(1) aD by (simp add: watchers_ok_log)
  then have "watchers_ok k D ?L1 [b]" using xs(2) ab by auto
  then have ok2: "watchers_ok k D ?L2 [a, b]"
    using uv_watcher_start_spec(3) [of k D ?L1 "[b]" a c] aD ab by simp
  then have "QUEUE_NEXT (qmem ?L2) (H_queue a) = H_queue b"
    by (simp add: watchers_ok_def queue_repr_def QUEUE_NEXT_def)
  with ok2 c show ?thesis by (simp add: call_cb_def watcher_prog_def restart_self_def)
qed

lemma restart_diverges_from:
  assumes "run_watchers_from cb k q L = Some L'"
  shows "\<forall>a b. cb = watcher_prog k restart_self \<longrightarrow> q = H_queue a \<longrightarrow>
    \<not> (watchers_ok k D L [a, b] \<or> watchers_ok k D L [b, a])"
proof (rule run_watchers_from.raw_induct [OF _ assms], intro allI impI notI)
  fix rec :: "callback \<Rightarrow> watcher_kind \<Rightarrow> qnode \<Rightarrow> uv_loop \<Rightarrow> uv_loop option" and cb k q L L' a b
  assume IH: "\<And>cb k q L L'. rec cb k q L = Some L' \<Longrightarrow> \<forall>a b. cb = watcher_prog k restart_self \<longrightarrow> q = H_queue a \<longrightarrow>
      \<not> (watchers_ok k D L [a, b] \<or> watchers_ok k D L [b, a])"
    and step: "(if q = L_watchers k then Some L
      else case q of
        H_queue h \<Rightarrow> do {
          L \<leftarrow> call_cb cb (watcher_cb (handles L h)) h L;
          rec cb k (QUEUE_NEXT (qmem L) q) L
        }
      | _ \<Rightarrow> None) = Some L'"
    and cb: "cb = watcher_prog k restart_self" and q: "q = H_queue a"
    and ok: "watchers_ok k D L [a, b] \<or> watchers_ok k D L [b, a]"
  obtain L1 where L1: "call_cb cb (watcher_cb (handles L a)) a L = Some L1"
    "watchers_ok k D L1 [a, b]" "QUEUE_NEXT (qmem L1) (H_queue a) = H_queue b"
    using restart_round [OF ok] cb by blast
  with step q have "rec cb k (H_queue b) L1 = Some L'" by simp
  from IH [OF this] cb L1(2) show False by blast
qed

lemma uv__run_watchers_restart:
  assumes "watchers_ok k D L [a, b]"
  shows "uv__run_watchers (watcher_prog k restart_self) k L = None"
proof (rule ccontr)
  assume "uv__run_watchers (watcher_prog k restart_self) k L \<noteq> None"
  then obtain L' where "uv__run_watchers (watcher_prog k restart_self) k L = Some L'" by auto
  moreover have "QUEUE_NEXT (qmem L) (L_watchers k) = H_queue a"
    using assms by (simp add: watchers_ok_def queue_repr_def QUEUE_NEXT_def)
  ultimately show False
    using restart_diverges_from [of _ k "H_queue a" L L' D] assms by (auto simp: uv__run_watchers_def)
qed

text \<open>
  A callback that stops its own handle and then the next one unlinks both, but
  its own stale next pointer still leads to the next handle, whose callback is
  called although that handle was stopped.
\<close>

definition stop_both :: "hid \<Rightarrow> hid \<Rightarrow> cbid \<Rightarrow> hid \<Rightarrow> watcher_call list" where
  "stop_both a b c h = (if h = a then [W_stop a, W_stop b] else [])"

lemma stop_both_runs_stopped:
  assumes ok: "watchers_ok k D L [a, b]"
  shows "\<exists>L1. call_cb (watcher_prog k (stop_both a b)) (watcher_cb (handles L a)) a L = Some L1 \<and>
    \<not> uv__is_active L1 b \<and> watchers_ok k D L1 [] \<and> QUEUE_NEXT (qmem L1) (H_queue a) = H_queue b \<and>
    watcher_cb (handles L1 b) = watcher_cb (handles L b)"
proof -
  have ab: "a \<noteq> b" and D: "a \<in> D" "b \<in> D" using watchers_ok_distinct [OF ok] ok by (auto simp: watchers_ok_def)
  obtain c where c: "watcher_cb (handles L a) = Some c" using ok by (auto simp: watchers_ok_def)
  let ?M = "L\<lparr>fired := fired L @ [(c, a)]\<rparr>"
  let ?L1 = "snd (uv_watcher_stop k a ?M)"
  let ?L2 = "snd (uv_watcher_stop k b ?L1)"
  have okM: "watchers_ok k D ?M [a, b]" using ok by (simp add: watchers_ok_log)
  have ok1: "watchers_ok k D ?L1 [b]" using uv_watcher_stop_spec(2) [OF okM D(1)] ab by simp
  have ok2: "watchers_ok k D ?L2 []" using uv_watcher_stop_spec(2) [OF ok1 D(2)] by simp
  have q: "qmem ?L2 = QUEUE_REMOVE (H_queue b) (QUEUE_REMOVE (H_queue a) (qmem L))"
    using uv_watcher_stop_spec(5) [OF ok1 D(2)] uv_watcher_stop_spec(5) [OF okM D(1)] by simp
  have "QUEUE_NEXT (qmem ?L2) (H_queue a) = H_queue b"
    unfolding q using ok ab by (auto simp: watchers_ok_def queue_repr_def queue_ops)
  moreover have "\<not> uv__is_active ?L2 b" using ok2 D(2) by (simp add: watchers_ok_def)
  moreover have "handles ?L1 b = handles L b"
    using uv_watcher_stop_spec(3) [OF okM D(1)] ab by (simp add: watcher_frame_def)
  then have "watcher_cb (handles ?L2 b) = watcher_cb (handles L b)"
    using uv_watcher_stop_spec(6) [OF ok1 D(2)] by simp
  ultimately show ?thesis
    using c ok2 by (simp add: call_cb_def watcher_prog_def stop_both_def)
qed

section \<open>Properties\<close>

text \<open>A loop with two initialised idle handles, 1 and 2, the second running.\<close>

definition idle_loop :: uv_loop where
  "idle_loop = snd (uv_watcher_start Idle 2 (Some 9) (snd (uv_watcher_init Idle 2 (snd (uv_watcher_init Idle 1 fresh_loop)))))"

lemma idle_init_ok: "watchers_ok Idle {1, 2} (snd (uv_watcher_init Idle 2 (snd (uv_watcher_init Idle 1 fresh_loop)))) []"
  by (simp add: watchers_ok_def uv_watcher_init_def uv__handle_init_def Let_def flag_defs queue_repr_def queue_ops
      fresh_loop_def uv_loop_init_fields_def uv__update_time_def)

lemma idle_loop_ok: "watchers_ok Idle {1, 2} idle_loop [2]" "watcher_cb (handles idle_loop 2) = Some 9"
  "refcount_ok idle_loop [1, 2]"
proof -
  let ?L = "snd (uv_watcher_init Idle 2 (snd (uv_watcher_init Idle 1 fresh_loop)))"
  show "watchers_ok Idle {1, 2} idle_loop [2]" "watcher_cb (handles idle_loop 2) = Some 9"
    using uv_watcher_start_spec(3,7) [OF idle_init_ok, of 2 9] by (simp_all add: idle_loop_def)
  have "refcount_ok ?L [1, 2]"
    by (simp add: refcount_ok_def live_set_def flag_defs uv_watcher_init_def uv__handle_init_def Let_def)
  then show "refcount_ok idle_loop [1, 2]"
    using uv_watcher_start_spec(5) [OF idle_init_ok, of 2 "[1, 2]" 9] by (simp add: idle_loop_def)
qed

lemma fired_idle_loop: "fired idle_loop = []"
  using uv_watcher_start_spec(4) [OF idle_init_ok, of 2 9]
  by (simp add: watcher_frame_def idle_loop_def) (simp add: uv_watcher_init_def uv__handle_init_def Let_def)

text \<open>
  Starting a prepare, check or idle handle puts it in front of the
  running ones of its kind and leaves a running one where it is, stopping takes
  it out; both keep queue, active flags and reference count in agreement, and
  the errors are as documented.
\<close>
theorem uv_watcher_start_stop_correct:
  assumes "watchers_ok k D L xs" and "h \<in> D" and "refcount_ok L hs" and "h \<in> set hs" and "length hs < 2 ^ 32"
  shows "fst (uv_watcher_start k h (Some c) L) = 0 \<and>
    watchers_ok k D (snd (uv_watcher_start k h (Some c) L)) (if h \<in> set xs then xs else h # xs) \<and>
    refcount_ok (snd (uv_watcher_start k h (Some c) L)) hs \<and>
    uv_watcher_start k h None L = (if h \<in> set xs then 0 else - EINVAL, L) \<and>
    fst (uv_watcher_stop k h L) = 0 \<and>
    watchers_ok k D (snd (uv_watcher_stop k h L)) (remove1 h xs) \<and>
    refcount_ok (snd (uv_watcher_stop k h L)) hs"
  using uv_watcher_start_spec [OF assms(1,2)] uv_watcher_stop_spec [OF assms(1,2)] assms(3-5) by blast

theorem uv_watcher_start_stop_correct_witness:
  "watchers_ok Idle {1, 2} (snd (uv_watcher_start Idle 1 (Some 5) idle_loop)) [1, 2] \<and>
   watchers_ok Idle {1, 2} (snd (uv_watcher_stop Idle 2 idle_loop)) []"
  using uv_watcher_start_stop_correct [OF idle_loop_ok(1) _ idle_loop_ok(3), of 1 5]
    uv_watcher_start_stop_correct [OF idle_loop_ok(1) _ idle_loop_ok(3), of 2 5] by simp

text \<open>
  Property C13. When callbacks stop at most their own handle among the running
  ones (and start or stop any others), one pass of \<open>uv__run_prepare\<close>,
  \<open>uv__run_check\<close> or \<open>uv__run_idle\<close> ends and calls the callback of every handle
  that was running at its start exactly once, in queue order.
\<close>
theorem uv__run_watchers_correct:
  assumes "watchers_ok k D L xs" and "polite P D xs"
  shows "\<exists>L' ys. uv__run_watchers (watcher_prog k P) k L = Some L' \<and> watchers_ok k D L' ys \<and>
    fired L' = fired L @ map (\<lambda>h. (the (watcher_cb (handles L h)), h)) xs"
  using assms by (rule uv__run_watchers_polite)

theorem uv__run_watchers_correct_witness:
  "\<exists>L'. uv__run_watchers (watcher_prog Idle (\<lambda>c h. [W_stop h, W_start 1 c])) Idle idle_loop = Some L' \<and>
     fired L' = [(9, 2)]"
  using uv__run_watchers_correct [OF idle_loop_ok(1), of "\<lambda>c h. [W_stop h, W_start 1 c]"] idle_loop_ok(2)
    fired_idle_loop
  by (auto simp: polite_def)

text \<open>
  Two running handles of one kind whose callbacks stop and restart
  their own handle, each allowed on its own, make the pass run forever: it
  does not return.
\<close>
theorem uv__run_watchers_restart_loops:
  assumes "watchers_ok k D L [a, b]"
  shows "uv__run_watchers (watcher_prog k restart_self) k L = None"
  using assms by (rule uv__run_watchers_restart)

theorem uv__run_watchers_restart_loops_witness:
  "uv__run_watchers (watcher_prog Idle restart_self) Idle (snd (uv_watcher_start Idle 1 (Some 5) idle_loop)) = None"
  using uv__run_watchers_restart_loops [of Idle "{1, 2}" _ 1 2] uv_watcher_start_spec(3) [OF idle_loop_ok(1), of 1 5]
  by simp

text \<open>
  A callback that stops its own handle and then the next running
  one does not keep the next one from running: after both are stopped and the
  queue is empty, the pass goes on at the stopped handle and calls its callback.
\<close>
theorem uv__run_watchers_calls_stopped:
  assumes "watchers_ok k D L [a, b]"
  shows "\<exists>L1. call_cb (watcher_prog k (stop_both a b)) (watcher_cb (handles L a)) a L = Some L1 \<and>
    \<not> uv__is_active L1 b \<and> watchers_ok k D L1 [] \<and>
    uv__run_watchers (watcher_prog k (stop_both a b)) k L =
      run_watchers_from (watcher_prog k (stop_both a b)) k (H_queue b) L1"
proof -
  obtain L1 where L1: "call_cb (watcher_prog k (stop_both a b)) (watcher_cb (handles L a)) a L = Some L1"
      "\<not> uv__is_active L1 b" "watchers_ok k D L1 []" "QUEUE_NEXT (qmem L1) (H_queue a) = H_queue b"
    using stop_both_runs_stopped [OF assms] by blast
  moreover have "QUEUE_NEXT (qmem L) (L_watchers k) = H_queue a"
    using assms by (simp add: watchers_ok_def queue_repr_def QUEUE_NEXT_def)
  ultimately show ?thesis
    by (intro exI [of _ L1]) (simp add: uv__run_watchers_def run_watchers_from.simps [of _ _ "H_queue a"])
qed

theorem uv__run_watchers_calls_stopped_witness:
  "\<exists>L1. uv__run_watchers (watcher_prog Idle (stop_both 1 2)) Idle (snd (uv_watcher_start Idle 1 (Some 5) idle_loop)) =
     run_watchers_from (watcher_prog Idle (stop_both 1 2)) Idle (H_queue 2) L1 \<and> \<not> uv__is_active L1 2"
  using uv__run_watchers_calls_stopped [of Idle "{1, 2}" _ 1 2] uv_watcher_start_spec(3) [OF idle_loop_ok(1), of 1 5]
  by auto

end
