(* ===== verification/Uv_Io.thy ===== *)
theory Uv_Io
  imports Uv_Loop
begin

text \<open>
  The I/O watchers of a loop, \<^verbatim>\<open>uv__io_t\<close>: the part of \<^verbatim>\<open>core/libuv/src/unix/core.c\<close>
  that starts, stops, closes and feeds them, with the function of
  \<^verbatim>\<open>linux-core.c\<close> that invalidates a descriptor. A failing assertion or a call of
  \<^verbatim>\<open>abort\<close> is \<open>None\<close>. The operating system is an argument.
\<close>

section \<open>The code\<close>

abbreviation UV__POLLIN :: uint32 where "UV__POLLIN \<equiv> 1"
abbreviation UV__POLLOUT :: uint32 where "UV__POLLOUT \<equiv> 4"
abbreviation UV__POLLERR :: uint32 where "UV__POLLERR \<equiv> 8"
abbreviation UV__POLLHUP :: uint32 where "UV__POLLHUP \<equiv> 16"
abbreviation UV__EPOLL_CTL_ADD :: int where "UV__EPOLL_CTL_ADD \<equiv> 1"
abbreviation UV__EPOLL_CTL_DEL :: int where "UV__EPOLL_CTL_DEL \<equiv> 2"
abbreviation UV__EPOLL_CTL_MOD :: int where "UV__EPOLL_CTL_MOD \<equiv> 3"

text \<open>
  What the kernel answers: the clock; \<^verbatim>\<open>epoll_ctl\<close>, 0 or an error number, which may
  depend on the calls made before; \<^verbatim>\<open>epoll_wait\<close>, an error number or the events
  it stores, which may depend on these calls, on how often it was called and on
  the timeout; the result of \<^verbatim>\<open>pthread_sigmask\<close>.
\<close>

record uv_os =
  os_hrtime :: "nat \<Rightarrow> uint64"
  os_epoll_ctl :: "ctl_call list \<Rightarrow> int \<Rightarrow> int \<Rightarrow> uint32 \<Rightarrow> int"
  os_epoll_wait :: "ctl_call list \<Rightarrow> nat \<Rightarrow> int \<Rightarrow> int + epoll_event list"
  os_pthread_sigmask :: int

type_synonym io_callback = "cbid \<Rightarrow> nat \<Rightarrow> uint32 \<Rightarrow> uv_loop \<Rightarrow> uv_loop option"

definition uv__epoll_ctl :: "uv_os \<Rightarrow> int \<Rightarrow> int \<Rightarrow> uint32 \<Rightarrow> uv_loop \<Rightarrow> int \<times> uv_loop" where
  "uv__epoll_ctl os opr fd ev L =
     (let r = os_epoll_ctl os (ctl_log L) opr fd ev
      in (r, L\<lparr>ctl_log := ctl_log L @ [(opr, fd, ev, r)]\<rparr>))"

definition call_io :: "io_callback \<Rightarrow> nat \<Rightarrow> uint32 \<Rightarrow> uv_loop \<Rightarrow> uv_loop option" where
  "call_io iocb w ev L = iocb (io_cb (io L w)) w ev (L\<lparr>io_fired := io_fired L @ [(w, ev)]\<rparr>)"

definition upd_io :: "nat \<Rightarrow> (uv__io \<Rightarrow> uv__io) \<Rightarrow> uv_loop \<Rightarrow> uv_loop" where
  "upd_io w g L = L\<lparr>io := (io L)(w := g (io L w))\<rparr>"

text \<open>\<^verbatim>\<open>while (!QUEUE_EMPTY(&loop->pending_queue))\<close>: callbacks may feed further watchers.\<close>

partial_function (option) run_pending_from :: "io_callback \<Rightarrow> uv_loop \<Rightarrow> uv_loop option" where
  "run_pending_from iocb L =
     (if QUEUE_EMPTY (qmem L) L_pending_queue then Some L
      else case QUEUE_HEAD (qmem L) L_pending_queue of
        W_pending_queue w \<Rightarrow> do {
          let L = upd_q (QUEUE_REMOVE (W_pending_queue w)) L;
          let L = upd_q (QUEUE_INIT (W_pending_queue w)) L;
          L \<leftarrow> call_io iocb w UV__POLLOUT L;
          run_pending_from iocb L
        }
      | _ \<Rightarrow> None)"

definition uv__run_pending :: "io_callback \<Rightarrow> uv_loop \<Rightarrow> (int \<times> uv_loop) option" where
  "uv__run_pending iocb L =
     (if QUEUE_EMPTY (qmem L) L_pending_queue then Some (0, L)
      else do {
        L \<leftarrow> run_pending_from iocb L;
        Some (1, L)
      })"

definition next_power_of_two :: "uint32 \<Rightarrow> uint32" where
  "next_power_of_two val =
     (let val = val - 1;
          val = val OR drop_bit 1 val;
          val = val OR drop_bit 2 val;
          val = val OR drop_bit 4 val;
          val = val OR drop_bit 8 val;
          val = val OR drop_bit 16 val
      in val + 1)"

text \<open>
  The two slots behind the array move with it. A \<^verbatim>\<open>realloc\<close> to no bytes, when the
  sum wraps around, gives no usable memory; otherwise there is enough memory.
\<close>

definition maybe_resize :: "uint32 \<Rightarrow> uv_loop \<Rightarrow> uv_loop option" where
  "maybe_resize len L =
     (if len \<le> of_nat (length (watchers L)) then Some L
      else
        let nwatchers = next_power_of_two (len + 2) - 2
        in if nwatchers + 2 = 0 then None
           else Some (L\<lparr>watchers := watchers L @ replicate (unat nwatchers - length (watchers L)) None\<rparr>))"

definition uv__io_init :: "nat \<Rightarrow> cbid \<Rightarrow> int \<Rightarrow> uv_loop \<Rightarrow> uv_loop option" where
  "uv__io_init w cb fd L =
     (if fd < - 1 then None
      else
        let L = upd_q (QUEUE_INIT (W_pending_queue w)) L;
            L = upd_q (QUEUE_INIT (W_watcher_queue w)) L
        in Some (upd_io w (\<lambda>x. x\<lparr>io_cb := cb, io_fd := fd, io_events := 0, io_pevents := 0\<rparr>) L))"

definition uv__io_start :: "nat \<Rightarrow> uint32 \<Rightarrow> uv_loop \<Rightarrow> uv_loop option" where
  "uv__io_start w events L =
     (if events AND NOT (UV__POLLIN OR UV__POLLOUT) \<noteq> 0 \<or> events = 0 \<or> io_fd (io L w) < 0 \<or>
         io_fd (io L w) \<ge> 2147483647 then None
      else do {
        let L = upd_io w (\<lambda>x. x\<lparr>io_pevents := io_pevents x OR events\<rparr>) L;
        L \<leftarrow> maybe_resize (of_int (io_fd (io L w) + 1)) L;
        if io_events (io L w) = io_pevents (io L w) then
          if io_events (io L w) = 0 \<and> \<not> QUEUE_EMPTY (qmem L) (W_watcher_queue w) then
            let L = upd_q (QUEUE_REMOVE (W_watcher_queue w)) L
            in Some (upd_q (QUEUE_INIT (W_watcher_queue w)) L)
          else Some L
        else
          let L = (if QUEUE_EMPTY (qmem L) (W_watcher_queue w)
                   then upd_q (QUEUE_INSERT_TAIL L_watcher_queue (W_watcher_queue w)) L else L);
              fd = nat (io_fd (io L w))
          in Some (if watchers L ! fd = None
                   then L\<lparr>watchers := (watchers L)[fd := Some w], nfds := nfds L + 1\<rparr> else L)
      })"

definition uv__io_stop :: "nat \<Rightarrow> uint32 \<Rightarrow> uv_loop \<Rightarrow> uv_loop option" where
  "uv__io_stop w events L =
     (if events AND NOT (UV__POLLIN OR UV__POLLOUT) \<noteq> 0 \<or> events = 0 then None
      else if io_fd (io L w) = - 1 then Some L
      else if io_fd (io L w) < 0 then None
      else if (of_int (io_fd (io L w)) :: uint32) \<ge> of_nat (length (watchers L)) then Some L
      else
        let L = upd_io w (\<lambda>x. x\<lparr>io_pevents := io_pevents x AND NOT events\<rparr>) L;
            fd = nat (io_fd (io L w))
        in if io_pevents (io L w) = 0 then
             let L = upd_q (QUEUE_REMOVE (W_watcher_queue w)) L;
                 L = upd_q (QUEUE_INIT (W_watcher_queue w)) L
             in if watchers L ! fd \<noteq> None then
                  if watchers L ! fd \<noteq> Some w \<or> nfds L = 0 then None
                  else Some (upd_io w (\<lambda>x. x\<lparr>io_events := 0\<rparr>)
                         (L\<lparr>watchers := (watchers L)[fd := None], nfds := nfds L - 1\<rparr>))
                else Some L
           else if QUEUE_EMPTY (qmem L) (W_watcher_queue w)
             then Some (upd_q (QUEUE_INSERT_TAIL L_watcher_queue (W_watcher_queue w)) L)
             else Some L)"

text \<open>\<^verbatim>\<open>(int) events[i].data\<close>, and the \<^verbatim>\<open>data\<close> of a descriptor.\<close>

definition fd_of_data :: "uint64 \<Rightarrow> int" where
  "fd_of_data d = sint (ucast d :: uint32)"

definition invalidate_events :: "int \<Rightarrow> epoll_event list \<Rightarrow> epoll_event list" where
  "invalidate_events fd = map (\<lambda>e. if fd_of_data (ev_data e) = fd then e\<lparr>ev_data := - 1\<rparr> else e)"

definition uv__platform_invalidate_fd :: "uv_os \<Rightarrow> int \<Rightarrow> uv_loop \<Rightarrow> uv_loop option" where
  "uv__platform_invalidate_fd os fd L =
     (if watchers L = [] then None
      else
        let L = L\<lparr>fake_watchers := map_option (invalidate_events fd) (fake_watchers L)\<rparr>
        in Some (if backend_fd L \<ge> 0 then snd (uv__epoll_ctl os UV__EPOLL_CTL_DEL fd 0 L) else L))"

definition uv__io_close :: "uv_os \<Rightarrow> nat \<Rightarrow> uv_loop \<Rightarrow> uv_loop option" where
  "uv__io_close os w L = do {
     L \<leftarrow> uv__io_stop w (UV__POLLIN OR UV__POLLOUT) L;
     let L = upd_q (QUEUE_REMOVE (W_pending_queue w)) L;
     uv__platform_invalidate_fd os (io_fd (io L w)) L
   }"

definition uv__io_feed :: "nat \<Rightarrow> uv_loop \<Rightarrow> uv_loop" where
  "uv__io_feed w L =
     (if QUEUE_EMPTY (qmem L) (W_pending_queue w)
      then upd_q (QUEUE_INSERT_TAIL L_pending_queue (W_pending_queue w)) L else L)"

definition uv__io_active :: "nat \<Rightarrow> uint32 \<Rightarrow> uv_loop \<Rightarrow> bool option" where
  "uv__io_active w events L =
     (if events AND NOT (UV__POLLIN OR UV__POLLOUT) \<noteq> 0 \<or> events = 0 then None
      else Some (io_pevents (io L w) AND events \<noteq> 0))"

section \<open>The size of the watcher array\<close>

text \<open>A step of \<open>next_power_of_two\<close> doubles the distance over which set bits are spread downwards.\<close>

lemma smear_step:
  fixes v x :: "'a::len word"
  assumes "\<And>n. bit x n \<longleftrightarrow> (\<exists>m<k. bit v (n + m))"
  shows "bit (x OR drop_bit k x) n \<longleftrightarrow> (\<exists>m<2 * k. bit v (n + m))"
proof
  assume "bit (x OR drop_bit k x) n"
  then have "bit x n \<or> bit x (k + n)" by (simp add: bit_simps)
  then show "\<exists>m<2 * k. bit v (n + m)"
  proof
    assume "bit x n"
    then obtain m where "m < k" "bit v (n + m)" using assms by blast
    then show ?thesis by (intro exI [of _ m]) simp
  next
    assume "bit x (k + n)"
    then obtain m where "m < k" "bit v (k + n + m)" using assms by blast
    then show ?thesis by (intro exI [of _ "k + m"]) (simp add: ac_simps)
  qed
next
  assume "\<exists>m<2 * k. bit v (n + m)"
  then obtain m where m: "m < 2 * k" "bit v (n + m)" by blast
  show "bit (x OR drop_bit k x) n"
  proof (cases "m < k")
    case True
    then have "bit x n" using assms m by blast
    then show ?thesis by (simp add: bit_simps)
  next
    case False
    then have "m - k < k" "bit v (k + n + (m - k))" using m by (auto simp: ac_simps)
    then have "bit x (k + n)" using assms by blast
    then show ?thesis by (simp add: bit_simps)
  qed
qed

definition smear :: "uint32 \<Rightarrow> uint32" where
  "smear v =
     (let v = v OR drop_bit 1 v; v = v OR drop_bit 2 v; v = v OR drop_bit 4 v;
          v = v OR drop_bit 8 v in v OR drop_bit 16 v)"

lemma bit_smear: "bit (smear v) n \<longleftrightarrow> (\<exists>m<32. bit v (n + m))"
proof -
  have "bit (smear v) n \<longleftrightarrow> (\<exists>m<2 * 16. bit v (n + m))"
    unfolding smear_def Let_def
    by (intro smear_step, subst smear_step [where k = 8 and v = v], subst smear_step [where k = 4 and v = v],
      subst smear_step [where k = 2 and v = v], subst smear_step [where k = 1 and v = v]) simp_all
  then show ?thesis by simp
qed
lemma highest_bit:
  fixes v :: uint32
  assumes "2 ^ k \<le> unat v" and "unat v < 2 ^ Suc k"
  shows "bit v n \<Longrightarrow> n \<le> k" and "bit v k"
proof -
  have "take_bit (Suc k) v = v" using assms(2) unat_less_power_iff_take_bit [of v "Suc k"] by simp
  then show "bit v n \<Longrightarrow> n \<le> k" by (metis bit_take_bit_iff less_Suc_eq_le)
  have "unat v div 2 ^ k = 1"
    using assms by (intro div_nat_eqI) auto
  then have "bit (unat v) k" by (simp add: bit_iff_odd)
  then show "bit v k" by (metis bit_unsigned_iff)
qed

lemma smear_mask:
  assumes "2 ^ k \<le> unat v" and "unat v < 2 ^ Suc k"
  shows "smear v = mask (Suc k)"
proof (rule bit_word_eqI)
  fix n assume n: "n < LENGTH(32)"
  have k: "k < 32" using highest_bit(2) [OF assms] bit_imp_le_length [of v k] by simp
  show "bit (smear v) n = bit (mask (Suc k) :: uint32) n"
  proof
    assume "bit (smear v) n"
    then show "bit (mask (Suc k) :: uint32) n"
      using highest_bit(1) [OF assms] n by (auto simp: bit_smear bit_mask_iff dest: add_leD1 intro: le_imp_less_Suc)
  next
    assume "bit (mask (Suc k) :: uint32) n"
    then have "n \<le> k" by (simp add: bit_mask_iff)
    then show "bit (smear v) n"
      using highest_bit(2) [OF assms] k by (auto simp: bit_smear intro!: exI [of _ "k - n"])
  qed
qed

lemma next_power_of_two_least:
  "(1 \<le> unat val \<and> unat val \<le> 2 ^ 31 \<longrightarrow>
      (\<exists>k. unat (next_power_of_two val) = 2 ^ k \<and> unat val \<le> 2 ^ k \<and> (\<forall>j. unat val \<le> 2 ^ j \<longrightarrow> k \<le> j))) \<and>
   (2 ^ 31 < unat val \<longrightarrow> next_power_of_two val = 0)"
proof (cases "unat val \<le> 1")
  case True
  then have "val = 0 \<or> val = 1" by (metis One_nat_def le_less less_one unat_eq_0 unat_1 word_unat_eq_iff)
  then show ?thesis
    by (auto simp: next_power_of_two_def intro!: exI [of _ 0])
next
  case False
  let ?v = "val - 1"
  have "val \<noteq> 0" using False by auto
  then have v: "unat ?v = unat val - 1" "1 \<le> unat ?v"
    using False by (auto simp: unat_minus_one)
  obtain k where k: "2 ^ k \<le> unat ?v" "unat ?v < 2 ^ Suc k"
    using ex_power_ivl1 [of 2 "unat ?v"] v(2) by auto
  have np: "next_power_of_two val = mask (Suc k) + 1"
    using smear_mask [OF k] by (simp add: next_power_of_two_def smear_def Let_def)
  have "k < 32" using highest_bit(2) [OF k] bit_imp_le_length [of ?v k] by simp
  have val: "unat val \<le> 2 ^ Suc k" "2 ^ k < unat val" using k v False by linarith+
  have least: "Suc k \<le> j" if "unat val \<le> 2 ^ j" for j
  proof (rule ccontr)
    assume "\<not> Suc k \<le> j"
    then have "(2::nat) ^ j \<le> 2 ^ k" by (simp add: power_increasing)
    with that val(2) show False by linarith
  qed
  show ?thesis
  proof (cases "k = 31")
    case True
    then have "next_power_of_two val = 0" using np by (simp add: mask_eq_exp_minus_1)
    with val True show ?thesis by simp
  next
    case False
    then have "Suc k < 32" using \<open>k < 32\<close> by simp
    then have "(2::nat) ^ Suc k < 2 ^ LENGTH(32)" by (intro power_strict_increasing) auto
    moreover have "next_power_of_two val = of_nat (2 ^ Suc k)" using np by (simp add: mask_eq_exp_minus_1)
    ultimately have "unat (next_power_of_two val) = 2 ^ Suc k" using unat_of_nat_small by metis
    moreover have "(2::nat) ^ Suc k \<le> 2 ^ 31" using \<open>Suc k < 32\<close> by (intro power_increasing) auto
    ultimately show ?thesis using val(1) least by (intro conjI impI exI [of _ "Suc k"]) auto
  qed
qed

text \<open>
  \<^verbatim>\<open>next_power_of_two\<close> gives the least power of two that is not below its
  argument, for arguments from 1 up to 2 to the 31; above, it wraps around to 0.\<close>

theorem next_power_of_two_correct:
  "(1 \<le> unat val \<and> unat val \<le> 2 ^ 31 \<longrightarrow>
      (\<exists>k. unat (next_power_of_two val) = 2 ^ k \<and> unat val \<le> 2 ^ k \<and> (\<forall>j. unat val \<le> 2 ^ j \<longrightarrow> k \<le> j))) \<and>
   (2 ^ 31 < unat val \<longrightarrow> next_power_of_two val = 0)"
  by (rule next_power_of_two_least)

theorem next_power_of_two_correct_witness:
  "\<exists>k. unat (next_power_of_two 1000) = 2 ^ k \<and> unat (1000 :: uint32) \<le> 2 ^ k \<and>
     (\<forall>j. unat (1000 :: uint32) \<le> 2 ^ j \<longrightarrow> k \<le> j)"
  using next_power_of_two_correct [of 1000] by simp

lemma maybe_resize_spec:
  assumes "unat len \<le> 2 ^ 31 - 2" and "length (watchers L) < 2 ^ 31"
  shows "\<exists>k. maybe_resize len L = Some (L\<lparr>watchers := watchers L @ replicate k None\<rparr>) \<and>
    unat len \<le> length (watchers L) + k \<and> length (watchers L) + k < 2 ^ 31"
proof (cases "len \<le> of_nat (length (watchers L))")
  case True
  moreover have "unat (of_nat (length (watchers L)) :: uint32) = length (watchers L)"
    using assms(2) by (intro unat_of_nat_small) simp
  ultimately show ?thesis
    using assms(2) by (intro exI [of _ 0]) (simp add: maybe_resize_def word_le_nat_alt)
next
  case False
  have u: "unat (of_nat (length (watchers L)) :: uint32) = length (watchers L)"
    using assms(2) by (intro unat_of_nat_small) simp
  have len: "unat (len + 2) = unat len + 2" using assms(1) by (simp add: unat_word_ariths)
  let ?p = "next_power_of_two (len + 2)"
  obtain k where k: "unat ?p = 2 ^ k" "unat len + 2 \<le> 2 ^ k" "\<forall>j. unat len + 2 \<le> 2 ^ j \<longrightarrow> k \<le> j"
    using next_power_of_two_least [of "len + 2"] assms(1) len by auto
  have "k \<le> 31" using k(3) [rule_format, of 31] assms(1) by simp
  then have "(2::nat) ^ k \<le> 2 ^ 31" by (intro power_increasing) auto
  moreover have "2 \<le> ?p" using k(1,2) by (simp add: word_le_nat_alt)
  ultimately have n: "unat (?p - 2) = 2 ^ k - 2" "?p - 2 + 2 \<noteq> 0" "2 ^ k - 2 < (2::nat) ^ 31"
    using k by (auto simp: unat_sub)
  have l: "length (watchers L) < unat len" using False u by (simp add: word_le_nat_alt)
  show ?thesis
    using False n l k(2) by (intro exI [of _ "2 ^ k - 2 - length (watchers L)"]) (simp add: maybe_resize_def Let_def)
qed

section \<open>The watcher queue and the watcher array\<close>

lemma upd_io_simps [simp]:
  "handles (upd_io w g L) = handles L" "qmem (upd_io w g L) = qmem L" "timer_heap (upd_io w g L) = timer_heap L"
  "active_handles (upd_io w g L) = active_handles L" "closing_handles (upd_io w g L) = closing_handles L"
  "time (upd_io w g L) = time L" "timer_counter (upd_io w g L) = timer_counter L"
  "stop_flag (upd_io w g L) = stop_flag L" "io (upd_io w g L) = (io L)(w := g (io L w))"
  "watchers (upd_io w g L) = watchers L" "nfds (upd_io w g L) = nfds L" "backend_fd (upd_io w g L) = backend_fd L"
  "loop_flags (upd_io w g L) = loop_flags L" "fake_watchers (upd_io w g L) = fake_watchers L"
  "no_epoll_pwait (upd_io w g L) = no_epoll_pwait L" "no_epoll_wait (upd_io w g L) = no_epoll_wait L"
  "fired (upd_io w g L) = fired L" "io_fired (upd_io w g L) = io_fired L" "ctl_log (upd_io w g L) = ctl_log L"
  "wait_log (upd_io w g L) = wait_log L" "clock_reads (upd_io w g L) = clock_reads L"
  by (simp_all add: upd_io_def)

text \<open>
  \<open>wq_ok D m ws\<close>: the watchers \<open>ws\<close>, some of \<open>D\<close>, wait in the watcher queue, and the
  nodes of the others are linked to themselves.
\<close>

definition wq_ok :: "nat set \<Rightarrow> qnode queue_mem \<Rightarrow> nat list \<Rightarrow> bool" where
  "wq_ok D m ws \<longleftrightarrow>
     queue_repr m L_watcher_queue (map W_watcher_queue ws) \<and> set ws \<subseteq> D \<and>
     (\<forall>w\<in>D. w \<notin> set ws \<longrightarrow> queue_repr m (W_watcher_queue w) [])"

lemma wq_ok_distinct: "wq_ok D m ws \<Longrightarrow> distinct ws"
  by (auto simp: wq_ok_def queue_repr_def distinct_map)

lemma queue_member_not_empty:
  assumes "queue_repr m a xs" and "q \<in> set xs"
  shows "\<not> QUEUE_EMPTY m q"
proof -
  obtain us vs where xs: "xs = us @ q # vs" using assms(2) by (meson split_list)
  then have "qnext m q = hd (vs @ [a])" using assms(1) qseg_first [of m q vs a] by (simp add: queue_repr_def)
  then show ?thesis using assms(1) xs by (cases vs) (auto simp: QUEUE_EMPTY_def QUEUE_NEXT_def queue_repr_def)
qed

lemma wq_ok_empty:
  assumes "wq_ok D m ws" and "w \<in> D"
  shows "QUEUE_EMPTY m (W_watcher_queue w) \<longleftrightarrow> w \<notin> set ws"
  using assms queue_repr_empty [of m "W_watcher_queue w" "[]"]
    queue_member_not_empty [of m L_watcher_queue "map W_watcher_queue ws" "W_watcher_queue w"]
  by (auto simp: wq_ok_def)

lemma wq_ok_insert:
  assumes "wq_ok D m ws" and "w \<in> D" and "w \<notin> set ws"
  shows "wq_ok D (QUEUE_INSERT_TAIL L_watcher_queue (W_watcher_queue w) m) (ws @ [w])"
proof -
  have q: "queue_repr m L_watcher_queue (map W_watcher_queue ws)" using assms(1) by (simp add: wq_ok_def)
  have "queue_repr (QUEUE_INSERT_TAIL L_watcher_queue (W_watcher_queue w) m) (W_watcher_queue v) []"
    if "v \<in> D" "v \<notin> set (ws @ [w])" for v
    using assms(1) that by (intro queue_frame_insert_tail [OF _ q]) (auto simp: wq_ok_def)
  then show ?thesis
    using assms queue_repr_insert_tail [OF q, of "W_watcher_queue w"] by (auto simp: wq_ok_def)
qed

lemma queue_remove_self: "queue_repr m q [] \<Longrightarrow> QUEUE_REMOVE q m = m"
  by (simp add: queue_repr_def queue_ops fun_upd_idem)

lemma wq_ok_remove:
  assumes "wq_ok D m ws" and "w \<in> D"
  shows "wq_ok D (QUEUE_INIT (W_watcher_queue w) (QUEUE_REMOVE (W_watcher_queue w) m)) (remove1 w ws)"
proof (cases "w \<in> set ws")
  case True
  let ?m = "QUEUE_REMOVE (W_watcher_queue w) m"
  have q: "queue_repr m L_watcher_queue (map W_watcher_queue ws)" using assms(1) by (simp add: wq_ok_def)
  have d: "distinct ws" using assms(1) by (rule wq_ok_distinct)
  have m: "queue_repr ?m L_watcher_queue (map W_watcher_queue (remove1 w ws))"
    using uvq.remove_member [OF q, of "W_watcher_queue w"] True by (simp add: map_remove1_inj inj_def)
  have others: "queue_repr ?m (W_watcher_queue v) []" if "v \<in> D" "v \<notin> set ws" for v
    using assms(1) that True by (intro uvq.frame_remove_member [OF _ q]) (auto simp: wq_ok_def)
  have "queue_repr (QUEUE_INIT (W_watcher_queue w) ?m) L_watcher_queue (map W_watcher_queue (remove1 w ws))"
    using d by (intro queue_frame_init [OF m]) auto
  moreover have "queue_repr (QUEUE_INIT (W_watcher_queue w) ?m) (W_watcher_queue v) []"
    if "v \<in> D" "v \<notin> set (remove1 w ws)" for v
    using that d others [of v] queue_repr_init queue_frame_init [of ?m "W_watcher_queue v" "[]"]
    by (cases "v = w") auto
  ultimately show ?thesis using assms(1) d by (auto simp: wq_ok_def)
next
  case False
  then have s: "queue_repr m (W_watcher_queue w) []" using assms by (simp add: wq_ok_def)
  have "QUEUE_INIT (W_watcher_queue w) m = m"
    using s by (simp add: queue_repr_def queue_ops fun_upd_idem)
  then show ?thesis using assms(1) False queue_remove_self [OF s] by (simp add: remove1_idem)
qed

text \<open>
  \<open>array_ok D f ws n\<close>: the array \<open>ws\<close> holds exactly the watchers of \<open>D\<close> that wait for
  some event, each at its descriptor, and \<open>n\<close> is their number.
\<close>

definition array_ok :: "nat set \<Rightarrow> (nat \<Rightarrow> uv__io) \<Rightarrow> nat option list \<Rightarrow> uint32 \<Rightarrow> bool" where
  "array_ok D f ws n \<longleftrightarrow>
     (\<forall>fd w. fd < length ws \<and> ws ! fd = Some w \<longrightarrow> w \<in> D \<and> io_fd (f w) = int fd \<and> io_pevents (f w) \<noteq> 0) \<and>
     (\<forall>w\<in>D. io_pevents (f w) \<noteq> 0 \<longrightarrow> nat (io_fd (f w)) < length ws \<and> ws ! nat (io_fd (f w)) = Some w) \<and>
     unat n = card {w \<in> D. io_pevents (f w) \<noteq> 0}"

definition fds_ok :: "nat set \<Rightarrow> (nat \<Rightarrow> uv__io) \<Rightarrow> bool" where
  "fds_ok D f \<longleftrightarrow> finite D \<and> inj_on (\<lambda>w. io_fd (f w)) D \<and> (\<forall>w\<in>D. 0 \<le> io_fd (f w) \<and> io_fd (f w) < 2 ^ 31 - 3)"

lemma fds_ok_card:
  assumes "fds_ok D f"
  shows "card D < 2 ^ 31"
proof -
  have "(\<lambda>w. io_fd (f w)) ` D \<subseteq> {0..<2 ^ 31 - 3}" using assms by (auto simp: fds_ok_def)
  then have "card ((\<lambda>w. io_fd (f w)) ` D) \<le> card {0..<2 ^ 31 - 3 :: int}" by (rule card_mono [rotated]) simp
  then show ?thesis using assms by (simp add: fds_ok_def card_image)
qed

text \<open>
  The invariant of the I/O watchers: those with an event mask stand in the array; those
  whose mask the kernel may not know yet wait in the queue.
\<close>

definition io_ok :: "nat set \<Rightarrow> uv_loop \<Rightarrow> nat list \<Rightarrow> bool" where
  "io_ok D L ws \<longleftrightarrow>
     fds_ok D (io L) \<and> wq_ok D (qmem L) ws \<and> array_ok D (io L) (watchers L) (nfds L) \<and> length (watchers L) < 2 ^ 31 \<and>
     (\<forall>w\<in>set ws. io_pevents (io L w) \<noteq> 0) \<and>
     (\<forall>w\<in>D. w \<notin> set ws \<longrightarrow> io_events (io L w) = io_pevents (io L w)) \<and>
     (\<forall>w\<in>D. io_pevents (io L w) = 0 \<longrightarrow> io_events (io L w) = 0)"

lemma array_okI:
  assumes "\<And>fd w. fd < length ws \<Longrightarrow> ws ! fd = Some w \<Longrightarrow> w \<in> D \<and> io_fd (f w) = int fd \<and> io_pevents (f w) \<noteq> 0"
    and "\<And>w. w \<in> D \<Longrightarrow> io_pevents (f w) \<noteq> 0 \<Longrightarrow> nat (io_fd (f w)) < length ws \<and> ws ! nat (io_fd (f w)) = Some w"
    and "unat n = card {w \<in> D. io_pevents (f w) \<noteq> 0}"
  shows "array_ok D f ws n"
  using assms unfolding array_ok_def by blast

lemma array_okD:
  assumes "array_ok D f ws n"
  shows "fd < length ws \<Longrightarrow> ws ! fd = Some w \<Longrightarrow> w \<in> D \<and> io_fd (f w) = int fd \<and> io_pevents (f w) \<noteq> 0"
    and "w \<in> D \<Longrightarrow> io_pevents (f w) \<noteq> 0 \<Longrightarrow> nat (io_fd (f w)) < length ws \<and> ws ! nat (io_fd (f w)) = Some w"
    and "unat n = card {w \<in> D. io_pevents (f w) \<noteq> 0}"
  using assms unfolding array_ok_def by blast+

lemma array_ok_extend:
  assumes "array_ok D f ws n"
  shows "array_ok D f (ws @ replicate k None) n"
proof (rule array_okI)
  fix fd w assume fd: "fd < length (ws @ replicate k None)" "(ws @ replicate k None) ! fd = Some w"
  then have "fd < length ws" by (cases "fd < length ws") (simp_all add: nth_append)
  with fd show "w \<in> D \<and> io_fd (f w) = int fd \<and> io_pevents (f w) \<noteq> 0"
    using array_okD(1) [OF assms, of fd w] by (simp add: nth_append)
next
  fix w assume "w \<in> D" "io_pevents (f w) \<noteq> 0"
  from array_okD(2) [OF assms this]
  show "nat (io_fd (f w)) < length (ws @ replicate k None) \<and> (ws @ replicate k None) ! nat (io_fd (f w)) = Some w"
    by (simp add: nth_append)
qed (rule array_okD(3) [OF assms])

lemma array_ok_cell:
  assumes "array_ok D f ws n" and "fds_ok D f" and "w \<in> D" and "nat (io_fd (f w)) < length ws"
  shows "ws ! nat (io_fd (f w)) = (if io_pevents (f w) = 0 then None else Some w)"
proof (cases "ws ! nat (io_fd (f w))")
  case None
  then show ?thesis using array_okD(2) [OF assms(1,3)] by auto
next
  case (Some v)
  have v: "v \<in> D" "io_fd (f v) = int (nat (io_fd (f w)))" "io_pevents (f v) \<noteq> 0"
    using array_okD(1) [OF assms(1,4) Some] by auto
  have "0 \<le> io_fd (f w)" using assms(2,3) by (simp add: fds_ok_def)
  then have "io_fd (f v) = io_fd (f w)" using v(2) by simp
  then have "v = w" using assms(2,3) v(1) by (metis (mono_tags, lifting) fds_ok_def inj_onD)
  with Some v(3) show ?thesis by simp
qed

lemma fds_ok_ne:
  assumes "fds_ok D f" and "v \<in> D" and "w \<in> D" and "v \<noteq> w"
  shows "nat (io_fd (f v)) \<noteq> nat (io_fd (f w))"
proof
  assume "nat (io_fd (f v)) = nat (io_fd (f w))"
  moreover have "0 \<le> io_fd (f v)" "0 \<le> io_fd (f w)" using assms by (auto simp: fds_ok_def)
  ultimately have "io_fd (f v) = io_fd (f w)" by simp
  then show False using assms by (metis (mono_tags, lifting) fds_ok_def inj_onD)
qed

lemma array_ok_mask:
  assumes a: "array_ok D f ws n" and x: "io_pevents (f w) = 0 \<longleftrightarrow> io_pevents x = 0" "io_fd x = io_fd (f w)"
  shows "array_ok D (f(w := x)) ws n"
proof (rule array_okI)
  fix fd v assume "fd < length ws" "ws ! fd = Some v"
  from array_okD(1) [OF a this] show "v \<in> D \<and> io_fd ((f(w := x)) v) = int fd \<and> io_pevents ((f(w := x)) v) \<noteq> 0"
    using x by (cases "v = w") auto
next
  fix v assume v: "v \<in> D" "io_pevents ((f(w := x)) v) \<noteq> 0"
  then have "io_pevents (f v) \<noteq> 0" using x(1) by (simp split: if_splits)
  from array_okD(2) [OF a v(1) this]
  show "nat (io_fd ((f(w := x)) v)) < length ws \<and> ws ! nat (io_fd ((f(w := x)) v)) = Some v"
    using x(2) by (cases "v = w") auto
next
  have "{v \<in> D. io_pevents ((f(w := x)) v) \<noteq> 0} = {v \<in> D. io_pevents (f v) \<noteq> 0}" using x(1) by auto
  then show "unat n = card {v \<in> D. io_pevents ((f(w := x)) v) \<noteq> 0}" using array_okD(3) [OF a] by simp
qed

lemma array_ok_add:
  assumes a: "array_ok D f ws n" and d: "fds_ok D f" and w: "w \<in> D" and fd: "nat (io_fd (f w)) < length ws"
    and x: "io_pevents (f w) = 0" "io_pevents x \<noteq> 0" "io_fd x = io_fd (f w)"
  shows "array_ok D (f(w := x)) (ws[nat (io_fd (f w)) := Some w]) (n + 1)"
proof (rule array_okI)
  let ?S = "{v \<in> D. io_pevents (f v) \<noteq> 0}"
  have fin: "finite D" using d by (simp add: fds_ok_def)
  have S: "{v \<in> D. io_pevents ((f(w := x)) v) \<noteq> 0} = insert w ?S" "w \<notin> ?S" using w x by auto
  have "card (insert w ?S) \<le> card D" using w fin by (intro card_mono) auto
  then have "card ?S + 1 < 2 ^ 32" using fds_ok_card [OF d] S(2) fin by simp
  then show "unat (n + 1) = card {v \<in> D. io_pevents ((f(w := x)) v) \<noteq> 0}"
    unfolding S(1) using array_okD(3) [OF a] S(2) fin by (simp add: unat_word_ariths)
next
  fix k v assume k: "k < length (ws[nat (io_fd (f w)) := Some w])" "ws[nat (io_fd (f w)) := Some w] ! k = Some v"
  show "v \<in> D \<and> io_fd ((f(w := x)) v) = int k \<and> io_pevents ((f(w := x)) v) \<noteq> 0"
  proof (cases "k = nat (io_fd (f w))")
    case True
    moreover have "0 \<le> io_fd (f w)" using d w by (simp add: fds_ok_def)
    ultimately show ?thesis using k fd w x by simp
  next
    case False
    then show ?thesis using array_okD(1) [OF a, of k v] k x by (cases "v = w") auto
  qed
next
  fix v assume v: "v \<in> D" "io_pevents ((f(w := x)) v) \<noteq> 0"
  then show "nat (io_fd ((f(w := x)) v)) < length (ws[nat (io_fd (f w)) := Some w]) \<and>
      ws[nat (io_fd (f w)) := Some w] ! nat (io_fd ((f(w := x)) v)) = Some v"
    using array_okD(2) [OF a v(1)] fds_ok_ne [OF d v(1) w] fd x(3) by (cases "v = w") auto
qed

lemma array_ok_drop:
  assumes a: "array_ok D f ws n" and d: "fds_ok D f" and w: "w \<in> D"
    and x: "io_pevents (f w) \<noteq> 0" "io_pevents x = 0" "io_fd x = io_fd (f w)"
  shows "array_ok D (f(w := x)) (ws[nat (io_fd (f w)) := None]) (n - 1)" and "n \<noteq> 0"
proof -
  let ?S = "{v \<in> D. io_pevents (f v) \<noteq> 0}"
  have fin: "finite ?S" using d by (simp add: fds_ok_def)
  have S: "{v \<in> D. io_pevents ((f(w := x)) v) \<noteq> 0} = ?S - {w}" "w \<in> ?S" using w x by auto
  then have "card ?S > 0" using fin by (auto simp: card_gt_0_iff)
  then show n: "n \<noteq> 0" using array_okD(3) [OF a] by auto
  then have c: "unat (n - 1) = card (?S - {w})" using array_okD(3) [OF a] S(2) fin by (simp add: unat_minus_one)
  show "array_ok D (f(w := x)) (ws[nat (io_fd (f w)) := None]) (n - 1)"
  proof (rule array_okI)
    show "unat (n - 1) = card {v \<in> D. io_pevents ((f(w := x)) v) \<noteq> 0}" unfolding S(1) by (rule c)
  next
    fix k v assume k: "k < length (ws[nat (io_fd (f w)) := None])" "ws[nat (io_fd (f w)) := None] ! k = Some v"
    then have ne: "k \<noteq> nat (io_fd (f w))" by auto
    with k have "v \<in> D" "io_fd (f v) = int k" "io_pevents (f v) \<noteq> 0" using array_okD(1) [OF a, of k v] by auto
    moreover from this ne have "v \<noteq> w" by auto
    ultimately show "v \<in> D \<and> io_fd ((f(w := x)) v) = int k \<and> io_pevents ((f(w := x)) v) \<noteq> 0" by simp
  next
    fix v assume v: "v \<in> D" "io_pevents ((f(w := x)) v) \<noteq> 0"
    then have "v \<noteq> w" using x(2) by auto
    with v show "nat (io_fd ((f(w := x)) v)) < length (ws[nat (io_fd (f w)) := None]) \<and>
        ws[nat (io_fd (f w)) := None] ! nat (io_fd ((f(w := x)) v)) = Some v"
      using array_okD(2) [OF a v(1)] fds_ok_ne [OF d v(1) w] by simp
  qed
qed

text \<open>What starting and stopping a watcher leaves alone.\<close>

definition io_frame :: "uv_loop \<Rightarrow> uv_loop \<Rightarrow> nat \<Rightarrow> bool" where
  "io_frame L' L w \<longleftrightarrow>
     (\<exists>m x ws n. L' = L\<lparr>qmem := m, io := (io L)(w := x), watchers := ws, nfds := n\<rparr> \<and>
       io_fd x = io_fd (io L w) \<and> io_cb x = io_cb (io L w))"

lemma io_frameI:
  "L' = L\<lparr>qmem := m, io := (io L)(w := x), watchers := ws, nfds := n\<rparr> \<Longrightarrow> io_fd x = io_fd (io L w) \<Longrightarrow>
    io_cb x = io_cb (io L w) \<Longrightarrow> io_frame L' L w"
  unfolding io_frame_def by blast

abbreviation io_mask :: "uint32 \<Rightarrow> bool" where
  "io_mask ev \<equiv> ev AND NOT (UV__POLLIN OR UV__POLLOUT) = 0 \<and> ev \<noteq> 0"

lemma or_eq_0_word: "a OR b = 0 \<longleftrightarrow> a = 0 \<and> b = 0" for a b :: "'a::len word"
  by (auto simp: bit_eq_iff bit_simps)

section \<open>Starting and stopping\<close>

lemma fds_ok_upd: "fds_ok D f \<Longrightarrow> io_fd x = io_fd (f w) \<Longrightarrow> fds_ok D (f(w := x))"
proof -
  assume f: "fds_ok D f" and x: "io_fd x = io_fd (f w)"
  have e: "io_fd ((f(w := x)) v) = io_fd (f v)" for v using x by simp
  show "fds_ok D (f(w := x))" using f unfolding fds_ok_def e .
qed

lemma io_okI:
  assumes "fds_ok D (io L)" and "wq_ok D (qmem L) ws" and "array_ok D (io L) (watchers L) (nfds L)"
    and "length (watchers L) < 2 ^ 31" and "\<And>w. w \<in> set ws \<Longrightarrow> io_pevents (io L w) \<noteq> 0"
    and "\<And>w. w \<in> D \<Longrightarrow> w \<notin> set ws \<Longrightarrow> io_events (io L w) = io_pevents (io L w)"
    and "\<And>w. w \<in> D \<Longrightarrow> io_pevents (io L w) = 0 \<Longrightarrow> io_events (io L w) = 0"
  shows "io_ok D L ws"
  using assms by (simp add: io_ok_def)

lemma io_okD:
  assumes "io_ok D L ws"
  shows "fds_ok D (io L)" and "wq_ok D (qmem L) ws" and "array_ok D (io L) (watchers L) (nfds L)"
    and "length (watchers L) < 2 ^ 31" and "w \<in> set ws \<Longrightarrow> io_pevents (io L w) \<noteq> 0"
    and "w \<in> D \<Longrightarrow> w \<notin> set ws \<Longrightarrow> io_events (io L w) = io_pevents (io L w)"
    and "w \<in> D \<Longrightarrow> io_pevents (io L w) = 0 \<Longrightarrow> io_events (io L w) = 0"
  using assms by (auto simp: io_ok_def)

lemma uv__io_start_spec:
  assumes ok: "io_ok D L ws" and w: "w \<in> D" and ev: "io_mask ev"
  shows "\<exists>L' ws'. uv__io_start w ev L = Some L' \<and> io_ok D L' ws' \<and> io_frame L' L w \<and>
    io_pevents (io L' w) = io_pevents (io L w) OR ev \<and> io_events (io L' w) = io_events (io L w)"
proof -
  let ?x = "(io L w)\<lparr>io_pevents := io_pevents (io L w) OR ev\<rparr>"
  let ?f = "(io L)(w := ?x)" and ?fd = "nat (io_fd (io L w))"
  note D = io_okD [OF ok]
  have fd: "0 \<le> io_fd (io L w)" "io_fd (io L w) < 2 ^ 31 - 3" using D(1) w by (auto simp: fds_ok_def)
  have "(of_int (io_fd (io L w) + 1) :: uint32) = of_nat (nat (io_fd (io L w) + 1))" using fd(1) by simp
  moreover have "nat (io_fd (io L w) + 1) < 2 ^ LENGTH(32)" using fd(2) by simp
  ultimately have ulen: "unat (of_int (io_fd (io L w) + 1) :: uint32) = nat (io_fd (io L w) + 1)"
    using unat_of_nat_small by metis
  have "nat (io_fd (io L w) + 1) \<le> 2 ^ 31 - 2" using fd by (simp add: nat_le_iff)
  then obtain k where k: "maybe_resize (of_int (io_fd (io L w) + 1)) (upd_io w (\<lambda>_. ?x) L) =
      Some ((upd_io w (\<lambda>_. ?x) L)\<lparr>watchers := watchers L @ replicate k None\<rparr>)"
      "nat (io_fd (io L w) + 1) \<le> length (watchers L) + k" "length (watchers L) + k < 2 ^ 31"
    using maybe_resize_spec [of "of_int (io_fd (io L w) + 1)" "upd_io w (\<lambda>_. ?x) L"] ulen D(4) by auto
  have in_range: "?fd < length (watchers L @ replicate k None)" using k(2) fd(1) by simp
  have pe: "io_pevents ?x \<noteq> 0" using ev by (simp add: or_eq_0_word)
  have arr: "array_ok D (io L) (watchers L @ replicate k None) (nfds L)" using D(3) by (rule array_ok_extend)
  note cell = array_ok_cell [OF arr D(1) w in_range]
  have emp: "QUEUE_EMPTY (qmem L) (W_watcher_queue w) \<longleftrightarrow> w \<notin> set ws" using wq_ok_empty [OF D(2) w] .
  have fds: "fds_ok D ?f" using fds_ok_upd [OF D(1)] by simp
  show ?thesis
  proof (cases "io_events (io L w) = io_pevents ?x")
    case True
    let ?L = "(upd_io w (\<lambda>_. ?x) L)\<lparr>watchers := watchers L @ replicate k None\<rparr>"
    have old: "io_pevents (io L w) \<noteq> 0" using D(7) [OF w] True pe by auto
    have "uv__io_start w ev L = Some ?L"
      using ev fd k(1) True pe by (simp add: uv__io_start_def upd_io_def)
    moreover have "io_ok D ?L ws"
      using fds D(2) array_ok_mask [OF arr, of w ?x] old pe k(3) D(5-7) True
      by (intro io_okI) (auto split: if_splits)
    moreover have "io_frame ?L L w" by (rule io_frameI [where m = "qmem L" and x = ?x and n = "nfds L"]) (simp_all add: upd_io_def)
    ultimately show ?thesis by (intro exI [of _ ?L] exI [of _ ws]) simp
  next
    case False
    let ?m = "if w \<in> set ws then qmem L else QUEUE_INSERT_TAIL L_watcher_queue (W_watcher_queue w) (qmem L)"
    let ?ws = "if w \<in> set ws then ws else ws @ [w]"
    let ?a = "if io_pevents (io L w) = 0 then (watchers L @ replicate k None)[?fd := Some w] else watchers L @ replicate k None"
    let ?n = "if io_pevents (io L w) = 0 then nfds L + 1 else nfds L"
    let ?L = "L\<lparr>qmem := ?m, io := ?f, watchers := ?a, nfds := ?n\<rparr>"
    have "uv__io_start w ev L = Some ?L"
      using ev fd k(1) False cell emp by (simp add: uv__io_start_def upd_io_def upd_q_def Let_def)
    moreover have "array_ok D ?f ?a ?n"
      using array_ok_mask [OF arr, of w ?x] array_ok_add [OF arr D(1) w in_range, of ?x] pe by auto
    then have "io_ok D ?L ?ws"
      using fds D(2) wq_ok_insert [OF D(2) w] k(3) D(5-7) pe
      by (intro io_okI) (auto split: if_splits)
    moreover have "io_frame ?L L w" by (rule io_frameI [where m = ?m and x = ?x and ws = ?a and n = ?n]) simp_all
    ultimately show ?thesis by (intro exI [of _ ?L] exI [of _ ?ws]) simp
  qed
qed

lemma io_fd_range:
  assumes "io_ok D L ws" and "w \<in> D"
  shows "0 \<le> io_fd (io L w)" and "io_fd (io L w) \<noteq> - 1"
    and "(of_int (io_fd (io L w)) :: uint32) \<ge> of_nat (length (watchers L)) \<longleftrightarrow> length (watchers L) \<le> nat (io_fd (io L w))"
proof -
  note D = io_okD [OF assms(1)]
  have fd: "0 \<le> io_fd (io L w)" "io_fd (io L w) < 2 ^ 31 - 3" using D(1) assms(2) by (auto simp: fds_ok_def)
  have "(of_int (io_fd (io L w)) :: uint32) = of_nat (nat (io_fd (io L w)))" using fd(1) by simp
  moreover have "nat (io_fd (io L w)) < 2 ^ LENGTH(32)" "length (watchers L) < 2 ^ LENGTH(32)" using fd(2) D(4) by auto
  ultimately show "(of_int (io_fd (io L w)) :: uint32) \<ge> of_nat (length (watchers L)) \<longleftrightarrow> length (watchers L) \<le> nat (io_fd (io L w))"
    using unat_of_nat_small by (metis word_le_nat_alt)
  show "0 \<le> io_fd (io L w)" "io_fd (io L w) \<noteq> - 1" using fd by auto
qed

text \<open>What stopping some events of watcher \<open>w\<close> does.\<close>

definition io_stopped :: "nat set \<Rightarrow> nat \<Rightarrow> uint32 \<Rightarrow> uv_loop \<Rightarrow> uv_loop \<Rightarrow> nat list \<Rightarrow> bool" where
  "io_stopped D w ev L L' ws' \<longleftrightarrow>
     uv__io_stop w ev L = Some L' \<and> io_ok D L' ws' \<and> io_frame L' L w \<and>
     io_pevents (io L' w) = io_pevents (io L w) AND NOT ev \<and> (io_pevents (io L' w) = 0 \<longrightarrow> w \<notin> set ws')"

lemma uv__io_stop_never_started:
  assumes ok: "io_ok D L ws" and w: "w \<in> D" and ev: "io_mask ev" and out: "length (watchers L) \<le> nat (io_fd (io L w))"
  shows "io_stopped D w ev L L ws"
proof -
  note D = io_okD [OF ok]
  have z: "io_pevents (io L w) = 0" using array_okD(2) [OF D(3) w] out by (meson not_le)
  moreover have "uv__io_stop w ev L = Some L" using ev io_fd_range [OF ok w] out by (simp add: uv__io_stop_def)
  moreover have "io_frame L L w"
    by (rule io_frameI [where m = "qmem L" and x = "io L w" and ws = "watchers L" and n = "nfds L"]) simp_all
  moreover have "w \<notin> set ws" using z D(5) by blast
  ultimately show ?thesis using ok by (simp add: io_stopped_def)
qed

lemma uv__io_stop_last_event:
  assumes ok: "io_ok D L ws" and w: "w \<in> D" and ev: "io_mask ev" and fd: "nat (io_fd (io L w)) < length (watchers L)"
    and z: "io_pevents (io L w) AND NOT ev = 0"
  shows "\<exists>L'. io_stopped D w ev L L' (remove1 w ws)"
proof -
  let ?x = "(io L w)\<lparr>io_pevents := 0\<rparr>" let ?y = "?x\<lparr>io_events := 0\<rparr>"
  let ?m = "QUEUE_INIT (W_watcher_queue w) (QUEUE_REMOVE (W_watcher_queue w) (qmem L))"
  note D = io_okD [OF ok] and r = io_fd_range [OF ok w]
  note cell = array_ok_cell [OF D(3,1) w fd]
  have q: "wq_ok D ?m (remove1 w ws)" using wq_ok_remove [OF D(2) w] .
  have d: "distinct ws" using D(2) by (rule wq_ok_distinct)
  show ?thesis
  proof (cases "io_pevents (io L w) = 0")
    case True
    let ?L = "L\<lparr>qmem := ?m, io := (io L)(w := ?x)\<rparr>"
    have "uv__io_stop w ev L = Some ?L"
      using ev r fd z cell True by (simp add: uv__io_stop_def upd_io_def upd_q_def Let_def)
    moreover have "io_ok D ?L (remove1 w ws)"
      using fds_ok_upd [OF D(1), of ?x w] q array_ok_mask [OF D(3), of w ?x] True D(4-7) d
      by (intro io_okI) (auto split: if_splits)
    moreover have "io_frame ?L L w" by (rule io_frameI [where m = ?m and x = ?x and ws = "watchers L" and n = "nfds L"]) simp_all
    ultimately show ?thesis using d z by (intro exI [of _ ?L]) (simp add: io_stopped_def)
  next
    case False
    let ?a = "(watchers L)[nat (io_fd (io L w)) := None]" and ?n = "nfds L - 1"
    let ?L = "L\<lparr>qmem := ?m, io := (io L)(w := ?y), watchers := ?a, nfds := ?n\<rparr>"
    have a: "array_ok D ((io L)(w := ?y)) ?a ?n" "nfds L \<noteq> 0" using array_ok_drop [OF D(3,1) w False, of ?y] by auto
    then have "uv__io_stop w ev L = Some ?L"
      using ev r fd z cell False by (simp add: uv__io_stop_def upd_io_def upd_q_def Let_def)
    moreover have "io_ok D ?L (remove1 w ws)"
      using fds_ok_upd [OF D(1), of ?y w] a q D(4-7) d by (intro io_okI) (auto split: if_splits)
    moreover have "io_frame ?L L w" by (rule io_frameI [where m = ?m and x = ?y and ws = ?a and n = ?n]) simp_all
    ultimately show ?thesis using d z by (intro exI [of _ ?L]) (simp add: io_stopped_def)
  qed
qed

lemma uv__io_stop_some_events:
  assumes ok: "io_ok D L ws" and w: "w \<in> D" and ev: "io_mask ev" and fd: "nat (io_fd (io L w)) < length (watchers L)"
    and z: "io_pevents (io L w) AND NOT ev \<noteq> 0"
  shows "\<exists>L'. io_stopped D w ev L L' (if w \<in> set ws then ws else ws @ [w])"
proof -
  let ?x = "(io L w)\<lparr>io_pevents := io_pevents (io L w) AND NOT ev\<rparr>"
  let ?m = "if w \<in> set ws then qmem L else QUEUE_INSERT_TAIL L_watcher_queue (W_watcher_queue w) (qmem L)"
  let ?L = "L\<lparr>qmem := ?m, io := (io L)(w := ?x)\<rparr>"
  note D = io_okD [OF ok] and r = io_fd_range [OF ok w]
  have "io_pevents (io L w) \<noteq> 0" using z by auto
  then have "io_ok D ?L (if w \<in> set ws then ws else ws @ [w])"
    using fds_ok_upd [OF D(1), of ?x w] D(2) wq_ok_insert [OF D(2) w] array_ok_mask [OF D(3), of w ?x] z D(4-7)
    by (intro io_okI) (auto split: if_splits)
  moreover have "uv__io_stop w ev L = Some ?L"
    using ev r fd z wq_ok_empty [OF D(2) w] by (simp add: uv__io_stop_def upd_io_def upd_q_def Let_def)
  moreover have "io_frame ?L L w" by (rule io_frameI [where m = ?m and x = ?x and ws = "watchers L" and n = "nfds L"]) simp_all
  ultimately show ?thesis using z by (intro exI [of _ ?L]) (simp add: io_stopped_def)
qed

lemma uv__io_stop_spec:
  assumes "io_ok D L ws" and "w \<in> D" and "io_mask ev"
  shows "\<exists>L' ws'. io_stopped D w ev L L' ws'"
  using uv__io_stop_never_started [OF assms] uv__io_stop_last_event [OF assms] uv__io_stop_some_events [OF assms]
  by (meson not_le)

text \<open>Sequences of uses of the two functions.\<close>

datatype io_call = Io_start nat uint32 | Io_stop nat uint32

fun exec_io_call :: "io_call \<Rightarrow> uv_loop \<Rightarrow> uv_loop option" where
  "exec_io_call (Io_start w ev) L = uv__io_start w ev L"
| "exec_io_call (Io_stop w ev) L = uv__io_stop w ev L"

fun exec_io_calls :: "io_call list \<Rightarrow> uv_loop \<Rightarrow> uv_loop option" where
  "exec_io_calls [] L = Some L"
| "exec_io_calls (c # cs) L = do { L \<leftarrow> exec_io_call c L; exec_io_calls cs L }"

fun io_call_ok :: "nat set \<Rightarrow> io_call \<Rightarrow> bool" where
  "io_call_ok D (Io_start w ev) \<longleftrightarrow> w \<in> D \<and> io_mask ev"
| "io_call_ok D (Io_stop w ev) \<longleftrightarrow> w \<in> D \<and> io_mask ev"

text \<open>The event masks such a sequence asks for.\<close>

fun requested :: "io_call \<Rightarrow> (nat \<Rightarrow> uint32) \<Rightarrow> nat \<Rightarrow> uint32" where
  "requested (Io_start w ev) f = f(w := f w OR ev)"
| "requested (Io_stop w ev) f = f(w := f w AND NOT ev)"

lemma io_frame_masks: "io_frame L' L w \<Longrightarrow> v \<noteq> w \<Longrightarrow> io L' v = io L v"
  by (auto simp: io_frame_def)

lemma exec_io_call_spec:
  assumes "io_ok D L ws" and "io_call_ok D c"
  shows "\<exists>L' ws'. exec_io_call c L = Some L' \<and> io_ok D L' ws' \<and>
    (\<lambda>v. io_pevents (io L' v)) = requested c (\<lambda>v. io_pevents (io L v))"
proof (cases c)
  case (Io_start w ev)
  obtain L' ws' where s: "uv__io_start w ev L = Some L'" "io_ok D L' ws'" "io_frame L' L w"
      "io_pevents (io L' w) = io_pevents (io L w) OR ev"
    using uv__io_start_spec [OF assms(1), of w ev] assms(2) Io_start by auto
  then show ?thesis using Io_start io_frame_masks [OF s(3)] by (intro exI [of _ L'] exI [of _ ws']) (auto simp: fun_eq_iff)
next
  case (Io_stop w ev)
  obtain L' ws' where s: "uv__io_stop w ev L = Some L'" "io_ok D L' ws'" "io_frame L' L w"
      "io_pevents (io L' w) = io_pevents (io L w) AND NOT ev"
    using uv__io_stop_spec [OF assms(1), of w ev] assms(2) Io_stop by (auto simp: io_stopped_def)
  then show ?thesis using Io_stop io_frame_masks [OF s(3)] by (intro exI [of _ L'] exI [of _ ws']) (auto simp: fun_eq_iff)
qed

lemma exec_io_calls_spec:
  assumes "io_ok D L ws" and "\<forall>c\<in>set cs. io_call_ok D c"
  shows "\<exists>L' ws'. exec_io_calls cs L = Some L' \<and> io_ok D L' ws' \<and>
    (\<lambda>v. io_pevents (io L' v)) = fold requested cs (\<lambda>v. io_pevents (io L v))"
  using assms
proof (induction cs arbitrary: L ws)
  case (Cons c cs)
  obtain L1 ws1 where "exec_io_call c L = Some L1" "io_ok D L1 ws1"
      "(\<lambda>v. io_pevents (io L1 v)) = requested c (\<lambda>v. io_pevents (io L v))"
    using exec_io_call_spec [OF Cons.prems(1), of c] Cons.prems(2) by (meson list.set_intros(1))
  with Cons.IH [of L1 ws1] Cons.prems(2) show ?case by auto
qed auto

text \<open>
  Property C27. Whatever sequence of \<^verbatim>\<open>uv__io_start\<close> and \<^verbatim>\<open>uv__io_stop\<close> runs on watchers of
  different descriptors, no assertion fails and no array bound is left: afterwards every
  watcher has exactly the events requested, those with a request and only those stand in
  the loop's array under their descriptor, \<^verbatim>\<open>nfds\<close> counts them, and every watcher
  whose request the kernel has not been told waits in the watcher queue.\<close>

theorem io_start_stop_correct:
  assumes "io_ok D L ws" and "\<forall>c\<in>set cs. io_call_ok D c"
  shows "\<exists>L' ws'. exec_io_calls cs L = Some L' \<and>
    (\<forall>w. io_pevents (io L' w) = fold requested cs (\<lambda>v. io_pevents (io L v)) w) \<and>
    (\<forall>w\<in>D. io_pevents (io L' w) \<noteq> 0 \<longrightarrow>
       nat (io_fd (io L' w)) < length (watchers L') \<and> watchers L' ! nat (io_fd (io L' w)) = Some w) \<and>
    (\<forall>fd w. fd < length (watchers L') \<longrightarrow> watchers L' ! fd = Some w \<longrightarrow> w \<in> D \<and> io_pevents (io L' w) \<noteq> 0) \<and>
    unat (nfds L') = card {w \<in> D. io_pevents (io L' w) \<noteq> 0} \<and>
    queue_repr (qmem L') L_watcher_queue (map W_watcher_queue ws') \<and>
    (\<forall>w\<in>D. io_events (io L' w) \<noteq> io_pevents (io L' w) \<longrightarrow> w \<in> set ws')"
proof -
  obtain L' ws' where e: "exec_io_calls cs L = Some L'" "io_ok D L' ws'"
      "(\<lambda>v. io_pevents (io L' v)) = fold requested cs (\<lambda>v. io_pevents (io L v))"
    using exec_io_calls_spec [OF assms] by blast
  note D = io_okD [OF e(2)]
  have "io_pevents (io L' w) = fold requested cs (\<lambda>v. io_pevents (io L v)) w" for w using fun_cong [OF e(3)] .
  then show ?thesis
    using e(1) array_okD [OF D(3)] D(2,6) unfolding wq_ok_def by blast
qed

text \<open>A loop with two watchers, for descriptors 5 and 9.\<close>

definition io_loop :: uv_loop where
  "io_loop = the (uv__io_init 2 0 9 (the (uv__io_init 1 0 5 fresh_loop)))"

lemma io_loop_ok: "io_ok {1, 2} io_loop []"
proof (rule io_okI)
  show "wq_ok {1, 2} (qmem io_loop) []"
    by (auto simp: wq_ok_def queue_repr_def queue_ops io_loop_def uv__io_init_def upd_io_def upd_q_def fresh_loop_def
        uv_loop_init_fields_def uv__update_time_def Let_def)
  show "fds_ok {1, 2} (io io_loop)"
    by (auto simp: fds_ok_def io_loop_def uv__io_init_def Let_def)
  have "{w \<in> {1, 2}. io_pevents (io io_loop w) \<noteq> 0} = {}"
    by (auto simp: io_loop_def uv__io_init_def Let_def)
  then show "array_ok {1, 2} (io io_loop) (watchers io_loop) (nfds io_loop)"
    by (intro array_okI) (auto simp: io_loop_def uv__io_init_def fresh_loop_def
        uv_loop_init_fields_def uv__update_time_def Let_def)
qed (auto simp: io_loop_def uv__io_init_def fresh_loop_def uv_loop_init_fields_def uv__update_time_def Let_def)

theorem io_start_stop_correct_witness:
  "\<exists>L' ws'. exec_io_calls [Io_start 1 5, Io_start 2 1, Io_stop 1 4] io_loop = Some L' \<and>
    (\<forall>w. io_pevents (io L' w) = fold requested [Io_start 1 5, Io_start 2 1, Io_stop 1 4] (\<lambda>v. io_pevents (io io_loop v)) w) \<and>
    (\<forall>w\<in>{1, 2}. io_pevents (io L' w) \<noteq> 0 \<longrightarrow>
       nat (io_fd (io L' w)) < length (watchers L') \<and> watchers L' ! nat (io_fd (io L' w)) = Some w) \<and>
    (\<forall>fd w. fd < length (watchers L') \<longrightarrow> watchers L' ! fd = Some w \<longrightarrow> w \<in> {1, 2} \<and> io_pevents (io L' w) \<noteq> 0) \<and>
    unat (nfds L') = card {w \<in> {1, 2}. io_pevents (io L' w) \<noteq> 0} \<and>
    queue_repr (qmem L') L_watcher_queue (map W_watcher_queue ws') \<and>
    (\<forall>w\<in>{1, 2}. io_events (io L' w) \<noteq> io_pevents (io L' w) \<longrightarrow> w \<in> set ws')"
  by (rule io_start_stop_correct [OF io_loop_ok]) simp

end
