(* ===== verification/Uv_Poll.thy ===== *)
theory Uv_Poll
  imports Uv_Io
begin

text \<open>
  Waiting for I/O, \<^verbatim>\<open>uv__io_poll\<close> and the set-up of the backend of
  \<^verbatim>\<open>core/libuv/src/unix/linux-core.c\<close>, and poll handles, \<^verbatim>\<open>unix/poll.c\<close>. The loop
  \<^verbatim>\<open>for (;;)\<close> of \<^verbatim>\<open>uv__io_poll\<close> is a partial function over rounds; the loop over the
  events of a round is structural.
\<close>

section \<open>The code\<close>

abbreviation ENOSYS :: int where "ENOSYS \<equiv> 38"
abbreviation EINTR :: int where "EINTR \<equiv> 4"
abbreviation EEXIST :: int where "EEXIST \<equiv> 17"
abbreviation EBADF :: int where "EBADF \<equiv> 9"
abbreviation UV_LOOP_BLOCK_SIGPROF :: uint32 where "UV_LOOP_BLOCK_SIGPROF \<equiv> 1"
abbreviation max_events :: nat where "max_events \<equiv> 1024"

text \<open>
  One watcher of the queue is made known to the kernel. \<^verbatim>\<open>EEXIST\<close> after an addition
  means that the descriptor had been watched before.
\<close>

definition arm_watcher :: "uv_os \<Rightarrow> nat \<Rightarrow> uv_loop \<Rightarrow> uv_loop option" where
  "arm_watcher os w L =
     (let L = upd_q (QUEUE_REMOVE (W_watcher_queue w)) L;
          L = upd_q (QUEUE_INIT (W_watcher_queue w)) L
      in if io_pevents (io L w) = 0 \<or> io_fd (io L w) < 0 \<or> io_fd (io L w) \<ge> int (length (watchers L)) then None
         else
           let opr = (if io_events (io L w) = 0 then UV__EPOLL_CTL_ADD else UV__EPOLL_CTL_MOD);
               ev = io_pevents (io L w);
               (r, L) = uv__epoll_ctl os opr (io_fd (io L w)) ev L
           in if r \<noteq> 0 then
                if r \<noteq> EEXIST \<or> opr \<noteq> UV__EPOLL_CTL_ADD then None
                else
                  let (r, L) = uv__epoll_ctl os UV__EPOLL_CTL_MOD (io_fd (io L w)) ev L
                  in if r \<noteq> 0 then None else Some (upd_io w (\<lambda>x. x\<lparr>io_events := io_pevents x\<rparr>) L)
              else Some (upd_io w (\<lambda>x. x\<lparr>io_events := io_pevents x\<rparr>) L))"

partial_function (option) arm_watchers :: "uv_os \<Rightarrow> uv_loop \<Rightarrow> uv_loop option" where
  "arm_watchers os L =
     (if QUEUE_EMPTY (qmem L) L_watcher_queue then Some L
      else case QUEUE_HEAD (qmem L) L_watcher_queue of
        W_watcher_queue w \<Rightarrow> do {
          L \<leftarrow> arm_watcher os w L;
          arm_watchers os L
        }
      | _ \<Rightarrow> None)"

text \<open>
  The events left to a watcher: those it asked for, errors and hang-ups; a lone error
  or hang-up is joined by all the events asked for.
\<close>

definition filter_events :: "uint32 \<Rightarrow> uint32 \<Rightarrow> uint32" where
  "filter_events pevents ev =
     (let ev = ev AND (pevents OR UV__POLLERR OR UV__POLLHUP)
      in if ev = UV__POLLERR \<or> ev = UV__POLLHUP then ev OR pevents AND (UV__POLLIN OR UV__POLLOUT) else ev)"

text \<open>
  \<open>n\<close> events are left, from index \<open>i\<close> on, and \<open>k\<close> callbacks have run. The events are
  those in \<open>fake_watchers\<close>, where closing a watcher invalidates them.
\<close>

fun dispatch :: "uv_os \<Rightarrow> io_callback \<Rightarrow> nat \<Rightarrow> nat \<Rightarrow> nat \<Rightarrow> uv_loop \<Rightarrow> (nat \<times> uv_loop) option" where
  "dispatch os iocb 0 i k L = Some (k, L)"
| "dispatch os iocb (Suc n) i k L =
     (case fake_watchers L of
        None \<Rightarrow> None
      | Some events \<Rightarrow>
          let pe = events ! i; fd = fd_of_data (ev_data pe)
          in if fd = - 1 then dispatch os iocb n (i + 1) k L
             else if fd < 0 \<or> nat fd \<ge> length (watchers L) then None
             else (case watchers L ! nat fd of
                 None \<Rightarrow> dispatch os iocb n (i + 1) k (snd (uv__epoll_ctl os UV__EPOLL_CTL_DEL fd (ev_events pe) L))
               | Some w \<Rightarrow>
                   let ev = filter_events (io_pevents (io L w)) (ev_events pe);
                       L = L\<lparr>fake_watchers := Some (events[i := pe\<lparr>ev_events := ev\<rparr>])\<rparr>
                   in if ev \<noteq> 0 then do {
                        L \<leftarrow> call_io iocb w ev L;
                        dispatch os iocb n (i + 1) (k + 1) L
                      }
                      else dispatch os iocb n (i + 1) k L))"

datatype poll_next = Poll_return | Poll_again nat int

text \<open>The label \<^verbatim>\<open>update_timeout\<close>.\<close>

definition update_timeout :: "uint64 \<Rightarrow> nat \<Rightarrow> int \<Rightarrow> uv_loop \<Rightarrow> (poll_next \<times> uv_loop) option" where
  "update_timeout base count tmo L =
     (if tmo \<le> 0 then None
      else
        let diff = time L - base
        in if diff \<ge> of_int tmo then Some (Poll_return, L)
           else Some (Poll_again count (tmo - uint diff), L))"

text \<open>One round of the loop.\<close>

definition poll_round ::
  "uv_os \<Rightarrow> io_callback \<Rightarrow> bool \<Rightarrow> uint64 \<Rightarrow> nat \<Rightarrow> int \<Rightarrow> uv_loop \<Rightarrow> (poll_next \<times> uv_loop) option" where
  "poll_round os iocb sigmask base count tmo L =
     (if sigmask \<and> no_epoll_pwait L \<and> os_pthread_sigmask os \<noteq> 0 then None
      else
        let pwait = (sigmask \<and> \<not> no_epoll_pwait L);
            r = os_epoll_wait os (ctl_log L) (length (wait_log L)) tmo;
            L = L\<lparr>wait_log := wait_log L @ [tmo]\<rparr>;
            L = (if r = Inl ENOSYS then if pwait then L\<lparr>no_epoll_pwait := True\<rparr> else L\<lparr>no_epoll_wait := True\<rparr> else L)
        in if sigmask \<and> no_epoll_pwait L \<and> os_pthread_sigmask os \<noteq> 0 then None
           else
             let L = uv__update_time (os_hrtime os) L
             in case r of
                  Inl err \<Rightarrow>
                    if err = ENOSYS then
                      if \<not> no_epoll_wait L \<or> \<not> no_epoll_pwait L then Some (Poll_again count tmo, L) else None
                    else if err \<noteq> EINTR then None
                    else if tmo = - 1 then Some (Poll_again count tmo, L)
                    else if tmo = 0 then Some (Poll_return, L)
                    else update_timeout base count tmo L
                | Inr events \<Rightarrow>
                    if events = [] then if tmo = - 1 then None else Some (Poll_return, L)
                    else if watchers L = [] then None
                    else do {
                      (nevents, L) \<leftarrow> dispatch os iocb (length events) 0 0 (L\<lparr>fake_watchers := Some events\<rparr>);
                      let L = L\<lparr>fake_watchers := None\<rparr>;
                      if nevents \<noteq> 0 then
                        if length events = max_events \<and> count - 1 \<noteq> 0 then Some (Poll_again (count - 1) 0, L)
                        else Some (Poll_return, L)
                      else if tmo = 0 then Some (Poll_return, L)
                      else if tmo = - 1 then Some (Poll_again count tmo, L)
                      else update_timeout base count tmo L
                    })"

partial_function (option) poll_loop ::
  "uv_os \<Rightarrow> io_callback \<Rightarrow> bool \<Rightarrow> uint64 \<Rightarrow> nat \<Rightarrow> int \<Rightarrow> uv_loop \<Rightarrow> uv_loop option" where
  "poll_loop os iocb sigmask base count tmo L = do {
     (next, L) \<leftarrow> poll_round os iocb sigmask base count tmo L;
     case next of
       Poll_return \<Rightarrow> Some L
     | Poll_again count tmo \<Rightarrow> poll_loop os iocb sigmask base count tmo L
   }"

definition uv__io_poll :: "uv_os \<Rightarrow> io_callback \<Rightarrow> int \<Rightarrow> uv_loop \<Rightarrow> uv_loop option" where
  "uv__io_poll os iocb tmo L =
     (if nfds L = 0 then if QUEUE_EMPTY (qmem L) L_watcher_queue then Some L else None
      else do {
        L \<leftarrow> arm_watchers os L;
        if tmo < - 1 then None
        else poll_loop os iocb (loop_flags L AND UV_LOOP_BLOCK_SIGPROF \<noteq> 0) (time L) 48 tmo L
      })"

subsection \<open>Poll handles\<close>

abbreviation UV_READABLE :: int where "UV_READABLE \<equiv> 1"
abbreviation UV_WRITABLE :: int where "UV_WRITABLE \<equiv> 2"

text \<open>A user callback gets the handle, a status and the events.\<close>

type_synonym poll_callback = "cbid \<Rightarrow> hid \<Rightarrow> int \<Rightarrow> int \<Rightarrow> uv_loop \<Rightarrow> uv_loop option"

definition call_poll_cb :: "poll_callback \<Rightarrow> hid \<Rightarrow> int \<Rightarrow> int \<Rightarrow> uv_loop \<Rightarrow> uv_loop option" where
  "call_poll_cb pcb h status events L =
     (case poll_cb (handles L h) of
        None \<Rightarrow> None
      | Some c \<Rightarrow> pcb c h status events (L\<lparr>fired := fired L @ [(c, h)]\<rparr>))"

definition uv__poll_io :: "poll_callback \<Rightarrow> hid \<Rightarrow> uint32 \<Rightarrow> uv_loop \<Rightarrow> uv_loop option" where
  "uv__poll_io pcb h events L =
     (if events AND UV__POLLERR \<noteq> 0 then do {
        L \<leftarrow> uv__io_stop (io_watcher (handles L h)) (UV__POLLIN OR UV__POLLOUT) L;
        call_poll_cb pcb h (- EBADF) 0 (uv__handle_stop h L)
      }
      else
        let pevents = (if events AND UV__POLLIN \<noteq> 0 then UV_READABLE else 0) OR
                      (if events AND UV__POLLOUT \<noteq> 0 then UV_WRITABLE else 0)
        in call_poll_cb pcb h 0 pevents L)"

text \<open>\<open>nonblock\<close> is what \<^verbatim>\<open>uv__nonblock(fd, 1)\<close> returns; \<open>w\<close> is the embedded watcher.\<close>

definition uv_poll_init :: "int \<Rightarrow> hid \<Rightarrow> nat \<Rightarrow> cbid \<Rightarrow> int \<Rightarrow> uv_loop \<Rightarrow> (int \<times> uv_loop) option" where
  "uv_poll_init nonblock h w cb fd L =
     (if nonblock \<noteq> 0 then Some (nonblock, L)
      else do {
        let L = uv__handle_init h UV_POLL L;
        let L = upd_handle h (\<lambda>x. x\<lparr>io_watcher := w\<rparr>) L;
        L \<leftarrow> uv__io_init w cb fd L;
        Some (0, upd_handle h (\<lambda>x. x\<lparr>poll_cb := None\<rparr>) L)
      })"

definition uv__poll_stop :: "hid \<Rightarrow> uv_loop \<Rightarrow> uv_loop option" where
  "uv__poll_stop h L = do {
     L \<leftarrow> uv__io_stop (io_watcher (handles L h)) (UV__POLLIN OR UV__POLLOUT) L;
     Some (uv__handle_stop h L)
   }"

definition uv_poll_stop :: "hid \<Rightarrow> uv_loop \<Rightarrow> (int \<times> uv_loop) option" where
  "uv_poll_stop h L =
     (if uv__is_closing L h then None
      else do {
        L \<leftarrow> uv__poll_stop h L;
        Some (0, L)
      })"

definition uv_poll_start :: "hid \<Rightarrow> int \<Rightarrow> cbid option \<Rightarrow> uv_loop \<Rightarrow> (int \<times> uv_loop) option" where
  "uv_poll_start h pevents cb L =
     (if pevents AND NOT (UV_READABLE OR UV_WRITABLE) \<noteq> 0 \<or> uv__is_closing L h then None
      else do {
        L \<leftarrow> uv__poll_stop h L;
        if pevents = 0 then Some (0, L)
        else do {
          let events = (if pevents AND UV_READABLE \<noteq> 0 then UV__POLLIN else 0) OR
            (if pevents AND UV_WRITABLE \<noteq> 0 then UV__POLLOUT else 0);
          L \<leftarrow> uv__io_start (io_watcher (handles L h)) events L;
          let L = uv__handle_start h L;
          Some (0, upd_handle h (\<lambda>x. x\<lparr>poll_cb := cb\<rparr>) L)
        }
      })"

definition uv__poll_close :: "hid \<Rightarrow> uv_loop \<Rightarrow> uv_loop option" where
  "uv__poll_close h L = uv__poll_stop h L"

section \<open>Telling the kernel\<close>

text \<open>The descriptors the kernel watches after some calls of \<^verbatim>\<open>epoll_ctl\<close>.\<close>

fun interest_step :: "ctl_call \<Rightarrow> (int \<rightharpoonup> uint32) \<Rightarrow> int \<rightharpoonup> uint32" where
  "interest_step (opr, fd, ev, r) m =
     (if r \<noteq> 0 then m else if opr = UV__EPOLL_CTL_DEL then m(fd := None) else m(fd \<mapsto> ev))"

definition interest :: "ctl_call list \<Rightarrow> int \<rightharpoonup> uint32" where
  "interest log = fold interest_step log Map.empty"

lemma interest_snoc [simp]: "interest (log @ [c]) = interest_step c (interest log)"
  by (simp add: interest_def)

text \<open>\<^verbatim>\<open>epoll_ctl(2)\<close>: adding fails if the descriptor is watched, changing if it is not.\<close>

definition epoll_conforms :: "uv_os \<Rightarrow> bool" where
  "epoll_conforms os \<longleftrightarrow> (\<forall>log fd ev.
     os_epoll_ctl os log UV__EPOLL_CTL_ADD fd ev = (if fd \<in> dom (interest log) then EEXIST else 0) \<and>
     os_epoll_ctl os log UV__EPOLL_CTL_MOD fd ev = (if fd \<in> dom (interest log) then 0 else 2))"

text \<open>The kernel watches for the events that the loop believes it does.\<close>

definition kernel_ok :: "nat set \<Rightarrow> uv_loop \<Rightarrow> bool" where
  "kernel_ok D L \<longleftrightarrow>
     (\<forall>w\<in>D. io_events (io L w) \<noteq> 0 \<longrightarrow> interest (ctl_log L) (io_fd (io L w)) = Some (io_events (io L w)))"

lemma io_events_self: "\<exists>e. x = x\<lparr>io_events := e\<rparr>" for x :: uv__io
  by (rule exI [of _ "io_events x"]) simp

definition arm_frame :: "uv_loop \<Rightarrow> uv_loop \<Rightarrow> bool" where
  "arm_frame L' L \<longleftrightarrow> (\<exists>m f log. L' = L\<lparr>qmem := m, io := f, ctl_log := log\<rparr> \<and>
     (\<forall>v. \<exists>e. f v = (io L v)\<lparr>io_events := e\<rparr>))"

lemma arm_frame_io:
  assumes "arm_frame K L"
  shows "io_pevents (io K w) = io_pevents (io L w)" and "io_fd (io K w) = io_fd (io L w)"
proof -
  obtain m f log where K: "K = L\<lparr>qmem := m, io := f, ctl_log := log\<rparr>" and f: "\<And>v. \<exists>e. f v = (io L v)\<lparr>io_events := e\<rparr>"
    using assms by (auto simp: arm_frame_def)
  obtain e where "io K w = (io L w)\<lparr>io_events := e\<rparr>" using K f [of w] by auto
  then show "io_pevents (io K w) = io_pevents (io L w)" "io_fd (io K w) = io_fd (io L w)" by simp_all
qed

lemma arm_frame_refl: "arm_frame L L"
  unfolding arm_frame_def
  by (intro exI [of _ "qmem L"] exI [of _ "io L"] exI [of _ "ctl_log L"]) (auto intro: io_events_self)

lemma arm_frame_trans:
  assumes "arm_frame K L" and "arm_frame M K"
  shows "arm_frame M L"
proof -
  obtain m f log where K: "K = L\<lparr>qmem := m, io := f, ctl_log := log\<rparr>" "\<And>v. \<exists>e. f v = (io L v)\<lparr>io_events := e\<rparr>"
    using assms(1) by (auto simp: arm_frame_def)
  obtain m' f' log' where M: "M = K\<lparr>qmem := m', io := f', ctl_log := log'\<rparr>" "\<And>v. \<exists>e. f' v = (io K v)\<lparr>io_events := e\<rparr>"
    using assms(2) by (auto simp: arm_frame_def)
  have "M = L\<lparr>qmem := m', io := f', ctl_log := log'\<rparr>" using K(1) M(1) by simp
  moreover have "\<exists>e. f' v = (io L v)\<lparr>io_events := e\<rparr>" for v
    using K(2) [of v] M(2) [of v] K(1) by auto
  ultimately show ?thesis unfolding arm_frame_def by blast
qed

definition armed :: "nat \<Rightarrow> ctl_call list \<Rightarrow> uv_loop \<Rightarrow> uv_loop" where
  "armed w log L =
     L\<lparr>qmem := QUEUE_INIT (W_watcher_queue w) (QUEUE_REMOVE (W_watcher_queue w) (qmem L)),
       io := (io L)(w := (io L w)\<lparr>io_events := io_pevents (io L w)\<rparr>), ctl_log := log\<rparr>"

lemma arm_watcher_log:
  assumes os: "epoll_conforms os" and p: "io_pevents (io L w) \<noteq> 0"
    and fd: "0 \<le> io_fd (io L w)" "io_fd (io L w) < int (length (watchers L))"
    and known: "io_events (io L w) \<noteq> 0 \<Longrightarrow> io_fd (io L w) \<in> dom (interest (ctl_log L))"
  shows "\<exists>log. arm_watcher os w L = Some (armed w log L) \<and>
    interest log = (interest (ctl_log L))(io_fd (io L w) \<mapsto> io_pevents (io L w))"
proof (cases "io_events (io L w) = 0 \<and> io_fd (io L w) \<in> dom (interest (ctl_log L))")
  case True
  let ?add = "(UV__EPOLL_CTL_ADD, io_fd (io L w), io_pevents (io L w), EEXIST)"
  let ?log = "ctl_log L @ [?add, (UV__EPOLL_CTL_MOD, io_fd (io L w), io_pevents (io L w), 0)]"
  have "interest (ctl_log L @ [?add]) = interest (ctl_log L)" by simp
  then have "arm_watcher os w L = Some (armed w ?log L)"
    using os True p fd
    by (simp add: arm_watcher_def armed_def epoll_conforms_def uv__epoll_ctl_def upd_io_def upd_q_def Let_def)
  then show ?thesis using interest_snoc [of "ctl_log L @ [?add]"] by (intro exI [of _ ?log]) simp
next
  case False
  let ?op = "if io_events (io L w) = 0 then UV__EPOLL_CTL_ADD else UV__EPOLL_CTL_MOD"
  let ?log = "ctl_log L @ [(?op, io_fd (io L w), io_pevents (io L w), 0)]"
  have "os_epoll_ctl os (ctl_log L) ?op (io_fd (io L w)) (io_pevents (io L w)) = 0"
    using os False known by (auto simp: epoll_conforms_def)
  then have "arm_watcher os w L = Some (armed w ?log L)"
    using p fd by (simp add: arm_watcher_def armed_def uv__epoll_ctl_def upd_io_def upd_q_def Let_def)
  then show ?thesis by (intro exI [of _ ?log]) simp
qed

lemma arm_watcher_spec:
  assumes os: "epoll_conforms os" and ok: "io_ok D L (w # ws)" and ker: "kernel_ok D L"
  shows "\<exists>L'. arm_watcher os w L = Some L' \<and> io_ok D L' ws \<and> kernel_ok D L' \<and> arm_frame L' L"
proof -
  note D = io_okD [OF ok]
  have w: "w \<in> D" "w \<notin> set ws" using D(2) wq_ok_distinct [OF D(2)] by (auto simp: wq_ok_def)
  let ?x = "(io L w)\<lparr>io_events := io_pevents (io L w)\<rparr>"
  have p: "io_pevents (io L w) \<noteq> 0" using D(5) by simp
  have "0 \<le> io_fd (io L w)" "io_fd (io L w) < int (length (watchers L))"
    using D(1) w(1) array_okD(2) [OF D(3) w(1) p] by (auto simp: fds_ok_def)
  then obtain log where log: "arm_watcher os w L = Some (armed w log L)"
      "interest log = (interest (ctl_log L))(io_fd (io L w) \<mapsto> io_pevents (io L w))"
    using arm_watcher_log [OF os p] ker w(1) by (auto simp: kernel_ok_def)
  have "io_ok D (armed w log L) ws"
    using fds_ok_upd [OF D(1), of ?x w] wq_ok_remove [OF D(2) w(1)] array_ok_mask [OF D(3), of w ?x] D(4-7) p
    by (intro io_okI) (auto simp: armed_def split: if_splits)
  moreover have "io_fd (io L v) \<noteq> io_fd (io L w)" if "v \<in> D" "v \<noteq> w" for v
    using fds_ok_ne [OF D(1) that(1) w(1) that(2)] by auto
  then have "kernel_ok D (armed w log L)" using ker log(2) by (auto simp: kernel_ok_def armed_def)
  moreover have "arm_frame (armed w log L) L"
    unfolding arm_frame_def armed_def by (intro exI conjI) (auto intro: io_events_self)
  ultimately show ?thesis using log(1) by blast
qed

lemma arm_watchers_spec:
  assumes "epoll_conforms os" and "io_ok D L ws" and "kernel_ok D L"
  shows "\<exists>L'. arm_watchers os L = Some L' \<and> io_ok D L' [] \<and> kernel_ok D L' \<and> arm_frame L' L"
  using assms(2,3)
proof (induction ws arbitrary: L)
  case Nil
  then have "QUEUE_EMPTY (qmem L) L_watcher_queue"
    using queue_repr_empty [of "qmem L" L_watcher_queue "[]"] by (simp add: io_ok_def wq_ok_def)
  then have "arm_watchers os L = Some L" by (subst arm_watchers.simps) simp
  with Nil arm_frame_refl show ?case by blast
next
  case (Cons w ws)
  have q: "queue_repr (qmem L) L_watcher_queue (W_watcher_queue w # map W_watcher_queue ws)"
    using Cons.prems(1) by (simp add: io_ok_def wq_ok_def)
  obtain K where K: "arm_watcher os w L = Some K" "io_ok D K ws" "kernel_ok D K" "arm_frame K L"
    using arm_watcher_spec [OF assms(1) Cons.prems] by blast
  then have "arm_watchers os L = arm_watchers os K"
    using queue_repr_empty [OF q] queue_repr_head [OF q] by (subst arm_watchers.simps) simp
  with Cons.IH [OF K(2,3)] K(4) arm_frame_trans show ?case by metis
qed

text \<open>
  Property C28. Before it waits, \<^verbatim>\<open>uv__io_poll\<close> tells the kernel about every watcher in the
  queue, and does not abort if the kernel's \<^verbatim>\<open>epoll_ctl\<close> behaves as documented, even for
  a descriptor the kernel still watches from before: afterwards the queue is empty and
  the kernel watches each descriptor with a request for exactly the events requested.\<close>

theorem arm_watchers_correct:
  assumes "epoll_conforms os" and "io_ok D L ws" and "kernel_ok D L"
  shows "\<exists>L'. arm_watchers os L = Some L' \<and> QUEUE_EMPTY (qmem L') L_watcher_queue \<and>
    (\<forall>w\<in>D. io_pevents (io L' w) = io_pevents (io L w)) \<and>
    (\<forall>w\<in>D. io_pevents (io L w) \<noteq> 0 \<longrightarrow> interest (ctl_log L') (io_fd (io L w)) = Some (io_pevents (io L w)))"
proof -
  obtain K where K: "arm_watchers os L = Some K" "io_ok D K []" "kernel_ok D K" "arm_frame K L"
    using arm_watchers_spec [OF assms] by blast
  note same = arm_frame_io [OF K(4)]
  have "QUEUE_EMPTY (qmem K) L_watcher_queue"
    using queue_repr_empty [of "qmem K" L_watcher_queue "[]"] K(2) by (simp add: io_ok_def wq_ok_def)
  moreover have "io_events (io K w) = io_pevents (io L w)" if "w \<in> D" for w
    using io_okD(6) [OF K(2) that] same by simp
  ultimately show ?thesis
    using K(1,3) same by (intro exI [of _ K]) (auto simp: kernel_ok_def)
qed

text \<open>A kernel that conforms.\<close>

definition calm_os :: uv_os where
  "calm_os = \<lparr>os_hrtime = (\<lambda>_. 0),
     os_epoll_ctl = (\<lambda>log opr fd ev. if opr = UV__EPOLL_CTL_ADD then if interest log fd \<noteq> None then EEXIST else 0
                                     else if interest log fd \<noteq> None then 0 else 2),
     os_epoll_wait = (\<lambda>_ _ _. Inr []), os_pthread_sigmask = 0\<rparr>"

lemma calm_os_conforms: "epoll_conforms calm_os"
  by (auto simp: epoll_conforms_def calm_os_def)

definition watching_loop :: uv_loop where
  "watching_loop = the (exec_io_calls [Io_start 1 5, Io_start 2 1] io_loop)"

lemma watching_loop_ok: "\<exists>ws. io_ok {1, 2} watching_loop ws"
  using exec_io_calls_spec [OF io_loop_ok, of "[Io_start 1 5, Io_start 2 1]"] by (auto simp: watching_loop_def)

lemma watching_loop_unknown: "io_events (io watching_loop 1) = 0 \<and> io_events (io watching_loop 2) = 0"
  by code_simp

theorem arm_watchers_correct_witness:
  "\<exists>L'. arm_watchers calm_os watching_loop = Some L' \<and> QUEUE_EMPTY (qmem L') L_watcher_queue \<and>
    (\<forall>w\<in>{1, 2}. io_pevents (io L' w) = io_pevents (io watching_loop w)) \<and>
    (\<forall>w\<in>{1, 2}. io_pevents (io watching_loop w) \<noteq> 0 \<longrightarrow>
       interest (ctl_log L') (io_fd (io watching_loop w)) = Some (io_pevents (io watching_loop w)))"
proof -
  obtain ws where "io_ok {1, 2} watching_loop ws" using watching_loop_ok by blast
  moreover have "kernel_ok {1, 2} watching_loop" using watching_loop_unknown by (simp add: kernel_ok_def)
  ultimately show ?thesis by (rule arm_watchers_correct [OF calm_os_conforms])
qed

section \<open>Dispatching events\<close>

text \<open>A callback that returns and leaves the I/O watchers alone.\<close>

definition io_same :: "uv_loop \<Rightarrow> uv_loop \<Rightarrow> bool" where
  "io_same L' L \<longleftrightarrow> io L' = io L \<and> watchers L' = watchers L \<and> wait_log L' = wait_log L"

definition io_quiet :: "io_callback \<Rightarrow> bool" where
  "io_quiet iocb \<longleftrightarrow> (\<forall>c w ev L. \<exists>L'. iocb c w ev L = Some L' \<and> io_same L' L \<and>
     fake_watchers L' = fake_watchers L \<and> io_fired L' = io_fired L)"

text \<open>
  The calls that the events ask for, bit by bit. Of an event a watcher is to hear the bits it asked for, and always the
  bits for an error and for a hang-up, 3 and 4; if it hears one of these two and nothing else, it is told also that it can
  read and write, bits 0 and 2, as far as it asked for that.
\<close>

definition heard :: "uint32 \<Rightarrow> uint32 \<Rightarrow> nat \<Rightarrow> bool" where
  "heard pevents ev b \<longleftrightarrow> bit ev b \<and> (bit pevents b \<or> b = 3 \<or> b = 4)"

definition told :: "uint32 \<Rightarrow> uint32 \<Rightarrow> nat \<Rightarrow> bool" where
  "told pevents ev b \<longleftrightarrow> heard pevents ev b \<or>
     bit pevents b \<and> (b = 0 \<or> b = 2) \<and> (\<exists>c\<in>{3, 4}. \<forall>d<32. heard pevents ev d \<longleftrightarrow> d = c)"

definition event_calls :: "uv_loop \<Rightarrow> epoll_event \<Rightarrow> (nat \<times> uint32) list" where
  "event_calls L e =
     (if fd_of_data (ev_data e) = - 1 then []
      else case watchers L ! nat (fd_of_data (ev_data e)) of
        None \<Rightarrow> []
      | Some w \<Rightarrow>
          let bits = map (told (io_pevents (io L w)) (ev_events e)) [0..<32]
          in if True \<in> set bits then [(w, horner_sum of_bool 2 bits)] else [])"

text \<open>The filter of the code computes these bits.\<close>

lemma bit_flags: "bit UV__POLLERR b \<longleftrightarrow> b = 3" "bit UV__POLLHUP b \<longleftrightarrow> b = 4" "bit UV__POLLIN b \<longleftrightarrow> b = 0" "bit UV__POLLOUT b \<longleftrightarrow> b = 2"
proof -
  have "(8 :: uint32) = 2 ^ 3" "(16 :: uint32) = 2 ^ 4" "(4 :: uint32) = 2 ^ 2" by simp_all
  then show "bit UV__POLLERR b \<longleftrightarrow> b = 3" "bit UV__POLLHUP b \<longleftrightarrow> b = 4" "bit UV__POLLOUT b \<longleftrightarrow> b = 2"
    by (auto simp only: bit_exp_iff possible_bit_def) auto
qed (rule bit_1_iff)

lemma uint32_eq_bits: "w = v \<longleftrightarrow> (\<forall>b<32. bit w b = bit v b)" for w v :: uint32
  by (auto intro: bit_word_eqI)

lemma bit_heard: "bit (ev AND (p OR UV__POLLERR OR UV__POLLHUP)) b \<longleftrightarrow> heard p ev b" for p ev :: uint32
  by (simp only: heard_def bit_and_iff bit_or_iff bit_flags)

lemma heard_lone: "ev AND (p OR UV__POLLERR OR UV__POLLHUP) = UV__POLLERR \<longleftrightarrow> (\<forall>d<32. heard p ev d \<longleftrightarrow> d = 3)"
    "ev AND (p OR UV__POLLERR OR UV__POLLHUP) = UV__POLLHUP \<longleftrightarrow> (\<forall>d<32. heard p ev d \<longleftrightarrow> d = 4)" for p ev :: uint32
  by (simp_all only: uint32_eq_bits bit_heard bit_flags)

lemma bit_filter_events: "bit (filter_events p ev) b \<longleftrightarrow> told p ev b"
proof -
  let ?e = "ev AND (p OR UV__POLLERR OR UV__POLLHUP)"
  have "told p ev b \<longleftrightarrow> heard p ev b \<or> bit p b \<and> (b = 0 \<or> b = 2) \<and> (?e = UV__POLLERR \<or> ?e = UV__POLLHUP)"
    unfolding heard_lone told_def by simp
  moreover have "bit (filter_events p ev) b \<longleftrightarrow> (if ?e = UV__POLLERR \<or> ?e = UV__POLLHUP then bit ?e b \<or> bit p b \<and> (b = 0 \<or> b = 2) else bit ?e b)"
    unfolding filter_events_def Let_def by (simp only: bit_or_iff bit_and_iff bit_flags split: if_split) blast
  ultimately show ?thesis by (simp only: bit_heard split: if_split) blast
qed

lemma filter_events_bits: "filter_events p ev = horner_sum of_bool 2 (map (told p ev) [0..<32])"
  by (rule bit_word_eqI) (auto simp: bit_filter_events bit_horner_sum_bit_word_iff)

lemma filter_events_none: "filter_events p ev = 0 \<longleftrightarrow> True \<notin> set (map (told p ev) [0..<32])"
proof -
  have "filter_events p ev = 0 \<longleftrightarrow> (\<forall>b<32. \<not> told p ev b)"
    by (simp only: uint32_eq_bits bit_filter_events) simp
  then show ?thesis by auto
qed

lemma event_calls_filter:
  "event_calls L e =
     (if fd_of_data (ev_data e) = - 1 then []
      else case watchers L ! nat (fd_of_data (ev_data e)) of
        None \<Rightarrow> []
      | Some w \<Rightarrow> if filter_events (io_pevents (io L w)) (ev_events e) = 0 then []
          else [(w, filter_events (io_pevents (io L w)) (ev_events e))])"
  unfolding filter_events_none event_calls_def Let_def filter_events_bits [symmetric] by (auto split: option.split)

definition event_ok :: "nat \<Rightarrow> epoll_event \<Rightarrow> bool" where
  "event_ok n e \<longleftrightarrow> fd_of_data (ev_data e) = - 1 \<or> 0 \<le> fd_of_data (ev_data e) \<and> nat (fd_of_data (ev_data e)) < n"

lemma event_calls_cong: "io_same L' L \<Longrightarrow> event_calls L' e = event_calls L e"
  by (auto simp: event_calls_filter io_same_def split: option.splits)

lemma masked_subset:
  fixes p e a b :: "'a::len word"
  shows "(e AND (p OR a)) AND NOT (p OR a) = 0" and "(e AND (p OR a) OR p AND b) AND NOT (p OR a) = 0"
  by (rule bit_word_eqI, auto simp: bit_simps)+

lemma filter_events_subset: "filter_events p e AND NOT (p OR UV__POLLERR OR UV__POLLHUP) = 0"
proof -
  define a where "a = UV__POLLERR OR UV__POLLHUP"
  have "filter_events p e = (if e AND (p OR a) = UV__POLLERR \<or> e AND (p OR a) = UV__POLLHUP
      then e AND (p OR a) OR p AND (UV__POLLIN OR UV__POLLOUT) else e AND (p OR a))"
    unfolding filter_events_def Let_def a_def ..
  then show ?thesis unfolding a_def [symmetric] by (simp only: masked_subset split: if_split) simp
qed

lemma io_same_trans: "io_same K L \<Longrightarrow> io_same M K \<Longrightarrow> io_same M L"
  by (simp add: io_same_def)

text \<open>One event.\<close>

lemma dispatch_step:
  assumes q: "io_quiet iocb" and ev: "fake_watchers L = Some events" and i: "i < length events"
    and ok: "event_ok (length (watchers L)) (events ! i)"
  shows "\<exists>L' events'. dispatch os iocb (Suc n) i k L = dispatch os iocb n (i + 1) (k + length (event_calls L (events ! i))) L' \<and>
    io_same L' L \<and> fake_watchers L' = Some events' \<and> length events' = length events \<and>
    drop (Suc i) events' = drop (Suc i) events \<and> io_fired L' = io_fired L @ event_calls L (events ! i)"
proof -
  let ?e = "events ! i" let ?fd = "fd_of_data (ev_data ?e)"
  consider (skip) "?fd = - 1" | (gone) "?fd \<noteq> - 1" "watchers L ! nat ?fd = None"
    | (none) w where "?fd \<noteq> - 1" "watchers L ! nat ?fd = Some w" "filter_events (io_pevents (io L w)) (ev_events ?e) = 0"
    | (call) w where "?fd \<noteq> - 1" "watchers L ! nat ?fd = Some w" "filter_events (io_pevents (io L w)) (ev_events ?e) \<noteq> 0"
    by fastforce
  then show ?thesis
  proof cases
    case skip
    then show ?thesis using ev by (intro exI [of _ L] exI [of _ events]) (simp add: event_calls_filter io_same_def)
  next
    case gone
    then show ?thesis using ev ok
      by (intro exI [of _ "snd (uv__epoll_ctl os UV__EPOLL_CTL_DEL ?fd (ev_events ?e) L)"] exI [of _ events])
        (auto simp: event_calls_filter event_ok_def io_same_def uv__epoll_ctl_def Let_def)
  next
    case none
    let ?evs = "events[i := ?e\<lparr>ev_events := 0\<rparr>]"
    show ?thesis using ev ok none
      by (intro exI [of _ "L\<lparr>fake_watchers := Some ?evs\<rparr>"] exI [of _ ?evs])
        (auto simp: event_calls_filter event_ok_def io_same_def Let_def)
  next
    case call
    let ?ev = "filter_events (io_pevents (io L w)) (ev_events ?e)"
    let ?evs = "events[i := ?e\<lparr>ev_events := ?ev\<rparr>]"
    obtain K where "call_io iocb w ?ev (L\<lparr>fake_watchers := Some ?evs\<rparr>) = Some K" "io_same K L"
        "fake_watchers K = Some ?evs" "io_fired K = io_fired L @ [(w, ?ev)]"
      using q unfolding io_quiet_def call_io_def io_same_def by fastforce
    then show ?thesis using ev ok call
      by (intro exI [of _ K] exI [of _ ?evs]) (auto simp: event_calls_filter event_ok_def Let_def)
  qed
qed

lemma dispatch_quiet:
  assumes q: "io_quiet iocb"
  shows "fake_watchers L = Some events \<Longrightarrow> i + n = length events \<Longrightarrow>
    \<forall>e\<in>set (drop i events). event_ok (length (watchers L)) e \<Longrightarrow>
    \<exists>L'. dispatch os iocb n i k L = Some (k + length (concat (map (event_calls L) (drop i events))), L') \<and>
      io_same L' L \<and> io_fired L' = io_fired L @ concat (map (event_calls L) (drop i events))"
proof (induction n arbitrary: i k L events)
  case 0
  then show ?case by (simp add: io_same_def)
next
  case (Suc n)
  have i: "i < length events" using Suc.prems(2) by simp
  have d: "drop i events = events ! i # drop (Suc i) events" using i by (rule Cons_nth_drop_Suc [symmetric])
  have ok: "event_ok (length (watchers L)) (events ! i)" using Suc.prems(3) d by simp
  obtain K events' where K: "dispatch os iocb (Suc n) i k L = dispatch os iocb n (i + 1) (k + length (event_calls L (events ! i))) K"
      "io_same K L" "fake_watchers K = Some events'" "length events' = length events"
      "drop (Suc i) events' = drop (Suc i) events" "io_fired K = io_fired L @ event_calls L (events ! i)"
    using dispatch_step [OF q Suc.prems(1) i ok] by blast
  have calls: "event_calls K = event_calls L" using event_calls_cong [OF K(2)] by blast
  have "\<forall>e\<in>set (drop (i + 1) events'). event_ok (length (watchers K)) e"
    using Suc.prems(3) d K(2,5) by (simp add: io_same_def)
  from Suc.IH [OF K(3) _ this, of "k + length (event_calls L (events ! i))"] Suc.prems(2) K(4)
  obtain M where "dispatch os iocb n (i + 1) (k + length (event_calls L (events ! i))) K =
      Some (k + length (event_calls L (events ! i)) + length (concat (map (event_calls L) (drop (Suc i) events))), M)"
      "io_same M K" "io_fired M = io_fired K @ concat (map (event_calls L) (drop (Suc i) events))"
    using K(5) calls by auto
  then show ?case using K(1,2,6) d io_same_trans by auto
qed

text \<open>
  Property C29. If the callbacks leave the I/O watchers alone, one batch of events is
  dispatched completely and in order: each event of a watched descriptor leads to one
  call of its watcher, with exactly the bits of the event that the watcher is told of (what it requested,
  errors and hang-ups, and with a lone error or hang-up the readability and writability it requested);
  an event without such bits leads to no call.\<close>

theorem dispatch_correct:
  assumes "io_quiet iocb" and "fake_watchers L = Some events" and "\<forall>e\<in>set events. event_ok (length (watchers L)) e"
  shows "\<exists>L'. dispatch os iocb (length events) 0 0 L = Some (length (concat (map (event_calls L) events)), L') \<and>
    io_fired L' = io_fired L @ concat (map (event_calls L) events) \<and>
    (\<forall>w ev. (w, ev) \<in> set (concat (map (event_calls L) events)) \<longrightarrow>
       ev \<noteq> 0 \<and> ev AND NOT (io_pevents (io L w) OR UV__POLLERR OR UV__POLLHUP) = 0)"
proof -
  have "ev \<noteq> 0 \<and> ev AND NOT (io_pevents (io L w) OR UV__POLLERR OR UV__POLLHUP) = 0"
    if "(w, ev) \<in> set (event_calls L e)" for w ev e
    using that filter_events_subset by (fastforce simp: event_calls_filter split: if_splits option.splits)
  with dispatch_quiet [OF assms(1,2), of 0 "length events" os 0] assms(3) show ?thesis by fastforce
qed

text \<open>One event of each kind: for watcher 1, for a watcher that is gone, for nobody.\<close>

definition sample_events :: "epoll_event list" where
  "sample_events = [\<lparr>ev_events = 8, ev_data = 5\<rparr>, \<lparr>ev_events = 1, ev_data = 0\<rparr>, \<lparr>ev_events = 1, ev_data = - 1\<rparr>]"

lemma idle_callback_quiet: "io_quiet (\<lambda>_ _ _. Some)"
  by (simp add: io_quiet_def io_same_def)

lemma sample_events_ok: "\<forall>e\<in>set sample_events. event_ok (length (watchers watching_loop)) e"
  by code_simp

theorem dispatch_correct_witness:
  "\<exists>L'. dispatch calm_os (\<lambda>_ _ _. Some) 3 0 0 (watching_loop\<lparr>fake_watchers := Some sample_events\<rparr>) = Some (1, L') \<and>
    io_fired L' = [(1, 13)]"
proof -
  let ?L = "watching_loop\<lparr>fake_watchers := Some sample_events\<rparr>"
  have calls: "concat (map (event_calls ?L) sample_events) = [(1, 13)]" "length sample_events = 3" "io_fired ?L = []"
    unfolding event_calls_filter [abs_def] by code_simp+
  show ?thesis
    using dispatch_correct [OF idle_callback_quiet, of ?L sample_events calm_os] sample_events_ok calls by auto
qed

section \<open>Returning\<close>

declare arm_watchers.simps [code] and poll_loop.simps [code]

text \<open>
  A kernel whose \<^verbatim>\<open>epoll_wait\<close> is there and fails by interruption only, and reports
  descriptors that were registered, below \<open>n\<close>. On a kernel that lacks the call (\<^verbatim>\<open>ENOSYS\<close>) the code tries
  once more with the other variant, which is one wait more; that case is outside this predicate.
\<close>

definition wait_conforms :: "uv_os \<Rightarrow> nat \<Rightarrow> bool" where
  "wait_conforms os n \<longleftrightarrow> os_pthread_sigmask os = 0 \<and>
     (\<forall>log k t. case os_epoll_wait os log k t of Inl err \<Rightarrow> err = EINTR | Inr events \<Rightarrow> \<forall>e\<in>set events. event_ok n e)"

lemma poll_round_nonblocking:
  assumes os: "wait_conforms os (length (watchers L))" and q: "io_quiet iocb" and ne: "watchers L \<noteq> []"
  shows "\<exists>next L'. poll_round os iocb s base count 0 L = Some (next, L') \<and>
    (next = Poll_return \<or> next = Poll_again (count - 1) 0 \<and> count - 1 \<noteq> 0) \<and>
    watchers L' = watchers L \<and> length (wait_log L') = Suc (length (wait_log L))"
proof (cases "os_epoll_wait os (ctl_log L) (length (wait_log L)) 0")
  case (Inl err)
  then have "err = EINTR" using os by (auto simp: wait_conforms_def split: sum.splits)
  then show ?thesis
    using os Inl by (simp add: poll_round_def wait_conforms_def Let_def uv__update_time_def)
next
  case (Inr events)
  have p: "os_pthread_sigmask os = 0" using os by (simp add: wait_conforms_def)
  define K where "K = (uv__update_time (os_hrtime os) (L\<lparr>wait_log := wait_log L @ [0]\<rparr>))\<lparr>fake_watchers := Some events\<rparr>"
  have K: "watchers K = watchers L" "wait_log K = wait_log L @ [0]" "fake_watchers K = Some events"
    by (simp_all add: K_def uv__update_time_def)
  have "case os_epoll_wait os (ctl_log L) (length (wait_log L)) 0 of Inl err \<Rightarrow> err = EINTR
      | Inr events \<Rightarrow> \<forall>e\<in>set events. event_ok (length (watchers L)) e"
    using os by (simp add: wait_conforms_def)
  then have ok: "\<forall>e\<in>set events. event_ok (length (watchers K)) e" using Inr K(1) by simp
  obtain k M where M: "dispatch os iocb (length events) 0 0 K = Some (k, M)" "io_same M K"
    using dispatch_quiet [OF q K(3), of 0 "length events" os 0] ok by auto
  have r: "poll_round os iocb s base count 0 L =
      (if events = [] then Some (Poll_return, uv__update_time (os_hrtime os) (L\<lparr>wait_log := wait_log L @ [0]\<rparr>))
       else if k \<noteq> 0 \<and> length events = max_events \<and> count - 1 \<noteq> 0 then Some (Poll_again (count - 1) 0, M\<lparr>fake_watchers := None\<rparr>)
       else Some (Poll_return, M\<lparr>fake_watchers := None\<rparr>))"
    unfolding poll_round_def Let_def Inr using p ne M(1) by (simp add: K_def uv__update_time_def)
  show ?thesis
    unfolding r using M(2) K(1,2) by (auto simp: io_same_def uv__update_time_def)
qed

lemma poll_loop_nonblocking:
  assumes "io_quiet iocb" and "0 < count"
  shows "wait_conforms os (length (watchers L)) \<Longrightarrow> watchers L \<noteq> [] \<Longrightarrow>
    \<exists>L'. poll_loop os iocb s base count 0 L = Some L' \<and> length (wait_log L') \<le> length (wait_log L) + count"
  using assms(2)
proof (induction count arbitrary: L rule: less_induct)
  case (less count)
  obtain nxt K where K: "poll_round os iocb s base count 0 L = Some (nxt, K)"
      "nxt = Poll_return \<or> nxt = Poll_again (count - 1) 0 \<and> count - 1 \<noteq> 0"
      "watchers K = watchers L" "length (wait_log K) = Suc (length (wait_log L))"
    using poll_round_nonblocking [OF less.prems(1) assms(1) less.prems(2)] by blast
  show ?case
  proof (cases nxt)
    case Poll_return
    then show ?thesis using K less.prems(3) by (subst poll_loop.simps) simp
  next
    case (Poll_again c t)
    then have c: "c = count - 1" "t = 0" "count - 1 < count" "0 < count - 1" using K(2) by auto
    obtain M where "poll_loop os iocb s base (count - 1) 0 K = Some M" "length (wait_log M) \<le> length (wait_log K) + (count - 1)"
      using less.IH [OF c(3), of K] less.prems K(3) c(4) by auto
    then show ?thesis using K(1,4) Poll_again c less.prems(3) by (subst poll_loop.simps) simp
  qed
qed

text \<open>
  Property C31. With a timeout of 0, callbacks that leave the I/O watchers alone and a kernel that has \<^verbatim>\<open>epoll_wait\<close>
  and lets it fail by interruption only, \<^verbatim>\<open>uv__io_poll\<close> always returns, after at most 48 calls of
  \<^verbatim>\<open>epoll_wait\<close>, however many events the kernel keeps reporting: the watchers of
  descriptors with events cannot starve the rest of the loop.\<close>

theorem uv__io_poll_returns:
  assumes "epoll_conforms os" and "io_ok D L ws" and "kernel_ok D L" and "wait_conforms os (length (watchers L))"
    and "io_quiet iocb"
  shows "\<exists>L'. uv__io_poll os iocb 0 L = Some L' \<and> length (wait_log L') \<le> length (wait_log L) + 48"
proof (cases "nfds L = 0")
  case True
  have "{w \<in> D. io_pevents (io L w) \<noteq> 0} = {}"
    using array_okD(3) [OF io_okD(3) [OF assms(2)]] True io_okD(1) [OF assms(2)] by (simp add: fds_ok_def)
  then have "w \<notin> set ws" for w using io_okD(2,5) [OF assms(2)] unfolding wq_ok_def by blast
  then have "ws = []" by (meson list.set_sel(1) hd_in_set)
  then have "QUEUE_EMPTY (qmem L) L_watcher_queue"
    using queue_repr_empty [of "qmem L" L_watcher_queue "[]"] io_okD(2) [OF assms(2)] by (simp add: wq_ok_def)
  with True show ?thesis by (simp add: uv__io_poll_def)
next
  case False
  obtain K where K: "arm_watchers os L = Some K" "arm_frame K L"
    using arm_watchers_spec [OF assms(1-3)] by blast
  then have w: "watchers K = watchers L" "wait_log K = wait_log L" by (auto simp: arm_frame_def)
  have "card {w \<in> D. io_pevents (io L w) \<noteq> 0} \<noteq> 0"
    using array_okD(3) [OF io_okD(3) [OF assms(2)]] False by (metis unat_eq_0)
  then obtain v where "v \<in> D" "io_pevents (io L v) \<noteq> 0" by (metis (mono_tags, lifting) Collect_empty_eq card.empty)
  from array_okD(2) [OF io_okD(3) [OF assms(2)] this] have "watchers K \<noteq> []" using w by auto
  then show ?thesis
    using poll_loop_nonblocking [OF assms(5), of 48 os K] assms(4) w False K(1) by (simp add: uv__io_poll_def)
qed

text \<open>A kernel that reports the same readable descriptor forever.\<close>

definition busy_os :: uv_os where
  "busy_os = calm_os\<lparr>os_epoll_wait := (\<lambda>_ _ _. Inr (replicate 1024 \<lparr>ev_events = 1, ev_data = 5\<rparr>))\<rparr>"

lemma watching_loop_known: "kernel_ok {1, 2} watching_loop"
  using watching_loop_unknown by (simp add: kernel_ok_def)

theorem uv__io_poll_returns_witness:
  "\<exists>L'. uv__io_poll busy_os (\<lambda>_ _ _. Some) 0 watching_loop = Some L' \<and>
     length (wait_log L') \<le> length (wait_log watching_loop) + 48"
proof -
  obtain ws where ok: "io_ok {1, 2} watching_loop ws" using watching_loop_ok by blast
  have "event_ok (length (watchers watching_loop)) \<lparr>ev_events = 1, ev_data = 5\<rparr>" by code_simp
  then have "wait_conforms busy_os (length (watchers watching_loop))"
    by (simp add: wait_conforms_def busy_os_def calm_os_def)
  moreover have "epoll_conforms busy_os" using calm_os_conforms by (simp add: epoll_conforms_def busy_os_def)
  ultimately show ?thesis
    using uv__io_poll_returns [OF _ ok watching_loop_known _ idle_callback_quiet] by blast
qed

text \<open>
  A clock in milliseconds, and a kernel that interrupts every \<^verbatim>\<open>epoll_wait\<close>, after 30, 60
  and 70 milliseconds.
\<close>

definition interrupting_os :: uv_os where
  "interrupting_os = calm_os\<lparr>os_hrtime := (\<lambda>i. 1000000 * ([0, 30, 60, 70] ! i)), os_epoll_wait := (\<lambda>_ _ _. Inl EINTR)\<rparr>"

text \<open>
  \<^verbatim>\<open>uv__io_poll\<close> subtracts the time since its start, not the time since the
  last interruption, from the timeout that remains: interrupted twice by signals, it
  returns after 70 of the 100 milliseconds it was to wait, with no event.\<close>

theorem uv__io_poll_returns_early:
  "map_option (\<lambda>L. (time L, wait_log L, io_fired L)) (uv__io_poll interrupting_os iocb 100 watching_loop) =
     Some (time watching_loop + 70, [100, 70, 10], [])"
  by code_simp

section \<open>Closing a watcher while events are dispatched\<close>

lemma fd_of_data_minus_1 [simp]: "fd_of_data (- 1) = - 1"
  by code_simp

lemma uv__io_close_effect:
  assumes ok: "io_ok D L ws" and w: "w \<in> D" and close: "uv__io_close os w L = Some L'"
  shows "\<exists>K ws'. io_ok D K ws' \<and> io_frame K L w \<and> io L' = io K \<and> watchers L' = watchers K \<and> io_fired L' = io_fired L \<and>
    fake_watchers L' = map_option (invalidate_events (io_fd (io L w))) (fake_watchers L)"
proof -
  obtain K ws' where K: "uv__io_stop w (UV__POLLIN OR UV__POLLOUT) L = Some K" "io_ok D K ws'" "io_frame K L w"
    using uv__io_stop_spec [OF ok w, of "UV__POLLIN OR UV__POLLOUT"] by (auto simp: io_stopped_def)
  have f: "fake_watchers K = fake_watchers L" "io_fired K = io_fired L" "io_fd (io K w) = io_fd (io L w)"
    using K(3) by (auto simp: io_frame_def)
  have "io L' = io K \<and> watchers L' = watchers K \<and> io_fired L' = io_fired L \<and>
      fake_watchers L' = map_option (invalidate_events (io_fd (io L w))) (fake_watchers L)"
    using close K(1) f
    by (auto simp: uv__io_close_def uv__platform_invalidate_fd_def uv__epoll_ctl_def Let_def split: if_splits)
  with K(2,3) show ?thesis by blast
qed

text \<open>An event of another descriptor never calls the watcher of \<open>fd\<close>.\<close>

lemma event_calls_other:
  assumes a: "array_ok D (io L) (watchers L) (nfds K)" and w: "w \<in> D"
    and e: "event_ok (length (watchers L)) e" "fd_of_data (ev_data e) \<noteq> io_fd (io L w)"
  shows "(w, ev) \<notin> set (event_calls L e)"
proof
  assume "(w, ev) \<in> set (event_calls L e)"
  then have c: "fd_of_data (ev_data e) \<noteq> - 1" "watchers L ! nat (fd_of_data (ev_data e)) = Some w"
    by (auto simp: event_calls_filter split: if_splits option.splits)
  then have r: "0 \<le> fd_of_data (ev_data e)" "nat (fd_of_data (ev_data e)) < length (watchers L)"
    using e(1) by (auto simp: event_ok_def)
  from array_okD(1) [OF a r(2) c(2)] have "io_fd (io L w) = fd_of_data (ev_data e)" using r(1) by simp
  with e(2) show False by simp
qed

text \<open>
  Property C30. When a callback closes a watcher while a batch of events is being
  dispatched, events of that watcher's descriptor later in the batch no longer reach it:
  from then on the watcher is not called, provided the callbacks of the rest of the batch leave the I/O watchers
  alone.\<close>

theorem uv__io_close_silences:
  assumes ok: "io_ok D L ws" and w: "w \<in> D" and ev: "fake_watchers L = Some events"
    and close: "uv__io_close os w L = Some L'" and q: "io_quiet iocb"
    and valid: "\<forall>e\<in>set events. event_ok (length (watchers L')) e" and rest: "i + n = length events"
  shows "\<exists>k' M. dispatch os iocb n i k L' = Some (k', M) \<and>
    (\<exists>calls. io_fired M = io_fired L @ calls \<and> (\<forall>ev. (w, ev) \<notin> set calls))"
proof -
  obtain K ws' where K: "io_ok D K ws'" "io_frame K L w" "io L' = io K" "watchers L' = watchers K"
      "io_fired L' = io_fired L" "fake_watchers L' = map_option (invalidate_events (io_fd (io L w))) (fake_watchers L)"
    using uv__io_close_effect [OF ok w close] by blast
  let ?evs = "invalidate_events (io_fd (io L w)) events"
  have fw: "fake_watchers L' = Some ?evs" "io_fd (io L' w) = io_fd (io L w)"
    using K(2,3,6) ev by (auto simp: io_frame_def)
  have fd: "io_fd (io L w) \<noteq> - 1" using io_okD(1) [OF ok] w by (auto simp: fds_ok_def)
  have e: "event_ok (length (watchers L')) e \<and> fd_of_data (ev_data e) \<noteq> io_fd (io L' w)" if "e \<in> set ?evs" for e
    using that valid fd fw(2) by (auto simp: invalidate_events_def event_ok_def)
  then have ev': "\<forall>e\<in>set (drop i ?evs). event_ok (length (watchers L')) e" by (meson in_set_dropD)
  have "i + n = length ?evs" using rest by (simp add: invalidate_events_def)
  from dispatch_quiet [OF q fw(1) this ev', of os k] obtain k' M where
    M: "dispatch os iocb n i k L' = Some (k', M)" "io_fired M = io_fired L' @ concat (map (event_calls L') (drop i ?evs))"
    by blast
  have "array_ok D (io L') (watchers L') (nfds K)" using io_okD(3) [OF K(1)] K(3,4) by simp
  then have "(w, ev) \<notin> set (concat (map (event_calls L') (drop i ?evs)))" for ev
    using e event_calls_other [OF _ w, of L' K] by (auto dest!: in_set_dropD)
  with M K(5) show ?thesis by auto
qed

definition closing_loop :: uv_loop where
  "closing_loop = watching_loop\<lparr>fake_watchers := Some [\<lparr>ev_events = 1, ev_data = 9\<rparr>, \<lparr>ev_events = 1, ev_data = 5\<rparr>]\<rparr>"

theorem uv__io_close_silences_witness:
  "\<exists>k' M. dispatch calm_os (\<lambda>_ _ _. Some) 1 1 0 (the (uv__io_close calm_os 1 closing_loop)) = Some (k', M) \<and>
    (\<exists>calls. io_fired M = io_fired closing_loop @ calls \<and> (\<forall>ev. (1, ev) \<notin> set calls))"
proof -
  obtain ws where "io_ok {1, 2} watching_loop ws" using watching_loop_ok by blast
  then have ok: "io_ok {1, 2} closing_loop ws" by (simp add: io_ok_def closing_loop_def)
  have "uv__io_close calm_os 1 closing_loop \<noteq> None" by code_simp
  then have c: "uv__io_close calm_os 1 closing_loop = Some (the (uv__io_close calm_os 1 closing_loop))" by simp
  have valid: "\<forall>e\<in>set [\<lparr>ev_events = 1, ev_data = 9\<rparr>, \<lparr>ev_events = 1, ev_data = 5\<rparr>].
      event_ok (length (watchers (the (uv__io_close calm_os 1 closing_loop)))) e"
    by code_simp
  show ?thesis
    by (rule uv__io_close_silences [OF ok _ _ c idle_callback_quiet valid]) (simp_all add: closing_loop_def)
qed

end
