(* ===== verification/Uv_Core.thy ===== *)
theory Uv_Core
  imports Uv_Watcher Uv_Poll
begin

text \<open>
  The event loop, \<^verbatim>\<open>core/libuv/src/unix/core.c\<close>: closing handles, the liveness of a
  loop and \<^verbatim>\<open>uv_run\<close>, with the small functions of \<^verbatim>\<open>uv-common.c\<close> and
  \<^verbatim>\<open>unix/loop.c\<close> around them. The handle kinds whose files are not modelled (streams,
  UDP, processes, file system events, signals) close themselves by a function that is
  an argument.
\<close>

section \<open>The code\<close>

abbreviation UV_ENOSYS :: int where "UV_ENOSYS \<equiv> - 38"
abbreviation SIGPROF :: int where "SIGPROF \<equiv> 27"
abbreviation UV_LOOP_BLOCK_SIGNAL :: int where "UV_LOOP_BLOCK_SIGNAL \<equiv> 0"

definition uv__async_close :: "hid \<Rightarrow> uv_loop \<Rightarrow> uv_loop" where
  "uv__async_close h L = uv__handle_stop h (upd_q (QUEUE_REMOVE (H_queue h)) L)"

definition uv__make_close_pending :: "hid \<Rightarrow> uv_loop \<Rightarrow> uv_loop option" where
  "uv__make_close_pending h L =
     (if flags (handles L h) AND UV_CLOSING = 0 \<or> flags (handles L h) AND UV_CLOSED \<noteq> 0 then None
      else
        let L = upd_handle h (\<lambda>x. x\<lparr>next_closing := closing_handles L\<rparr>) L
        in Some (L\<lparr>closing_handles := Some h\<rparr>))"

text \<open>The function a handle kind closes itself with; \<open>other\<close> for the kinds not modelled.\<close>

definition close_handle :: "(uv_handle_type \<Rightarrow> hid \<Rightarrow> uv_loop \<Rightarrow> uv_loop option) \<Rightarrow> hid \<Rightarrow> uv_loop \<Rightarrow> uv_loop option" where
  "close_handle other h L =
     (case htype (handles L h) of
        UV_NAMED_PIPE \<Rightarrow> other UV_NAMED_PIPE h L
      | UV_TTY \<Rightarrow> other UV_TTY h L
      | UV_TCP \<Rightarrow> other UV_TCP h L
      | UV_UDP \<Rightarrow> other UV_UDP h L
      | UV_PREPARE \<Rightarrow> Some (uv__watcher_close Prepare h L)
      | UV_CHECK \<Rightarrow> Some (uv__watcher_close Check h L)
      | UV_IDLE \<Rightarrow> Some (uv__watcher_close Idle h L)
      | UV_ASYNC \<Rightarrow> Some (uv__async_close h L)
      | UV_TIMER \<Rightarrow> uv__timer_close h L
      | UV_PROCESS \<Rightarrow> other UV_PROCESS h L
      | UV_FS_EVENT \<Rightarrow> other UV_FS_EVENT h L
      | UV_POLL \<Rightarrow> uv__poll_close h L
      | UV_FS_POLL \<Rightarrow> other UV_FS_POLL h L
      | UV_SIGNAL \<Rightarrow> other UV_SIGNAL h L
      | _ \<Rightarrow> None)"

definition uv_close ::
  "(uv_handle_type \<Rightarrow> hid \<Rightarrow> uv_loop \<Rightarrow> uv_loop option) \<Rightarrow> hid \<Rightarrow> cbid option \<Rightarrow> uv_loop \<Rightarrow> uv_loop option" where
  "uv_close other h cb L =
     (if flags (handles L h) AND (UV_CLOSING OR UV_CLOSED) \<noteq> 0 then None
      else do {
        let L = upd_flags h (\<lambda>f. f OR UV_CLOSING) L;
        let L = upd_handle h (\<lambda>x. x\<lparr>close_cb := cb\<rparr>) L;
        let ty = htype (handles L h);
        L \<leftarrow> close_handle other h L;
        if ty = UV_SIGNAL then Some L else uv__make_close_pending h L
      })"

text \<open>Streams and UDP handles are destroyed by a function that is an argument.\<close>

definition finish_kind :: "(uv_handle_type \<Rightarrow> hid \<Rightarrow> uv_loop \<Rightarrow> uv_loop option) \<Rightarrow> hid \<Rightarrow> uv_loop \<Rightarrow> uv_loop option" where
  "finish_kind destroy h L =
     (case htype (handles L h) of
        UV_PREPARE \<Rightarrow> Some L | UV_CHECK \<Rightarrow> Some L | UV_IDLE \<Rightarrow> Some L | UV_ASYNC \<Rightarrow> Some L
      | UV_TIMER \<Rightarrow> Some L | UV_PROCESS \<Rightarrow> Some L | UV_FS_EVENT \<Rightarrow> Some L | UV_FS_POLL \<Rightarrow> Some L
      | UV_POLL \<Rightarrow> Some L | UV_SIGNAL \<Rightarrow> Some L
      | UV_NAMED_PIPE \<Rightarrow> destroy UV_NAMED_PIPE h L
      | UV_TCP \<Rightarrow> destroy UV_TCP h L
      | UV_TTY \<Rightarrow> destroy UV_TTY h L
      | UV_UDP \<Rightarrow> destroy UV_UDP h L
      | _ \<Rightarrow> None)"

definition uv__finish_close ::
  "callback \<Rightarrow> (uv_handle_type \<Rightarrow> hid \<Rightarrow> uv_loop \<Rightarrow> uv_loop option) \<Rightarrow> hid \<Rightarrow> uv_loop \<Rightarrow> uv_loop option" where
  "uv__finish_close cb destroy h L =
     (if flags (handles L h) AND UV_CLOSING = 0 \<or> flags (handles L h) AND UV_CLOSED \<noteq> 0 then None
      else do {
        let L = upd_flags h (\<lambda>f. f OR UV_CLOSED) L;
        L \<leftarrow> finish_kind destroy h L;
        let L = uv__handle_unref h L;
        let L = upd_q (QUEUE_REMOVE (H_handle_queue h)) L;
        if close_cb (handles L h) \<noteq> None then call_cb cb (close_cb (handles L h)) h L else Some L
      })"

partial_function (option) run_closing_from ::
  "callback \<Rightarrow> (uv_handle_type \<Rightarrow> hid \<Rightarrow> uv_loop \<Rightarrow> uv_loop option) \<Rightarrow> hid option \<Rightarrow> uv_loop \<Rightarrow> uv_loop option" where
  "run_closing_from cb destroy p L =
     (case p of
        None \<Rightarrow> Some L
      | Some h \<Rightarrow> do {
          let q = next_closing (handles L h);
          L \<leftarrow> uv__finish_close cb destroy h L;
          run_closing_from cb destroy q L
        })"

definition uv__run_closing_handles ::
  "callback \<Rightarrow> (uv_handle_type \<Rightarrow> hid \<Rightarrow> uv_loop \<Rightarrow> uv_loop option) \<Rightarrow> uv_loop \<Rightarrow> uv_loop option" where
  "uv__run_closing_handles cb destroy L = run_closing_from cb destroy (closing_handles L) (L\<lparr>closing_handles := None\<rparr>)"

definition uv_is_closing :: "uv_loop \<Rightarrow> hid \<Rightarrow> bool" where
  "uv_is_closing L h = uv__is_closing L h"

definition uv_is_active :: "uv_loop \<Rightarrow> hid \<Rightarrow> bool" where
  "uv_is_active L h = uv__is_active L h"

definition uv_backend_fd :: "uv_loop \<Rightarrow> int" where
  "uv_backend_fd L = backend_fd L"

definition uv_backend_timeout :: "uv_loop \<Rightarrow> int" where
  "uv_backend_timeout L =
     (if stop_flag L \<noteq> 0 then 0
      else if \<not> uv__has_active_handles L \<and> \<not> uv__has_active_reqs L then 0
      else if \<not> QUEUE_EMPTY (qmem L) (L_watchers Idle) then 0
      else if closing_handles L \<noteq> None then 0
      else uv__next_timeout L)"

definition uv__loop_alive :: "uv_loop \<Rightarrow> bool" where
  "uv__loop_alive L \<longleftrightarrow> uv__has_active_handles L \<or> uv__has_active_reqs L \<or> closing_handles L \<noteq> None"

definition uv_loop_alive :: "uv_loop \<Rightarrow> bool" where
  "uv_loop_alive L = uv__loop_alive L"

datatype uv_run_mode = UV_RUN_DEFAULT | UV_RUN_ONCE | UV_RUN_NOWAIT

text \<open>What a run depends on: the kernel, the user's callbacks, the callbacks of I/O watchers, and \<open>destroy\<close>.\<close>

record uv_env =
  env_os :: uv_os
  env_cb :: callback
  env_iocb :: io_callback
  env_destroy :: "uv_handle_type \<Rightarrow> hid \<Rightarrow> uv_loop \<Rightarrow> uv_loop option"

text \<open>The body of the loop of \<^verbatim>\<open>uv_run\<close>.\<close>

definition run_iteration :: "uv_env \<Rightarrow> uv_run_mode \<Rightarrow> uv_loop \<Rightarrow> uv_loop option" where
  "run_iteration E mode L = do {
     let L = uv__update_time (os_hrtime (env_os E)) L;
     L \<leftarrow> uv__run_timers (env_cb E) L;
     (ran_pending, L) \<leftarrow> uv__run_pending (env_iocb E) L;
     L \<leftarrow> uv__run_watchers (env_cb E) Idle L;
     L \<leftarrow> uv__run_watchers (env_cb E) Prepare L;
     let tmo = (if mode = UV_RUN_ONCE \<and> ran_pending = 0 \<or> mode = UV_RUN_DEFAULT then uv_backend_timeout L else 0);
     L \<leftarrow> uv__io_poll (env_os E) (env_iocb E) tmo L;
     L \<leftarrow> uv__run_watchers (env_cb E) Check L;
     L \<leftarrow> uv__run_closing_handles (env_cb E) (env_destroy E) L;
     if mode = UV_RUN_ONCE then
       let L = uv__update_time (os_hrtime (env_os E)) L
       in uv__run_timers (env_cb E) L
     else Some L
   }"

partial_function (option) run_loop :: "uv_env \<Rightarrow> uv_run_mode \<Rightarrow> bool \<Rightarrow> uv_loop \<Rightarrow> (bool \<times> uv_loop) option" where
  "run_loop E mode r L =
     (if r \<and> stop_flag L = 0 then do {
        L \<leftarrow> run_iteration E mode L;
        let r = uv__loop_alive L;
        if mode = UV_RUN_ONCE \<or> mode = UV_RUN_NOWAIT then Some (r, L) else run_loop E mode r L
      }
      else Some (r, L))"

definition uv_run :: "uv_env \<Rightarrow> uv_run_mode \<Rightarrow> uv_loop \<Rightarrow> (bool \<times> uv_loop) option" where
  "uv_run E mode L = do {
     let r = uv__loop_alive L;
     let L = (if \<not> r then uv__update_time (os_hrtime (env_os E)) L else L);
     (r, L) \<leftarrow> run_loop E mode r L;
     Some (r, if stop_flag L \<noteq> 0 then L\<lparr>stop_flag := 0\<rparr> else L)
   }"

definition uv_update_time :: "uv_os \<Rightarrow> uv_loop \<Rightarrow> uv_loop" where
  "uv_update_time os L = uv__update_time (os_hrtime os) L"

text \<open>\<^verbatim>\<open>uv_fileno\<close>; the stored descriptor is the second component.\<close>

definition uv_fileno :: "uv_loop \<Rightarrow> hid \<Rightarrow> int \<times> int option" where
  "uv_fileno L h =
     (if htype (handles L h) \<in> {UV_TCP, UV_NAMED_PIPE, UV_TTY, UV_UDP, UV_POLL} then
        let fd_out = io_fd (io L (io_watcher (handles L h)))
        in if uv__is_closing L h \<or> fd_out = - 1 then (- EBADF, None) else (0, Some fd_out)
      else (- EINVAL, None))"

subsection \<open>uv-common.c and loop.c\<close>

definition uv_ref :: "hid \<Rightarrow> uv_loop \<Rightarrow> uv_loop" where
  "uv_ref h L = uv__handle_ref h L"

definition uv_unref :: "hid \<Rightarrow> uv_loop \<Rightarrow> uv_loop" where
  "uv_unref h L = uv__handle_unref h L"

definition uv_has_ref :: "uv_loop \<Rightarrow> hid \<Rightarrow> bool" where
  "uv_has_ref L h = uv__has_ref L h"

definition uv_stop :: "uv_loop \<Rightarrow> uv_loop" where
  "uv_stop L = L\<lparr>stop_flag := 1\<rparr>"

definition uv_now :: "uv_loop \<Rightarrow> uint64" where
  "uv_now L = time L"

partial_function (option) walk_from :: "callback \<Rightarrow> cbid \<Rightarrow> qnode \<Rightarrow> uv_loop \<Rightarrow> uv_loop option" where
  "walk_from cb c q L =
     (if q = L_handle_queue then Some L
      else case q of
        H_handle_queue h \<Rightarrow>
          if flags (handles L h) AND UV__HANDLE_INTERNAL \<noteq> 0 then walk_from cb c (QUEUE_NEXT (qmem L) q) L
          else do {
            L \<leftarrow> call_cb cb (Some c) h L;
            walk_from cb c (QUEUE_NEXT (qmem L) q) L
          }
      | _ \<Rightarrow> None)"

definition uv_walk :: "callback \<Rightarrow> cbid \<Rightarrow> uv_loop \<Rightarrow> uv_loop option" where
  "uv_walk cb c L = walk_from cb c (QUEUE_NEXT (qmem L) L_handle_queue) L"

definition uv__loop_configure :: "int \<Rightarrow> int \<Rightarrow> uv_loop \<Rightarrow> int \<times> uv_loop" where
  "uv__loop_configure opt arg L =
     (if opt \<noteq> UV_LOOP_BLOCK_SIGNAL then (UV_ENOSYS, L)
      else if arg \<noteq> SIGPROF then (- EINVAL, L)
      else (0, L\<lparr>loop_flags := loop_flags L OR UV_LOOP_BLOCK_SIGPROF\<rparr>))"

section \<open>Closing\<close>

fun closing_chain :: "uv_loop \<Rightarrow> hid option \<Rightarrow> hid list \<Rightarrow> bool" where
  "closing_chain L p [] \<longleftrightarrow> p = None"
| "closing_chain L p (h # hs) \<longleftrightarrow> p = Some h \<and> closing_chain L (next_closing (handles L h)) hs"

definition plain_kind :: "uv_handle_type \<Rightarrow> bool" where
  "plain_kind ty \<longleftrightarrow> ty \<in> {UV_PREPARE, UV_CHECK, UV_IDLE, UV_ASYNC, UV_TIMER, UV_PROCESS, UV_FS_EVENT, UV_FS_POLL,
     UV_POLL, UV_SIGNAL}"

text \<open>
  \<open>closing_ok L cs qs\<close>: the handles of the loop are \<open>qs\<close>, of which \<open>cs\<close> are chained up to
  have their closing finished, each marked as closing and not as closed.
\<close>

definition to_close :: "uv_handle \<Rightarrow> bool" where
  "to_close x \<longleftrightarrow> bit (flags x) 0 \<and> \<not> bit (flags x) 1 \<and> plain_kind (htype x)"

definition closing_ok :: "uv_loop \<Rightarrow> hid list \<Rightarrow> hid list \<Rightarrow> bool" where
  "closing_ok L cs qs \<longleftrightarrow>
     closing_chain L (closing_handles L) cs \<and> distinct cs \<and> set cs \<subseteq> set qs \<and> (\<forall>h\<in>set cs. to_close (handles L h)) \<and>
     queue_repr (qmem L) L_handle_queue (map H_handle_queue qs)"

lemma closing_chain_cong:
  "(\<And>h. h \<in> set hs \<Longrightarrow> next_closing (handles L' h) = next_closing (handles L h)) \<Longrightarrow>
    closing_chain L' p hs = closing_chain L p hs"
  by (induction hs arbitrary: p) auto

text \<open>Callbacks that leave the handles alone.\<close>

definition close_quiet :: "callback \<Rightarrow> bool" where
  "close_quiet cb \<longleftrightarrow> (\<forall>c h L. \<exists>L'. cb c h L = Some L' \<and> handles L' = handles L \<and> qmem L' = qmem L \<and>
     fired L' = fired L \<and> active_handles L' = active_handles L \<and> closing_handles L' = closing_handles L)"

definition close_call :: "uv_handle \<Rightarrow> hid \<Rightarrow> (cbid \<times> hid) list" where
  "close_call x h = (case close_cb x of None \<Rightarrow> [] | Some c \<Rightarrow> [(c, h)])"

lemma finish_close_spec:
  assumes q: "close_quiet cb" and h: "to_close (handles L h)"
    and qs: "queue_repr (qmem L) L_handle_queue (map H_handle_queue qs)" "h \<in> set qs"
  shows "\<exists>L'. uv__finish_close cb destroy h L = Some L' \<and> (\<forall>g. g \<noteq> h \<longrightarrow> handles L' g = handles L g) \<and>
    bit (flags (handles L' h)) 1 \<and> \<not> uv__has_ref L' h \<and> closing_handles L' = closing_handles L \<and>
    queue_repr (qmem L') L_handle_queue (map H_handle_queue (remove1 h qs)) \<and>
    fired L' = fired L @ close_call (handles L h) h \<and> (\<forall>hs. refcount_ok L hs \<longrightarrow> h \<in> set hs \<longrightarrow> refcount_ok L' hs)"
proof -
  let ?A = "upd_flags h (\<lambda>f. f OR UV_CLOSED) L" let ?B = "uv__handle_unref h ?A"
  let ?C = "upd_q (QUEUE_REMOVE (H_handle_queue h)) ?B"
  obtain f where f: "handles ?B = (handles ?A)(h := (handles ?A h)\<lparr>flags := f\<rparr>)" "qmem ?B = qmem L"
      "closing_handles ?B = closing_handles L" "fired ?B = fired L"
    using handle_macro_flags(4) [of h ?A] by (auto simp: same_but_flags_def upd_flags_def)
  have same: "handles ?C g = handles L g" if "g \<noteq> h" for g using f(1) that by (simp add: upd_flags_def)
  have closed: "bit (flags (handles ?C h)) 1"
    using closing_bits_macros(4) [of 1 h ?A h] by (simp add: upd_flags_def bit_simps)
  have cb: "close_cb (handles ?C h) = close_cb (handles L h)" using f(1) by (simp add: upd_flags_def)
  have r: "\<not> uv__has_ref ?C h" using has_ref_macros(4) [of h ?A h] by (simp add: flag_defs)
  have rc: "refcount_ok ?C hs" if "refcount_ok L hs" "h \<in> set hs" for hs
  proof -
    have "refcount_ok ?A hs" by (rule refcount_ok_cong [OF that(1)]) (auto simp: upd_flags_def flag_defs bit_simps)
    then have "refcount_ok ?B hs" using that(2) by (rule refcount_ok_handle_unref)
    then show ?thesis by (rule refcount_ok_cong) (auto simp: flag_defs)
  qed
  have qC: "queue_repr (qmem ?C) L_handle_queue (map H_handle_queue (remove1 h qs))"
    using uvq.remove_member [OF qs(1), of "H_handle_queue h"] qs(2) f(2) by (simp add: map_remove1_inj inj_def)
  have kind: "finish_kind destroy h ?A = Some ?A"
    using h by (auto simp: finish_kind_def to_close_def plain_kind_def upd_flags_def)
  have run: "uv__finish_close cb destroy h L =
      (if close_cb (handles L h) \<noteq> None then call_cb cb (close_cb (handles L h)) h ?C else Some ?C)"
    using h kind cb by (simp add: uv__finish_close_def to_close_def Let_def)
  have "\<exists>L'. uv__finish_close cb destroy h L = Some L' \<and> handles L' = handles ?C \<and> qmem L' = qmem ?C \<and>
      closing_handles L' = closing_handles ?C \<and> active_handles L' = active_handles ?C \<and>
      fired L' = fired L @ close_call (handles L h) h"
  proof (cases "close_cb (handles L h)")
    case None
    then show ?thesis using run f(4) by (simp add: close_call_def)
  next
    case (Some c)
    then show ?thesis
      using run f(4) q [unfolded close_quiet_def, rule_format, of c h "?C\<lparr>fired := fired ?C @ [(c, h)]\<rparr>"]
      by (auto simp: close_call_def call_cb_def)
  qed
  then obtain L' where L': "uv__finish_close cb destroy h L = Some L'" "handles L' = handles ?C" "qmem L' = qmem ?C"
      "closing_handles L' = closing_handles ?C" "active_handles L' = active_handles ?C"
      "fired L' = fired L @ close_call (handles L h) h" by blast
  have "refcount_ok L' hs" if "refcount_ok L hs" "h \<in> set hs" for hs
    by (rule refcount_ok_cong [OF rc [OF that]]) (simp_all add: L' flag_defs)
  moreover have "\<not> uv__has_ref L' h" using r L'(2) by (simp add: flag_defs)
  ultimately show ?thesis using L' same closed qC f(3) by (intro exI [of _ L']) simp
qed

lemma run_closing_spec:
  assumes q: "close_quiet cb"
  shows "closing_chain L p cs \<Longrightarrow> distinct cs \<Longrightarrow> set cs \<subseteq> set qs \<Longrightarrow> \<forall>h\<in>set cs. to_close (handles L h) \<Longrightarrow>
    queue_repr (qmem L) L_handle_queue (map H_handle_queue qs) \<Longrightarrow>
    \<exists>L'. run_closing_from cb destroy p L = Some L' \<and> (\<forall>g. g \<notin> set cs \<longrightarrow> handles L' g = handles L g) \<and>
      (\<forall>h\<in>set cs. bit (flags (handles L' h)) 1 \<and> \<not> uv__has_ref L' h) \<and> closing_handles L' = closing_handles L \<and>
      queue_repr (qmem L') L_handle_queue (map H_handle_queue (filter (\<lambda>g. g \<notin> set cs) qs)) \<and>
      fired L' = fired L @ concat (map (\<lambda>h. close_call (handles L h) h) cs) \<and>
      (\<forall>hs. refcount_ok L hs \<longrightarrow> set cs \<subseteq> set hs \<longrightarrow> refcount_ok L' hs)"
proof (induction cs arbitrary: p L qs)
  case Nil
  then show ?case by (subst run_closing_from.simps) simp
next
  case (Cons h cs)
  have p: "p = Some h" "closing_chain L (next_closing (handles L h)) cs" "h \<notin> set cs" "h \<in> set qs"
    using Cons.prems(1-3) by auto
  obtain K where K: "uv__finish_close cb destroy h L = Some K" "\<forall>g. g \<noteq> h \<longrightarrow> handles K g = handles L g"
      "bit (flags (handles K h)) 1" "\<not> uv__has_ref K h" "closing_handles K = closing_handles L"
      "queue_repr (qmem K) L_handle_queue (map H_handle_queue (remove1 h qs))"
      "fired K = fired L @ close_call (handles L h) h" "\<forall>hs. refcount_ok L hs \<longrightarrow> h \<in> set hs \<longrightarrow> refcount_ok K hs"
    using finish_close_spec [OF q _ Cons.prems(5) p(4), of destroy] Cons.prems(4) by (metis list.set_intros(1))
  have same: "handles K g = handles L g" if "g \<in> set cs" for g using K(2) p(3) that by auto
  have d: "distinct qs" using Cons.prems(5) by (auto simp: queue_repr_def distinct_map)
  have chain: "closing_chain K (next_closing (handles L h)) cs"
    using p(2) same closing_chain_cong [of cs K L] by simp
  obtain M where M: "run_closing_from cb destroy (next_closing (handles L h)) K = Some M"
      "\<forall>g. g \<notin> set cs \<longrightarrow> handles M g = handles K g"
      "\<forall>h\<in>set cs. bit (flags (handles M h)) 1 \<and> \<not> uv__has_ref M h" "closing_handles M = closing_handles K"
      "queue_repr (qmem M) L_handle_queue (map H_handle_queue (filter (\<lambda>g. g \<notin> set cs) (remove1 h qs)))"
      "fired M = fired K @ concat (map (\<lambda>h. close_call (handles K h) h) cs)"
      "\<forall>hs. refcount_ok K hs \<longrightarrow> set cs \<subseteq> set hs \<longrightarrow> refcount_ok M hs"
    using Cons.IH [OF chain _ _ _ K(6)] Cons.prems(2-4) p(3) same d by (auto simp: subset_iff)
  have "run_closing_from cb destroy p L = Some M"
    using p(1) K(1) M(1) by (subst run_closing_from.simps) simp
  moreover have "filter (\<lambda>g. g \<notin> set cs) (remove1 h qs) = filter (\<lambda>g. g \<notin> set (h # cs)) qs"
    using d by (simp add: distinct_remove1_removeAll removeAll_filter_not_eq) (rule filter_cong, auto)
  moreover have "concat (map (\<lambda>h. close_call (handles K h) h) cs) = concat (map (\<lambda>h. close_call (handles L h) h) cs)"
    using same by (simp cong: map_cong)
  moreover have "handles M h = handles K h" using M(2) p(3) by simp
  then have "bit (flags (handles M h)) 1 \<and> \<not> uv__has_ref M h" using K(3,4) by (simp add: flag_defs)
  ultimately show ?case
    using M K(2,5,7,8) by (intro exI [of _ M]) (auto simp: simp del: filter.simps)
qed

text \<open>Closing a timer stops it and puts it at the front of the chain.\<close>

lemma uv_close_timer:
  assumes ok: "timers_ok L T" "h \<in> T \<longleftrightarrow> uv__is_active L h" and ty: "htype (handles L h) = UV_TIMER"
    and open_: "\<not> uv__is_closing L h" and c: "closing_ok L cs qs" and h: "h \<in> set qs" "h \<notin> set cs"
  shows "\<exists>L'. uv_close other h cb L = Some L' \<and> timers_ok L' (T - {h}) \<and> \<not> uv__is_active L' h \<and>
    closing_ok L' (h # cs) qs \<and> close_cb (handles L' h) = cb \<and> (\<forall>g. g \<noteq> h \<longrightarrow> handles L' g = handles L g) \<and>
    fired L' = fired L \<and> (\<forall>hs. refcount_ok L hs \<longrightarrow> h \<in> set hs \<longrightarrow> refcount_ok L' hs)"
proof -
  let ?A = "upd_handle h (\<lambda>x. x\<lparr>close_cb := cb\<rparr>) (upd_flags h (\<lambda>f. f OR UV_CLOSING) L)"
  have act: "uv__is_active ?A g = uv__is_active L g" "uv__has_ref ?A g = uv__has_ref L g" for g
    by (auto simp: flag_defs upd_flags_def bit_simps)
  have okA: "timers_ok ?A T" by (rule timers_ok_cong [OF ok(1)]) (auto simp: upd_flags_def)
  obtain K where K: "uv_timer_stop h ?A = Some (0, K)" "timers_ok K (T - {h})" "timer_frame K ?A h" "\<not> uv__is_active K h"
      "\<forall>hs. refcount_ok ?A hs \<longrightarrow> h \<in> set hs \<longrightarrow> refcount_ok K hs"
    using uv_timer_stop_spec [OF okA, of h] ok(2) act(1) by blast
  have bits: "bit (flags (handles K h)) 0" "\<not> bit (flags (handles K h)) 1"
    using K(3) open_ by (auto simp: timer_frame_def upd_flags_def uv__is_closing_def bit_simps)
  have K': "handles K g = handles L g" if "g \<noteq> h" for g using K(3) that by (simp add: timer_frame_def upd_flags_def)
  have fields: "qmem K = qmem L" "closing_handles K = closing_handles L" "fired K = fired L"
      "htype (handles K h) = UV_TIMER" "close_cb (handles K h) = cb"
    using K(3) ty by (simp_all add: timer_frame_def upd_flags_def)
  let ?M = "(upd_handle h (\<lambda>x. x\<lparr>next_closing := closing_handles K\<rparr>) K)\<lparr>closing_handles := Some h\<rparr>"
  have "uv_close other h cb L = Some ?M"
    using open_ ty K(1) bits
    by (simp add: uv_close_def uv__is_closing_def close_handle_def uv__timer_close_def uv__make_close_pending_def upd_flags_def Let_def)
  moreover have "timers_ok ?M (T - {h})" by (rule timers_ok_cong [OF K(2)]) auto
  moreover have "\<not> uv__is_active ?M h" using K(4) by (simp add: flag_defs)
  moreover have "closing_ok ?M (h # cs) qs"
  proof -
    have "closing_chain ?M (closing_handles K) cs = closing_chain L (closing_handles K) cs"
      using h(2) K' by (intro closing_chain_cong) auto
    then show ?thesis using c h K' fields bits by (auto simp: closing_ok_def to_close_def plain_kind_def)
  qed
  moreover have "refcount_ok ?M hs" if "refcount_ok L hs" "h \<in> set hs" for hs
  proof -
    have "refcount_ok ?A hs" by (rule refcount_ok_cong [OF that(1)]) (simp_all add: act, simp add: upd_flags_def)
    then have "refcount_ok K hs" using K(5) that(2) by blast
    then show ?thesis by (rule refcount_ok_cong) (auto simp: flag_defs)
  qed
  ultimately show ?thesis using K' fields by (intro exI [of _ ?M]) simp
qed

text \<open>
  Property C33. Closing a timer stops it at once. If the close callbacks leave the handles alone and the handles closed before are of the
  kinds that need no destroying, the next run of the closing handles then finishes it and every handle closed before, last closed first: each one's callback is
  called exactly once, each is marked closed, loses its reference and leaves the loop's
  queue of handles, the reference count stays right, and no handle is left to close.\<close>

theorem uv_close_finishes:
  assumes "timers_ok L T" and "h \<in> T \<longleftrightarrow> uv__is_active L h" and "htype (handles L h) = UV_TIMER"
    and "\<not> uv__is_closing L h" and "closing_ok L cs qs" and "h \<in> set qs" and "h \<notin> set cs"
    and "refcount_ok L qs" and "close_quiet cb"
  shows "\<exists>L1 L2. uv_close other h c L = Some L1 \<and> \<not> uv__is_active L1 h \<and> timers_ok L1 (T - {h}) \<and>
    uv__run_closing_handles cb destroy L1 = Some L2 \<and> closing_handles L2 = None \<and>
    fired L2 = fired L @ (case c of None \<Rightarrow> [] | Some k \<Rightarrow> [(k, h)]) @ concat (map (\<lambda>g. close_call (handles L g) g) cs) \<and>
    (\<forall>g\<in>set (h # cs). uv__is_closing L2 g \<and> bit (flags (handles L2 g)) 1 \<and> \<not> uv__has_ref L2 g) \<and>
    queue_repr (qmem L2) L_handle_queue (map H_handle_queue (filter (\<lambda>g. g \<notin> set (h # cs)) qs)) \<and>
    refcount_ok L2 qs"
proof -
  obtain K where K: "uv_close other h c L = Some K" "timers_ok K (T - {h})" "\<not> uv__is_active K h"
      "closing_ok K (h # cs) qs" "close_cb (handles K h) = c" "\<forall>g. g \<noteq> h \<longrightarrow> handles K g = handles L g"
      "fired K = fired L" "\<forall>hs. refcount_ok L hs \<longrightarrow> h \<in> set hs \<longrightarrow> refcount_ok K hs"
    using uv_close_timer [OF assms(1-7)] by blast
  let ?K = "K\<lparr>closing_handles := None\<rparr>"
  have co: "closing_chain ?K (closing_handles K) (h # cs)" "distinct (h # cs)" "set (h # cs) \<subseteq> set qs"
      "\<forall>g\<in>set (h # cs). to_close (handles ?K g)" "queue_repr (qmem ?K) L_handle_queue (map H_handle_queue qs)"
    using K(4) closing_chain_cong [of cs ?K K] by (simp_all add: closing_ok_def)
  obtain M where M: "run_closing_from cb destroy (closing_handles K) ?K = Some M"
      "\<forall>g\<in>set (h # cs). bit (flags (handles M g)) 1 \<and> \<not> uv__has_ref M g" "closing_handles M = None"
      "queue_repr (qmem M) L_handle_queue (map H_handle_queue (filter (\<lambda>g. g \<notin> set (h # cs)) qs))"
      "fired M = fired K @ concat (map (\<lambda>h. close_call (handles K h) h) (h # cs))"
      "\<forall>hs. refcount_ok ?K hs \<longrightarrow> set (h # cs) \<subseteq> set hs \<longrightarrow> refcount_ok M hs"
    using run_closing_spec [OF assms(9) co, of destroy] by auto
  have eq: "close_call (handles K g) g = close_call (handles L g) g" if "g \<in> set cs" for g
  proof -
    have "g \<noteq> h" using assms(7) that by blast
    show ?thesis by (simp only: K(6) [rule_format, OF \<open>g \<noteq> h\<close>])
  qed
  have "concat (map (\<lambda>g. close_call (handles K g) g) cs) = concat (map (\<lambda>g. close_call (handles L g) g) cs)"
    by (rule arg_cong [where f = concat], rule map_cong [OF refl eq])
  then have "fired M = fired L @ (case c of None \<Rightarrow> [] | Some k \<Rightarrow> [(k, h)]) @ concat (map (\<lambda>g. close_call (handles L g) g) cs)"
    by (simp only: M(5) K(7) list.map concat.simps close_call_def [of "handles K h"] K(5))
  moreover have "refcount_ok K qs" by (rule K(8) [rule_format, OF assms(8,6)])
  then have "refcount_ok ?K qs" by (rule refcount_ok_cong) (simp_all add: flag_defs)
  then have "refcount_ok M qs" using M(6) co(3) by blast
  moreover have "uv__is_closing M g" if "g \<in> set (h # cs)" for g using M(2) [rule_format, OF that] by (simp add: uv__is_closing_def)
  ultimately show ?thesis
    using K(1-3) M by (intro exI [of _ K] exI [of _ M]) (simp add: uv__run_closing_handles_def)
qed

lemma timer_loop_closing: "closing_ok timer_loop [] [1]" "refcount_ok timer_loop [1]" "htype (handles timer_loop 1) = UV_TIMER"
    "\<not> uv__is_closing timer_loop 1"
  by (simp_all add: closing_ok_def timer_loop_def uv_timer_init_def uv__handle_init_def Let_def queue_repr_def queue_ops
      fresh_loop_def uv_loop_init_fields_def uv__update_time_def upd_q_def upd_handle_def refcount_ok_def live_set_def
      uv__is_closing_def uv__is_active_def)

theorem uv_close_finishes_witness:
  "\<exists>L1 L2. uv_close (\<lambda>_ _ _. None) 1 (Some 4) timer_loop = Some L1 \<and>
    uv__run_closing_handles (\<lambda>_ _. Some) (\<lambda>_ _ _. None) L1 = Some L2 \<and> closing_handles L2 = None \<and> fired L2 = [(4, 1)]"
proof -
  have "close_quiet (\<lambda>_ _. Some)" by (simp add: close_quiet_def)
  then show ?thesis
    using uv_close_finishes [of timer_loop "{}" 1 "[]" "[1]" "\<lambda>_ _. Some" "\<lambda>_ _ _. None" "Some 4" "\<lambda>_ _ _. None"] timer_loop_facts timer_loop_closing
    by auto
qed

section \<open>Running\<close>

text \<open>What running timers leaves alone.\<close>

definition loop_rest :: "uv_loop \<Rightarrow> _" where
  "loop_rest L = (qmem L, closing_handles L, time L, stop_flag L, nfds L, loop_flags L, no_epoll_pwait L, clock_reads L)"

lemma uv_timer_stop_rest: "uv_timer_stop h L = Some (r, L') \<Longrightarrow> loop_rest L' = loop_rest L"
  by (auto simp: uv_timer_stop_def loop_rest_def handle_macros Let_def upd_flags_def split: if_splits option.splits bind_splits)

lemma uv_timer_start_rest: "uv_timer_start h c t r L = Some (r', L') \<Longrightarrow> loop_rest L' = loop_rest L"
  by (auto simp: uv_timer_start_def loop_rest_def handle_macros Let_def upd_flags_def dest!: uv_timer_stop_rest split: if_splits option.splits bind_splits)

lemma uv_timer_again_rest: "uv_timer_again h L = Some (r, L') \<Longrightarrow> loop_rest L' = loop_rest L"
  by (auto simp: uv_timer_again_def dest!: uv_timer_stop_rest uv_timer_start_rest split: if_splits option.splits bind_splits)

lemma run_timers_rest:
  assumes "uv__run_timers cb L = Some L'"
  shows "(\<forall>c h L K. cb c h L = Some K \<longrightarrow> loop_rest K = loop_rest L) \<longrightarrow> loop_rest L' = loop_rest L"
proof (rule uv__run_timers.raw_induct [OF _ assms], intro impI)
  fix run :: "callback \<Rightarrow> uv_loop \<Rightarrow> uv_loop option" and cb L L'
  assume IH: "\<And>cb L L'. run cb L = Some L' \<Longrightarrow> (\<forall>c h L K. cb c h L = Some K \<longrightarrow> loop_rest K = loop_rest L) \<longrightarrow>
      loop_rest L' = loop_rest L"
    and q: "\<forall>c h L K. cb c h L = Some K \<longrightarrow> loop_rest K = loop_rest L"
    and step: "(case heap_min (timer_heap L) of None \<Rightarrow> Some L
      | Some h \<Rightarrow>
          if timeout (handles L h) > time L then Some L
          else do {
            (_, L) \<leftarrow> uv_timer_stop h L;
            (_, L) \<leftarrow> uv_timer_again h L;
            L \<leftarrow> call_cb cb (timer_cb (handles L h)) h L;
            run cb L
          }) = Some L'"
  show "loop_rest L' = loop_rest L"
  proof (cases "heap_min (timer_heap L)")
    case None
    then show ?thesis using step by simp
  next
    case (Some h)
    show ?thesis
    proof (cases "timeout (handles L h) > time L")
      case False
      then obtain r K r' M N where s: "uv_timer_stop h L = Some (r, K)" "uv_timer_again h K = Some (r', M)"
          "call_cb cb (timer_cb (handles M h)) h M = Some N" "run cb N = Some L'"
        using step Some by (auto split: bind_splits)
      have "loop_rest N = loop_rest M"
        using s(3) q [rule_format, of _ h "M\<lparr>fired := fired M @ [(the (timer_cb (handles M h)), h)]\<rparr>" N]
        by (auto simp: call_cb_def loop_rest_def split: option.splits)
      then show ?thesis
        using IH [OF s(4)] q uv_timer_stop_rest [OF s(1)] uv_timer_again_rest [OF s(2)] by simp
    qed (use step Some in simp)
  qed
qed

text \<open>
  A loop with nothing left to do but the timers \<open>T\<close>, which do not repeat: they are its
  live handles, and its other queues are empty. A kernel with no events to report.
\<close>

definition timers_only :: "uv_loop \<Rightarrow> hid set \<Rightarrow> hid list \<Rightarrow> bool" where
  "timers_only L T hs \<longleftrightarrow>
     timers_ok L T \<and> live_set L hs = T \<and> refcount_ok L hs \<and> length hs < 2 ^ 32 \<and> (\<forall>h\<in>T. repeat (handles L h) = 0) \<and>
     closing_handles L = None \<and> stop_flag L = 0 \<and> (\<forall>k. QUEUE_EMPTY (qmem L) (L_watchers k)) \<and>
     QUEUE_EMPTY (qmem L) L_active_reqs \<and> QUEUE_EMPTY (qmem L) L_pending_queue \<and> QUEUE_EMPTY (qmem L) L_watcher_queue"

definition silent_os :: "uv_os \<Rightarrow> bool" where
  "silent_os os \<longleftrightarrow> os_pthread_sigmask os = 0 \<and> (\<forall>log n tmo. os_epoll_wait os log n tmo = Inr [])"

definition clock :: "uv_os \<Rightarrow> nat \<Rightarrow> uint64" where
  "clock os n = os_hrtime os n div 1000000"

lemma clock_less: "clock os n < - 1"
proof -
  have "unat (os_hrtime os n) div 1000000 < 2 ^ 64 - 1" using unat_uint64_less [of "os_hrtime os n"] by simp
  then show ?thesis
    by (simp add: clock_def word_less_nat_alt unat_div unsigned_minus_1_eq_mask mask_eq_exp_minus_1)
qed

lemma run_watchers_none: "QUEUE_EMPTY (qmem L) (L_watchers k) \<Longrightarrow> uv__run_watchers cb k L = Some L"
  by (subst uv__run_watchers_def, subst run_watchers_from.simps) (simp add: QUEUE_EMPTY_def)

lemma run_closing_none: "closing_handles L = None \<Longrightarrow> uv__run_closing_handles cb destroy L = Some L"
  by (simp add: uv__run_closing_handles_def run_closing_from.simps)

lemma io_poll_silent:
  assumes "silent_os os" and "QUEUE_EMPTY (qmem L) L_watcher_queue" and "- 1 < tmo"
  shows "uv__io_poll os iocb tmo L =
    Some (if nfds L = 0 then L else uv__update_time (os_hrtime os) (L\<lparr>wait_log := wait_log L @ [tmo]\<rparr>))"
proof -
  have "arm_watchers os L = Some L" using assms(2) by (subst arm_watchers.simps) simp
  then show ?thesis
    using assms by (simp add: uv__io_poll_def poll_loop.simps [of os] poll_round_def silent_os_def Let_def)
qed

lemma timers_only_alive:
  assumes "timers_only L T hs"
  shows "uv__loop_alive L \<longleftrightarrow> T \<noteq> {}" and "- 1 < uv_backend_timeout L"
proof -
  have fin: "finite T" using assms live_set_card(2) [of L hs] by (simp add: timers_only_def)
  have n: "unat (active_handles L) = card T" using assms by (simp add: timers_only_def refcount_ok_def)
  then have act: "active_handles L > 0 \<longleftrightarrow> T \<noteq> {}" using fin by (simp add: word_less_nat_alt card_gt_0_iff)
  then show "uv__loop_alive L \<longleftrightarrow> T \<noteq> {}"
    using assms by (simp add: timers_only_def uv__loop_alive_def uv__has_active_handles_def uv__has_active_reqs_def)
  have "- 1 < uv__next_timeout L" if "T \<noteq> {}"
    using timers_ok_min(1) [of L T] assms that
    by (auto simp: timers_only_def uv__next_timeout_def Let_def split: option.splits intro: less_le_trans [OF _ uint_ge_0])
  then show "- 1 < uv_backend_timeout L"
    using act assms by (auto simp: uv_backend_timeout_def uv__has_active_handles_def uv__has_active_reqs_def timers_only_def)
qed

lemma timers_only_update:
  assumes "timers_only L T hs" and "handles L' = handles L" and "timer_heap L' = timer_heap L"
    and "active_handles L' = active_handles L" and "qmem L' = qmem L" and "closing_handles L' = closing_handles L"
    and "stop_flag L' = stop_flag L"
  shows "timers_only L' T hs"
proof -
  have "live_set L' hs = live_set L hs" by (simp add: live_set_def flag_defs assms(2))
  then show ?thesis
    using assms timers_ok_cong [of L T L'] by (simp add: timers_only_def refcount_ok_def)
qed

text \<open>One iteration calls the timers that are due by the clock, and keeps the rest.\<close>

definition due_by :: "uv_loop \<Rightarrow> hid set \<Rightarrow> uint64 \<Rightarrow> hid set" where
  "due_by L T t = {h \<in> T. timeout (handles L h) \<le> t}"

text \<open>
  Callbacks that return and leave the handles, the timers, the clock and the queues of the loop alone; what they do to the
  rest of the loop and of the program is free.
\<close>

definition loop_quiet :: "callback \<Rightarrow> bool" where
  "loop_quiet cb \<longleftrightarrow> timer_quiet cb \<and>
     (\<forall>c h L L'. cb c h L = Some L' \<longrightarrow> active_handles L' = active_handles L \<and> loop_rest L' = loop_rest L)"

lemma run_timers_once:
  assumes only: "timers_only L T hs" and now: "time L < - 1" and cb: "loop_quiet cb"
  shows "\<exists>L' xs. uv__run_timers cb L = Some L' \<and> distinct xs \<and> set xs = due_by L T (time L) \<and>
    sorted (map (timer_key (handles L)) xs) \<and> fired L' = fired L @ map (\<lambda>h. (the (timer_cb (handles L h)), h)) xs \<and>
    timers_only L' (T - set xs) hs \<and> (\<forall>h. h \<notin> set xs \<longrightarrow> handles L' h = handles L h) \<and> loop_rest L' = loop_rest L"
proof -
  note only' = only [unfolded timers_only_def]
  have q: "timer_quiet cb" using cb by (simp add: loop_quiet_def)
  have act: "\<forall>h\<in>T. uv__is_active L h" "T \<subseteq> set hs" using only' by (auto simp: live_set_def)
  obtain L' xs where r: "uv__run_timers cb L = Some L'" "distinct xs" "set xs = due L T"
      "sorted (map (timer_key (handles L)) xs)" "fired L' = fired L @ map (\<lambda>h. (the (timer_cb (handles L h)), h)) xs"
      "timers_ok L' (T - {h \<in> due L T. repeat (handles L h) = 0})" "\<forall>g. g \<notin> due L T \<longrightarrow> handles L' g = handles L g"
      "\<forall>g\<in>due L T. repeat (handles L g) = 0 \<longrightarrow> \<not> uv__is_active L' g" "keeps_refcount cb L' L (due L T)"
    using run_timers_fires_due [OF conjunct1 [OF only'] act(1) q now] by (elim exE conjE) (rule that)
  have rest: "loop_rest L' = loop_rest L" using run_timers_rest [OF r(1)] cb by (simp add: loop_quiet_def)
  have "due L T \<subseteq> T" by (auto simp: due_def)
  then have eq: "{h \<in> due L T. repeat (handles L h) = 0} = set xs" using only' r(3) by auto
  have "refcount_ok L' hs" using r(9) only' act(2) \<open>due L T \<subseteq> T\<close> cb by (auto simp: keeps_refcount_def loop_quiet_def)
  moreover have "live_set L' hs = T - set xs"
  proof -
    have "uv__is_active L' h \<and> uv__has_ref L' h \<longleftrightarrow> uv__is_active L h \<and> uv__has_ref L h \<and> h \<notin> set xs" for h
      using r(3,7,8) eq by (cases "h \<in> set xs") (auto simp: flag_defs)
    then show ?thesis using only' by (auto simp: live_set_def)
  qed
  ultimately have "timers_only L' (T - set xs) hs"
    using only' r(3,6,7) rest eq by (auto simp: timers_only_def loop_rest_def)
  then show ?thesis
    using r(1-5,7) rest by (intro exI [of _ L'] exI [of _ xs]) (simp add: due_def due_by_def)
qed

lemma run_iteration_timers:
  assumes only: "timers_only L T hs" and os: "silent_os (env_os E)" and cb: "loop_quiet (env_cb E)"
  shows "\<exists>L' xs. run_iteration E UV_RUN_DEFAULT L = Some L' \<and> distinct xs \<and>
    set xs = due_by L T (clock (env_os E) (clock_reads L)) \<and> sorted (map (timer_key (handles L)) xs) \<and>
    fired L' = fired L @ map (\<lambda>h. (the (timer_cb (handles L h)), h)) xs \<and>
    timers_only L' (T - set xs) hs \<and> (\<forall>h. h \<notin> set xs \<longrightarrow> handles L' h = handles L h) \<and> clock_reads L < clock_reads L'"
proof -
  let ?U = "uv__update_time (os_hrtime (env_os E))" let ?K = "?U L"
  have K: "timers_only ?K T hs" by (rule timers_only_update [OF only]) (simp_all add: uv__update_time_def)
  have t: "time ?K = clock (env_os E) (clock_reads L)" "handles ?K = handles L" "fired ?K = fired L"
      "clock_reads ?K = Suc (clock_reads L)"
    by (simp_all add: uv__update_time_def clock_def)
  obtain M xs where M: "uv__run_timers (env_cb E) ?K = Some M" "distinct xs"
      "set xs = due_by L T (clock (env_os E) (clock_reads L))" "sorted (map (timer_key (handles L)) xs)"
      "fired M = fired L @ map (\<lambda>h. (the (timer_cb (handles L h)), h)) xs"
      "timers_only M (T - set xs) hs" "\<forall>h. h \<notin> set xs \<longrightarrow> handles M h = handles L h" "loop_rest M = loop_rest ?K"
    using run_timers_once [OF K _ cb] clock_less [of "env_os E" "clock_reads L"] t by (auto simp: due_by_def)
  note M' = M(6) [unfolded timers_only_def]
  let ?N = "if nfds M = 0 then M else ?U (M\<lparr>wait_log := wait_log M @ [uv_backend_timeout M]\<rparr>)"
  have N: "timers_only ?N (T - set xs) hs" by (rule timers_only_update [OF M(6)]) (simp_all add: uv__update_time_def)
  note N' = N [unfolded timers_only_def]
  have "uv__run_pending (env_iocb E) M = Some (0, M)" using M' by (simp add: uv__run_pending_def)
  moreover have "uv__run_watchers (env_cb E) k M = Some M" "uv__run_watchers (env_cb E) k ?N = Some ?N" for k
    using M' N' by (simp_all only: run_watchers_none)
  moreover have "uv__io_poll (env_os E) (env_iocb E) (uv_backend_timeout M) M = Some ?N"
    using M' by (intro io_poll_silent [OF os] timers_only_alive(2) [OF M(6)]) simp
  moreover have "uv__run_closing_handles (env_cb E) (env_destroy E) ?N = Some ?N"
    using N' by (intro run_closing_none) simp
  ultimately have "run_iteration E UV_RUN_DEFAULT L = Some ?N"
    using M(1) by (simp only: run_iteration_def Let_def bind.bind_lunit uv_run_mode.distinct if_False simp_thms case_prod_conv if_True)
  moreover have "clock_reads M = Suc (clock_reads L)" using M(8) t(4) by (simp add: loop_rest_def)
  moreover have "handles ?N = handles M" "fired ?N = fired M" "clock_reads M \<le> clock_reads ?N"
    by (simp_all add: uv__update_time_def)
  ultimately show ?thesis using M(2-5,7) N by (intro exI [of _ ?N] exI [of _ xs]) simp
qed

lemma run_loop_dead: "run_loop E mode False L = Some (False, L)"
  by (simp add: run_loop.simps [of E mode False])

text \<open>Timers that are called in different iterations are in order too: the later one was not due.\<close>

lemma due_by_order:
  assumes "set xs = due_by L T t" and "set ys = T - set xs" and "sorted (map (timer_key (handles L)) xs)"
    and "sorted (map (timer_key (handles L)) ys)"
  shows "sorted (map (timer_key (handles L)) (xs @ ys))"
proof -
  have "timer_key (handles L) x \<le> timer_key (handles L) y" if "x \<in> set xs" "y \<in> set ys" for x y
  proof (rule ccontr)
    assume "\<not> timer_key (handles L) x \<le> timer_key (handles L) y"
    then have "timer_key (handles L) y \<le> timer_key (handles L) x" by simp
    then have "timeout (handles L y) \<le> timeout (handles L x)" by (rule timer_key_le_timeout)
    then show False using that assms(1,2) by (auto simp: due_by_def)
  qed
  then show ?thesis using assms(3,4) by (auto simp: sorted_append)
qed

lemma run_loop_timers:
  assumes "timers_only L T hs" and os: "silent_os (env_os E)" and cb: "loop_quiet (env_cb E)"
    and "\<forall>n\<ge>N. \<forall>h\<in>T. timeout (handles L h) \<le> clock (env_os E) n"
  shows "\<exists>L' xs. run_loop E UV_RUN_DEFAULT (T \<noteq> {}) L = Some (False, L') \<and> distinct xs \<and> set xs = T \<and>
    sorted (map (timer_key (handles L)) xs) \<and> fired L' = fired L @ map (\<lambda>h. (the (timer_cb (handles L h)), h)) xs \<and>
    timers_only L' {} hs"
  using assms(1,4)
proof (induction "N - clock_reads L" arbitrary: L T rule: less_induct)
  case less
  show ?case
  proof (cases "T = {}")
    case True
    then show ?thesis using less.prems(1) by (simp add: run_loop_dead)
  next
    case False
    obtain K xs where K: "run_iteration E UV_RUN_DEFAULT L = Some K" "distinct xs"
        "set xs = due_by L T (clock (env_os E) (clock_reads L))" "sorted (map (timer_key (handles L)) xs)"
        "fired K = fired L @ map (\<lambda>h. (the (timer_cb (handles L h)), h)) xs" "timers_only K (T - set xs) hs"
        "\<forall>h. h \<notin> set xs \<longrightarrow> handles K h = handles L h" "clock_reads L < clock_reads K"
      using run_iteration_timers [OF less.prems(1) os cb] by blast
    have "stop_flag L = 0" using less.prems(1) by (simp add: timers_only_def)
    then have step: "run_loop E UV_RUN_DEFAULT (T \<noteq> {}) L = run_loop E UV_RUN_DEFAULT (T - set xs \<noteq> {}) K"
      using False K(1) timers_only_alive(1) [OF K(6)] by (simp add: run_loop.simps [of E UV_RUN_DEFAULT True L])
    have same: "handles K h = handles L h" if "h \<in> T - set xs" for h using K(7) that by simp
    show ?thesis
    proof (cases "T - set xs = {}")
      case True
      moreover have "set xs \<subseteq> T" using K(3) by (auto simp: due_by_def)
      ultimately show ?thesis using step K(2,4-6) by (auto simp: run_loop_dead)
    next
      case rest: False
      have "clock_reads L < N"
      proof (rule ccontr)
        assume "\<not> clock_reads L < N"
        then have "due_by L T (clock (env_os E) (clock_reads L)) = T" using less.prems(2) by (auto simp: due_by_def)
        then show False using rest K(3) by simp
      qed
      then have dec: "N - clock_reads K < N - clock_reads L" using K(8) by arith
      have later: "\<forall>n\<ge>N. \<forall>h\<in>T - set xs. timeout (handles K h) \<le> clock (env_os E) n"
        using less.prems(2) same by simp
      obtain L' ys where L': "run_loop E UV_RUN_DEFAULT (T - set xs \<noteq> {}) K = Some (False, L')" "distinct ys"
          "set ys = T - set xs" "sorted (map (timer_key (handles K)) ys)"
          "fired L' = fired K @ map (\<lambda>h. (the (timer_cb (handles K h)), h)) ys" "timers_only L' {} hs"
        using less.hyps [OF dec K(6) later] by blast
      have "map (timer_key (handles K)) ys = map (timer_key (handles L)) ys"
          "map (\<lambda>h. (the (timer_cb (handles K h)), h)) ys = map (\<lambda>h. (the (timer_cb (handles L h)), h)) ys"
        using same L'(3) by (auto simp: timer_key_def)
      then have "sorted (map (timer_key (handles L)) (xs @ ys))"
          "fired L' = fired L @ map (\<lambda>h. (the (timer_cb (handles L h)), h)) (xs @ ys)"
        using due_by_order [OF K(3) L'(3) K(4)] L'(4,5) K(5) by (simp_all only: map_append append_assoc)
      moreover have "distinct (xs @ ys)" "set (xs @ ys) = T" using K(2,3) L'(2,3) by (auto simp: due_by_def)
      ultimately show ?thesis using step L'(1,6) by (intro exI [of _ L'] exI [of _ "xs @ ys"]) simp
    qed
  qed
qed

text \<open>
  Property C32. Take a loop that has only timers to wait for, none of which repeats, callbacks that return and leave the handles,
  the timers and the queues of the loop alone, and a kernel that reports no events. A run of it ends once the clock has passed the
  timers' expiry, however often \<^verbatim>\<open>epoll_wait\<close> returns too early: by then each timer's callback has been called exactly once, in the
  order of expiry and, for equal expiry, of starting; the heap is empty and the result says that nothing is left.\<close>

theorem uv_run_fires_all:
  assumes "timers_only L T hs" and "silent_os (env_os E)" and "loop_quiet (env_cb E)"
    and "\<forall>n\<ge>N. \<forall>h\<in>T. timeout (handles L h) \<le> clock (env_os E) n"
  shows "\<exists>L' xs. uv_run E UV_RUN_DEFAULT L = Some (False, L') \<and> distinct xs \<and> set xs = T \<and>
    sorted (map (timer_key (handles L)) xs) \<and> fired L' = fired L @ map (\<lambda>h. (the (timer_cb (handles L h)), h)) xs \<and>
    timers_ok L' {} \<and> active_handles L' = 0"
proof -
  let ?L = "if uv__loop_alive L then L else uv__update_time (os_hrtime (env_os E)) L"
  have L: "handles ?L = handles L" "fired ?L = fired L" by (simp_all add: uv__update_time_def)
  have "timers_only ?L T hs" by (rule timers_only_update [OF assms(1)]) (simp_all add: uv__update_time_def)
  then obtain L' xs where L': "run_loop E UV_RUN_DEFAULT (T \<noteq> {}) ?L = Some (False, L')" "distinct xs" "set xs = T"
      "sorted (map (timer_key (handles L)) xs)" "fired L' = fired L @ map (\<lambda>h. (the (timer_cb (handles L h)), h)) xs"
      "timers_only L' {} hs"
    using run_loop_timers [of ?L T hs E N] assms(2-4) unfolding L by blast
  have "stop_flag L' = 0" "timers_ok L' {}" "unat (active_handles L') = 0"
    using L'(6) by (simp_all add: timers_only_def refcount_ok_def)
  then have "uv_run E UV_RUN_DEFAULT L = Some (False, L')" "active_handles L' = 0"
    using L'(1) timers_only_alive(1) [OF assms(1)]
    by (cases "T = {}"; simp add: uv_run_def Let_def unsigned_eq_0_iff)+
  then show ?thesis using L'(2-5) \<open>timers_ok L' {}\<close> by blast
qed

text \<open>A kernel with a clock of 3 milliseconds a reading; a loop with timers 1 and 2 started for 5 and 2 milliseconds.\<close>

definition ticking_os :: uv_os where
  "ticking_os = calm_os\<lparr>os_hrtime := \<lambda>n. of_nat (min n 1000000) * 3000000, os_epoll_wait := \<lambda>_ _ _. Inr []\<rparr>"

definition two_timers :: uv_loop where
  "two_timers =
     (let L = snd (uv_timer_init 2 (snd (uv_timer_init 1 fresh_loop)));
          L = snd (the (uv_timer_start 1 (Some 7) 5 0 L))
      in snd (the (uv_timer_start 2 (Some 8) 2 0 L)))"

lemma two_timers_facts:
  "timers_ok two_timers {1, 2}" "uv__is_active two_timers 1" "uv__is_active two_timers 2" "uv__has_ref two_timers 1"
  "uv__has_ref two_timers 2" "timer_cb (handles two_timers 1) = Some 7" "timer_cb (handles two_timers 2) = Some 8"
  "timeout (handles two_timers 1) = 5" "timeout (handles two_timers 2) = 2" "repeat (handles two_timers 1) = 0"
  "repeat (handles two_timers 2) = 0" "refcount_ok two_timers [1, 2]" "fired two_timers = []"
  "closing_handles two_timers = None" "stop_flag two_timers = 0"
  "qmem two_timers = qmem (snd (uv_timer_init 2 (snd (uv_timer_init 1 fresh_loop))))"
proof -
  let ?I = "snd (uv_timer_init 2 (snd (uv_timer_init 1 fresh_loop)))"
  have ok: "timers_ok ?I {}" by (simp add: uv_timer_init_def uv__handle_init_def Let_def timers_ok_fresh)
  have I: "\<not> uv__is_active ?I 1" "\<not> uv__is_active ?I 2" "uv__has_ref ?I 1" "uv__has_ref ?I 2" "time ?I = 0" "fired ?I = []"
      "closing_handles ?I = None" "stop_flag ?I = 0" "active_handles ?I = 0"
    by (simp_all add: uv_timer_init_def uv__handle_init_def Let_def flag_defs bit_simps)
  have "refcount_ok ?I [1, 2]" using I(1,2,9) by (auto simp: refcount_ok_def live_set_def)
  then obtain A where A: "uv_timer_start 1 (Some 7) 5 0 ?I = Some (0, A)" "timers_ok A {1}" "timer_frame A ?I 1"
      "uv__is_active A 1" "timer_cb (handles A 1) = Some 7" "timeout (handles A 1) = clamp_timeout 0 5"
      "repeat (handles A 1) = 0" "refcount_ok A [1, 2]"
    using uv_timer_start_spec [OF ok, of 1 7 5 0] I by auto
  have "\<not> uv__is_active A 2" "time A = 0" using A(3) I by (auto simp: timer_frame_def flag_defs)
  then obtain B where B: "uv_timer_start 2 (Some 8) 2 0 A = Some (0, B)" "timers_ok B (insert 2 {1})" "timer_frame B A 2"
      "uv__is_active B 2" "timer_cb (handles B 2) = Some 8" "timeout (handles B 2) = clamp_timeout 0 2"
      "repeat (handles B 2) = 0" "refcount_ok B [1, 2]"
    using uv_timer_start_spec [OF A(2), of 2 8 2 0] A(8) by auto
  have t: "two_timers = B" using A(1) B(1) by (simp add: two_timers_def)
  have 1: "handles B 1 = handles A 1" using B(3) by (simp add: timer_frame_def)
  show "timers_ok two_timers {1, 2}" using B(2) t by (simp add: insert_commute)
  show "uv__is_active two_timers 1" "uv__is_active two_timers 2" using A(4) B(4) 1 t by (simp_all add: flag_defs)
  show "uv__has_ref two_timers 1" "uv__has_ref two_timers 2"
    using timer_frame_flags(1) [OF A(3)] timer_frame_flags(1) [OF B(3)] I(3,4) t by auto
  show "timer_cb (handles two_timers 1) = Some 7" "timer_cb (handles two_timers 2) = Some 8"
      "timeout (handles two_timers 1) = 5" "timeout (handles two_timers 2) = 2" "repeat (handles two_timers 1) = 0"
      "repeat (handles two_timers 2) = 0" "refcount_ok two_timers [1, 2]"
    using A B 1 t by (simp_all add: clamp_timeout_def)
  show "fired two_timers = []" "closing_handles two_timers = None" "stop_flag two_timers = 0" "qmem two_timers = qmem ?I"
    using A(3) B(3) I t by (simp_all add: timer_frame_def)
qed

lemma two_timers_only: "timers_only two_timers {1, 2} [1, 2]"
proof -
  have "QUEUE_EMPTY (qmem two_timers) q" if "q \<in> {L_watchers Idle, L_watchers Prepare, L_watchers Check, L_active_reqs,
      L_pending_queue, L_watcher_queue}" for q
    unfolding two_timers_facts(16) using that
    by (auto simp: uv_timer_init_def uv__handle_init_def Let_def queue_ops fresh_loop_def uv_loop_init_fields_def
        uv__update_time_def upd_q_def upd_handle_def)
  moreover have "L_watchers k \<in> {L_watchers Idle, L_watchers Prepare, L_watchers Check}" for k by (cases k) simp_all
  moreover have "live_set two_timers [1, 2] = {1, 2}" using two_timers_facts(2-5) by (auto simp: live_set_def)
  ultimately show ?thesis using two_timers_facts by (simp add: timers_only_def)
qed

lemma two_timers_due: "\<forall>n\<ge>2. \<forall>h\<in>{1, 2}. timeout (handles two_timers h) \<le> clock ticking_os n"
proof -
  have "unat (clock ticking_os n) = min n 1000000 * 3" for n
  proof -
    have "min n 1000000 * 3000000 < 2 ^ 64" by (simp add: min_def)
    then have "unat (of_nat (min n 1000000 * 3000000) :: uint64) = min n 1000000 * 3000000"
      by (intro unat_of_nat_small) simp
    then show ?thesis by (simp add: clock_def ticking_os_def unat_div)
  qed
  then show ?thesis using two_timers_facts(8,9) by (auto simp: word_le_nat_alt)
qed

theorem uv_run_fires_all_witness:
  "\<exists>L' xs. uv_run \<lparr>env_os = ticking_os, env_cb = \<lambda>_ _. Some, env_iocb = \<lambda>_ _ _. Some, env_destroy = \<lambda>_ _ _. None\<rparr>
     UV_RUN_DEFAULT two_timers = Some (False, L') \<and> fired L' = [(8, 2), (7, 1)]"
proof -
  let ?E = "\<lparr>env_os = ticking_os, env_cb = \<lambda>_ _. Some, env_iocb = \<lambda>_ _ _. Some, env_destroy = \<lambda>_ _ _. None\<rparr>"
  have "silent_os (env_os ?E)" by (simp add: silent_os_def ticking_os_def calm_os_def)
  then obtain L' xs where r: "uv_run ?E UV_RUN_DEFAULT two_timers = Some (False, L')" "distinct xs" "set xs = {1, 2}"
      "sorted (map (timer_key (handles two_timers)) xs)"
      "fired L' = fired two_timers @ map (\<lambda>h. (the (timer_cb (handles two_timers h)), h)) xs"
    using uv_run_fires_all [OF two_timers_only, of ?E 2] two_timers_due by (auto simp: loop_quiet_def timer_quiet_def)
  have "length xs = 2" using r(2,3) distinct_card [of xs] by simp
  then obtain a b where ab: "xs = [a, b]" by (auto simp: numeral_2_eq_2 length_Suc_conv)
  have "timer_less_than (handles two_timers) 2 1" using two_timers_facts(8,9) by (simp add: timer_less_than_def)
  then have "timer_key (handles two_timers) 2 < timer_key (handles two_timers) 1" by (simp add: timer_less_than_key)
  then have "xs = [2, 1]" using r(2-4) ab by (auto simp: doubleton_eq_iff)
  then show ?thesis using r(1,5) two_timers_facts(6,7,13) by simp
qed

end
