(* ===== verification/Uv_Work.thy ===== *)
theory Uv_Work
  imports Uv_Queue
begin

text \<open>
  The thread pool of \<^verbatim>\<open>core/libuv/src/threadpool.c\<close> with the wakeup of the loop,
  \<^verbatim>\<open>uv_async_send\<close> and \<^verbatim>\<open>uv__async_event\<close> of \<^verbatim>\<open>unix/async.c\<close>: several worker threads and the
  thread of the loop, interleaved step by step. A critical section of the pool's mutex is
  one step. The loop's \<^verbatim>\<open>wq_mutex\<close>, which is held across \<^verbatim>\<open>uv_async_send\<close>, is a flag, and every
  access to the shared \<^verbatim>\<open>pending\<close> and to the event descriptor is a step of its own. One
  loop uses the pool, and \<^verbatim>\<open>wq_async\<close> is its async handle.
\<close>

section \<open>The code\<close>

text \<open>The queue heads and nodes: \<open>WQ\<close> is the pool's \<^verbatim>\<open>wq\<close>, \<open>LWQ\<close> the loop's, \<open>LOCAL\<close> the one in \<^verbatim>\<open>uv__work_done\<close>.\<close>

datatype qaddr = WQ | LWQ | LOCAL | EXIT | WK nat

datatype work_fn = WF_null | WF_cb | WF_cancelled

text \<open>Where a thread is inside \<^verbatim>\<open>uv_async_send\<close>, and where workers and the loop are.\<close>

datatype send_pc = S_read | S_cas | S_write | S_unlock

datatype wpc = W_lock | W_wait | W_run nat | W_ran nat | W_send send_pc | W_exit

datatype lpc = L_user | L_cancelled nat | L_send send_pc | L_event | L_done

text \<open>What the callbacks of the user see: a request is queued, its work is run, it is done with a status.\<close>

datatype pool_ev = Queued nat | Ran nat | Done nat int

record pool =
  qm :: "qaddr queue_mem"
  wwork :: "nat \<Rightarrow> work_fn"
  pending :: int
  efd :: nat
  locked :: bool
  wpcs :: "wpc list"
  lpc :: lpc
  reqs :: "nat set"
  exiting :: bool
  evlog :: "pool_ev list"

text \<open>A thread can be blocked, can crash (a null function, \<^verbatim>\<open>abort\<close>, a failed assertion) or go on.\<close>

datatype 'a outcome = Blocked | Crash | Next 'a

abbreviation UV_EINVAL :: int where "UV_EINVAL \<equiv> - 22"
abbreviation UV_EBUSY :: int where "UV_EBUSY \<equiv> - 16"
abbreviation UV_ECANCELED :: int where "UV_ECANCELED \<equiv> - 125"

subsection \<open>Waking up the loop\<close>

text \<open>An event descriptor is a counter; writing at its limit fails with \<^verbatim>\<open>EAGAIN\<close>, which is ignored.\<close>

definition uv__async_send :: "pool \<Rightarrow> pool" where
  "uv__async_send s = (if efd s < 2 ^ 64 - 2 then s\<lparr>efd := efd s + 1\<rparr> else s)"

text \<open>The steps of \<^verbatim>\<open>uv_async_send\<close>, and then of releasing \<^verbatim>\<open>wq_mutex\<close>, after which there is no next one.\<close>

fun uv_async_send :: "send_pc \<Rightarrow> pool \<Rightarrow> send_pc option \<times> pool" where
  "uv_async_send S_read s = (if pending s \<noteq> 0 then (Some S_unlock, s) else (Some S_cas, s))"
| "uv_async_send S_cas s = (if pending s = 0 then (Some S_write, s\<lparr>pending := 1\<rparr>) else (Some S_unlock, s))"
| "uv_async_send S_write s = (Some S_unlock, uv__async_send s)"
| "uv_async_send S_unlock s = (None, s\<lparr>locked := False\<rparr>)"

text \<open>
  Reading an event descriptor gives its counter, eight bytes at once, and resets it, or fails with \<^verbatim>\<open>EAGAIN\<close> when
  it is zero; interrupted calls are repeated.
\<close>

definition uv__async_io :: "pool \<Rightarrow> pool outcome" where
  "uv__async_io s =
     (let (n, s) = (if efd s > 0 then (8 :: nat, s\<lparr>efd := 0\<rparr>) else (0, s))
      in if n = 8 then Next (s\<lparr>lpc := L_event\<rparr>) else Crash)"

definition uv__async_event :: "pool \<Rightarrow> pool" where
  "uv__async_event s = (if pending s = 1 then s\<lparr>pending := 0, lpc := L_done\<rparr> else s\<lparr>lpc := L_user\<rparr>)"

subsection \<open>Workers\<close>

text \<open>\<^verbatim>\<open>uv_cond_signal\<close> wakes worker \<open>j\<close>, if it waits.\<close>

definition uv_cond_signal :: "nat \<Rightarrow> pool \<Rightarrow> pool" where
  "uv_cond_signal j s = (if j < length (wpcs s) \<and> wpcs s ! j = W_wait then s\<lparr>wpcs := (wpcs s)[j := W_lock]\<rparr> else s)"

definition set_wpc :: "nat \<Rightarrow> wpc \<Rightarrow> pool \<Rightarrow> pool" where
  "set_wpc i p s = s\<lparr>wpcs := (wpcs s)[i := p]\<rparr>"

text \<open>The first critical section of a worker.\<close>

definition worker_take :: "nat \<Rightarrow> nat \<Rightarrow> pool \<Rightarrow> pool" where
  "worker_take i j s =
     (if QUEUE_EMPTY (qm s) WQ then set_wpc i W_wait s
      else
        case QUEUE_HEAD (qm s) WQ of
          WK w \<Rightarrow> set_wpc i (W_run w) (s\<lparr>qm := QUEUE_INIT (WK w) (QUEUE_REMOVE (WK w) (qm s))\<rparr>)
        | _ \<Rightarrow> set_wpc i W_exit (uv_cond_signal j s))"

definition worker_run :: "nat \<Rightarrow> nat \<Rightarrow> pool \<Rightarrow> pool outcome" where
  "worker_run i w s =
     (if wwork s w = WF_cb then Next (set_wpc i (W_ran w) (s\<lparr>evlog := evlog s @ [Ran w]\<rparr>)) else Crash)"

text \<open>The second critical section, up to \<^verbatim>\<open>uv_async_send\<close>.\<close>

definition worker_finish :: "nat \<Rightarrow> nat \<Rightarrow> pool \<Rightarrow> pool outcome" where
  "worker_finish i w s =
     (if locked s then Blocked
      else
        let s = s\<lparr>locked := True\<rparr>;
            s = s\<lparr>wwork := (wwork s)(w := WF_null)\<rparr>;
            s = s\<lparr>qm := QUEUE_INSERT_TAIL LWQ (WK w) (qm s)\<rparr>
        in Next (set_wpc i (W_send S_read) s))"

definition worker :: "nat \<Rightarrow> nat \<Rightarrow> pool \<Rightarrow> pool outcome" where
  "worker i j s =
     (case wpcs s ! i of
        W_lock \<Rightarrow> Next (worker_take i j s)
      | W_run w \<Rightarrow> worker_run i w s
      | W_ran w \<Rightarrow> worker_finish i w s
      | W_send p \<Rightarrow>
          (case uv_async_send p s of
             (Some p, s) \<Rightarrow> Next (set_wpc i (W_send p) s)
           | (None, s) \<Rightarrow> Next (set_wpc i W_lock s))
      | W_wait \<Rightarrow> Blocked
      | W_exit \<Rightarrow> Blocked)"

subsection \<open>Submitting and cancelling\<close>

definition post :: "qaddr \<Rightarrow> nat \<Rightarrow> pool \<Rightarrow> pool" where
  "post q j s = uv_cond_signal j (s\<lparr>qm := QUEUE_INSERT_TAIL WQ q (qm s)\<rparr>)"

definition cleanup :: "nat \<Rightarrow> pool \<Rightarrow> pool" where
  "cleanup j s = post EXIT j (s\<lparr>exiting := True\<rparr>)"

text \<open>
  The number of threads for a value of \<^verbatim>\<open>UV_THREADPOOL_SIZE\<close>, as \<^verbatim>\<open>atoi\<close> reads it. Memory is never exhausted here: the array
  of threads is there, and the fallback to four threads is not taken. The proofs hold for any number of threads.
\<close>

definition init_nthreads :: "int option \<Rightarrow> nat" where
  "init_nthreads val =
     (let n = 4;
          n = (case val of None \<Rightarrow> n | Some v \<Rightarrow> nat (v mod 2 ^ 32));
          n = (if n = 0 then 1 else n)
      in if n > 128 then 128 else n)"

definition init_once :: "int option \<Rightarrow> pool \<Rightarrow> pool" where
  "init_once val s = s\<lparr>qm := QUEUE_INIT WQ (qm s), wpcs := replicate (init_nthreads val) W_lock\<rparr>"

definition uv__work_submit :: "nat \<Rightarrow> nat \<Rightarrow> pool \<Rightarrow> pool" where
  "uv__work_submit w j s = post (WK w) j (s\<lparr>wwork := (wwork s)(w := WF_cb)\<rparr>)"

definition queue_work :: "nat \<Rightarrow> nat \<Rightarrow> pool \<Rightarrow> pool" where
  "queue_work w j s = uv__work_submit w j (s\<lparr>reqs := insert w (reqs s), evlog := evlog s @ [Queued w]\<rparr>)"

text \<open>\<open>cb\<close>: the user has given a function for the work.\<close>

definition uv_queue_work :: "bool \<Rightarrow> nat \<Rightarrow> nat \<Rightarrow> pool \<Rightarrow> int \<times> pool" where
  "uv_queue_work cb w j s = (if \<not> cb then (UV_EINVAL, s) else (0, queue_work w j s))"

text \<open>The first part of \<^verbatim>\<open>uv__work_cancel\<close>, under both mutexes; the second part is a step of the loop.\<close>

definition uv__work_cancel :: "nat \<Rightarrow> pool \<Rightarrow> (int \<times> pool) outcome" where
  "uv__work_cancel w s =
     (if locked s then Blocked
      else if \<not> QUEUE_EMPTY (qm s) (WK w) \<and> wwork s w \<noteq> WF_null
      then Next (0, s\<lparr>qm := QUEUE_REMOVE (WK w) (qm s), lpc := L_cancelled w\<rparr>)
      else Next (UV_EBUSY, s))"

datatype uv_req_type = UV_FS | UV_GETADDRINFO | UV_GETNAMEINFO | UV_WORK | UV_OTHER_REQ

definition uv_cancel :: "uv_req_type \<Rightarrow> nat \<Rightarrow> pool \<Rightarrow> (int \<times> pool) outcome" where
  "uv_cancel ty w s =
     (case ty of
        UV_FS \<Rightarrow> uv__work_cancel w s
      | UV_GETADDRINFO \<Rightarrow> uv__work_cancel w s
      | UV_GETNAMEINFO \<Rightarrow> uv__work_cancel w s
      | UV_WORK \<Rightarrow> uv__work_cancel w s
      | UV_OTHER_REQ \<Rightarrow> Next (UV_EINVAL, s))"

definition cancel_queue :: "nat \<Rightarrow> pool \<Rightarrow> pool outcome" where
  "cancel_queue w s =
     (if locked s then Blocked
      else
        let s = s\<lparr>wwork := (wwork s)(w := WF_cancelled)\<rparr>;
            s = s\<lparr>locked := True\<rparr>;
            s = s\<lparr>qm := QUEUE_INSERT_TAIL LWQ (WK w) (qm s)\<rparr>
        in Next (s\<lparr>lpc := L_send S_read\<rparr>))"

subsection \<open>The loop\<close>

definition uv__queue_done :: "nat \<Rightarrow> int \<Rightarrow> pool \<Rightarrow> pool" where
  "uv__queue_done w err s = s\<lparr>reqs := reqs s - {w}, evlog := evlog s @ [Done w err]\<rparr>"

text \<open>\<^verbatim>\<open>uv__work_done\<close>: taking over the finished work, and one turn of the loop over it.\<close>

definition work_done_take :: "pool \<Rightarrow> pool outcome" where
  "work_done_take s =
     (if locked s then Blocked
      else
        let m = QUEUE_INIT LOCAL (qm s);
            m = (if \<not> QUEUE_EMPTY m LWQ then QUEUE_SPLIT LWQ (QUEUE_HEAD m LWQ) LOCAL m else m)
        in Next (s\<lparr>qm := m, lpc := L_user\<rparr>))"

definition work_done_turn :: "pool \<Rightarrow> pool outcome" where
  "work_done_turn s =
     (case QUEUE_HEAD (qm s) LOCAL of
        WK w \<Rightarrow>
          let s = s\<lparr>qm := QUEUE_REMOVE (WK w) (qm s)\<rparr>;
              err = (if wwork s w = WF_cancelled then UV_ECANCELED else 0)
          in Next (uv__queue_done w err s)
      | _ \<Rightarrow> Crash)"

text \<open>The thread of the loop: in user code it goes on with \<^verbatim>\<open>uv__work_done\<close> or polls.\<close>

definition loop_step :: "pool \<Rightarrow> pool outcome" where
  "loop_step s =
     (case lpc s of
        L_user \<Rightarrow>
          if \<not> QUEUE_EMPTY (qm s) LOCAL then work_done_turn s
          else if efd s > 0 then uv__async_io s
          else Blocked
      | L_cancelled w \<Rightarrow> cancel_queue w s
      | L_send p \<Rightarrow>
          (case uv_async_send p s of
             (Some p, s) \<Rightarrow> Next (s\<lparr>lpc := L_send p\<rparr>)
           | (None, s) \<Rightarrow> Next (s\<lparr>lpc := L_user\<rparr>))
      | L_event \<Rightarrow> Next (uv__async_event s)
      | L_done \<Rightarrow> work_done_take s)"

section \<open>Interleavings\<close>

text \<open>A signal wakes one of the waiting workers, any of them.\<close>

definition can_signal :: "nat \<Rightarrow> pool \<Rightarrow> bool" where
  "can_signal j s \<longleftrightarrow> (W_wait \<in> set (wpcs s) \<longrightarrow> j < length (wpcs s) \<and> wpcs s ! j = W_wait)"

text \<open>The steps the program takes by itself.\<close>

inductive sys_step :: "pool \<Rightarrow> pool \<Rightarrow> bool" where
  sys_worker: "i < length (wpcs s) \<Longrightarrow> can_signal j s \<Longrightarrow> worker i j s = Next s' \<Longrightarrow> sys_step s s'"
| sys_loop: "loop_step s = Next s' \<Longrightarrow> sys_step s s'"

text \<open>
  All steps: the user may queue a request that is not queued and cancel one that is, from
  any code the loop runs, wakeups of workers may be spurious, and the process may exit.
\<close>

inductive pool_step :: "pool \<Rightarrow> pool \<Rightarrow> bool" where
  step_sys: "sys_step s s' \<Longrightarrow> pool_step s s'"
| step_queue: "lpc s = L_user \<Longrightarrow> \<not> exiting s \<Longrightarrow> w \<notin> reqs s \<Longrightarrow> can_signal j s \<Longrightarrow>
    uv_queue_work cb w j s = (r, s') \<Longrightarrow> pool_step s s'"
| step_cancel: "lpc s = L_user \<Longrightarrow> w \<in> reqs s \<Longrightarrow> uv_cancel ty w s = Next (r, s') \<Longrightarrow> pool_step s s'"
| step_spurious: "i < length (wpcs s) \<Longrightarrow> wpcs s ! i = W_wait \<Longrightarrow> pool_step s (set_wpc i W_lock s)"
| step_exit: "lpc s = L_user \<Longrightarrow> \<not> exiting s \<Longrightarrow> can_signal j s \<Longrightarrow> pool_step s (cleanup j s)"

definition start_pool :: "int option \<Rightarrow> pool" where
  "start_pool val =
     init_once val
       \<lparr>qm = QUEUE_INIT LOCAL (QUEUE_INIT LWQ \<lparr>qnext = id, qprev = id\<rparr>), wwork = (\<lambda>_. WF_null), pending = 0, efd = 0,
        locked = False, wpcs = [], lpc = L_user, reqs = {}, exiting = False, evlog = []\<rparr>"

inductive pool_reach :: "pool \<Rightarrow> bool" where
  reach_start: "pool_reach (start_pool val)"
| reach_step: "pool_reach s \<Longrightarrow> pool_step s s' \<Longrightarrow> pool_reach s'"

end
