(* ===== verification/Uv_Pool.thy ===== *)
theory Uv_Pool
  imports Uv_Work "HOL-Library.Multiset"
begin

text \<open>
  What the thread pool guarantees under every schedule: who owns a request at each
  moment, that no wakeup is lost between workers and loop, that every request is run and
  done once or cancelled, and that all requests are done in the end.
\<close>

section \<open>Several queues in one memory\<close>

definition qnodes :: "('a \<times> 'a list) list \<Rightarrow> 'a list" where
  "qnodes qs = concat (map (\<lambda>(h, xs). h # xs) qs)"

definition queues :: "'a queue_mem \<Rightarrow> ('a \<times> 'a list) list \<Rightarrow> bool" where
  "queues m qs \<longleftrightarrow> (\<forall>(h, xs)\<in>set qs. queue_repr m h xs) \<and> distinct (qnodes qs)"

lemma qnodes_simps [simp]: "qnodes [] = []" "qnodes ((h, xs) # qs) = h # xs @ qnodes qs" "qnodes (ps @ qs) = qnodes ps @ qnodes qs"
  by (simp_all add: qnodes_def)

lemma mset_qnodes: "mset (qnodes qs) = (\<Sum>(h, xs)\<in>#mset qs. mset (h # xs))"
  by (induction qs) auto

lemma queues_perm: "mset qs = mset ps \<Longrightarrow> queues m qs \<Longrightarrow> queues m ps"
proof -
  assume eq: "mset qs = mset ps" and ok: "queues m qs"
  have "mset (qnodes qs) = mset (qnodes ps)" by (simp only: mset_qnodes eq)
  then have "distinct (qnodes ps)" using ok mset_eq_imp_distinct_iff by (auto simp: queues_def)
  then show ?thesis using ok mset_eq_setD [OF eq] by (simp add: queues_def)
qed

lemma queues_other:
  assumes "queues m ((h, xs) # qs)" and "(g, ys) \<in> set qs"
  shows "queue_repr m g ys" and "set (g # ys) \<inter> set (h # xs) = {}"
proof -
  show "queue_repr m g ys" using assms by (auto simp: queues_def)
  have "set (g # ys) \<subseteq> set (qnodes qs)" using assms(2) by (auto simp: qnodes_def)
  then show "set (g # ys) \<inter> set (h # xs) = {}" using assms(1) by (auto simp: queues_def)
qed

lemma queuesI:
  assumes "queue_repr m' h xs'" and "\<And>g ys. (g, ys) \<in> set qs \<Longrightarrow> queue_repr m' g ys" and "distinct (h # xs' @ qnodes qs)"
  shows "queues m' ((h, xs') # qs)"
  using assms by (auto simp: queues_def)

lemma queues_hd: "queues m ((h, xs) # qs) \<Longrightarrow> queue_repr m h xs"
  by (simp add: queues_def)

lemma queues_drop: "queues m (q # qs) \<Longrightarrow> queues m qs"
  by (cases q) (simp add: queues_def)

lemma queues_insert_tail:
  assumes ok: "queues m ((h, xs) # qs)" and q: "q \<notin> set (qnodes ((h, xs) # qs))"
  shows "queues (QUEUE_INSERT_TAIL h q m) ((h, xs @ [q]) # qs)"
proof (rule queuesI)
  note R = queues_hd [OF ok]
  show "queue_repr (QUEUE_INSERT_TAIL h q m) h (xs @ [q])" using R q by (intro queue_repr_insert_tail) simp_all
  show "distinct (h # (xs @ [q]) @ qnodes qs)" using ok q by (auto simp: queues_def)
  fix g ys assume g: "(g, ys) \<in> set qs"
  have "set (g # ys) \<subseteq> set (qnodes qs)" using g by (auto simp: qnodes_def)
  then have "set (g # ys) \<inter> set (q # h # xs) = {}" using queues_other(2) [OF ok g] q by auto
  then show "queue_repr (QUEUE_INSERT_TAIL h q m) g ys" by (rule queue_frame_insert_tail [OF queues_other(1) [OF ok g] R])
qed

lemma queues_remove:
  assumes ok: "queues m ((h, us @ q # vs) # qs)"
  shows "queues (QUEUE_REMOVE q m) ((h, us @ vs) # qs)"
proof (rule queuesI)
  note R = queues_hd [OF ok]
  show "queue_repr (QUEUE_REMOVE q m) h (us @ vs)" by (rule queue_repr_remove [OF R])
  show "distinct (h # (us @ vs) @ qnodes qs)" using ok by (auto simp: queues_def)
  fix g ys assume g: "(g, ys) \<in> set qs"
  show "queue_repr (QUEUE_REMOVE q m) g ys" by (rule queue_frame_remove [OF queues_other(1) [OF ok g] R queues_other(2) [OF ok g]])
qed

lemma queues_init:
  assumes ok: "queues m qs" and q: "q \<notin> set (qnodes qs)"
  shows "queues (QUEUE_INIT q m) ((q, []) # qs)"
proof (rule queuesI)
  show "queue_repr (QUEUE_INIT q m) q []" by (rule queue_repr_init)
  show "distinct (q # [] @ qnodes qs)" using ok q by (simp add: queues_def)
  fix g ys assume g: "(g, ys) \<in> set qs"
  then have "set (g # ys) \<subseteq> set (qnodes qs)" by (auto simp: qnodes_def)
  then show "queue_repr (QUEUE_INIT q m) g ys" using ok g q by (intro queue_frame_init) (auto simp: queues_def)
qed

lemma queue_frame_split:
  assumes "queue_repr m g zs" and "queue_repr m h (q # ys)" and "set (g # zs) \<inter> set (n # h # q # ys) = {}"
  shows "queue_repr (QUEUE_SPLIT h q n m) g zs"
proof (rule queue_repr_frame [OF assms(1)])
  fix c assume c: "c \<in> set (g # zs)"
  have "qprev m h = last (h # q # ys)" "qprev m q = h" using assms(2) qseg_last [of m h "q # ys" h] by (auto simp: queue_repr_def)
  moreover have "last (h # q # ys) \<in> set (q # ys)" by (cases ys) auto
  ultimately have p: "qprev m h \<in> set (n # h # q # ys)" "qprev m q \<in> set (n # h # q # ys)" by auto
  have out: "c \<notin> set (n # h # q # ys)" using c assms(3) by (meson disjoint_iff)
  then have "c \<noteq> qprev m h" "c \<noteq> qprev m q" using p by metis+
  moreover have "c \<noteq> n" "c \<noteq> h" "c \<noteq> q" using out by simp_all
  ultimately show "qnext (QUEUE_SPLIT h q n m) c = qnext m c \<and> qprev (QUEUE_SPLIT h q n m) c = qprev m c"
    by (simp add: queue_ops)
qed

lemma queues_split:
  assumes ok: "queues m ((h, q # ys) # (n, []) # qs)"
  shows "queues (QUEUE_SPLIT h q n m) ((h, []) # (n, q # ys) # qs)"
proof (rule queuesI)
  have R: "queue_repr m h ([] @ q # ys)" using queues_hd [OF ok] by simp
  have n: "n \<notin> set (h # [] @ q # ys)" using ok by (auto simp: queues_def)
  show "queue_repr (QUEUE_SPLIT h q n m) h []" by (rule queue_repr_split(1) [OF R n])
  show "distinct (h # [] @ qnodes ((n, q # ys) # qs))" using ok by (auto simp: queues_def)
  fix g zs assume g: "(g, zs) \<in> set ((n, q # ys) # qs)"
  show "queue_repr (QUEUE_SPLIT h q n m) g zs"
  proof (cases "(g, zs) = (n, q # ys)")
    case True
    then show ?thesis using queue_repr_split(2) [OF R n] by simp
  next
    case False
    then have g': "(g, zs) \<in> set qs" using g by auto
    have "set (g # zs) \<subseteq> set (qnodes qs)" using g' by (auto simp: qnodes_def)
    then have "set (g # zs) \<inter> set (n # h # q # ys) = {}" using ok by (auto simp: queues_def)
    moreover have "queue_repr m g zs" using ok g' by (auto simp: queues_def)
    ultimately show ?thesis using queue_frame_split R by simp
  qed
qed

section \<open>Who owns a request\<close>

lemma queues_permI: "queues m qs \<Longrightarrow> m' = m \<Longrightarrow> mset qs = mset ps \<Longrightarrow> queues m' ps"
  using queues_perm by blast

fun pc_run :: "wpc \<Rightarrow> nat list" where
  "pc_run (W_run w) = [w]"
| "pc_run _ = []"

fun pc_ran :: "wpc \<Rightarrow> nat list" where
  "pc_ran (W_ran w) = [w]"
| "pc_ran _ = []"

fun pc_cancel :: "lpc \<Rightarrow> nat list" where
  "pc_cancel (L_cancelled w) = [w]"
| "pc_cancel _ = []"

definition collect :: "('a \<Rightarrow> 'b list) \<Rightarrow> 'a list \<Rightarrow> 'b multiset" where
  "collect f xs = mset (concat (map f xs))"

lemma collect_simps [simp]: "collect f [] = {#}" "collect f (x # xs) = mset (f x) + collect f xs"
  by (simp_all add: collect_def)

lemma collect_update: "i < length xs \<Longrightarrow> collect f (xs[i := p]) + mset (f (xs ! i)) = collect f xs + mset (f p)"
proof (induction xs arbitrary: i)
  case (Cons x xs)
  then show ?case by (cases i) (simp_all add: ac_simps)
qed simp

lemma collect_same: "f p = f (xs ! i) \<Longrightarrow> collect f (xs[i := p]) = collect f xs"
  using collect_update [of i xs f p] by (cases "i < length xs") (simp_all add: list_update_beyond)

lemma mset_member: "M + {#w#} = mset us \<Longrightarrow> w \<in> set us"
proof -
  assume e: "M + {#w#} = mset us"
  have "w \<in># M + {#w#}" by simp
  then show ?thesis unfolding e by simp
qed

text \<open>The life of a request as its user sees it; an event that does not fit has no phase after it.\<close>

datatype phase = P_idle | P_queued | P_ran

fun next_phase :: "nat \<Rightarrow> pool_ev \<Rightarrow> phase \<Rightarrow> phase option" where
  "next_phase w (Queued v) p = (if v \<noteq> w then Some p else if p = P_idle then Some P_queued else None)"
| "next_phase w (Ran v) p = (if v \<noteq> w then Some p else if p = P_queued then Some P_ran else None)"
| "next_phase w (Done v err) p =
     (if v \<noteq> w then Some p
      else if p = P_ran \<and> err = 0 \<or> p = P_queued \<and> err = UV_ECANCELED then Some P_idle
      else None)"

definition phase_of :: "nat \<Rightarrow> pool_ev list \<Rightarrow> phase option" where
  "phase_of w evs = foldl (\<lambda>p e. Option.bind p (next_phase w e)) (Some P_idle) evs"

lemma phase_of_simps [simp]: "phase_of w [] = Some P_idle" "phase_of w (evs @ [e]) = Option.bind (phase_of w evs) (next_phase w e)"
  by (simp_all add: phase_of_def)

text \<open>
  The requests are queued (\<open>xs\<close>), finished and not yet taken over (\<open>ys\<close>), taken over by the loop (\<open>zs\<close>), held
  by a worker before (\<open>us\<close>) and after (\<open>vs\<close>) their work, or being cancelled.
\<close>

definition single :: "nat \<Rightarrow> qaddr \<times> qaddr list" where
  "single w = (WK w, [])"

definition pool_queues :: "pool \<Rightarrow> nat list \<Rightarrow> nat list \<Rightarrow> nat list \<Rightarrow> nat list \<Rightarrow> (qaddr \<times> qaddr list) list" where
  "pool_queues s xs ys zs us =
     (WQ, map WK xs @ (if exiting s then [EXIT] else [])) # (LWQ, map WK ys) # (LOCAL, map WK zs) # map single us"

definition cur_phase :: "pool \<Rightarrow> nat list \<Rightarrow> nat list \<Rightarrow> nat \<Rightarrow> phase" where
  "cur_phase s fs vs w =
     (if w \<notin> reqs s then P_idle else if w \<in> set vs \<or> w \<in> set fs \<and> wwork s w = WF_null then P_ran else P_queued)"

definition pool_own :: "pool \<Rightarrow> nat list \<Rightarrow> nat list \<Rightarrow> nat list \<Rightarrow> nat list \<Rightarrow> nat list \<Rightarrow> bool" where
  "pool_own s xs ys zs us vs \<longleftrightarrow>
     queues (qm s) (pool_queues s xs ys zs (us @ vs)) \<and> collect pc_run (wpcs s) = mset us \<and> collect pc_ran (wpcs s) = mset vs \<and>
     set (pc_cancel (lpc s)) \<inter> set (xs @ ys @ zs @ us @ vs) = {} \<and>
     reqs s = set (xs @ ys @ zs @ us @ vs) \<union> set (pc_cancel (lpc s)) \<and>
     (\<forall>w\<in>set (xs @ us @ vs). wwork s w = WF_cb) \<and> (\<forall>w\<in>set (ys @ zs). wwork s w \<noteq> WF_cb) \<and>
     (\<forall>w. phase_of w (evlog s) = Some (cur_phase s (ys @ zs) vs w)) \<and>
     (lpc s = L_event \<or> lpc s = L_done \<longrightarrow> zs = [])"

lemma qnodes_single [simp]: "qnodes (map single us) = map WK us"
  by (induction us) (simp_all add: single_def)

lemma qnodes_pool:
  "set (qnodes (pool_queues s xs ys zs us)) = {WQ, LWQ, LOCAL} \<union> WK ` set (xs @ ys @ zs @ us) \<union> (if exiting s then {EXIT} else {})"
  by (auto simp: pool_queues_def)

lemma own_distinct: "queues m (pool_queues s xs ys zs us) \<Longrightarrow> distinct (xs @ ys @ zs @ us)"
  by (auto simp: pool_queues_def queues_def distinct_map inj_on_def split: if_splits)

lemma own_heads:
  assumes "queues m (pool_queues s xs ys zs us)"
  shows "QUEUE_EMPTY m WQ \<longleftrightarrow> xs = [] \<and> \<not> exiting s" and "QUEUE_EMPTY m LWQ \<longleftrightarrow> ys = []" and "QUEUE_EMPTY m LOCAL \<longleftrightarrow> zs = []"
    and "w \<in> set us \<Longrightarrow> QUEUE_EMPTY m (WK w)"
    and "QUEUE_EMPTY m WQ \<or> QUEUE_HEAD m WQ = hd (map WK xs @ [EXIT])"
    and "ys \<noteq> [] \<Longrightarrow> QUEUE_HEAD m LWQ = WK (hd ys)" and "zs \<noteq> [] \<Longrightarrow> QUEUE_HEAD m LOCAL = WK (hd zs)"
proof -
  have R: "queue_repr m WQ (map WK xs @ (if exiting s then [EXIT] else []))" "queue_repr m LWQ (map WK ys)" "queue_repr m LOCAL (map WK zs)"
      "\<And>w. w \<in> set us \<Longrightarrow> queue_repr m (WK w) []"
    using assms by (auto simp: queues_def pool_queues_def single_def)
  show "QUEUE_EMPTY m WQ \<longleftrightarrow> xs = [] \<and> \<not> exiting s" "QUEUE_EMPTY m LWQ \<longleftrightarrow> ys = []" "QUEUE_EMPTY m LOCAL \<longleftrightarrow> zs = []"
      "w \<in> set us \<Longrightarrow> QUEUE_EMPTY m (WK w)"
    using queue_repr_empty [OF R(1)] queue_repr_empty [OF R(2)] queue_repr_empty [OF R(3)] queue_repr_empty [OF R(4)] by auto
  show "QUEUE_EMPTY m WQ \<or> QUEUE_HEAD m WQ = hd (map WK xs @ [EXIT])"
    using R(1) queue_repr_empty [OF R(1)] queue_repr_head by (cases xs) (auto split: if_splits)
  show "ys \<noteq> [] \<Longrightarrow> QUEUE_HEAD m LWQ = WK (hd ys)" using R(2) queue_repr_head by (cases ys) auto
  show "zs \<noteq> [] \<Longrightarrow> QUEUE_HEAD m LOCAL = WK (hd zs)" using R(3) queue_repr_head by (cases zs) auto
qed

text \<open>A node in a queue with another head is not an empty queue.\<close>

lemma qseg_member: "qseg m a xs b \<Longrightarrow> distinct (xs @ [b]) \<Longrightarrow> x \<in> set xs \<Longrightarrow> qnext m x \<noteq> x"
proof (induction xs arbitrary: a)
  case (Cons y xs)
  show ?case
  proof (cases "x = y")
    case True
    have "qnext m y = hd (xs @ [b])" using Cons.prems(1) qseg_first [of m y xs b] by simp
    moreover have "hd (xs @ [b]) \<in> set (xs @ [b])" by (rule hd_in_set) simp
    ultimately show ?thesis using Cons.prems(2) True by auto
  next
    case False
    then show ?thesis using Cons.IH [of y] Cons.prems by simp
  qed
qed simp

lemma pool_member_not_empty: "queue_repr m h xs \<Longrightarrow> x \<in> set xs \<Longrightarrow> \<not> QUEUE_EMPTY m x"
  using qseg_member [of m h xs h x] by (auto simp: queue_repr_def queue_ops)

lemma own_member: "queues m (pool_queues s xs ys zs us) \<Longrightarrow> w \<in> set (xs @ ys @ zs) \<Longrightarrow> \<not> QUEUE_EMPTY m (WK w)"
  using pool_member_not_empty by (fastforce simp: queues_def pool_queues_def)
section \<open>Every step keeps the ownership\<close>

lemma ownD:
  assumes "pool_own s xs ys zs us vs"
  shows "queues (qm s) (pool_queues s xs ys zs (us @ vs))" and "collect pc_run (wpcs s) = mset us" and "collect pc_ran (wpcs s) = mset vs"
    and "set (pc_cancel (lpc s)) \<inter> set (xs @ ys @ zs @ us @ vs) = {}"
    and "reqs s = set (xs @ ys @ zs @ us @ vs) \<union> set (pc_cancel (lpc s))"
    and "\<And>w. w \<in> set (xs @ us @ vs) \<Longrightarrow> wwork s w = WF_cb" and "\<And>w. w \<in> set (ys @ zs) \<Longrightarrow> wwork s w \<noteq> WF_cb"
    and "\<And>w. phase_of w (evlog s) = Some (cur_phase s (ys @ zs) vs w)" and "lpc s = L_event \<or> lpc s = L_done \<Longrightarrow> zs = []"
    and "distinct (xs @ ys @ zs @ us @ vs)"
  using assms own_distinct [of "qm s" s xs ys zs "us @ vs"] unfolding pool_own_def by blast+

text \<open>A step that leaves the queues, the requests and the log alone.\<close>

lemma own_frame:
  assumes own: "pool_own s xs ys zs us vs"
    and "qm s' = qm s" "exiting s' = exiting s" "reqs s' = reqs s" "wwork s' = wwork s" "evlog s' = evlog s"
    and "collect pc_run (wpcs s') = collect pc_run (wpcs s)" "collect pc_ran (wpcs s') = collect pc_ran (wpcs s)"
    and "pc_cancel (lpc s') = pc_cancel (lpc s)" and "lpc s' = L_event \<or> lpc s' = L_done \<Longrightarrow> zs = []"
  shows "pool_own s' xs ys zs us vs"
proof -
  have "pool_queues s' = pool_queues s" "cur_phase s' = cur_phase s" using assms by (simp_all add: fun_eq_iff pool_queues_def cur_phase_def)
  then show ?thesis using assms by (simp add: pool_own_def)
qed

lemma signal_frame [simp]:
  "qm (uv_cond_signal j s) = qm s" "exiting (uv_cond_signal j s) = exiting s" "reqs (uv_cond_signal j s) = reqs s"
  "wwork (uv_cond_signal j s) = wwork s" "evlog (uv_cond_signal j s) = evlog s" "lpc (uv_cond_signal j s) = lpc s"
  "pending (uv_cond_signal j s) = pending s" "efd (uv_cond_signal j s) = efd s" "locked (uv_cond_signal j s) = locked s"
  "collect pc_run (wpcs (uv_cond_signal j s)) = collect pc_run (wpcs s)" "collect pc_ran (wpcs (uv_cond_signal j s)) = collect pc_ran (wpcs s)"
  by (simp_all add: uv_cond_signal_def collect_same)

lemma set_wpc_simps [simp]:
  "qm (set_wpc i p s) = qm s" "exiting (set_wpc i p s) = exiting s" "reqs (set_wpc i p s) = reqs s" "wwork (set_wpc i p s) = wwork s"
  "evlog (set_wpc i p s) = evlog s" "lpc (set_wpc i p s) = lpc s" "wpcs (set_wpc i p s) = (wpcs s)[i := p]"
  "pending (set_wpc i p s) = pending s" "efd (set_wpc i p s) = efd s" "locked (set_wpc i p s) = locked s"
  by (simp_all add: set_wpc_def)

lemma own_take:
  assumes own: "pool_own s (x # xs) ys zs us vs" and i: "i < length (wpcs s)" "wpcs s ! i = W_lock"
  shows "pool_own (set_wpc i (W_run x) (s\<lparr>qm := QUEUE_INIT (WK x) (QUEUE_REMOVE (WK x) (qm s))\<rparr>)) xs ys zs (x # us) vs"
proof -
  note D = ownD [OF own]
  let ?s = "set_wpc i (W_run x) (s\<lparr>qm := QUEUE_INIT (WK x) (QUEUE_REMOVE (WK x) (qm s))\<rparr>)"
  have "queues (qm s) ((WQ, [] @ WK x # (map WK xs @ (if exiting s then [EXIT] else []))) # (LWQ, map WK ys) # (LOCAL, map WK zs) # map single (us @ vs))"
    using D(1) by (simp add: pool_queues_def)
  from queues_remove [OF this] have "queues (QUEUE_REMOVE (WK x) (qm s)) (pool_queues s xs ys zs (us @ vs))"
    by (simp add: pool_queues_def)
  moreover have "WK x \<notin> set (qnodes (pool_queues s xs ys zs (us @ vs)))" using D(10) unfolding qnodes_pool by auto
  ultimately have "queues (qm ?s) ((WK x, []) # pool_queues s xs ys zs (us @ vs))" by (simp add: queues_init)
  then have "queues (qm ?s) (pool_queues ?s xs ys zs ((x # us) @ vs))"
    by (rule queues_permI) (simp_all add: pool_queues_def single_def)
  moreover have "collect pc_run (wpcs ?s) = mset (x # us)" using collect_update [OF i(1), of pc_run "W_run x"] i(2) D(2) by simp
  moreover have "collect pc_ran (wpcs ?s) = mset vs" using i(2) D(3) by (simp add: collect_same)
  moreover have "cur_phase ?s = cur_phase s" by (simp add: fun_eq_iff cur_phase_def)
  ultimately show ?thesis using D unfolding pool_own_def by auto
qed

lemma own_run:
  assumes own: "pool_own s xs ys zs us vs" and i: "i < length (wpcs s)" "wpcs s ! i = W_run w"
  shows "\<exists>us'. worker_run i w s = Next (set_wpc i (W_ran w) (s\<lparr>evlog := evlog s @ [Ran w]\<rparr>)) \<and>
    pool_own (set_wpc i (W_ran w) (s\<lparr>evlog := evlog s @ [Ran w]\<rparr>)) xs ys zs us' (w # vs)"
proof -
  note D = ownD [OF own]
  let ?s = "set_wpc i (W_ran w) (s\<lparr>evlog := evlog s @ [Ran w]\<rparr>)"
  have run: "collect pc_run (wpcs ?s) + {#w#} = mset us" using collect_update [OF i(1), of pc_run "W_ran w"] i(2) D(2) by simp
  then have w: "w \<in> set us" by (rule mset_member)
  then obtain u1 u2 where us: "us = u1 @ w # u2" by (meson split_list)
  let ?us = "u1 @ u2"
  have run': "collect pc_run (wpcs ?s) = mset ?us" using run us by simp
  have "collect pc_ran (wpcs ?s) = mset (w # vs)" using collect_update [OF i(1), of pc_ran "W_ran w"] i(2) D(3) by simp
  moreover have "queues (qm ?s) (pool_queues ?s xs ys zs (?us @ w # vs))"
    using D(1) by (rule queues_permI) (simp_all add: pool_queues_def us)
  moreover have "phase_of v (evlog ?s) = Some (cur_phase ?s (ys @ zs) (w # vs) v)" for v
    using D(8) [of v] D(5,6,10) us by (auto simp: cur_phase_def)
  ultimately have "pool_own ?s xs ys zs ?us (w # vs)" using D run' us unfolding pool_own_def by auto
  moreover have "worker_run i w s = Next ?s" using D(6) w by (simp add: worker_run_def)
  ultimately show ?thesis by blast
qed

lemma own_finish:
  assumes own: "pool_own s xs ys zs us vs" and i: "i < length (wpcs s)" "wpcs s ! i = W_ran w" and fin: "worker_finish i w s = Next s'"
  shows "\<exists>vs'. pool_own s' xs (ys @ [w]) zs us vs'"
proof -
  note D = ownD [OF own]
  have s': "s' = set_wpc i (W_send S_read) (s\<lparr>locked := True, wwork := (wwork s)(w := WF_null), qm := QUEUE_INSERT_TAIL LWQ (WK w) (qm s)\<rparr>)"
    using fin by (simp add: worker_finish_def split: if_splits)
  have ran: "collect pc_ran (wpcs s') + {#w#} = mset vs" using collect_update [OF i(1), of pc_ran "W_send S_read"] i(2) D(3) s' by simp
  then have w: "w \<in> set vs" by (rule mset_member)
  then obtain v1 v2 where vs: "vs = v1 @ w # v2" by (meson split_list)
  let ?vs = "v1 @ v2" let ?qs = "(WQ, map WK xs @ (if exiting s then [EXIT] else [])) # (LOCAL, map WK zs) # map single (us @ ?vs)"
  have "queues (qm s) (single w # (LWQ, map WK ys) # ?qs)"
    using D(1) by (rule queues_permI) (simp_all add: pool_queues_def vs)
  then have q: "queues (qm s) ((LWQ, map WK ys) # ?qs)" by (rule queues_drop)
  have "WK w \<notin> set (qnodes ((LWQ, map WK ys) # ?qs))" using D(10) vs by auto
  from queues_insert_tail [OF q this] have "queues (qm s') (pool_queues s' xs (ys @ [w]) zs (us @ ?vs))"
    by (rule queues_permI) (simp_all add: pool_queues_def s')
  moreover have "phase_of v (evlog s') = Some (cur_phase s' ((ys @ [w]) @ zs) ?vs v)" for v
    using D(8) [of v] D(5,10) vs s' by (auto simp: cur_phase_def)
  moreover have "collect pc_run (wpcs s') = mset us" using i(2) D(2) s' by (simp add: collect_same)
  moreover have "collect pc_ran (wpcs s') = mset ?vs" using ran vs by simp
  ultimately have "pool_own s' xs (ys @ [w]) zs us ?vs" using D(4-7,9,10) vs s' unfolding pool_own_def by auto
  then show ?thesis by blast
qed
lemma own_post:
  assumes own: "pool_own s xs ys zs us vs" and l: "lpc s = L_user" and e: "\<not> exiting s" and w: "w \<notin> reqs s"
  shows "pool_own (queue_work w j s) (xs @ [w]) ys zs us vs"
proof -
  note D = ownD [OF own]
  let ?s = "queue_work w j s"
  have eqs: "qm ?s = QUEUE_INSERT_TAIL WQ (WK w) (qm s)" "exiting ?s = exiting s" "reqs ?s = insert w (reqs s)" "lpc ?s = lpc s"
      "wwork ?s = (wwork s)(w := WF_cb)" "evlog ?s = evlog s @ [Queued w]" "collect pc_run (wpcs ?s) = collect pc_run (wpcs s)"
      "collect pc_ran (wpcs ?s) = collect pc_ran (wpcs s)"
    by (simp_all add: queue_work_def uv__work_submit_def post_def)
  have w': "w \<notin> set (xs @ ys @ zs @ us @ vs)" using w D(5) by blast
  have q: "queues (qm s) ((WQ, map WK xs) # (LWQ, map WK ys) # (LOCAL, map WK zs) # map single (us @ vs))"
    using D(1) e by (simp add: pool_queues_def)
  have "WK w \<notin> set (qnodes ((WQ, map WK xs) # (LWQ, map WK ys) # (LOCAL, map WK zs) # map single (us @ vs)))" using w' by auto
  from queues_insert_tail [OF q this] have "queues (qm ?s) (pool_queues ?s (xs @ [w]) ys zs (us @ vs))"
    using e by (simp add: pool_queues_def eqs)
  moreover have "phase_of v (evlog ?s) = Some (cur_phase ?s (ys @ zs) vs v)" for v
    using D(8) [of v] w' w by (auto simp: cur_phase_def eqs)
  ultimately show ?thesis using D(2-7) w' l unfolding pool_own_def eqs by auto
qed

lemma own_cleanup:
  assumes own: "pool_own s xs ys zs us vs" and l: "lpc s = L_user" and e: "\<not> exiting s"
  shows "pool_own (cleanup j s) xs ys zs us vs"
proof -
  note D = ownD [OF own]
  let ?s = "cleanup j s"
  have eqs: "qm ?s = QUEUE_INSERT_TAIL WQ EXIT (qm s)" "exiting ?s" "reqs ?s = reqs s" "lpc ?s = lpc s"
      "wwork ?s = wwork s" "evlog ?s = evlog s" "collect pc_run (wpcs ?s) = collect pc_run (wpcs s)"
      "collect pc_ran (wpcs ?s) = collect pc_ran (wpcs s)"
    by (simp_all add: cleanup_def post_def)
  have q: "queues (qm s) ((WQ, map WK xs) # (LWQ, map WK ys) # (LOCAL, map WK zs) # map single (us @ vs))"
    using D(1) e by (simp add: pool_queues_def)
  have "EXIT \<notin> set (qnodes ((WQ, map WK xs) # (LWQ, map WK ys) # (LOCAL, map WK zs) # map single (us @ vs)))" by auto
  from queues_insert_tail [OF q this] have "queues (qm ?s) (pool_queues ?s xs ys zs (us @ vs))" by (simp add: pool_queues_def eqs)
  moreover have "cur_phase ?s = cur_phase s" by (simp add: fun_eq_iff cur_phase_def eqs)
  ultimately show ?thesis using D l unfolding pool_own_def eqs by auto
qed

text \<open>A request that a worker has, or that has been run, is busy; any other one is taken out of its queue.\<close>

definition cancellable :: "pool \<Rightarrow> nat list \<Rightarrow> nat list \<Rightarrow> nat \<Rightarrow> bool" where
  "cancellable s xs fs w \<longleftrightarrow> w \<in> set xs \<or> w \<in> set fs \<and> wwork s w = WF_cancelled"

lemma queues_remove_pool:
  assumes "queues m (pool_queues s xs ys zs us)" and w: "w \<in> set (xs @ ys @ zs)"
  shows "queues (QUEUE_REMOVE (WK w) m) (pool_queues s (remove1 w xs) (remove1 w ys) (remove1 w zs) us)"
proof -
  note d = own_distinct [OF assms(1)]
  let ?e = "if exiting s then [EXIT] else []"
  consider (x) "w \<in> set xs" "w \<notin> set ys" "w \<notin> set zs" | (y) "w \<in> set ys" "w \<notin> set xs" "w \<notin> set zs" | (z) "w \<in> set zs" "w \<notin> set xs" "w \<notin> set ys"
    using d w by auto
  then show ?thesis
  proof cases
    case x
    then obtain as bs where xs: "xs = as @ w # bs" "w \<notin> set as" by (meson split_list_first)
    have "queues m ((WQ, map WK as @ WK w # (map WK bs @ ?e)) # (LWQ, map WK ys) # (LOCAL, map WK zs) # map single us)"
      using assms(1) xs by (simp add: pool_queues_def)
    from queues_remove [OF this] show ?thesis using xs x by (simp add: pool_queues_def remove1_append remove1_idem)
  next
    case y
    then obtain as bs where ys: "ys = as @ w # bs" "w \<notin> set as" by (meson split_list_first)
    have "queues m ((LWQ, map WK as @ WK w # map WK bs) # (WQ, map WK xs @ ?e) # (LOCAL, map WK zs) # map single us)"
      using assms(1) by (rule queues_permI) (simp_all add: pool_queues_def ys)
    from queues_remove [OF this] show ?thesis by (rule queues_permI) (use ys y in \<open>simp_all add: pool_queues_def remove1_append remove1_idem\<close>)
  next
    case z
    then obtain as bs where zs: "zs = as @ w # bs" "w \<notin> set as" by (meson split_list_first)
    have "queues m ((LOCAL, map WK as @ WK w # map WK bs) # (WQ, map WK xs @ ?e) # (LWQ, map WK ys) # map single us)"
      using assms(1) by (rule queues_permI) (simp_all add: pool_queues_def zs)
    from queues_remove [OF this] show ?thesis by (rule queues_permI) (use zs z in \<open>simp_all add: pool_queues_def remove1_append remove1_idem\<close>)
  qed
qed

lemma own_cancel:
  assumes own: "pool_own s xs ys zs us vs" and l: "lpc s = L_user" and w: "w \<in> reqs s" and lk: "\<not> locked s"
  shows "\<exists>s'. uv__work_cancel w s = Next (if cancellable s xs (ys @ zs) w then 0 else UV_EBUSY, s') \<and>
    (if cancellable s xs (ys @ zs) w then s' = s\<lparr>qm := QUEUE_REMOVE (WK w) (qm s), lpc := L_cancelled w\<rparr> \<and> pool_own s' (remove1 w xs) (remove1 w ys) (remove1 w zs) us vs
     else s' = s)"
proof -
  note D = ownD [OF own]
  note H = own_heads(4) [OF D(1), of w] own_member [OF D(1), of w]
  have w': "w \<in> set (xs @ ys @ zs @ us @ vs)" using w D(5) l by simp
  have busy: "\<not> QUEUE_EMPTY (qm s) (WK w) \<and> wwork s w \<noteq> WF_null \<longleftrightarrow> cancellable s xs (ys @ zs) w"
  proof (cases "w \<in> set (us @ vs)")
    case True
    then show ?thesis using H(1) D(10) by (auto simp: cancellable_def)
  next
    case False
    then have q: "w \<in> set (xs @ ys @ zs)" using w' by simp
    then have "\<not> QUEUE_EMPTY (qm s) (WK w)" by (rule H(2))
    moreover have "wwork s w = WF_null \<or> wwork s w = WF_cancelled" if "w \<in> set (ys @ zs)" using D(7) [OF that] by (cases "wwork s w") auto
    ultimately show ?thesis using q D(6) [of w] D(10) by (auto simp: cancellable_def)
  qed
  show ?thesis
  proof (cases "cancellable s xs (ys @ zs) w")
    case True
    let ?s = "s\<lparr>qm := QUEUE_REMOVE (WK w) (qm s), lpc := L_cancelled w\<rparr>"
    have q: "w \<in> set (xs @ ys @ zs)" using True by (auto simp: cancellable_def)
    have "queues (qm ?s) (pool_queues ?s (remove1 w xs) (remove1 w ys) (remove1 w zs) (us @ vs))"
      using queues_remove_pool [OF D(1) q] by (simp add: pool_queues_def)
    moreover have "phase_of v (evlog ?s) = Some (cur_phase ?s (remove1 w ys @ remove1 w zs) vs v)" for v
      using D(8) [of v] True D(6) [of w] D(10) by (auto simp: cur_phase_def cancellable_def set_remove1_eq)
    moreover have "reqs ?s = set (remove1 w xs @ remove1 w ys @ remove1 w zs @ us @ vs) \<union> {w}"
      using D(5,10) q l by (auto simp: set_remove1_eq)
    moreover have "w \<notin> set (remove1 w xs @ remove1 w ys @ remove1 w zs @ us @ vs)" using D(10) q by (auto simp: set_remove1_eq)
    moreover have "wwork s v = WF_cb" if "v \<in> set (remove1 w xs @ us @ vs)" for v
      using D(6) [of v] that set_remove1_subset [of w xs] by auto
    moreover have "wwork s v \<noteq> WF_cb" if "v \<in> set (remove1 w ys @ remove1 w zs)" for v
      using D(7) [of v] that set_remove1_subset [of w ys] set_remove1_subset [of w zs] by auto
    ultimately have "pool_own ?s (remove1 w xs) (remove1 w ys) (remove1 w zs) us vs"
      using D(2,3) unfolding pool_own_def by auto
    then show ?thesis using True busy lk by (simp add: uv__work_cancel_def)
  next
    case False
    then show ?thesis using busy lk by (auto simp: uv__work_cancel_def)
  qed
qed

lemma own_cancel_queue:
  assumes own: "pool_own s xs ys zs us vs" and l: "lpc s = L_cancelled w" and c: "cancel_queue w s = Next s'"
  shows "pool_own s' xs (ys @ [w]) zs us vs"
proof -
  note D = ownD [OF own]
  have s': "s' = s\<lparr>wwork := (wwork s)(w := WF_cancelled), locked := True, qm := QUEUE_INSERT_TAIL LWQ (WK w) (qm s), lpc := L_send S_read\<rparr>"
    using c by (simp add: cancel_queue_def split: if_splits)
  have w: "w \<notin> set (xs @ ys @ zs @ us @ vs)" using D(4) l by simp
  let ?qs = "(WQ, map WK xs @ (if exiting s then [EXIT] else [])) # (LOCAL, map WK zs) # map single (us @ vs)"
  have q: "queues (qm s) ((LWQ, map WK ys) # ?qs)" using D(1) by (rule queues_permI) (simp_all add: pool_queues_def)
  have "WK w \<notin> set (qnodes ((LWQ, map WK ys) # ?qs))" using w by auto
  from queues_insert_tail [OF q this] have "queues (qm s') (pool_queues s' xs (ys @ [w]) zs (us @ vs))"
    by (rule queues_permI) (simp_all add: pool_queues_def s')
  moreover have "phase_of v (evlog s') = Some (cur_phase s' ((ys @ [w]) @ zs) vs v)" for v
    using D(8) [of v] w D(5) l s' by (auto simp: cur_phase_def)
  ultimately show ?thesis using D(2,3,5-7) w l s' unfolding pool_own_def by auto
qed

lemma own_done_take:
  assumes own: "pool_own s xs ys zs us vs" and l: "lpc s = L_done" and c: "work_done_take s = Next s'"
  shows "pool_own s' xs [] ys us vs"
proof -
  note D = ownD [OF own]
  have zs: "zs = []" using D(9) l by simp
  let ?m = "QUEUE_INIT LOCAL (qm s)" let ?e = "if exiting s then [EXIT] else []"
  have "queues (qm s) ((LOCAL, []) # (LWQ, map WK ys) # (WQ, map WK xs @ ?e) # map single (us @ vs))"
    using D(1) by (rule queues_permI) (simp_all add: pool_queues_def zs)
  then have "queues (qm s) ((LWQ, map WK ys) # (WQ, map WK xs @ ?e) # map single (us @ vs))" by (rule queues_drop)
  then have "queues ?m ((LOCAL, []) # (LWQ, map WK ys) # (WQ, map WK xs @ ?e) # map single (us @ vs))" by (rule queues_init) auto
  then have m: "queues ?m ((LWQ, map WK ys) # (LOCAL, []) # (WQ, map WK xs @ ?e) # map single (us @ vs))"
    by (rule queues_permI) simp_all
  have em: "QUEUE_EMPTY ?m LWQ \<longleftrightarrow> ys = []" using queue_repr_empty [OF queues_hd [OF m]] by simp
  have q: "queues (qm s') (pool_queues s' xs [] ys (us @ vs))"
  proof (cases ys)
    case Nil
    then have "s' = s\<lparr>qm := ?m, lpc := L_user\<rparr>" using c em by (simp add: work_done_take_def Let_def split: if_splits)
    with m show ?thesis using Nil by (elim queues_permI) (simp_all add: pool_queues_def)
  next
    case (Cons y ys')
    then have h: "QUEUE_HEAD ?m LWQ = WK y" using queue_repr_head [of ?m LWQ] queues_hd [OF m] by simp
    have s': "s' = s\<lparr>qm := QUEUE_SPLIT LWQ (WK y) LOCAL ?m, lpc := L_user\<rparr>"
      using c em h Cons by (simp add: work_done_take_def Let_def split: if_splits)
    have "queues ?m ((LWQ, WK y # map WK ys') # (LOCAL, []) # (WQ, map WK xs @ ?e) # map single (us @ vs))" using m Cons by simp
    from queues_split [OF this] show ?thesis by (rule queues_permI) (simp_all add: pool_queues_def s' Cons)
  qed
  have "\<exists>m. s' = s\<lparr>qm := m, lpc := L_user\<rparr>" using c by (auto simp: work_done_take_def Let_def split: if_splits)
  then obtain m where s': "s' = s\<lparr>qm := m, lpc := L_user\<rparr>" by blast
  have "cur_phase s' = cur_phase s" by (simp add: fun_eq_iff cur_phase_def s')
  then show ?thesis using q D(2-8) l zs s' unfolding pool_own_def by auto
qed

lemma own_turn:
  assumes own: "pool_own s xs ys zs us vs" and l: "lpc s = L_user" and ne: "\<not> QUEUE_EMPTY (qm s) LOCAL"
  shows "\<exists>s'. work_done_turn s = Next s' \<and> pool_own s' xs ys (tl zs) us vs \<and> zs \<noteq> [] \<and>
    s' = uv__queue_done (hd zs) (if wwork s (hd zs) = WF_cancelled then UV_ECANCELED else 0) (s\<lparr>qm := QUEUE_REMOVE (WK (hd zs)) (qm s)\<rparr>)"
proof -
  note D = ownD [OF own]
  have zs: "zs \<noteq> []" using own_heads(3) [OF D(1)] ne by simp
  let ?w = "hd zs"
  let ?s = "uv__queue_done ?w (if wwork s ?w = WF_cancelled then UV_ECANCELED else 0) (s\<lparr>qm := QUEUE_REMOVE (WK ?w) (qm s)\<rparr>)"
  obtain z zs' where Z: "zs = z # zs'" using zs by (cases zs) auto
  have "queues (qm s) ((LOCAL, [] @ WK z # map WK zs') # (WQ, map WK xs @ (if exiting s then [EXIT] else [])) # (LWQ, map WK ys) # map single (us @ vs))"
    using D(1) by (rule queues_permI) (simp_all add: pool_queues_def Z)
  from queues_remove [OF this] have q: "queues (qm ?s) (pool_queues ?s xs ys zs' (us @ vs))"
    by (rule queues_permI) (simp_all add: pool_queues_def Z uv__queue_done_def)
  have z: "z \<notin> set (xs @ ys @ zs' @ us @ vs)" "wwork s z = WF_null \<or> wwork s z = WF_cancelled" using D(7) [of z] D(10) Z by (auto, cases "wwork s z", auto)
  have "phase_of v (evlog ?s) = Some (cur_phase ?s (ys @ zs') vs v)" for v
    using D(8) [of v] z D(5) Z by (auto simp: cur_phase_def uv__queue_done_def)
  then have "pool_own ?s xs ys zs' us vs"
    using q D(2,3,5-7) z l Z unfolding pool_own_def by (auto simp: uv__queue_done_def)
  then show ?thesis using zs Z own_heads(7) [OF D(1)] by (simp add: work_done_turn_def Let_def)
qed

section \<open>No wakeup is lost\<close>

fun pc_send :: "wpc \<Rightarrow> send_pc list" where
  "pc_send (W_send p) = [p]"
| "pc_send _ = []"

fun lpc_send :: "lpc \<Rightarrow> send_pc list" where
  "lpc_send (L_send p) = [p]"
| "lpc_send _ = []"

text \<open>Where the thread that holds \<^verbatim>\<open>wq_mutex\<close> is.\<close>

definition sends :: "pool \<Rightarrow> send_pc multiset" where
  "sends s = collect pc_send (wpcs s) + mset (lpc_send (lpc s))"

text \<open>
  Finished work is announced by \<^verbatim>\<open>pending\<close>, or will be by a thread that is about to set it, or is about to
  be taken over; and \<^verbatim>\<open>pending\<close> is announced by the event descriptor, or will be, or is about to be seen.
\<close>

definition wake_inv :: "pool \<Rightarrow> bool \<Rightarrow> bool" where
  "wake_inv s fin \<longleftrightarrow>
     size (sends s) = (if locked s then 1 else 0) \<and> (pending s = 0 \<or> pending s = 1) \<and>
     (fin \<longrightarrow> pending s = 1 \<or> S_read \<in># sends s \<or> S_cas \<in># sends s \<or> lpc s = L_done) \<and>
     (pending s = 1 \<longrightarrow> efd s > 0 \<or> S_write \<in># sends s \<or> lpc s = L_event)"

lemma wake_frame:
  assumes "wake_inv s fin" and "sends s' = sends s" "locked s' = locked s" "pending s' = pending s" "efd s' = efd s"
    and "lpc s = L_done \<Longrightarrow> lpc s' = L_done" "lpc s = L_event \<Longrightarrow> lpc s' = L_event" and "fin' \<Longrightarrow> fin"
  shows "wake_inv s' fin'"
  using assms(1,6-8) unfolding wake_inv_def assms(2-5) by blast

lemma sends_worker:
  assumes "i < length (wpcs s)" and "lpc s' = lpc s" and "wpcs s' = (wpcs s)[i := p]"
  shows "sends s' + mset (pc_send (wpcs s ! i)) = sends s + mset (pc_send p)"
  using collect_update [OF assms(1), of pc_send p] assms(2,3) by (simp add: sends_def ac_simps)

lemma sends_locked: "wake_inv s fin \<Longrightarrow> p \<in># sends s \<Longrightarrow> locked s \<and> sends s = {#p#}"
proof -
  assume w: "wake_inv s fin" and p: "p \<in># sends s"
  have "size (sends s) = (if locked s then 1 else 0)" using w by (simp add: wake_inv_def)
  moreover have "size (sends s) \<noteq> 0" using p by auto
  ultimately have l: "locked s" "size (sends s) = 1" by (simp_all split: if_splits)
  then obtain q where "sends s = {#q#}" using size_1_singleton_mset by blast
  then show ?thesis using l p by simp
qed

lemma sends_unlocked: "wake_inv s fin \<Longrightarrow> \<not> locked s \<Longrightarrow> sends s = {#}"
  by (simp add: wake_inv_def)

lemma async_send_frame [simp]:
  "0 < efd (uv__async_send s)" "pending (uv__async_send s) = pending s" "locked (uv__async_send s) = locked s" "lpc (uv__async_send s) = lpc s"
  "wpcs (uv__async_send s) = wpcs s" "qm (uv__async_send s) = qm s" "exiting (uv__async_send s) = exiting s" "reqs (uv__async_send s) = reqs s"
  "wwork (uv__async_send s) = wwork s" "evlog (uv__async_send s) = evlog s"
  by (simp_all add: uv__async_send_def)

lemma wake_send:
  assumes w: "wake_inv s fin" and p: "sends s = {#p#}" "locked s" and st: "uv_async_send p s = (r, s1)"
    and s': "sends s' = (case r of None \<Rightarrow> {#} | Some q \<Rightarrow> {#q#})" "pending s' = pending s1" "efd s' = efd s1" "locked s' = locked s1"
    and l: "(lpc s' = L_done) = (lpc s = L_done)" "(lpc s' = L_event) = (lpc s = L_event)"
  shows "wake_inv s' fin"
proof (cases p)
  case S_read
  then show ?thesis using w st p(2) unfolding wake_inv_def s' l p(1) by (auto split: if_splits)
next
  case S_cas
  then show ?thesis using w st p(2) unfolding wake_inv_def s' l p(1) by (auto split: if_splits)
next
  case S_write
  then have "s1 = uv__async_send s" "r = Some S_unlock" using st by simp_all
  then show ?thesis using w S_write unfolding wake_inv_def s' l p(1) by (simp add: p(2))
next
  case S_unlock
  then have "s1 = s\<lparr>locked := False\<rparr>" "r = None" using st by simp_all
  then show ?thesis using w S_unlock unfolding wake_inv_def s' l p(1) by simp
qed

lemma sends_signal [simp]: "sends (uv_cond_signal j s) = sends s"
  by (simp add: sends_def uv_cond_signal_def collect_same)

text \<open>
  While there is queued work, the workers do not all sleep.
\<close>

definition wait_inv :: "pool \<Rightarrow> bool" where
  "wait_inv s \<longleftrightarrow> wpcs s \<noteq> [] \<and> (W_exit \<in> set (wpcs s) \<longrightarrow> exiting s) \<and>
     (\<not> QUEUE_EMPTY (qm s) WQ \<longrightarrow> W_wait \<in> set (wpcs s) \<longrightarrow> (\<exists>p\<in>set (wpcs s). p \<noteq> W_wait \<and> p \<noteq> W_exit))"

lemma wait_worker:
  assumes "wait_inv s" and "i < length (wpcs s)" and "wpcs s' = (wpcs s)[i := p]" and "p \<noteq> W_exit"
    and "p \<noteq> W_wait \<or> QUEUE_EMPTY (qm s') WQ" and "exiting s' = exiting s"
  shows "wait_inv s'"
proof -
  have p: "p \<in> set (wpcs s')" using assms(2,3) by (simp add: set_update_memI)
  have "set (wpcs s') \<subseteq> insert p (set (wpcs s))" using assms(3) by (simp add: set_update_subset_insert)
  then show ?thesis using assms p unfolding wait_inv_def by auto
qed

lemma wait_signal:
  assumes w: "wait_inv s" and j: "can_signal j s" and "wpcs s' = wpcs (uv_cond_signal j s)" and "exiting s \<longrightarrow> exiting s'"
  shows "wait_inv s'" and "W_wait \<in> set (wpcs s) \<Longrightarrow> W_lock \<in> set (wpcs (uv_cond_signal j s))"
proof -
  have in_set: "W_lock \<in> set (wpcs (uv_cond_signal j s))" if "W_wait \<in> set (wpcs s)"
    using that j by (simp add: can_signal_def uv_cond_signal_def set_update_memI)
  then show "W_wait \<in> set (wpcs s) \<Longrightarrow> W_lock \<in> set (wpcs (uv_cond_signal j s))" .
  have sub: "set (wpcs (uv_cond_signal j s)) \<subseteq> insert W_lock (set (wpcs s))"
    by (simp add: uv_cond_signal_def set_update_subset_insert subset_insertI)
  have "wpcs (uv_cond_signal j s) \<noteq> []" using w by (simp add: wait_inv_def uv_cond_signal_def)
  moreover have "W_lock \<in> set (wpcs (uv_cond_signal j s))" if "W_wait \<in> set (wpcs (uv_cond_signal j s))"
    using in_set sub that by auto
  moreover have "W_exit \<in> set (wpcs s)" if "W_exit \<in> set (wpcs (uv_cond_signal j s))" using sub that by auto
  ultimately show "wait_inv s'"
    unfolding wait_inv_def assms(3) using w assms(4) by (intro conjI impI bexI [of _ W_lock]) (auto simp: wait_inv_def)
qed
section \<open>The invariant and the work left\<close>

text \<open>Every step the program takes by itself brings it closer to the end of all requests.\<close>

fun send_weight :: "send_pc \<Rightarrow> nat" where
  "send_weight S_read = 9"
| "send_weight S_cas = 8"
| "send_weight S_write = 7"
| "send_weight S_unlock = 2"

fun wpc_weight :: "wpc \<Rightarrow> nat" where
  "wpc_weight W_lock = 1"
| "wpc_weight (W_run w) = 13"
| "wpc_weight (W_ran w) = 12"
| "wpc_weight (W_send p) = send_weight p"
| "wpc_weight _ = 0"

fun lpc_weight :: "lpc \<Rightarrow> nat" where
  "lpc_weight L_user = 0"
| "lpc_weight (L_cancelled w) = 12"
| "lpc_weight (L_send p) = send_weight p"
| "lpc_weight L_event = 3"
| "lpc_weight L_done = 2"

definition weight :: "pool \<Rightarrow> nat list \<Rightarrow> nat list \<Rightarrow> nat list \<Rightarrow> nat" where
  "weight s xs ys zs =
     13 * length xs + 2 * length ys + length zs + sum_list (map wpc_weight (wpcs s)) + lpc_weight (lpc s) + (if efd s > 0 then 4 else 0)"

definition pool_inv :: "pool \<Rightarrow> nat \<Rightarrow> bool" where
  "pool_inv s n \<longleftrightarrow> (\<exists>xs ys zs us vs. pool_own s xs ys zs us vs \<and> wake_inv s (ys \<noteq> []) \<and> wait_inv s \<and> n = weight s xs ys zs)"

definition pool_less :: "bool \<Rightarrow> pool \<Rightarrow> nat \<Rightarrow> bool" where
  "pool_less ex s n \<longleftrightarrow> (\<exists>n'. pool_inv s n' \<and> (ex \<or> n' < n))"

lemma pool_lessI:
  "pool_own s xs ys zs us vs \<Longrightarrow> wake_inv s (ys \<noteq> []) \<Longrightarrow> wait_inv s \<Longrightarrow> weight s xs ys zs < n \<Longrightarrow> pool_less ex s n"
  unfolding pool_less_def pool_inv_def by blast

lemma pool_less_exit: "pool_own s xs ys zs us vs \<Longrightarrow> wake_inv s (ys \<noteq> []) \<Longrightarrow> wait_inv s \<Longrightarrow> pool_less True s n"
  unfolding pool_less_def pool_inv_def by blast

lemma sum_update: "i < length xs \<Longrightarrow> sum_list (map f (xs[i := p])) + f (xs ! i) = sum_list (map f xs) + f p" for f :: "'a \<Rightarrow> nat"
proof (induction xs arbitrary: i)
  case (Cons x xs)
  then show ?case by (cases i) (simp_all add: ac_simps)
qed simp

lemma weight_worker:
  assumes "i < length (wpcs s)" and "wpcs s' = (wpcs s)[i := p]" and "lpc s' = lpc s"
  shows "weight s' xs' ys' zs' + 13 * length xs + 2 * length ys + length zs + wpc_weight (wpcs s ! i) + (if efd s > 0 then 4 else 0) =
    weight s xs ys zs + 13 * length xs' + 2 * length ys' + length zs' + wpc_weight p + (if efd s' > 0 then 4 else 0)"
  using sum_update [OF assms(1), of wpc_weight p] assms(2,3) by (simp add: weight_def)

lemma send_frame:
  assumes "uv_async_send p s = (r, s1)"
  shows "qm s1 = qm s" "exiting s1 = exiting s" "reqs s1 = reqs s" "wwork s1 = wwork s" "evlog s1 = evlog s" "wpcs s1 = wpcs s" "lpc s1 = lpc s"
    and "(if efd s1 > 0 then 4 else 0) + (case r of None \<Rightarrow> 1 | Some q \<Rightarrow> send_weight q) < send_weight p + (if efd s > 0 then 4 else 0)"
  using assms by (cases p; auto split: if_splits)+

subsection \<open>Workers\<close>

lemma inv_take_work:
  assumes own: "pool_own s (x # xs) ys zs us vs" and wake: "wake_inv s (ys \<noteq> [])" and wait: "wait_inv s"
    and i: "i < length (wpcs s)" "wpcs s ! i = W_lock"
  shows "pool_less ex (worker_take i j s) (weight s (x # xs) ys zs)"
proof -
  note D = ownD [OF own]
  let ?s = "set_wpc i (W_run x) (s\<lparr>qm := QUEUE_INIT (WK x) (QUEUE_REMOVE (WK x) (qm s))\<rparr>)"
  have "\<not> QUEUE_EMPTY (qm s) WQ" using own_heads(1) [OF D(1)] by simp
  then have take: "worker_take i j s = ?s" using own_heads(5) [OF D(1)] by (simp add: worker_take_def)
  have "pool_own ?s xs ys zs (x # us) vs" by (rule own_take [OF own i])
  moreover have "sends ?s = sends s" using sends_worker [OF i(1), of ?s "W_run x"] i(2) by simp
  then have "wake_inv ?s (ys \<noteq> [])" by (intro wake_frame [OF wake]) simp_all
  moreover have "wait_inv ?s" by (rule wait_worker [OF wait i(1), where p = "W_run x"]) simp_all
  moreover have "weight ?s xs ys zs < weight s (x # xs) ys zs"
    using weight_worker [OF i(1), of ?s "W_run x" xs ys zs "x # xs" ys zs] i(2) by simp
  ultimately show ?thesis unfolding take by (rule pool_lessI)
qed

lemma inv_take_wait:
  assumes own: "pool_own s xs ys zs us vs" and wake: "wake_inv s (ys \<noteq> [])" and wait: "wait_inv s"
    and i: "i < length (wpcs s)" "wpcs s ! i = W_lock" and empty: "QUEUE_EMPTY (qm s) WQ"
  shows "pool_less ex (worker_take i j s) (weight s xs ys zs)"
proof -
  let ?s = "set_wpc i W_wait s"
  have take: "worker_take i j s = ?s" using empty by (simp add: worker_take_def)
  have "pool_own ?s xs ys zs us vs" using i ownD(9) [OF own] by (intro own_frame [OF own]) (simp_all add: collect_same)
  moreover have "sends ?s = sends s" using sends_worker [OF i(1), of ?s W_wait] i(2) by simp
  then have "wake_inv ?s (ys \<noteq> [])" by (intro wake_frame [OF wake]) simp_all
  moreover have "wait_inv ?s" using empty by (intro wait_worker [OF wait i(1), where p = W_wait]) simp_all
  moreover have "weight ?s xs ys zs < weight s xs ys zs"
    using weight_worker [OF i(1), of ?s W_wait xs ys zs xs ys zs] i(2) by simp
  ultimately show ?thesis unfolding take by (rule pool_lessI)
qed

text \<open>A worker that exits wakes the next one.\<close>

lemma wait_exit:
  assumes wait: "wait_inv s" and i: "i < length (wpcs s)" "wpcs s ! i = W_lock" and j: "can_signal j s" and ex: "exiting s"
  shows "wait_inv (set_wpc i W_exit (uv_cond_signal j s))" (is "wait_inv ?s")
proof -
  have "W_lock \<in> set (wpcs ?s)" if w: "W_wait \<in> set (wpcs ?s)"
  proof -
    have "W_wait \<in> set (wpcs (uv_cond_signal j s))" using w set_update_subset_insert by fastforce
    then have "W_wait \<in> set (wpcs s)" using set_update_subset_insert by (fastforce simp: uv_cond_signal_def split: if_splits)
    then have js: "j < length (wpcs s)" "wpcs s ! j = W_wait" using j by (simp_all add: can_signal_def)
    then have "wpcs ?s ! j = W_lock" "j < length (wpcs ?s)" using i by (auto simp: uv_cond_signal_def nth_list_update)
    then show ?thesis by (metis nth_mem)
  qed
  then show ?thesis using ex i(1) unfolding wait_inv_def by (auto simp: uv_cond_signal_def)
qed

lemma inv_take_exit:
  assumes own: "pool_own s [] ys zs us vs" and wake: "wake_inv s (ys \<noteq> [])" and wait: "wait_inv s"
    and i: "i < length (wpcs s)" "wpcs s ! i = W_lock" and j: "can_signal j s" and ex: "exiting s"
  shows "pool_less True (worker_take i j s) n"
proof -
  let ?s = "set_wpc i W_exit (uv_cond_signal j s)"
  note H = own_heads(1,5) [OF ownD(1) [OF own]]
  have take: "worker_take i j s = ?s" using H ex by (simp add: worker_take_def)
  have len: "i < length (wpcs (uv_cond_signal j s))" using i(1) by (simp add: uv_cond_signal_def)
  have at: "wpcs (uv_cond_signal j s) ! i = W_lock" using i by (auto simp: uv_cond_signal_def nth_list_update)
  have "pool_own ?s [] ys zs us vs" using at ownD(9) [OF own] by (intro own_frame [OF own]) (simp_all add: collect_same)
  moreover have "sends ?s = sends s" using sends_worker [OF len, of ?s W_exit] at by simp
  then have "wake_inv ?s (ys \<noteq> [])" by (intro wake_frame [OF wake]) simp_all
  ultimately show ?thesis unfolding take using wait_exit [OF wait i j ex] by (rule pool_less_exit)
qed

lemma inv_run:
  assumes own: "pool_own s xs ys zs us vs" and wake: "wake_inv s (ys \<noteq> [])" and wait: "wait_inv s"
    and i: "i < length (wpcs s)" "wpcs s ! i = W_run w"
  shows "\<exists>s'. worker_run i w s = Next s' \<and> pool_less ex s' (weight s xs ys zs)"
proof -
  let ?s = "set_wpc i (W_ran w) (s\<lparr>evlog := evlog s @ [Ran w]\<rparr>)"
  obtain us' where run: "worker_run i w s = Next ?s" "pool_own ?s xs ys zs us' (w # vs)" using own_run [OF own i] by blast
  have "sends ?s = sends s" using sends_worker [OF i(1), of ?s "W_ran w"] i(2) by simp
  then have "wake_inv ?s (ys \<noteq> [])" by (intro wake_frame [OF wake]) simp_all
  moreover have "wait_inv ?s" by (rule wait_worker [OF wait i(1), where p = "W_ran w"]) simp_all
  moreover have "weight ?s xs ys zs < weight s xs ys zs"
    using weight_worker [OF i(1), of ?s "W_ran w" xs ys zs xs ys zs] i(2) by simp
  ultimately have "pool_less ex ?s (weight s xs ys zs)" using pool_lessI [OF run(2)] by blast
  then show ?thesis using run(1) by blast
qed

lemma inv_finish:
  assumes own: "pool_own s xs ys zs us vs" and wake: "wake_inv s (ys \<noteq> [])" and wait: "wait_inv s"
    and i: "i < length (wpcs s)" "wpcs s ! i = W_ran w" and fin: "worker_finish i w s = Next s'"
  shows "pool_less ex s' (weight s xs ys zs)"
proof -
  obtain vs' where own': "pool_own s' xs (ys @ [w]) zs us vs'" using own_finish [OF own i fin] by blast
  have s': "wpcs s' = (wpcs s)[i := W_send S_read]" "lpc s' = lpc s" "locked s'" "pending s' = pending s" "efd s' = efd s" "exiting s' = exiting s"
    and l: "\<not> locked s" using fin by (auto simp: worker_finish_def split: if_splits)
  have "sends s' = {#S_read#}" using sends_worker [OF i(1) s'(2,1)] i(2) sends_unlocked [OF wake l] by simp
  then have "wake_inv s' (ys @ [w] \<noteq> [])" using wake s' sends_unlocked [OF wake l] by (auto simp: wake_inv_def)
  moreover have "wait_inv s'" by (rule wait_worker [OF wait i(1) s'(1)]) (simp_all add: s')
  moreover have "weight s' xs (ys @ [w]) zs < weight s xs ys zs"
    using weight_worker [OF i(1) s'(1,2), of xs "ys @ [w]" zs xs ys zs] i(2) s'(5) by simp
  ultimately show ?thesis using pool_lessI [OF own'] by blast
qed

lemma inv_worker_send:
  assumes own: "pool_own s xs ys zs us vs" and wake: "wake_inv s (ys \<noteq> [])" and wait: "wait_inv s"
    and i: "i < length (wpcs s)" "wpcs s ! i = W_send p"
  shows "\<exists>s'. worker i j s = Next s' \<and> pool_less ex s' (weight s xs ys zs)"
proof -
  let ?t = "set_wpc i W_lock s"
  have e: "sends ?t + {#p#} = sends s" using sends_worker [OF i(1), of ?t W_lock] i(2) by simp
  have "p \<in># sends ?t + {#p#}" by simp
  then have p: "locked s" "sends s = {#p#}" using sends_locked [OF wake] unfolding e by blast+
  obtain r s1 where st: "uv_async_send p s = (r, s1)" by fastforce
  note F = send_frame [OF st]
  let ?p = "case r of None \<Rightarrow> W_lock | Some q \<Rightarrow> W_send q" let ?s = "set_wpc i ?p s1"
  have nx: "worker i j s = Next ?s" using i(2) st by (simp add: worker_def split: option.splits)
  have "pc_run ?p = []" "pc_ran ?p = []" by (simp_all split: option.splits)
  then have "pool_own ?s xs ys zs us vs" using i(2) ownD(9) [OF own] by (intro own_frame [OF own]) (simp_all add: F collect_same)
  moreover have "sends ?s + {#p#} = {#p#} + mset (pc_send ?p)" using sends_worker [OF i(1), of ?s ?p] i(2) F p(2) by simp
  then have "sends ?s = (case r of None \<Rightarrow> {#} | Some q \<Rightarrow> {#q#})" by (cases r) simp_all
  then have "wake_inv ?s (ys \<noteq> [])" by (intro wake_send [OF wake p(2,1) st]) (simp_all add: F)
  moreover have "wait_inv ?s" by (rule wait_worker [OF wait i(1), where p = ?p]) (simp_all add: F split: option.splits)
  moreover have "weight ?s xs ys zs < weight s xs ys zs"
    using weight_worker [OF i(1), of ?s ?p xs ys zs xs ys zs] i(2) F by (cases r) simp_all
  ultimately have "pool_less ex ?s (weight s xs ys zs)" by (rule pool_lessI)
  then show ?thesis using nx by blast
qed

lemma inv_worker:
  assumes inv: "pool_inv s n" and i: "i < length (wpcs s)" and j: "can_signal j s"
  shows "worker i j s \<noteq> Crash" and "worker i j s = Next s' \<Longrightarrow> pool_less (exiting s) s' n"
proof -
  obtain xs ys zs us vs where own: "pool_own s xs ys zs us vs" and wake: "wake_inv s (ys \<noteq> [])" and wait: "wait_inv s"
      and n: "n = weight s xs ys zs"
    using inv unfolding pool_inv_def by blast
  note S = own wake wait i
  have "worker i j s \<noteq> Crash \<and> (\<forall>s'. worker i j s = Next s' \<longrightarrow> pool_less (exiting s) s' n)"
  proof (cases "wpcs s ! i")
    case W_lock
    have "pool_less (exiting s) (worker_take i j s) n"
    proof (cases xs)
      case Nil
      show ?thesis
      proof (cases "exiting s")
        case True
        then show ?thesis using inv_take_exit [OF _ wake wait i W_lock j] own Nil by simp
      next
        case False
        then have "QUEUE_EMPTY (qm s) WQ" using own_heads(1) [OF ownD(1) [OF own]] Nil by simp
        then show ?thesis using inv_take_wait [OF S W_lock] n by simp
      qed
    next
      case (Cons x xs')
      then show ?thesis using inv_take_work [OF _ wake wait i W_lock] own n by simp
    qed
    then show ?thesis using W_lock by (simp add: worker_def)
  next
    case (W_run w)
    then show ?thesis using inv_run [OF S W_run, of "exiting s"] n by (auto simp: worker_def)
  next
    case (W_ran w)
    moreover have "worker_finish i w s \<noteq> Crash" by (simp add: worker_finish_def)
    ultimately show ?thesis using inv_finish [OF S W_ran] n by (simp add: worker_def)
  next
    case (W_send p)
    then show ?thesis using inv_worker_send [OF S W_send, of j "exiting s"] n by auto
  qed (simp_all add: worker_def)
  then show "worker i j s \<noteq> Crash" "worker i j s = Next s' \<Longrightarrow> pool_less (exiting s) s' n" by blast+
qed
subsection \<open>The loop\<close>

lemma wait_same:
  assumes "wait_inv s" and "wpcs s' = wpcs s" and "exiting s' = exiting s" and "\<not> QUEUE_EMPTY (qm s') WQ \<Longrightarrow> \<not> QUEUE_EMPTY (qm s) WQ"
  shows "wait_inv s'"
  using assms by (auto simp: wait_inv_def)

lemma own_same_empty:
  "pool_own s xs ys zs us vs \<Longrightarrow> pool_own s' xs ys' zs' us' vs' \<Longrightarrow> exiting s' = exiting s \<Longrightarrow> QUEUE_EMPTY (qm s') WQ = QUEUE_EMPTY (qm s) WQ"
  using own_heads(1) [OF ownD(1)] by metis

lemma inv_io:
  assumes own: "pool_own s xs ys zs us vs" and wake: "wake_inv s (ys \<noteq> [])" and wait: "wait_inv s"
    and l: "lpc s = L_user" and empty: "QUEUE_EMPTY (qm s) LOCAL" and e: "efd s > 0"
  shows "\<exists>s'. uv__async_io s = Next s' \<and> pool_less ex s' (weight s xs ys zs)"
proof -
  let ?s = "s\<lparr>efd := 0, lpc := L_event\<rparr>"
  have zs: "zs = []" using own_heads(3) [OF ownD(1) [OF own]] empty by simp
  have "pool_own ?s xs ys zs us vs" using l zs by (intro own_frame [OF own]) simp_all
  moreover have "sends ?s = sends s" using l by (simp add: sends_def)
  then have "wake_inv ?s (ys \<noteq> [])" using wake l by (auto simp: wake_inv_def)
  moreover have "wait_inv ?s" by (rule wait_same [OF wait]) simp_all
  moreover have "weight ?s xs ys zs < weight s xs ys zs" using l e by (simp add: weight_def)
  ultimately have "pool_less ex ?s (weight s xs ys zs)" by (rule pool_lessI)
  then show ?thesis using e by (simp add: uv__async_io_def)
qed

lemma inv_turn:
  assumes own: "pool_own s xs ys zs us vs" and wake: "wake_inv s (ys \<noteq> [])" and wait: "wait_inv s"
    and l: "lpc s = L_user" and ne: "\<not> QUEUE_EMPTY (qm s) LOCAL"
  shows "\<exists>s'. work_done_turn s = Next s' \<and> pool_less ex s' (weight s xs ys zs)"
proof -
  obtain s' where s': "work_done_turn s = Next s'" "pool_own s' xs ys (tl zs) us vs" "zs \<noteq> []"
      "s' = uv__queue_done (hd zs) (if wwork s (hd zs) = WF_cancelled then UV_ECANCELED else 0) (s\<lparr>qm := QUEUE_REMOVE (WK (hd zs)) (qm s)\<rparr>)"
    using own_turn [OF own l ne] by blast
  have f: "wpcs s' = wpcs s" "lpc s' = lpc s" "exiting s' = exiting s" "locked s' = locked s" "pending s' = pending s" "efd s' = efd s"
    unfolding s'(4) by (simp_all add: uv__queue_done_def)
  have "wake_inv s' (ys \<noteq> [])" by (rule wake_frame [OF wake]) (simp_all add: f sends_def)
  moreover have "wait_inv s'" by (rule wait_same [OF wait]) (simp_all add: f own_same_empty [OF own s'(2)])
  moreover have "weight s' xs ys (tl zs) < weight s xs ys zs" using s'(3) by (simp add: weight_def f)
  ultimately show ?thesis using s'(1) pool_lessI [OF s'(2)] by blast
qed

lemma inv_cancel_queue:
  assumes own: "pool_own s xs ys zs us vs" and wake: "wake_inv s (ys \<noteq> [])" and wait: "wait_inv s"
    and l: "lpc s = L_cancelled w" and c: "cancel_queue w s = Next s'"
  shows "pool_less ex s' (weight s xs ys zs)"
proof -
  have own': "pool_own s' xs (ys @ [w]) zs us vs" by (rule own_cancel_queue [OF own l c])
  have f: "wpcs s' = wpcs s" "lpc s' = L_send S_read" "exiting s' = exiting s" "locked s'" "pending s' = pending s" "efd s' = efd s"
    and lk: "\<not> locked s" using c by (auto simp: cancel_queue_def split: if_splits)
  have "sends s' = {#S_read#}" using sends_unlocked [OF wake lk] l f by (simp add: sends_def)
  then have "wake_inv s' (ys @ [w] \<noteq> [])" using wake f sends_unlocked [OF wake lk] l by (auto simp: wake_inv_def)
  moreover have "wait_inv s'" by (rule wait_same [OF wait]) (simp_all add: f own_same_empty [OF own own'])
  moreover have "weight s' xs (ys @ [w]) zs < weight s xs ys zs" using l by (simp add: weight_def f)
  ultimately show ?thesis using pool_lessI [OF own'] by blast
qed

lemma inv_loop_send:
  assumes own: "pool_own s xs ys zs us vs" and wake: "wake_inv s (ys \<noteq> [])" and wait: "wait_inv s" and l: "lpc s = L_send p"
  shows "\<exists>s'. loop_step s = Next s' \<and> pool_less ex s' (weight s xs ys zs)"
proof -
  have "p \<in># sends s" using l by (simp add: sends_def)
  then have p: "locked s" "sends s = {#p#}" using sends_locked [OF wake] by blast+
  then have none: "collect pc_send (wpcs s) = {#}" using l by (simp add: sends_def)
  obtain r s1 where st: "uv_async_send p s = (r, s1)" by fastforce
  note F = send_frame [OF st]
  let ?p = "case r of None \<Rightarrow> L_user | Some q \<Rightarrow> L_send q" let ?s = "s1\<lparr>lpc := ?p\<rparr>"
  have nx: "loop_step s = Next ?s" using l st by (simp add: loop_step_def split: option.splits)
  have "pool_own ?s xs ys zs us vs" using l by (intro own_frame [OF own]) (simp_all add: F split: option.splits)
  moreover have "sends ?s = (case r of None \<Rightarrow> {#} | Some q \<Rightarrow> {#q#})" using none F by (simp add: sends_def split: option.splits)
  then have "wake_inv ?s (ys \<noteq> [])" by (intro wake_send [OF wake p(2,1) st]) (simp_all add: F l split: option.splits)
  moreover have "wait_inv ?s" by (rule wait_same [OF wait]) (simp_all add: F)
  moreover have "weight ?s xs ys zs < weight s xs ys zs" using F(6,8) l by (cases r) (simp_all add: weight_def)
  ultimately show ?thesis using nx pool_lessI by blast
qed

lemma inv_event:
  assumes own: "pool_own s xs ys zs us vs" and wake: "wake_inv s (ys \<noteq> [])" and wait: "wait_inv s" and l: "lpc s = L_event"
  shows "pool_less ex (uv__async_event s) (weight s xs ys zs)"
proof -
  let ?s = "uv__async_event s"
  have f: "qm ?s = qm s" "wpcs ?s = wpcs s" "exiting ?s = exiting s" "reqs ?s = reqs s" "wwork ?s = wwork s" "evlog ?s = evlog s"
    "locked ?s = locked s" "efd ?s = efd s" by (simp_all add: uv__async_event_def)
  have "pool_own ?s xs ys zs us vs" using l ownD(9) [OF own] by (intro own_frame [OF own]) (simp_all add: f uv__async_event_def split: if_splits)
  moreover have "sends ?s = sends s" using l by (simp add: sends_def uv__async_event_def)
  then have "wake_inv ?s (ys \<noteq> [])" using wake l by (auto simp: wake_inv_def uv__async_event_def)
  moreover have "wait_inv ?s" by (rule wait_same [OF wait]) (simp_all add: f)
  moreover have "weight ?s xs ys zs < weight s xs ys zs" using l by (simp add: weight_def uv__async_event_def)
  ultimately show ?thesis by (rule pool_lessI)
qed

lemma inv_done_take:
  assumes own: "pool_own s xs ys zs us vs" and wake: "wake_inv s (ys \<noteq> [])" and wait: "wait_inv s"
    and l: "lpc s = L_done" and c: "work_done_take s = Next s'"
  shows "pool_less ex s' (weight s xs ys zs)"
proof -
  have own': "pool_own s' xs [] ys us vs" by (rule own_done_take [OF own l c])
  have f: "wpcs s' = wpcs s" "lpc s' = L_user" "exiting s' = exiting s" "locked s' = locked s" "pending s' = pending s" "efd s' = efd s"
    using c by (auto simp: work_done_take_def Let_def split: if_splits)
  have "sends s' = sends s" using l f by (simp add: sends_def)
  then have "wake_inv s' ([] \<noteq> ([] :: nat list))" using wake f l by (auto simp: wake_inv_def)
  moreover have "wait_inv s'" by (rule wait_same [OF wait]) (simp_all add: f own_same_empty [OF own own'])
  moreover have "weight s' xs [] ys < weight s xs ys zs" using l by (simp add: weight_def f)
  ultimately show ?thesis using pool_lessI [OF own'] by blast
qed

lemma inv_loop:
  assumes inv: "pool_inv s n"
  shows "loop_step s \<noteq> Crash" and "loop_step s = Next s' \<Longrightarrow> pool_less (exiting s) s' n"
proof -
  obtain xs ys zs us vs where own: "pool_own s xs ys zs us vs" and wake: "wake_inv s (ys \<noteq> [])" and wait: "wait_inv s"
      and n: "n = weight s xs ys zs"
    using inv unfolding pool_inv_def by blast
  note S = own wake wait
  have "loop_step s \<noteq> Crash \<and> (\<forall>s'. loop_step s = Next s' \<longrightarrow> pool_less (exiting s) s' n)"
  proof (cases "lpc s")
    case L_user
    then show ?thesis
      using inv_io [OF S L_user, of "exiting s"] inv_turn [OF S L_user, of "exiting s"] n by (auto simp: loop_step_def)
  next
    case (L_cancelled w)
    moreover have "cancel_queue w s \<noteq> Crash" by (simp add: cancel_queue_def)
    ultimately show ?thesis using inv_cancel_queue [OF S L_cancelled] n by (simp add: loop_step_def)
  next
    case (L_send p)
    then show ?thesis using inv_loop_send [OF S L_send, of "exiting s"] n by auto
  next
    case L_event
    then show ?thesis using inv_event [OF S L_event] n by (simp add: loop_step_def)
  next
    case L_done
    moreover have "work_done_take s \<noteq> Crash" by (simp add: work_done_take_def Let_def)
    ultimately show ?thesis using inv_done_take [OF S L_done] n by (simp add: loop_step_def)
  qed
  then show "loop_step s \<noteq> Crash" "loop_step s = Next s' \<Longrightarrow> pool_less (exiting s) s' n" by blast+
qed

lemma inv_sys_step: "sys_step s s' \<Longrightarrow> pool_inv s n \<Longrightarrow> pool_less (exiting s) s' n"
  by (induction rule: sys_step.induct) (blast intro: inv_worker(2) inv_loop(2))+

subsection \<open>The user\<close>

lemma pool_invI: "pool_own s xs ys zs us vs \<Longrightarrow> wake_inv s (ys \<noteq> []) \<Longrightarrow> wait_inv s \<Longrightarrow> \<exists>n. pool_inv s n"
  unfolding pool_inv_def by blast

lemma inv_start: "\<exists>n. pool_inv (start_pool val) n"
proof -
  let ?s = "start_pool val"
  have none: "collect f (replicate n W_lock) = {#}" if "f W_lock = []" for f :: "wpc \<Rightarrow> 'b list" and n
    using that by (induction n) simp_all
  have "queues \<lparr>qnext = id, qprev = id\<rparr> ([] :: (qaddr \<times> qaddr list) list)" by (simp add: queues_def)
  note this [THEN queues_init [of _ _ LWQ], THEN queues_init [of _ _ LOCAL], THEN queues_init [of _ _ WQ]]
  then have "queues (qm ?s) [(WQ, []), (LOCAL, []), (LWQ, [])]" by (simp add: start_pool_def init_once_def)
  then have "queues (qm ?s) (pool_queues ?s [] [] [] [])"
    by (rule queues_permI) (simp_all add: pool_queues_def start_pool_def init_once_def)
  then have "pool_own ?s [] [] [] [] []"
    by (simp add: pool_own_def start_pool_def init_once_def none cur_phase_def)
  moreover have "wake_inv ?s False" by (simp add: wake_inv_def sends_def start_pool_def init_once_def none)
  moreover have "init_nthreads val \<noteq> 0" by (simp add: init_nthreads_def Let_def)
  then have "wait_inv ?s" by (auto simp: wait_inv_def start_pool_def init_once_def)
  ultimately show ?thesis using pool_invI by fastforce
qed

lemma wpcs_post [simp]: "wpcs (post q j s) = wpcs (uv_cond_signal j s)"
  by (simp add: post_def uv_cond_signal_def)

lemma wpcs_user_steps [simp]:
  "wpcs (queue_work w j s) = wpcs (uv_cond_signal j s)" "wpcs (cleanup j s) = wpcs (uv_cond_signal j s)"
  by (simp_all add: queue_work_def uv__work_submit_def cleanup_def uv_cond_signal_def)

lemma user_step_frame:
  "lpc (queue_work w j s) = lpc s" "locked (queue_work w j s) = locked s" "pending (queue_work w j s) = pending s"
  "efd (queue_work w j s) = efd s" "exiting (queue_work w j s) = exiting s"
  "lpc (cleanup j s) = lpc s" "locked (cleanup j s) = locked s" "pending (cleanup j s) = pending s" "efd (cleanup j s) = efd s"
  "exiting (cleanup j s)"
  by (simp_all add: queue_work_def uv__work_submit_def post_def cleanup_def)

lemma wake_signal:
  assumes "wake_inv s fin" and "wpcs s' = wpcs (uv_cond_signal j s)" and "lpc s' = lpc s" "locked s' = locked s" "pending s' = pending s" "efd s' = efd s"
  shows "wake_inv s' fin"
proof -
  have "sends s' = sends s" using sends_signal [of j s] assms(2,3) by (simp add: sends_def)
  then show ?thesis using assms by (intro wake_frame [OF assms(1)]) simp_all
qed

lemma inv_cancel:
  assumes inv: "pool_inv s n" and l: "lpc s = L_user" and w: "w \<in> reqs s" and c: "uv__work_cancel w s = Next (r, s')"
  shows "\<exists>n. pool_inv s' n"
proof -
  obtain xs ys zs us vs where own: "pool_own s xs ys zs us vs" and wake: "wake_inv s (ys \<noteq> [])" and wait: "wait_inv s"
    using inv unfolding pool_inv_def by blast
  have "\<not> locked s" using c by (auto simp: uv__work_cancel_def)
  note C = own_cancel [OF own l w this]
  show ?thesis
  proof (cases "cancellable s xs (ys @ zs) w")
    case True
    then have s': "s' = s\<lparr>qm := QUEUE_REMOVE (WK w) (qm s), lpc := L_cancelled w\<rparr>"
        and own': "pool_own s' (remove1 w xs) (remove1 w ys) (remove1 w zs) us vs" using C c by auto
    have "sends s' = sends s" using l by (simp add: sends_def s')
    then have "wake_inv s' (remove1 w ys \<noteq> [])" by (intro wake_frame [OF wake]) (auto simp: s' l)
    moreover have "QUEUE_EMPTY (qm s') WQ" if "QUEUE_EMPTY (qm s) WQ"
      using that own_heads(1) [OF ownD(1) [OF own]] own_heads(1) [OF ownD(1) [OF own']] by (simp add: s')
    then have "wait_inv s'" using wait by (auto simp: wait_inv_def s')
    ultimately show ?thesis by (rule pool_invI [OF own'])
  next
    case False
    then show ?thesis using C c inv by auto
  qed
qed

lemma inv_step: "pool_step s s' \<Longrightarrow> pool_inv s n \<Longrightarrow> \<exists>n. pool_inv s' n"
proof (induction rule: pool_step.induct)
  case (step_sys s s')
  then show ?case using inv_sys_step [of s s' n] unfolding pool_less_def by blast
next
  case (step_queue s w j cb r s')
  show ?case
  proof (cases cb)
    case False
    then show ?thesis using step_queue by (auto simp: uv_queue_work_def)
  next
    case True
    then have s': "s' = queue_work w j s" using step_queue.hyps(5) by (simp add: uv_queue_work_def)
    obtain xs ys zs us vs where own: "pool_own s xs ys zs us vs" and wake: "wake_inv s (ys \<noteq> [])" and wait: "wait_inv s"
      using step_queue.prems unfolding pool_inv_def by blast
    show ?thesis unfolding s'
      by (rule pool_invI [OF own_post [OF own step_queue.hyps(1-3)] wake_signal [OF wake] wait_signal(1) [OF wait step_queue.hyps(4)]])
        (simp_all add: user_step_frame)
  qed
next
  case (step_cancel s w ty r s')
  show ?case
  proof (cases "ty = UV_OTHER_REQ")
    case True
    then show ?thesis using step_cancel by (auto simp: uv_cancel_def)
  next
    case False
    then have "uv__work_cancel w s = Next (r, s')" using step_cancel.hyps(3) by (cases ty) (simp_all add: uv_cancel_def)
    then show ?thesis by (rule inv_cancel [OF step_cancel.prems step_cancel.hyps(1,2)])
  qed
next
  case (step_spurious i s)
  then obtain xs ys zs us vs where own: "pool_own s xs ys zs us vs" and wake: "wake_inv s (ys \<noteq> [])" and wait: "wait_inv s"
    unfolding pool_inv_def by blast
  let ?s = "set_wpc i W_lock s"
  have "pool_own ?s xs ys zs us vs" using step_spurious.hyps ownD(9) [OF own] by (intro own_frame [OF own]) (simp_all add: collect_same)
  moreover have "sends ?s = sends s" using sends_worker [OF step_spurious.hyps(1), of ?s W_lock] step_spurious.hyps(2) by simp
  then have "wake_inv ?s (ys \<noteq> [])" by (intro wake_frame [OF wake]) simp_all
  moreover have "wait_inv ?s" by (rule wait_worker [OF wait step_spurious.hyps(1), where p = W_lock]) simp_all
  ultimately show ?case by (rule pool_invI)
next
  case (step_exit s j)
  then obtain xs ys zs us vs where own: "pool_own s xs ys zs us vs" and wake: "wake_inv s (ys \<noteq> [])" and wait: "wait_inv s"
    unfolding pool_inv_def by blast
  show ?case
    by (rule pool_invI [OF own_cleanup [OF own step_exit.hyps(1,2)] wake_signal [OF wake] wait_signal(1) [OF wait step_exit.hyps(3)]])
      (simp_all add: user_step_frame)
qed

lemma reach_inv: "pool_reach s \<Longrightarrow> \<exists>n. pool_inv s n"
proof (induction rule: pool_reach.induct)
  case (reach_step s s')
  then show ?case using inv_step by blast
qed (rule inv_start)

section \<open>Safety\<close>

text \<open>
  Property C10. However the threads are scheduled: no thread crashes, and every request lives through its phases
  in order. Between being queued and being done its work runs once and it is done with status 0, or its work
  does not run and it is done with \<^verbatim>\<open>UV_ECANCELED\<close>; a request is registered exactly while it is queued. Cancelling a
  request succeeds only before its work is run.\<close>
theorem work_once:
  assumes "pool_reach s"
  shows "(\<forall>i j. i < length (wpcs s) \<longrightarrow> can_signal j s \<longrightarrow> worker i j s \<noteq> Crash) \<and> loop_step s \<noteq> Crash \<and>
    (\<forall>w. \<exists>p. phase_of w (evlog s) = Some p \<and> (w \<in> reqs s \<longleftrightarrow> p \<noteq> P_idle)) \<and>
    (\<forall>w s'. lpc s = L_user \<longrightarrow> w \<in> reqs s \<longrightarrow> uv_cancel UV_WORK w s = Next (0, s') \<longrightarrow> phase_of w (evlog s) = Some P_queued)"
proof -
  obtain n where inv: "pool_inv s n" using reach_inv [OF assms] by blast
  then obtain xs ys zs us vs where own: "pool_own s xs ys zs us vs" unfolding pool_inv_def by blast
  note D = ownD [OF own]
  have "\<exists>p. phase_of w (evlog s) = Some p \<and> (w \<in> reqs s \<longleftrightarrow> p \<noteq> P_idle)" for w
    using D(8) [of w] by (auto simp: cur_phase_def)
  moreover have "phase_of w (evlog s) = Some P_queued" if u: "lpc s = L_user" "w \<in> reqs s" "uv_cancel UV_WORK w s = Next (0, s')" for w s'
  proof -
    have c: "lpc s = L_user" "w \<in> reqs s" "uv__work_cancel w s = Next (0, s')" using u by (simp_all add: uv_cancel_def)
    have "\<not> locked s" using c(3) by (auto simp: uv__work_cancel_def)
    then have "cancellable s xs (ys @ zs) w" using own_cancel [OF own c(1,2)] c(3) by (auto split: if_splits)
    then show ?thesis using D(8) [of w] D(6) [of w] D(10) c(2) by (auto simp: cur_phase_def cancellable_def)
  qed
  ultimately show ?thesis using inv_worker(1) [OF inv] inv_loop(1) [OF inv] by blast
qed
theorem work_once_witness:
  "pool_reach (queue_work 7 0 (start_pool (Some 2))) \<and> (\<exists>p. phase_of 7 (evlog (queue_work 7 0 (start_pool (Some 2)))) = Some p \<and> p \<noteq> P_idle)"
proof -
  let ?s = "start_pool (Some 2)"
  have "W_wait \<notin> set (wpcs ?s)" "lpc ?s = L_user" "\<not> exiting ?s" "reqs ?s = {}"
    by (simp_all add: start_pool_def init_once_def)
  then have r: "pool_reach (queue_work 7 0 ?s)"
    using reach_step [OF reach_start [of "Some 2"] step_queue [of ?s 7 0 True]] by (simp add: can_signal_def uv_queue_work_def)
  have "7 \<in> reqs (queue_work 7 0 ?s)" by (simp add: queue_work_def uv__work_submit_def post_def)
  then show ?thesis using work_once [OF r] r by blast
qed

section \<open>Liveness\<close>

lemma signal_exists: "\<exists>j. can_signal j s"
  unfolding can_signal_def using in_set_conv_nth by metis

lemma sys_step_exiting: "sys_step s s' \<Longrightarrow> exiting s' = exiting s"
proof (induction rule: sys_step.induct)
  case (sys_worker i s j s')
  then show ?case
    using send_frame(2) [of _ s]
    by (auto simp: worker_def worker_take_def worker_run_def worker_finish_def Let_def split: wpc.splits qaddr.splits prod.splits option.splits if_splits)
next
  case (sys_loop s s')
  then show ?case
    using send_frame(2) [of _ s]
    by (auto simp: loop_step_def work_done_turn_def uv__queue_done_def uv__async_io_def uv__async_event_def cancel_queue_def work_done_take_def Let_def
        split: lpc.splits qaddr.splits prod.splits option.splits if_splits)
qed

lemma no_infinite_run: "pool_inv s n \<Longrightarrow> \<not> exiting s \<Longrightarrow> f 0 = s \<Longrightarrow> \<not> (\<forall>k. sys_step (f k) (f (Suc k)))"
proof (induction n arbitrary: s f rule: less_induct)
  case (less n)
  show ?case
  proof
    assume run: "\<forall>k. sys_step (f k) (f (Suc k))"
    then have st: "sys_step s (f 1)" using less.prems(3) by (metis One_nat_def)
    then obtain n' where n': "pool_inv (f 1) n'" "n' < n" using inv_sys_step [OF st less.prems(1)] less.prems(2) unfolding pool_less_def by blast
    have "\<not> exiting (f 1)" using sys_step_exiting [OF st] less.prems(2) by simp
    note less.IH [OF n'(2,1) this, of "\<lambda>k. f (Suc k)", unfolded One_nat_def, OF refl]
    then show False using run by blast
  qed
qed

lemma sends_thread: "p \<in># sends s \<Longrightarrow> (\<exists>i<length (wpcs s). wpcs s ! i = W_send p) \<or> lpc s = L_send p"
proof -
  assume p: "p \<in># sends s"
  have w: "q = W_send p" if "p \<in> set (pc_send q)" for q using that by (cases q) simp_all
  have l: "q = L_send p" if "p \<in> set (lpc_send q)" for q using that by (cases q) simp_all
  have "(\<exists>q\<in>set (wpcs s). p \<in> set (pc_send q)) \<or> p \<in> set (lpc_send (lpc s))" using p by (auto simp: sends_def collect_def)
  then show ?thesis using w l by (metis in_set_conv_nth)
qed

text \<open>When no thread can go on, the workers sleep and the loop waits for events.\<close>

lemma stuck_threads:
  assumes own: "pool_own s xs ys zs us vs" and wake: "wake_inv s (ys \<noteq> [])" and wait: "wait_inv s" and ex: "\<not> exiting s"
    and stuck: "\<And>s'. \<not> sys_step s s'"
  shows "\<not> locked s" and "lpc s = L_user" and "set (wpcs s) = {W_wait}" and "QUEUE_EMPTY (qm s) LOCAL" and "efd s = 0"
proof -
  obtain j where j: "can_signal j s" using signal_exists by blast
  have w: "worker i j s \<noteq> Next s'" if "i < length (wpcs s)" for i s' using stuck sys_worker [OF that j] by blast
  have l: "loop_step s \<noteq> Next s'" for s' using stuck sys_loop by blast
  show lk: "\<not> locked s"
  proof
    assume "locked s"
    then have "sends s \<noteq> {#}" using wake by (auto simp: wake_inv_def)
    then obtain p where "p \<in># sends s" by auto
    then consider (worker) i where "i < length (wpcs s)" "wpcs s ! i = W_send p" | (loop) "lpc s = L_send p"
      using sends_thread by blast
    then show False using inv_worker_send [OF own wake wait, of _ p j True] inv_loop_send [OF own wake wait, of p True] w l by cases blast+
  qed
  show lp: "lpc s = L_user"
  proof (rule ccontr)
    assume n: "lpc s \<noteq> L_user"
    have "\<exists>s'. loop_step s = Next s'"
    proof (cases "lpc s")
      case (L_send p)
      then show ?thesis using inv_loop_send [OF own wake wait, of p True] by blast
    qed (use n lk in \<open>simp_all add: loop_step_def work_done_take_def cancel_queue_def Let_def\<close>)
    then show False using l by blast
  qed
  have u: "loop_step s = (if \<not> QUEUE_EMPTY (qm s) LOCAL then work_done_turn s else if efd s > 0 then uv__async_io s else Blocked)"
    using lp by (simp add: loop_step_def)
  show em: "QUEUE_EMPTY (qm s) LOCAL"
  proof (rule ccontr)
    assume n: "\<not> QUEUE_EMPTY (qm s) LOCAL"
    then show False using inv_turn [OF own wake wait lp n, of True] l u by auto
  qed
  show "efd s = 0"
  proof (rule ccontr)
    assume "efd s \<noteq> 0"
    then show False using inv_io [OF own wake wait lp em, of True] l u em by auto
  qed
  have "wpcs s ! i = W_wait" if i: "i < length (wpcs s)" for i
  proof (rule ccontr)
    assume n: "wpcs s ! i \<noteq> W_wait"
    have "\<exists>s'. worker i j s = Next s'"
    proof (cases "wpcs s ! i")
      case (W_run v)
      then show ?thesis using inv_run [OF own wake wait i, of v True] by (auto simp: worker_def)
    next
      case (W_send p)
      then show ?thesis using inv_worker_send [OF own wake wait i, of p j True] by blast
    next
      case W_exit
      then show ?thesis using wait ex i by (metis nth_mem wait_inv_def)
    qed (use n lk in \<open>simp_all add: worker_def worker_finish_def Let_def\<close>)
    then show False using w [OF i] by blast
  qed
  then have "set (wpcs s) \<subseteq> {W_wait}" by (auto simp: in_set_conv_nth)
  moreover have "wpcs s \<noteq> []" using wait by (simp add: wait_inv_def)
  ultimately show "set (wpcs s) = {W_wait}" by (cases "wpcs s") auto
qed

lemma stuck_done:
  assumes "pool_inv s n" and ex: "\<not> exiting s" and stuck: "\<And>s'. \<not> sys_step s s'"
  shows "reqs s = {}"
proof -
  obtain xs ys zs us vs where own: "pool_own s xs ys zs us vs" and wake: "wake_inv s (ys \<noteq> [])" and wait: "wait_inv s"
    using assms(1) unfolding pool_inv_def by blast
  note D = ownD [OF own] and T = stuck_threads [OF own wake wait ex stuck]
  have none: "collect f (wpcs s) = {#}" if "f W_wait = []" for f :: "wpc \<Rightarrow> 'b list"
    using that T(3) by (auto simp: collect_def)
  have "us = []" "vs = []" using D(2,3) none [of pc_run] none [of pc_ran] by simp_all
  moreover have "xs = []" using wait T(3) own_heads(1) [OF D(1)] by (auto simp: wait_inv_def)
  moreover have "zs = []" using own_heads(3) [OF D(1)] T(4) by simp
  moreover have "sends s = {#}" using sends_unlocked [OF wake T(1)] .
  then have "ys = []" using wake T(2,5) by (auto simp: wake_inv_def)
  ultimately show ?thesis using D(5) T(2) by simp
qed

lemma sys_steps_inv: "sys_step\<^sup>*\<^sup>* s s' \<Longrightarrow> pool_inv s n \<Longrightarrow> \<exists>n'. pool_inv s' n' \<and> exiting s' = exiting s"
proof (induction rule: rtranclp_induct)
  case (step t u)
  then show ?case using inv_sys_step [of t u] sys_step_exiting [of t u] unfolding pool_less_def by metis
qed blast

text \<open>
  Property C11. No wakeup is lost and nothing deadlocks. From every reachable state, however the threads are
  scheduled, they come to rest after finitely many steps of their own, unless the process exits; and when they
  rest, every request has been done.\<close>
theorem work_completes:
  assumes "pool_reach s" and "\<not> exiting s"
  shows "(\<nexists>f. f 0 = s \<and> (\<forall>k. sys_step (f k) (f (Suc k)))) \<and>
    (\<forall>s'. sys_step\<^sup>*\<^sup>* s s' \<longrightarrow> (\<nexists>u. sys_step s' u) \<longrightarrow> reqs s' = {} \<and> (\<forall>w. phase_of w (evlog s') = Some P_idle))"
proof -
  obtain n where n: "pool_inv s n" using reach_inv [OF assms(1)] by blast
  have "reqs s' = {} \<and> (\<forall>w. phase_of w (evlog s') = Some P_idle)" if s': "sys_step\<^sup>*\<^sup>* s s'" "\<nexists>u. sys_step s' u" for s'
  proof -
    obtain n' where n': "pool_inv s' n'" "\<not> exiting s'" using sys_steps_inv [OF s'(1) n] assms(2) by auto
    have r: "reqs s' = {}" using stuck_done [OF n'] s'(2) by blast
    obtain xs ys zs us vs where "pool_own s' xs ys zs us vs" using n'(1) unfolding pool_inv_def by blast
    then show ?thesis using ownD(8) r by (simp add: cur_phase_def)
  qed
  then show ?thesis using no_infinite_run [OF n assms(2)] by blast
qed

theorem work_completes_witness:
  "pool_reach (queue_work 7 0 (start_pool None)) \<and> \<not> (\<exists>f. f 0 = queue_work 7 0 (start_pool None) \<and> (\<forall>k. sys_step (f k) (f (Suc k))))"
proof -
  let ?s = "start_pool None"
  have "W_wait \<notin> set (wpcs ?s)" "lpc ?s = L_user" "\<not> exiting ?s" "reqs ?s = {}"
    by (simp_all add: start_pool_def init_once_def)
  then have r: "pool_reach (queue_work 7 0 ?s)" "\<not> exiting (queue_work 7 0 ?s)"
    using reach_step [OF reach_start [of None] step_queue [of ?s 7 0 True]] by (simp_all add: can_signal_def user_step_frame uv_queue_work_def)
  then show ?thesis using work_completes [OF r] by blast
qed

end
