(* ===== verification/Uv_Inet.thy ===== *)
theory Uv_Inet
  imports Shark_Prelude
begin

text \<open>
  Printing and parsing of network addresses, \<^verbatim>\<open>core/libuv/src/inet.c\<close>. A C string is
  the list of its characters before the terminating NUL. A result is \<open>Inl\<close> of the
  error code the function returns, or \<open>Inr\<close> of what it has written at \<^verbatim>\<open>dst\<close> when
  it returns 0.
\<close>

section \<open>The code\<close>

abbreviation UV_EINVAL :: int where "UV_EINVAL \<equiv> - 22"
abbreviation UV_ENOSPC :: int where "UV_ENOSPC \<equiv> - 28"
abbreviation UV_EAFNOSUPPORT :: int where "UV_EAFNOSUPPORT \<equiv> - 97"
abbreviation AF_INET :: int where "AF_INET \<equiv> 2"
abbreviation AF_INET6 :: int where "AF_INET6 \<equiv> 10"
abbreviation UV__INET_ADDRSTRLEN :: nat where "UV__INET_ADDRSTRLEN \<equiv> 16"
abbreviation UV__INET6_ADDRSTRLEN :: nat where "UV__INET6_ADDRSTRLEN \<equiv> 46"
abbreviation NUL :: char where "NUL \<equiv> CHR 0x00"

subsection \<open>What the code uses of the C library\<close>

text \<open>\<^verbatim>\<open>strchr(s, c) - s\<close> for a character that is not NUL.\<close>

fun strchr :: "string \<Rightarrow> char \<Rightarrow> nat option" where
  "strchr [] c = None"
| "strchr (x # xs) c = (if x = c then Some 0 else map_option Suc (strchr xs c))"

text \<open>The digits \<^verbatim>\<open>printf\<close> writes for \<^verbatim>\<open>%u\<close> (base 10) and \<^verbatim>\<open>%x\<close> (base 16).\<close>

abbreviation xdigits_l :: string where "xdigits_l \<equiv> ''0123456789abcdef''"
abbreviation xdigits_u :: string where "xdigits_u \<equiv> ''0123456789ABCDEF''"
abbreviation decimal_digits :: string where "decimal_digits \<equiv> ''0123456789''"

fun numeral_text :: "nat \<Rightarrow> nat \<Rightarrow> string" where
  "numeral_text b n =
     (if n < b \<or> b < 2 then [xdigits_l ! n] else numeral_text b (n div b) @ [xdigits_l ! (n mod b)])"

declare numeral_text.simps [simp del]

abbreviation fmt_u :: "nat \<Rightarrow> string" where "fmt_u \<equiv> numeral_text 10"
abbreviation fmt_x :: "nat \<Rightarrow> string" where "fmt_x \<equiv> numeral_text 16"

text \<open>The string in a buffer: everything before its first NUL.\<close>

definition c_str :: "string \<Rightarrow> string" where
  "c_str = takeWhile (\<lambda>c. c \<noteq> NUL)"

text \<open>\<^verbatim>\<open>snprintf(tmp, n, ...)\<close> of the text \<open>s\<close>: the string left in \<open>tmp\<close>; it returns the length of \<open>s\<close>.\<close>

definition snprintf :: "nat \<Rightarrow> string \<Rightarrow> string \<times> int" where
  "snprintf n s = (take (n - 1) s, int (length s))"

text \<open>The \<open>n\<close> bytes \<^verbatim>\<open>strncpy(dst, s, n)\<close> writes.\<close>

definition strncpy :: "string \<Rightarrow> nat \<Rightarrow> string" where
  "strncpy s n = take n s @ replicate (n - length s) NUL"

subsection \<open>Printing\<close>

definition inet_ntop4 :: "uint8 list \<Rightarrow> nat \<Rightarrow> int + string" where
  "inet_ntop4 src sz =
     (let (tmp, l) = snprintf UV__INET_ADDRSTRLEN
            (fmt_u (unat (src ! 0)) @ ''.'' @ fmt_u (unat (src ! 1)) @ ''.'' @
             fmt_u (unat (src ! 2)) @ ''.'' @ fmt_u (unat (src ! 3)))
      in if l \<le> 0 \<or> nat l \<ge> sz then Inl UV_ENOSPC
         else Inr ((strncpy tmp sz)[sz - 1 := NUL]))"

record zero_run =
  base :: int
  len :: int

text \<open>The 16 bytes as eight words, then the longest run of zero words.\<close>

definition ntop6_words :: "uint8 list \<Rightarrow> uint32 list" where
  "ntop6_words src =
     fold (\<lambda>i words. words[i div 2 := words ! (i div 2) OR push_bit ((1 - i mod 2) * 8) (ucast (src ! i))])
       [0..<16] (replicate 8 0)"

definition run_step :: "uint32 list \<Rightarrow> nat \<Rightarrow> zero_run \<times> zero_run \<Rightarrow> zero_run \<times> zero_run" where
  "run_step words i = (\<lambda>(best, cur).
     if words ! i = 0 then
       if base cur = - 1 then (best, \<lparr>base = int i, len = 1\<rparr>)
       else (best, cur\<lparr>len := len cur + 1\<rparr>)
     else if base cur \<noteq> - 1 then
       (if base best = - 1 \<or> len cur > len best then cur else best, cur\<lparr>base := - 1\<rparr>)
     else (best, cur))"

definition ntop6_best :: "uint32 list \<Rightarrow> zero_run" where
  "ntop6_best words =
     (let (best, cur) = fold (run_step words) [0..<8] (\<lparr>base = - 1, len = 0\<rparr>, \<lparr>base = - 1, len = 0\<rparr>);
          best = (if base cur \<noteq> - 1 \<and> (base best = - 1 \<or> len cur > len best) then cur else best)
      in if base best \<noteq> - 1 \<and> len best < 2 then best\<lparr>base := - 1\<rparr> else best)"

text \<open>
  The formatting loop over the word indices \<open>is\<close>; \<open>tmp\<close> is what stands before \<^verbatim>\<open>tp\<close>.
  The embedded IPv4 address ends the loop.
\<close>

fun ntop6_format :: "uint8 list \<Rightarrow> uint32 list \<Rightarrow> zero_run \<Rightarrow> nat list \<Rightarrow> string \<Rightarrow> int + string" where
  "ntop6_format src words best [] tmp = Inr tmp"
| "ntop6_format src words best (i # is) tmp =
     (if base best \<noteq> - 1 \<and> int i \<ge> base best \<and> int i < base best + len best then
        ntop6_format src words best is (if int i = base best then tmp @ '':'' else tmp)
      else
        let tmp = (if i \<noteq> 0 then tmp @ '':'' else tmp)
        in if i = 6 \<and> base best = 0 \<and> (len best = 6 \<or> len best = 7 \<and> words ! 7 \<noteq> 1 \<or>
               len best = 5 \<and> words ! 5 = 0xffff)
           then case inet_ntop4 (drop 12 src) (UV__INET6_ADDRSTRLEN - length tmp) of
               Inl err \<Rightarrow> Inl err
             | Inr d \<Rightarrow> Inr (tmp @ c_str d)
           else ntop6_format src words best is (tmp @ fmt_x (unat (words ! i))))"

definition inet_ntop6 :: "uint8 list \<Rightarrow> nat \<Rightarrow> int + string" where
  "inet_ntop6 src sz =
     (let words = ntop6_words src; best = ntop6_best words
      in case ntop6_format src words best [0..<8] [] of
           Inl err \<Rightarrow> Inl err
         | Inr tmp \<Rightarrow>
             let tmp = (if base best \<noteq> - 1 \<and> base best + len best = 8 then tmp @ '':'' else tmp);
                 tmp = tmp @ [NUL]
             in if length tmp > sz then Inl UV_ENOSPC else Inr tmp)"

definition uv_inet_ntop :: "int \<Rightarrow> uint8 list \<Rightarrow> nat \<Rightarrow> int + string" where
  "uv_inet_ntop af src sz =
     (if af = AF_INET then inet_ntop4 src sz
      else if af = AF_INET6 then inet_ntop6 src sz
      else Inl UV_EAFNOSUPPORT)"

subsection \<open>Parsing\<close>

text \<open>The octets written so far are \<open>tmp\<close>; \<^verbatim>\<open>tp\<close> points at the last of them.\<close>

fun pton4_loop :: "string \<Rightarrow> bool \<Rightarrow> nat \<Rightarrow> uint8 list \<Rightarrow> int + uint8 list" where
  "pton4_loop [] saw_digit octets tmp = (if octets < 4 then Inl UV_EINVAL else Inr tmp)"
| "pton4_loop (ch # src) saw_digit octets tmp =
     (case strchr decimal_digits ch of
        Some d \<Rightarrow>
          let nw = ucast (last tmp) * 10 + of_nat d :: uint32
          in if saw_digit \<and> last tmp = 0 then Inl UV_EINVAL
             else if nw > 255 then Inl UV_EINVAL
             else
               let tmp = butlast tmp @ [ucast nw]
               in if \<not> saw_digit then
                    if octets + 1 > 4 then Inl UV_EINVAL else pton4_loop src True (octets + 1) tmp
                  else pton4_loop src saw_digit octets tmp
      | None \<Rightarrow>
          if ch = CHR ''.'' \<and> saw_digit then
            if octets = 4 then Inl UV_EINVAL else pton4_loop src False octets (tmp @ [0])
          else Inl UV_EINVAL)"

definition inet_pton4 :: "string \<Rightarrow> int + uint8 list" where
  "inet_pton4 src = pton4_loop src False 0 [0]"

text \<open>The local variables of \<^verbatim>\<open>inet_pton6\<close>; \<^verbatim>\<open>tp\<close> and \<^verbatim>\<open>colonp\<close> are offsets into \<^verbatim>\<open>tmp\<close>.\<close>

record pton6 =
  tmp :: "uint8 list"
  tp :: nat
  colonp :: "nat option"
  curtok :: string
  seen_xdigits :: nat
  val :: uint32

definition put_word :: "pton6 \<Rightarrow> pton6" where
  "put_word p = p\<lparr>tmp := (tmp p)[tp p := ucast (drop_bit 8 (val p)), tp p + 1 := ucast (val p)], tp := tp p + 2\<rparr>"

definition xdigit :: "char \<Rightarrow> nat option" where
  "xdigit ch = (case strchr xdigits_l ch of None \<Rightarrow> strchr xdigits_u ch | Some d \<Rightarrow> Some d)"

fun pton6_loop :: "string \<Rightarrow> pton6 \<Rightarrow> int + pton6" where
  "pton6_loop [] p = Inr p"
| "pton6_loop (ch # src) p =
     (case xdigit ch of
        Some d \<Rightarrow>
          let p = p\<lparr>val := push_bit 4 (val p) OR of_nat d, seen_xdigits := seen_xdigits p + 1\<rparr>
          in if seen_xdigits p > 4 then Inl UV_EINVAL else pton6_loop src p
      | None \<Rightarrow>
          if ch = CHR '':'' then
            let p = p\<lparr>curtok := src\<rparr>
            in if seen_xdigits p = 0 then
                 if colonp p \<noteq> None then Inl UV_EINVAL else pton6_loop src (p\<lparr>colonp := Some (tp p)\<rparr>)
               else if src = [] then Inl UV_EINVAL
               else if tp p + 2 > 16 then Inl UV_EINVAL
               else pton6_loop src ((put_word p)\<lparr>seen_xdigits := 0, val := 0\<rparr>)
          else if ch = CHR ''.'' \<and> tp p + 4 \<le> 16 then
            case inet_pton4 (curtok p) of
              Inr d \<Rightarrow> Inr (p\<lparr>tmp := take (tp p) (tmp p) @ d @ drop (tp p + 4) (tmp p), tp := tp p + 4,
                             seen_xdigits := 0\<rparr>)
            | Inl _ \<Rightarrow> Inl UV_EINVAL
          else Inl UV_EINVAL)"

text \<open>The shift by hand: \<open>endp[-i] = colonp[n - i]; colonp[n - i] = 0\<close>.\<close>

definition shift_step :: "nat \<Rightarrow> nat \<Rightarrow> nat \<Rightarrow> uint8 list \<Rightarrow> uint8 list" where
  "shift_step c n i t = t[16 - i := t ! (c + n - i), c + n - i := 0]"

definition pton6_finish :: "pton6 \<Rightarrow> int + uint8 list" where
  "pton6_finish p =
     (if seen_xdigits p \<noteq> 0 \<and> tp p + 2 > 16 then Inl UV_EINVAL
      else
        let p = (if seen_xdigits p \<noteq> 0 then put_word p else p)
        in case colonp p of
             None \<Rightarrow> if tp p \<noteq> 16 then Inl UV_EINVAL else Inr (tmp p)
           | Some c \<Rightarrow>
               if tp p = 16 then Inl UV_EINVAL
               else let n = tp p - c in Inr (fold (shift_step c n) [1..<n + 1] (tmp p)))"

definition inet_pton6 :: "string \<Rightarrow> int + uint8 list" where
  "inet_pton6 src =
     (let run = (\<lambda>s. case pton6_loop s \<lparr>tmp = replicate 16 0, tp = 0, colonp = None, curtok = s,
                       seen_xdigits = 0, val = 0\<rparr> of
                 Inl err \<Rightarrow> Inl err
               | Inr p \<Rightarrow> pton6_finish p)
      in case src of
           ch # rest \<Rightarrow>
             if ch = CHR '':'' then
               (case rest of
                  ch2 # _ \<Rightarrow> if ch2 \<noteq> CHR '':'' then Inl UV_EINVAL else run rest
                | [] \<Rightarrow> Inl UV_EINVAL)
             else run src
         | [] \<Rightarrow> run src)"

text \<open>\<open>None\<close> is a null pointer; a zone after a percent sign is cut off.\<close>

definition uv_inet_pton :: "int \<Rightarrow> string option \<Rightarrow> nat option \<Rightarrow> int + uint8 list" where
  "uv_inet_pton af src dst =
     (case src of
        None \<Rightarrow> Inl UV_EINVAL
      | Some s \<Rightarrow>
          if dst = None then Inl UV_EINVAL
          else if af = AF_INET then inet_pton4 s
          else if af = AF_INET6 then
            (case strchr s (CHR ''%'') of
               None \<Rightarrow> inet_pton6 s
             | Some n \<Rightarrow> if n > UV__INET6_ADDRSTRLEN - 1 then Inl UV_EINVAL else inet_pton6 (take n s))
          else Inl UV_EAFNOSUPPORT)"

section \<open>Digits\<close>

lemma numeral_text_digit: "n < b \<Longrightarrow> numeral_text b n = [xdigits_l ! n]"
  by (simp add: numeral_text.simps)

lemma numeral_text_step: "2 \<le> b \<Longrightarrow> b \<le> n \<Longrightarrow> numeral_text b n = numeral_text b (n div b) @ [xdigits_l ! (n mod b)]"
  by (subst numeral_text.simps) simp

lemma numeral_text_nonempty [simp]: "numeral_text b n \<noteq> []" "0 < length (numeral_text b n)"
  by (subst numeral_text.simps, simp)+

lemma length_numeral_text:
  assumes "2 \<le> b" and "n < b ^ Suc k"
  shows "length (numeral_text b n) \<le> Suc k"
  using assms(2)
proof (induction k arbitrary: n)
  case 0
  then show ?case by (simp add: numeral_text_digit)
next
  case (Suc k)
  show ?case
  proof (cases "n < b")
    case False
    have "n div b < b ^ Suc k"
      using Suc.prems assms(1) by (simp add: less_mult_imp_div_less mult.commute)
    with Suc.IH [of "n div b"] False assms(1) show ?thesis by (simp add: numeral_text_step)
  qed (simp add: numeral_text_digit)
qed

lemma less_10_cases: "d < 10 \<Longrightarrow> d = 0 \<or> d = 1 \<or> d = 2 \<or> d = 3 \<or> d = 4 \<or> d = 5 \<or> d = 6 \<or> d = 7 \<or> d = 8 \<or> d = 9"
  for d :: nat by presburger

lemma less_16_cases: "d < 16 \<Longrightarrow> d < 10 \<or> d = 10 \<or> d = 11 \<or> d = 12 \<or> d = 13 \<or> d = 14 \<or> d = 15"
  for d :: nat by presburger

lemma strchr_decimal [simp]: "d < 10 \<Longrightarrow> strchr decimal_digits (xdigits_l ! d) = Some d"
  by (drule less_10_cases) (elim disjE; simp)

lemma xdigit_digit [simp]: "d < 16 \<Longrightarrow> xdigit (xdigits_l ! d) = Some d"
  by (drule less_16_cases) (elim disjE less_10_cases [elim_format]; simp add: xdigit_def)

lemma xdigit_colon [simp]: "xdigit (CHR '':'') = None" "xdigit (CHR ''.'') = None"
  by (simp_all add: xdigit_def)

lemma strchr_dot [simp]: "strchr decimal_digits (CHR ''.'') = None"
  by simp

lemma strchr_decimalD:
  assumes "strchr decimal_digits ch = Some d"
  shows "d < 10 \<and> ch = xdigits_l ! d"
  using assms by (auto split: if_splits)

section \<open>IPv4\<close>

text \<open>The canonical text of an IPv4 address.\<close>

definition dotted_quad :: "uint8 list \<Rightarrow> string" where
  "dotted_quad bs =
     fmt_u (unat (bs ! 0)) @ ''.'' @ fmt_u (unat (bs ! 1)) @ ''.'' @
     fmt_u (unat (bs ! 2)) @ ''.'' @ fmt_u (unat (bs ! 3))"

lemma fmt_u_byte_length: "length (fmt_u (unat b)) \<le> 3" for b :: uint8
  using length_numeral_text [of 10 "unat b" 2] unsigned_less [where ?'a = nat and w = b] by simp

lemma dotted_quad_length: "length (dotted_quad bs) \<le> 15" "7 \<le> length (dotted_quad bs)"
proof -
  have p: "1 \<le> length (fmt_u n)" for n using numeral_text_nonempty(2) [of 10 n] by linarith
  show "length (dotted_quad bs) \<le> 15" "7 \<le> length (dotted_quad bs)"
    using fmt_u_byte_length [of "bs ! 0"] fmt_u_byte_length [of "bs ! 1"] fmt_u_byte_length [of "bs ! 2"]
      fmt_u_byte_length [of "bs ! 3"] p [of "unat (bs ! 0)"] p [of "unat (bs ! 1)"] p [of "unat (bs ! 2)"]
      p [of "unat (bs ! 3)"]
    by (simp_all add: dotted_quad_def)
qed

lemma inet_ntop4_eq:
  "inet_ntop4 src sz =
     (if length (dotted_quad src) < sz
      then Inr (dotted_quad src @ replicate (sz - length (dotted_quad src)) NUL)
      else Inl UV_ENOSPC)"
proof -
  let ?t = "dotted_quad src"
  have l: "length ?t \<le> 15" "0 < length ?t" using dotted_quad_length [of src] by auto
  have "(?t @ replicate k NUL)[length ?t + k - 1 := NUL] = ?t @ replicate k NUL" if "0 < k" for k
    using that by (cases k) (simp_all add: replicate_append_same [symmetric] list_update_append)
  from this [of "sz - length ?t"]
  have "(strncpy ?t sz)[sz - 1 := NUL] = ?t @ replicate (sz - length ?t) NUL" if "length ?t < sz"
    using that by (simp add: strncpy_def)
  then show ?thesis
    unfolding inet_ntop4_def snprintf_def dotted_quad_def [symmetric] using l by simp
qed

lemma pton4_step:
  fixes b :: uint8
  assumes "unat b * 10 + d \<le> 255" and "d < 10"
  shows "\<not> 255 < (ucast b * 10 + of_nat d :: uint32)"
    and "(ucast (ucast b * 10 + of_nat d :: uint32) :: uint8) = of_nat (unat b * 10 + d)"
proof -
  have e: "(ucast b * 10 + of_nat d :: uint32) = of_nat (unat b * 10 + d)"
    by simp
  have u: "unat (of_nat (unat b * 10 + d) :: uint32) = unat b * 10 + d"
    using assms by (intro unat_of_nat_small) simp
  show "\<not> 255 < (ucast b * 10 + of_nat d :: uint32)"
    unfolding e word_less_nat_alt u using assms by simp
  show "(ucast (ucast b * 10 + of_nat d :: uint32) :: uint8) = of_nat (unat b * 10 + d)"
    unfolding e using u by (metis of_nat_unat)
qed

lemma pton4_loop_fmt_u:
  assumes "n < 256" and "k < 4"
  shows "pton4_loop (fmt_u n @ rest) False k (ts @ [0]) = pton4_loop rest True (Suc k) (ts @ [of_nat n])"
  using assms(1)
proof (induction n arbitrary: rest rule: less_induct)
  case (less n)
  show ?case
  proof (cases "n < 10")
    case True
    then show ?thesis
      using pton4_step [of 0 n] assms(2) less.prems by (simp add: numeral_text_digit Let_def del: strchr.simps)
  next
    case False
    let ?m = "n div 10"
    have m: "?m < 256" "?m < n" "0 < ?m" "n mod 10 < 10" using less.prems False by auto
    have um: "unat (of_nat ?m :: uint8) = ?m" using m by (intro unat_of_nat_small) simp
    have nz: "(of_nat ?m :: uint8) \<noteq> 0" using um m(3) by (metis gr_implies_not0 unat_0)
    have "?m * 10 + n mod 10 = n" by simp
    then show ?thesis
      using pton4_step [of "of_nat ?m" "n mod 10"] less.IH [OF m(2,1), of "(xdigits_l ! (n mod 10)) # rest"]
        less.prems m(4) um nz False
      by (simp add: numeral_text_step Let_def del: strchr.simps)
  qed
qed

lemma length_4E:
  assumes "length xs = 4"
  obtains a b c d where "xs = [a, b, c, d]"
  using assms that by (auto simp: eval_nat_numeral length_Suc_conv)

lemma pton4_loop_dot:
  assumes "k \<noteq> 4"
  shows "pton4_loop (CHR ''.'' # rest) True k ts = pton4_loop rest False k (ts @ [0])"
  using assms by simp

lemma inet_pton4_dotted_quad:
  assumes "length bs = 4"
  shows "inet_pton4 (dotted_quad bs) = Inr bs"
proof -
  obtain a b c d where bs: "bs = [a, b, c, d]"
    using assms by (rule length_4E)
  have byte: "unat x < 256" for x :: uint8 using unsigned_less [where ?'a = nat and w = x] by simp
  have "dotted_quad bs = fmt_u (unat a) @ CHR ''.'' # fmt_u (unat b) @ CHR ''.'' # fmt_u (unat c) @ CHR ''.'' #
      fmt_u (unat d) @ []"
    by (simp add: dotted_quad_def bs)
  then show ?thesis
    using pton4_loop_fmt_u [OF byte [of a], of 0 _ "[]"] pton4_loop_fmt_u [OF byte [of b], of 1 _ "[a]"]
      pton4_loop_fmt_u [OF byte [of c], of 2 _ "[a, b]"] pton4_loop_fmt_u [OF byte [of d], of 3 "[]" "[a, b, c]"]
    by (simp add: inet_pton4_def bs eval_nat_numeral del: strchr.simps)
qed

text \<open>
  What the parser has read, given its state: complete octets, each with its dot,
  and the digits of the octet it is in.
\<close>

definition pton4_read :: "bool \<Rightarrow> nat \<Rightarrow> uint8 list \<Rightarrow> string \<Rightarrow> bool" where
  "pton4_read saw octets ts t \<longleftrightarrow>
     ts \<noteq> [] \<and> length ts \<le> 4 \<and> octets = (if saw then length ts else length ts - 1) \<and> (\<not> saw \<longrightarrow> last ts = 0) \<and>
     t = concat (map (\<lambda>b. fmt_u (unat b) @ ''.'') (butlast ts)) @ (if saw then fmt_u (unat (last ts)) else [])"

lemma pton4_read_dot:
  assumes "pton4_read True octets ts t" and "octets \<noteq> 4"
  shows "pton4_read False octets (ts @ [0]) (t @ ''.'')"
proof -
  have "ts \<noteq> []" using assms(1) by (simp add: pton4_read_def)
  then obtain us u where "ts = us @ [u]" by (metis rev_exhaust)
  with assms show ?thesis by (simp add: pton4_read_def butlast_append)
qed

lemma pton4_read_digit:
  assumes r: "pton4_read saw octets ts t" and d: "d < 10" and z: "\<not> (saw \<and> last ts = 0)"
    and nw: "\<not> 255 < (ucast (last ts) * 10 + of_nat d :: uint32)"
  shows "pton4_read True (if saw then octets else octets + 1)
      (butlast ts @ [ucast (ucast (last ts) * 10 + of_nat d :: uint32)]) (t @ [xdigits_l ! d])"
proof -
  have b: "unat (last ts) < 256" using unsigned_less [where ?'a = nat and w = "last ts"] by simp
  have "(ucast (last ts) * 10 + of_nat d :: uint32) = of_nat (unat (last ts) * 10 + d)" by simp
  moreover have "unat (of_nat (unat (last ts) * 10 + d) :: uint32) = unat (last ts) * 10 + d"
    using b d by (intro unat_of_nat_small) simp
  ultimately have le: "unat (last ts) * 10 + d \<le> 255" using nw by (simp add: word_less_nat_alt)
  then have u: "unat (of_nat (unat (last ts) * 10 + d) :: uint8) = unat (last ts) * 10 + d"
    by (intro unat_of_nat_small) simp
  have "fmt_u (unat (last ts) * 10 + d) = (if saw then fmt_u (unat (last ts)) else []) @ [xdigits_l ! d]"
  proof (cases saw)
    case True
    then have "0 < unat (last ts)" using z by (simp add: unat_gt_0)
    with True d show ?thesis by (simp add: numeral_text_step)
  next
    case False
    then have "last ts = 0" using r by (simp add: pton4_read_def)
    with False d show ?thesis by (simp add: numeral_text_digit)
  qed
  then show ?thesis
    using r u pton4_step(2) [OF le d] by (cases saw) (auto simp: pton4_read_def length_Suc_conv Suc_diff_le)
qed

lemma pton4_loop_sound:
  "pton4_read saw octets ts t \<Longrightarrow> pton4_loop s saw octets ts = Inr bs \<Longrightarrow> length bs = 4 \<and> t @ s = dotted_quad bs"
proof (induction s arbitrary: saw octets ts t)
  case Nil
  then have l: "length ts = 4" "saw" "bs = ts" by (auto simp: pton4_read_def split: if_splits)
  obtain a b c d where "ts = [a, b, c, d]" using l(1) by (rule length_4E)
  with Nil.prems(1) l show ?case by (simp add: pton4_read_def dotted_quad_def)
next
  case (Cons ch s)
  show ?case
  proof (cases "strchr decimal_digits ch")
    case None
    then have c: "ch = CHR ''.''" "saw" "octets \<noteq> 4" "pton4_loop s False octets (ts @ [0]) = Inr bs"
      using Cons.prems(2) by (auto split: if_splits simp del: strchr.simps)
    from Cons.IH [OF pton4_read_dot c(4)] show ?thesis using Cons.prems(1) c by simp
  next
    case (Some d)
    let ?nw = "ucast (last ts) * 10 + of_nat d :: uint32" and ?o = "if saw then octets else octets + 1"
    have "\<not> (saw \<and> last ts = 0)" "\<not> 255 < ?nw" and run: "pton4_loop s True ?o (butlast ts @ [ucast ?nw]) = Inr bs"
      using Cons.prems(2) Some by (auto simp: Let_def split: if_splits simp del: strchr.simps)
    with pton4_read_digit [OF Cons.prems(1)] strchr_decimalD [OF Some]
    have "pton4_read True ?o (butlast ts @ [ucast ?nw]) (t @ [ch])" by simp
    from Cons.IH [OF this run] show ?thesis by simp
  qed
qed

lemma pton4_loop_error: "pton4_loop s saw octets ts = Inl e \<Longrightarrow> e = UV_EINVAL"
  by (induction s arbitrary: saw octets ts) (auto simp: Let_def split: option.splits if_splits simp del: strchr.simps)

text \<open>
  Property C26. \<^verbatim>\<open>inet_pton4\<close> accepts exactly the canonical dotted quads, four decimal
  numbers up to 255 without leading zeros, and returns their octets; on every other
  string it returns \<^verbatim>\<open>UV_EINVAL\<close>.\<close>

theorem inet_pton4_canonical:
  "(inet_pton4 s = Inr bs \<longleftrightarrow> length bs = 4 \<and>
      s = fmt_u (unat (bs ! 0)) @ ''.'' @ fmt_u (unat (bs ! 1)) @ ''.'' @
          fmt_u (unat (bs ! 2)) @ ''.'' @ fmt_u (unat (bs ! 3))) \<and>
   (inet_pton4 s = Inl e \<longleftrightarrow> e = UV_EINVAL \<and> (\<nexists>bs. length bs = 4 \<and> s = dotted_quad bs))"
proof -
  have iff: "inet_pton4 s = Inr bs \<longleftrightarrow> length bs = 4 \<and> s = dotted_quad bs" for bs
    using inet_pton4_dotted_quad [of bs] pton4_loop_sound [of False 0 "[0]" "[]" s bs]
    by (auto simp: inet_pton4_def pton4_read_def)
  have "inet_pton4 s = Inl e \<longleftrightarrow> e = UV_EINVAL \<and> (\<nexists>bs. inet_pton4 s = Inr bs)"
    using pton4_loop_error [of s False 0 "[0]"] by (cases "inet_pton4 s") (auto simp: inet_pton4_def)
  then show ?thesis
    unfolding iff by (simp add: dotted_quad_def)
qed

section \<open>Parsing IPv6\<close>

definition wbytes :: "uint32 \<Rightarrow> uint8 list" where
  "wbytes w = [ucast (drop_bit 8 w), ucast w]"

lemma length_wbytes [simp]: "length (wbytes w) = 2" "length (concat (map wbytes ws)) = 2 * length ws"
  by (simp_all add: wbytes_def length_concat comp_def sum_list_triv)

text \<open>The parser between two tokens, having written the bytes \<open>bs\<close>.\<close>

definition pstate :: "uint8 list \<Rightarrow> nat option \<Rightarrow> string \<Rightarrow> pton6" where
  "pstate bs c tok = \<lparr>tmp = bs @ replicate (16 - length bs) 0, tp = length bs, colonp = c, curtok = tok,
     seen_xdigits = 0, val = 0\<rparr>"

lemma hex_step:
  assumes "d < 16"
  shows "push_bit 4 (of_nat m :: uint32) OR of_nat d = of_nat (16 * m + d)"
proof -
  have "push_bit 4 m AND d = 0"
  proof (rule bit_eqI)
    fix n
    have "take_bit 4 d = d" using assms by (simp add: take_bit_nat_eq_self_iff)
    then have "bit d n \<Longrightarrow> n < 4" by (metis bit_take_bit_iff)
    then show "bit (push_bit 4 m AND d) n = bit 0 n" by (auto simp: bit_simps)
  qed
  then have "push_bit 4 m + d = push_bit 4 m OR d" by (rule disjunctive_add_eq_or)
  then have "of_nat (push_bit 4 m OR d) = (of_nat (16 * m + d) :: uint32)"
    by (simp add: push_bit_eq_mult mult.commute flip: \<open>push_bit 4 m + d = push_bit 4 m OR d\<close>)
  then show ?thesis by (simp add: of_nat_or_eq of_nat_push_bit)
qed

text \<open>One hexadecimal number, as \<^verbatim>\<open>%x\<close> prints it, is read back.\<close>

lemma pton6_loop_fmt_x:
  assumes "n < 16 ^ 4" and "seen_xdigits p = 0" and "val p = 0"
  shows "pton6_loop (fmt_x n @ rest) p =
    pton6_loop rest (p\<lparr>val := of_nat n, seen_xdigits := length (fmt_x n)\<rparr>)"
  using assms(1)
proof (induction n arbitrary: rest rule: less_induct)
  case (less n)
  show ?case
  proof (cases "n < 16")
    case True
    then show ?thesis using hex_step [of n 0] assms(2,3) by (simp add: numeral_text_digit)
  next
    case False
    let ?m = "n div 16"
    have m: "?m < 16 ^ 4" "?m < n" using less.prems False by auto
    have "length (fmt_x n) \<le> 4" using length_numeral_text [of 16 n 3] less.prems by simp
    then have "Suc (length (fmt_x ?m)) \<le> 4" using False by (simp add: numeral_text_step)
    moreover have "16 * ?m + n mod 16 = n" by simp
    ultimately show ?thesis
      using less.IH [OF m(2,1), of "(xdigits_l ! (n mod 16)) # rest"] False hex_step [of "n mod 16" ?m]
      by (simp add: numeral_text_step)
  qed
qed

text \<open>The numbers \<open>ws\<close>, separated by colons.\<close>

fun colon_join :: "uint32 list \<Rightarrow> string" where
  "colon_join [] = []"
| "colon_join [w] = fmt_x (unat w)"
| "colon_join (w # v # ws) = fmt_x (unat w) @ '':'' @ colon_join (v # ws)"

definition pton6_run :: "string \<Rightarrow> pton6 \<Rightarrow> int + uint8 list" where
  "pton6_run s p = (case pton6_loop s p of Inl e \<Rightarrow> Inl e | Inr p \<Rightarrow> pton6_finish p)"

lemma put_word_pstate:
  assumes "length bs + 2 \<le> 16"
  shows "put_word ((pstate bs c tok)\<lparr>val := w, seen_xdigits := k\<rparr>) =
    (pstate (bs @ wbytes w) c tok)\<lparr>val := w, seen_xdigits := k\<rparr>"
proof -
  have "16 - length bs = Suc (Suc (14 - length bs))" using assms by linarith
  then show ?thesis
    by (simp add: put_word_def pstate_def wbytes_def list_update_append)
qed

lemma pton6_word_colon:
  assumes "unat w < 65536" and "length bs + 2 \<le> 16" and "rest \<noteq> []"
  shows "pton6_loop (fmt_x (unat w) @ '':'' @ rest) (pstate bs c tok) = pton6_loop rest (pstate (bs @ wbytes w) c rest)"
proof -
  have "pton6_loop (fmt_x (unat w) @ '':'' @ rest) (pstate bs c tok) =
      pton6_loop ('':'' @ rest) ((pstate bs c tok)\<lparr>val := w, seen_xdigits := length (fmt_x (unat w))\<rparr>)"
    using assms(1) pton6_loop_fmt_x [of "unat w" "pstate bs c tok"] by (simp add: pstate_def)
  also have "\<dots> = pton6_loop rest (pstate (bs @ wbytes w) c rest)"
    using assms(2,3) put_word_pstate [where bs = bs and c = c and tok = rest and w = w] by (simp add: pstate_def)
  finally show ?thesis .
qed

lemma pton6_last_word:
  assumes "unat w < 65536" and "length bs + 2 \<le> 16"
  shows "pton6_run (fmt_x (unat w)) (pstate bs c tok) = pton6_finish (pstate (bs @ wbytes w) c tok)"
proof -
  let ?p = "(pstate bs c tok)\<lparr>val := w, seen_xdigits := length (fmt_x (unat w))\<rparr>"
  have "pton6_loop (fmt_x (unat w) @ []) (pstate bs c tok) = Inr ?p"
    using assms(1) pton6_loop_fmt_x [of "unat w" "pstate bs c tok" "[]"] by (simp add: pstate_def)
  then have "pton6_run (fmt_x (unat w)) (pstate bs c tok) = pton6_finish ?p" by (simp add: pton6_run_def)
  also have "\<dots> = pton6_finish (pstate (bs @ wbytes w) c tok)"
    using put_word_pstate [OF assms(2), where c = c and tok = tok and w = w and k = "length (fmt_x (unat w))"] assms(2)
    by (cases c) (simp_all add: pton6_finish_def pstate_def Let_def del: upt_Suc)
  finally show ?thesis .
qed

lemma pton6_finish_tok: "pton6_finish (pstate bs c tok) = pton6_finish (pstate bs c tok')"
  by (simp add: pton6_finish_def pstate_def Let_def cong: option.case_cong)

text \<open>The tail of an address.\<close>

lemma pton6_run_join:
  assumes "\<forall>w\<in>set ws. unat w < 65536" and "length bs + 2 * length ws \<le> 16"
  shows "pton6_run (colon_join ws) (pstate bs c tok) = pton6_finish (pstate (bs @ concat (map wbytes ws)) c tok)"
  using assms
proof (induction ws arbitrary: bs tok rule: colon_join.induct)
  case 1
  then show ?case by (simp add: pton6_run_def)
next
  case (2 w)
  then show ?case using pton6_last_word [of w bs c tok] by simp
next
  case (3 w v ws)
  have ne: "colon_join (v # ws) \<noteq> []" by (cases ws) auto
  have "pton6_run (colon_join (w # v # ws)) (pstate bs c tok) =
      pton6_run (colon_join (v # ws)) (pstate (bs @ wbytes w) c (colon_join (v # ws)))"
    using pton6_word_colon [of w bs "colon_join (v # ws)" c tok] ne "3.prems" by (simp add: pton6_run_def)
  then show ?case using "3.IH" [of "bs @ wbytes w"] "3.prems" pton6_finish_tok by simp
qed

text \<open>The gap is moved by hand, from the end, so that source and target may overlap.\<close>

lemma shift_once:
  assumes "16 - i = length P + Suc y" and "c + n - i = length P"
  shows "shift_step c n i (P @ x # replicate y 0 @ 0 # Q) = P @ 0 # replicate y 0 @ x # Q"
proof -
  have "(P @ x # replicate y 0 @ 0 # Q)[length P + Suc y := x] = P @ x # replicate y 0 @ x # Q"
    by (simp add: list_update_append)
  then show ?thesis unfolding shift_step_def assms by simp
qed

lemma shift_loop:
  assumes "length A + length B + z = 16" and "0 < z" and "i \<le> length B"
  shows "fold (shift_step (length A) (length B)) [1..<i + 1] (A @ B @ replicate z 0) =
    A @ take (length B - i) B @ replicate z 0 @ drop (length B - i) B"
  using assms(3)
proof (induction i)
  case (Suc i)
  let ?k = "length B - Suc i"
  have k: "length B - i = Suc ?k" "?k < length B" using Suc.prems by auto
  obtain y where z: "z = Suc y" using assms(2) gr0_implies_Suc by blast
  define P Q where "P = A @ take ?k B" and "Q = drop (length B - i) B"
  have len: "length P = length A + ?k" "16 - Suc i = length P + Suc y"
    using assms(1) Suc.prems z by (auto simp: P_def)
  have t: "A @ take (length B - i) B @ replicate z 0 @ drop (length B - i) B =
      P @ B ! ?k # replicate y 0 @ 0 # Q"
    using k by (simp add: P_def Q_def z take_Suc_conv_app_nth replicate_app_Cons_same replicate_append_same)
  have d: "drop ?k B = B ! ?k # Q" using k by (metis Cons_nth_drop_Suc Q_def)
  have "shift_step (length A) (length B) (Suc i) (P @ B ! ?k # replicate y 0 @ 0 # Q) =
      P @ 0 # replicate y 0 @ B ! ?k # Q"
    using len k by (intro shift_once) auto
  then show ?case using Suc t d by (simp add: P_def z)
qed simp

lemma pton6_finish_plain: "length bs = 16 \<Longrightarrow> pton6_finish (pstate bs None tok) = Inr bs"
  by (simp add: pton6_finish_def pstate_def)

lemma pton6_finish_gap:
  assumes "length A + length B < 16"
  shows "pton6_finish (pstate (A @ B) (Some (length A)) tok) = Inr (A @ replicate (16 - length (A @ B)) 0 @ B)"
  using shift_loop [of A B "16 - length (A @ B)" "length B"] assms
  by (simp add: pton6_finish_def pstate_def Let_def del: upt_Suc)

lemma fmt_x_hd: "hd (fmt_x n) \<noteq> CHR '':''" "fmt_x n = ch # s \<Longrightarrow> ch \<noteq> CHR '':''"
proof -
  show "hd (fmt_x n) \<noteq> CHR '':''"
  proof (induction n rule: less_induct)
    case (less n)
    have "n < 16 \<Longrightarrow> xdigits_l ! n \<noteq> CHR '':''" for n
      using xdigit_digit [of n] xdigit_colon by (metis option.distinct(1))
    with less.IH [of "n div 16"] show ?case
      by (cases "n < 16") (simp_all add: numeral_text_digit numeral_text_step)
  qed
  then show "fmt_x n = ch # s \<Longrightarrow> ch \<noteq> CHR '':''" by (metis list.sel(1))
qed

lemma colon_join_hd:
  assumes "ws \<noteq> []"
  obtains ch s where "colon_join ws = ch # s" and "ch \<noteq> CHR '':''"
proof -
  obtain ch s where "fmt_x (unat (hd ws)) = ch # s" by (meson neq_Nil_conv numeral_text_nonempty(1))
  then have "\<exists>t. colon_join ws = ch # t" using assms by (cases ws rule: colon_join.cases) auto
  with that fmt_x_hd(2) \<open>fmt_x (unat (hd ws)) = ch # s\<close> show thesis by blast
qed

lemma inet_pton6_run:
  "ch \<noteq> CHR '':'' \<Longrightarrow> inet_pton6 (ch # s) = pton6_run (ch # s) (pstate [] None (ch # s))"
  "inet_pton6 (CHR '':'' # CHR '':'' # s) = pton6_run ('':'' @ s) (pstate [] None ('':'' @ s))"
  by (simp_all add: inet_pton6_def pton6_run_def pstate_def del: pton6_loop.simps)

lemma pton6_colon: "pton6_run (CHR '':'' # s) (pstate bs None tok) = pton6_run s (pstate bs (Some (length bs)) s)"
  by (simp add: pton6_run_def pstate_def)

text \<open>The numbers before a double colon.\<close>

lemma pton6_run_prefix:
  assumes "\<forall>w\<in>set ws. unat w < 65536" and "length bs + 2 * length ws \<le> 16" and "ws \<noteq> []"
  shows "pton6_run (colon_join ws @ ''::'' @ s) (pstate bs None tok) =
    pton6_run s (pstate (bs @ concat (map wbytes ws)) (Some (length bs + 2 * length ws)) s)"
  using assms
proof (induction ws arbitrary: bs tok rule: colon_join.induct)
  case (2 w)
  then show ?case
    using pton6_word_colon [of w bs "'':'' @ s" None tok] pton6_colon [of s "bs @ wbytes w"]
    by (simp add: pton6_run_def)
next
  case (3 w v ws)
  have "pton6_run (colon_join (w # v # ws) @ ''::'' @ s) (pstate bs None tok) =
      pton6_run (colon_join (v # ws) @ ''::'' @ s) (pstate (bs @ wbytes w) None (colon_join (v # ws) @ ''::'' @ s))"
    using pton6_word_colon [of w bs "colon_join (v # ws) @ ''::'' @ s" None tok] "3.prems" by (simp add: pton6_run_def)
  then show ?case using "3.IH" [of "bs @ wbytes w"] "3.prems" by (simp add: numeral_2_eq_2)
qed simp

lemma inet_pton6_plain:
  assumes "\<forall>w\<in>set ws. unat w < 65536" and "length ws = 8"
  shows "inet_pton6 (colon_join ws) = Inr (concat (map wbytes ws))"
proof -
  have "ws \<noteq> []" using assms(2) by auto
  then obtain ch s where c: "colon_join ws = ch # s" "ch \<noteq> CHR '':''" by (rule colon_join_hd)
  then have "inet_pton6 (colon_join ws) = pton6_run (colon_join ws) (pstate [] None (colon_join ws))"
    using inet_pton6_run(1) by simp
  then show ?thesis
    using pton6_run_join [OF assms(1), of "[]"] assms(2) by (simp add: pton6_finish_plain)
qed

lemma inet_pton6_double_colon:
  assumes "\<forall>w\<in>set us. unat w < 65536" and "length us \<le> 8"
  shows "inet_pton6 (colon_join us @ ''::'' @ s) =
    pton6_run s (pstate (concat (map wbytes us)) (Some (2 * length us)) s)"
proof (cases "us = []")
  case True
  then show ?thesis using inet_pton6_run(2) pton6_colon [of s "[]"] by simp
next
  case False
  then obtain ch t where c: "colon_join us = ch # t" "ch \<noteq> CHR '':''" by (rule colon_join_hd)
  then show ?thesis
    using inet_pton6_run(1) [of ch "t @ ''::'' @ s"] pton6_run_prefix [OF assms(1) _ False, of "[]" s] assms(2) by simp
qed

lemma inet_pton6_gap:
  assumes "\<forall>w\<in>set us. unat w < 65536" and "\<forall>w\<in>set vs. unat w < 65536" and "length us + length vs < 8"
  shows "inet_pton6 (colon_join us @ ''::'' @ colon_join vs) =
    Inr (concat (map wbytes us) @ replicate (16 - 2 * (length us + length vs)) 0 @ concat (map wbytes vs))"
proof -
  have "inet_pton6 (colon_join us @ ''::'' @ colon_join vs) =
      pton6_run (colon_join vs) (pstate (concat (map wbytes us)) (Some (2 * length us)) (colon_join vs))"
    using inet_pton6_double_colon [OF assms(1)] assms(3) by simp
  also have "\<dots> = pton6_finish (pstate (concat (map wbytes us) @ concat (map wbytes vs)) (Some (2 * length us)) (colon_join vs))"
    using pton6_run_join [OF assms(2)] assms(3) by simp
  finally show ?thesis
    using pton6_finish_gap [of "concat (map wbytes us)" "concat (map wbytes vs)"] assms(3) by simp
qed

text \<open>An IPv4 address at the end: its first number is read as hexadecimal digits until the dot.\<close>

lemma numeral_text_digits: "ch \<in> set (fmt_u n) \<Longrightarrow> \<exists>d<10. ch = xdigits_l ! d"
proof (induction n rule: less_induct)
  case (less n)
  show ?case
  proof (cases "n < 10")
    case False
    then have "ch \<in> set (fmt_u (n div 10)) \<or> ch = xdigits_l ! (n mod 10)"
      using less.prems by (auto simp: numeral_text_step)
    moreover have "n mod 10 < 10" by simp
    ultimately show ?thesis using less.IH [of "n div 10"] False by fastforce
  qed (use less.prems in \<open>auto simp: numeral_text_digit\<close>)
qed

lemma pton6_loop_digits:
  assumes "\<forall>ch\<in>set ds. \<exists>d<10. ch = xdigits_l ! d" and "seen_xdigits p + length ds \<le> 4"
  shows "\<exists>v. pton6_loop (ds @ rest) p = pton6_loop rest (p\<lparr>val := v, seen_xdigits := seen_xdigits p + length ds\<rparr>)"
  using assms
proof (induction ds arbitrary: p)
  case Nil
  show ?case by (rule exI [of _ "val p"]) simp
next
  case (Cons ch ds)
  obtain d where d: "d < 10" "ch = xdigits_l ! d" using Cons.prems(1) by auto
  let ?p = "p\<lparr>val := push_bit 4 (val p) OR of_nat d, seen_xdigits := seen_xdigits p + 1\<rparr>"
  have "xdigit ch = Some d" using d by simp
  then have "pton6_loop ((ch # ds) @ rest) p = pton6_loop (ds @ rest) ?p"
    using Cons.prems(2) by (simp add: Let_def)
  moreover obtain v where "pton6_loop (ds @ rest) ?p = pton6_loop rest (?p\<lparr>val := v, seen_xdigits := seen_xdigits ?p + length ds\<rparr>)"
    using Cons.IH [of ?p] Cons.prems by auto
  ultimately show ?case by (intro exI [of _ v]) simp
qed

lemma pton6_run_quad:
  assumes "length d = 4" and "length bs + 4 \<le> 16"
  shows "pton6_run (dotted_quad d) (pstate bs c (dotted_quad d)) = pton6_finish (pstate (bs @ d) c tok)"
proof -
  let ?p = "pstate bs c (dotted_quad d)"
  obtain t where t: "dotted_quad d = fmt_u (unat (d ! 0)) @ CHR ''.'' # t" by (simp add: dotted_quad_def)
  have s: "seen_xdigits ?p + length (fmt_u (unat (d ! 0))) \<le> 4"
    using fmt_u_byte_length [of "d ! 0"] by (simp add: pstate_def)
  obtain v where v: "pton6_loop (fmt_u (unat (d ! 0)) @ CHR ''.'' # t) ?p =
      pton6_loop (CHR ''.'' # t) (?p\<lparr>val := v, seen_xdigits := seen_xdigits ?p + length (fmt_u (unat (d ! 0)))\<rparr>)"
    using pton6_loop_digits [OF _ s] numeral_text_digits by blast
  have "pton6_loop (dotted_quad d) ?p = Inr ((pstate (bs @ d) c (dotted_quad d))\<lparr>val := v\<rparr>)"
    unfolding t [THEN arg_cong, of "\<lambda>x. pton6_loop x ?p"] v
    using assms by (simp add: pstate_def inet_pton4_dotted_quad del: strchr.simps)
  moreover have "pton6_finish ((pstate (bs @ d) c (dotted_quad d))\<lparr>val := v\<rparr>) = pton6_finish (pstate (bs @ d) c tok)"
    by (cases c) (simp_all add: pton6_finish_def pstate_def Let_def del: upt_Suc)
  ultimately show ?thesis by (simp add: pton6_run_def)
qed

lemma pton6_run_join_quad:
  assumes "\<forall>w\<in>set ws. unat w < 65536" and "length bs + 2 * length ws + 4 \<le> 16" and "length d = 4"
  shows "pton6_run (concat (map (\<lambda>w. fmt_x (unat w) @ '':'') ws) @ dotted_quad d) (pstate bs c
      (concat (map (\<lambda>w. fmt_x (unat w) @ '':'') ws) @ dotted_quad d)) =
    pton6_finish (pstate (bs @ concat (map wbytes ws) @ d) c [])"
  using assms
proof (induction ws arbitrary: bs)
  case Nil
  then show ?case using pton6_run_quad [of d bs c "[]"] by simp
next
  case (Cons w ws)
  let ?s = "concat (map (\<lambda>w. fmt_x (unat w) @ '':'') ws) @ dotted_quad d"
  have "?s \<noteq> []" using dotted_quad_length(2) [of d] by auto
  then have "pton6_run (concat (map (\<lambda>w. fmt_x (unat w) @ '':'') (w # ws)) @ dotted_quad d) (pstate bs c tok) =
      pton6_run ?s (pstate (bs @ wbytes w) c ?s)" for tok
    using pton6_word_colon [of w bs ?s c tok] Cons.prems by (simp add: pton6_run_def)
  then show ?case using Cons.IH [of "bs @ wbytes w"] Cons.prems by simp
qed

lemma inet_pton6_quad:
  assumes "\<forall>w\<in>set ws. unat w < 65536" and "length ws \<le> 5" and "length d = 4"
  shows "inet_pton6 (''::'' @ concat (map (\<lambda>w. fmt_x (unat w) @ '':'') ws) @ dotted_quad d) =
    Inr (replicate (12 - 2 * length ws) 0 @ concat (map wbytes ws) @ d)"
  using inet_pton6_double_colon [of "[]"] pton6_run_join_quad [OF assms(1) _ assms(3), of "[]" "Some 0"] assms
    pton6_finish_gap [of "[]" "concat (map wbytes ws) @ d"]
  by simp

section \<open>Printing IPv6\<close>

definition pair_word :: "uint8 \<Rightarrow> uint8 \<Rightarrow> uint32" where
  "pair_word a b = push_bit 8 (ucast a) OR ucast b"

lemma wbytes_pair_word: "wbytes (pair_word a b) = [a, b]"
proof -
  have "ucast (drop_bit 8 (pair_word a b)) = a"
    by (rule bit_word_eqI) (auto simp: pair_word_def bit_simps dest: bit_imp_le_length)
  moreover have "ucast (pair_word a b) = b"
    by (rule bit_word_eqI) (auto simp: pair_word_def bit_simps)
  ultimately show ?thesis by (simp add: wbytes_def)
qed

lemma pair_word_less: "unat (pair_word a b) < 65536"
proof -
  have "take_bit 16 (pair_word a b) = pair_word a b"
    by (rule bit_word_eqI) (auto simp: pair_word_def bit_simps dest: bit_imp_le_length)
  then have "unat (pair_word a b) < 2 ^ 16" unfolding unat_less_power_iff_take_bit .
  then show ?thesis by simp
qed

lemma ntop6_words_eq: "ntop6_words src = map (\<lambda>k. pair_word (src ! (2 * k)) (src ! (2 * k + 1))) [0..<8]"
proof -
  have bytes: "[0..<16] = [0, 1, 2, 3, 4, 5, 6, 7, 8, 9, 10, 11, 12, 13, 14, 15]" by (simp add: upt_rec)
  have words: "replicate 8 0 = [0, 0, 0, 0, 0, 0, 0, 0 :: uint32]" by (simp add: eval_nat_numeral)
  have idx: "[0..<8] = [0, 1, 2, 3, 4, 5, 6, 7]" by (simp add: upt_rec)
  show ?thesis unfolding ntop6_words_def pair_word_def bytes words idx by simp
qed

lemma ntop6_words_bound: "length (ntop6_words src) = 8" "\<forall>w\<in>set (ntop6_words src). unat w < 65536"
  by (auto simp: ntop6_words_eq pair_word_less)

lemma ntop6_words_bytes:
  assumes "length src = 16"
  shows "concat (map wbytes (ntop6_words src)) = src"
proof -
  have "concat (map wbytes (ntop6_words src)) = map ((!) src) [0..<16]"
    by (simp add: ntop6_words_eq wbytes_pair_word comp_def upt_rec) (simp add: eval_nat_numeral)
  then show ?thesis using assms by (metis map_nth)
qed

text \<open>The words from \<open>b\<close> on, \<open>l\<close> of them, are zero.\<close>

definition zeros :: "uint32 list \<Rightarrow> nat \<Rightarrow> nat \<Rightarrow> bool" where
  "zeros ws b l \<longleftrightarrow> (\<forall>j. b \<le> j \<and> j < b + l \<longrightarrow> ws ! j = 0)"

definition run_len :: "zero_run \<Rightarrow> int" where
  "run_len r = (if base r = - 1 then 0 else len r)"

definition run_at :: "uint32 list \<Rightarrow> nat \<Rightarrow> zero_run \<Rightarrow> bool" where
  "run_at ws i r \<longleftrightarrow> base r = - 1 \<or>
     (\<exists>b l. base r = int b \<and> len r = int l \<and> 1 \<le> l \<and> b + l \<le> i \<and> zeros ws b l)"

text \<open>
  After \<open>i\<close> words, \<open>cur\<close> is the run that ends there and the longer of \<open>best\<close> and
  \<open>cur\<close> is a longest run.
\<close>

definition run_inv :: "uint32 list \<Rightarrow> nat \<Rightarrow> zero_run \<times> zero_run \<Rightarrow> bool" where
  "run_inv ws i s \<longleftrightarrow> (case s of (best, cur) \<Rightarrow>
     run_at ws i best \<and> run_at ws i cur \<and> (base cur \<noteq> - 1 \<longrightarrow> base cur + len cur = int i) \<and>
     (\<forall>b l. b + l = i \<and> zeros ws b l \<longrightarrow> int l \<le> run_len cur) \<and>
     (\<forall>b l. b + l \<le> i \<and> zeros ws b l \<longrightarrow> int l \<le> max (run_len best) (run_len cur)))"

lemma run_at_mono: "run_at ws i r \<Longrightarrow> run_at ws (Suc i) r"
  by (auto simp: run_at_def)

lemma run_at_len: "run_at ws i r \<Longrightarrow> 0 \<le> run_len r"
  by (auto simp: run_at_def run_len_def)

lemma zeros_Suc: "zeros ws b (Suc l) \<longleftrightarrow> zeros ws b l \<and> ws ! (b + l) = 0"
  by (auto simp: zeros_def less_Suc_eq)

lemma zeros_0 [simp]: "zeros ws b 0"
  by (auto simp: zeros_def)

lemma run_step_inv:
  assumes "run_inv ws i (best, cur)"
  shows "run_inv ws (Suc i) (run_step ws i (best, cur))"
proof (cases "ws ! i = 0")
  case True
  define cur' where "cur' = (if base cur = - 1 then \<lparr>base = int i, len = 1\<rparr> else cur\<lparr>len := len cur + 1\<rparr>)"
  have cur: "run_at ws i cur" and ends: "base cur \<noteq> - 1 \<longrightarrow> base cur + len cur = int i"
    using assms by (auto simp: run_inv_def)
  have l: "run_len cur' = run_len cur + 1" using cur by (auto simp: cur'_def run_len_def run_at_def)
  have r: "run_at ws (Suc i) cur'"
  proof (cases "base cur = - 1")
    case True
    then show ?thesis using \<open>ws ! i = 0\<close>
      by (auto simp: cur'_def run_at_def zeros_Suc intro!: exI [of _ i] exI [of _ "Suc 0"])
  next
    case False
    then obtain b l where b: "base cur = int b" "len cur = int l" "zeros ws b l" "b + l = i"
      using cur ends by (auto simp: run_at_def)
    then show ?thesis using False \<open>ws ! i = 0\<close>
      by (auto simp: cur'_def run_at_def zeros_Suc intro!: exI [of _ b] exI [of _ "Suc l"])
  qed
  have ends': "base cur' + len cur' = int (Suc i)" using ends by (simp add: cur'_def)
  have here: "int m \<le> run_len cur'" if "b + m = Suc i" "zeros ws b m" for b m
  proof (cases m)
    case (Suc k)
    then have "int k \<le> run_len cur" using that assms by (auto simp: run_inv_def zeros_Suc)
    with Suc l show ?thesis by simp
  qed (use run_at_len [OF cur] l in simp)
  have "int m \<le> max (run_len best) (run_len cur')" if "b + m \<le> Suc i" "zeros ws b m" for b m
  proof (cases "b + m = Suc i")
    case False
    then have "b + m \<le> i" using that by simp
    then have "int m \<le> max (run_len best) (run_len cur)" using that assms unfolding run_inv_def by blast
    with l show ?thesis by linarith
  qed (use here [of b m] that in simp)
  then have "run_inv ws (Suc i) (best, cur')"
    using assms r ends' here run_at_mono by (auto simp: run_inv_def)
  then show ?thesis using True by (simp add: run_step_def cur'_def split: if_splits)
next
  case False
  define best' where "best' = (if base cur \<noteq> - 1 \<and> (base best = - 1 \<or> len cur > len best) then cur else best)"
  have b: "run_at ws i best" "run_at ws i cur" using assms by (auto simp: run_inv_def)
  have l: "run_len best' = max (run_len best) (run_len cur)"
    using run_at_len [OF b(1)] run_at_len [OF b(2)] by (auto simp: best'_def run_len_def)
  have z: "m = 0" if "b + m = Suc i" "zeros ws b m" for b m
    using that False by (cases m) (auto simp: zeros_Suc)
  have "int m \<le> run_len best'" if "b + m \<le> Suc i" "zeros ws b m" for b m
  proof (cases "b + m = Suc i")
    case True
    then have "m = 0" using z that by blast
    then show ?thesis using l run_at_len [OF b(1)] by simp
  next
    case False
    then have "b + m \<le> i" using that by simp
    then show ?thesis using that assms unfolding run_inv_def l by blast
  qed
  moreover have "run_at ws (Suc i) best'" using b run_at_mono by (simp add: best'_def)
  ultimately have "run_inv ws (Suc i) (best', cur\<lparr>base := - 1\<rparr>)"
    using z by (auto simp: run_inv_def run_at_def run_len_def)
  moreover have "base cur = - 1 \<Longrightarrow> cur\<lparr>base := - 1\<rparr> = cur" by (cases cur) simp
  ultimately show ?thesis using False by (cases "base cur = - 1") (auto simp: run_step_def best'_def)
qed

lemma run_fold_inv: "run_inv ws n (fold (run_step ws) [0..<n] (\<lparr>base = - 1, len = 0\<rparr>, \<lparr>base = - 1, len = 0\<rparr>))"
proof (induction n)
  case 0
  show ?case by (simp add: run_inv_def run_at_def run_len_def)
next
  case (Suc n)
  obtain best cur where "fold (run_step ws) [0..<n] (\<lparr>base = - 1, len = 0\<rparr>, \<lparr>base = - 1, len = 0\<rparr>) = (best, cur)"
    by fastforce
  with Suc run_step_inv show ?case by simp
qed

text \<open>The run that is abbreviated is a longest one, and of at least two words.\<close>

lemma ntop6_best_spec:
  obtains (none) "base (ntop6_best ws) = - 1" and "\<And>b l. b + l \<le> 8 \<Longrightarrow> zeros ws b l \<Longrightarrow> l < 2"
  | (run) b l where "base (ntop6_best ws) = int b" and "len (ntop6_best ws) = int l" and "2 \<le> l" and "b + l \<le> 8"
      and "zeros ws b l" and "\<And>b' l'. b' + l' \<le> 8 \<Longrightarrow> zeros ws b' l' \<Longrightarrow> l' \<le> l"
proof -
  obtain best cur where f: "fold (run_step ws) [0..<8] (\<lparr>base = - 1, len = 0\<rparr>, \<lparr>base = - 1, len = 0\<rparr>) = (best, cur)"
    by fastforce
  define r where "r = (if base cur \<noteq> - 1 \<and> (base best = - 1 \<or> len cur > len best) then cur else best)"
  have inv: "run_inv ws 8 (best, cur)" using run_fold_inv [of ws 8] f by simp
  then have ok: "run_at ws 8 best" "run_at ws 8 cur" by (auto simp: run_inv_def)
  have l: "run_len r = max (run_len best) (run_len cur)"
    using run_at_len [OF ok(1)] run_at_len [OF ok(2)] by (auto simp: r_def run_len_def)
  have most: "int m \<le> run_len r" if "b + m \<le> 8" "zeros ws b m" for b m
    using that inv unfolding run_inv_def l by blast
  have r: "run_at ws 8 r" using ok by (simp add: r_def)
  have res: "ntop6_best ws = (if base r \<noteq> - 1 \<and> len r < 2 then r\<lparr>base := - 1\<rparr> else r)"
    unfolding ntop6_best_def f by (simp add: Let_def r_def)
  show thesis
  proof (cases "run_len r < 2")
    case True
    have "base (ntop6_best ws) = - 1" using True by (auto simp: res run_len_def split: if_splits)
    moreover have "m < 2" if "b + m \<le> 8" "zeros ws b m" for b m using most [OF that] True by simp
    ultimately show thesis by (rule none)
  next
    case False
    then have n: "base r \<noteq> - 1" "\<not> len r < 2" by (auto simp: run_len_def split: if_splits)
    then obtain b m where b: "base r = int b" "len r = int m" "b + m \<le> 8" "zeros ws b m"
      using r by (auto simp: run_at_def)
    have "m' \<le> m" if "b' + m' \<le> 8" "zeros ws b' m'" for b' m'
      using most [OF that] n b by (simp add: run_len_def)
    with b n show thesis by (intro run [of b m]) (auto simp: res)
  qed
qed

definition colon_words :: "uint32 list \<Rightarrow> nat list \<Rightarrow> string" where
  "colon_words ws is = concat (map (\<lambda>i. (if i \<noteq> 0 then '':'' else []) @ fmt_x (unat (ws ! i))) is)"

lemma ntop6_format_words:
  assumes "\<forall>i\<in>set is. base best = - 1 \<or> int i < base best \<or> base best + len best \<le> int i"
    and "\<forall>i\<in>set is. i = 6 \<longrightarrow> \<not> (base best = 0 \<and> (len best = 6 \<or> len best = 7 \<and> ws ! 7 \<noteq> 1 \<or>
      len best = 5 \<and> ws ! 5 = 0xffff))"
  shows "ntop6_format src ws best (is @ js) t = ntop6_format src ws best js (t @ colon_words ws is)"
  using assms
proof (induction "is" arbitrary: t)
  case (Cons i "is")
  have a: "\<not> (base best \<noteq> - 1 \<and> int i \<ge> base best \<and> int i < base best + len best)" using Cons.prems(1) by auto
  have b: "\<not> (i = 6 \<and> base best = 0 \<and> (len best = 6 \<or> len best = 7 \<and> ws ! 7 \<noteq> 1 \<or> len best = 5 \<and> ws ! 5 = 0xffff))"
    using Cons.prems(2) by auto
  have "ntop6_format src ws best ((i # is) @ js) t =
      ntop6_format src ws best (is @ js) (t @ (if i \<noteq> 0 then '':'' else []) @ fmt_x (unat (ws ! i)))"
    using a b by (simp only: append_Cons ntop6_format.simps Let_def if_False) simp
  then show ?case using Cons.IH Cons.prems by (simp add: colon_words_def)
qed (simp add: colon_words_def)

lemma ntop6_format_skip:
  assumes "\<forall>i\<in>set is. base best \<noteq> - 1 \<and> base best < int i \<and> int i < base best + len best"
  shows "ntop6_format src ws best (is @ js) t = ntop6_format src ws best js t"
  using assms by (induction "is") auto

lemma ntop6_format_run:
  assumes "base best = int b" and "len best = int l" and "0 < l"
  shows "ntop6_format src ws best ([b..<b + l] @ js) t = ntop6_format src ws best js (t @ '':'')"
  using assms ntop6_format_skip [of "[Suc b..<b + l]" best src ws js "t @ '':''"]
  by (subst upt_conv_Cons) auto

lemma colon_join_snoc: "xs \<noteq> [] \<Longrightarrow> colon_join (xs @ [w]) = colon_join xs @ '':'' @ fmt_x (unat w)"
  by (induction xs rule: colon_join.induct) auto

lemma colon_words_prefix: "b \<le> length ws \<Longrightarrow> colon_words ws [0..<b] = colon_join (take b ws)"
proof (induction b)
  case (Suc b)
  then have t: "take (Suc b) ws = take b ws @ [ws ! b]" by (simp add: take_Suc_conv_app_nth)
  show ?case
  proof (cases "b = 0")
    case False
    with Suc.prems have "take b ws \<noteq> []" by auto
    with Suc False show ?thesis unfolding t by (simp add: colon_join_snoc) (simp add: colon_words_def)
  next
    case True
    with t show ?thesis by (simp add: colon_words_def)
  qed
qed (simp add: colon_words_def)

lemma colon_join_concat: "ws \<noteq> [] \<Longrightarrow> concat (map (\<lambda>w. '':'' @ fmt_x (unat w)) ws) = '':'' @ colon_join ws"
  by (induction ws rule: colon_join.induct) auto

lemma colon_words_suffix:
  assumes "0 < b" and "b \<le> n"
  shows "colon_words ws [b..<n] = concat (map (\<lambda>w. '':'' @ fmt_x (unat w)) (map ((!) ws) [b..<n]))"
  using assms by (auto simp: colon_words_def comp_def intro!: arg_cong [where f = concat])

text \<open>The text of an address, without its terminating NUL.\<close>

definition quad_tail :: "uint32 list \<Rightarrow> nat \<Rightarrow> nat \<Rightarrow> bool" where
  "quad_tail ws b l \<longleftrightarrow> b = 0 \<and> (l = 6 \<or> l = 5 \<and> ws ! 5 = 0xffff)"

definition gap_text :: "uint8 list \<Rightarrow> uint32 list \<Rightarrow> nat \<Rightarrow> nat \<Rightarrow> string" where
  "gap_text src ws b l =
     (if quad_tail ws b l
      then ''::'' @ concat (map (\<lambda>w. fmt_x (unat w) @ '':'') (drop l (take 6 ws))) @ dotted_quad (drop 12 src)
      else colon_join (take b ws) @ ''::'' @ colon_join (drop (b + l) ws))"

lemma c_str_quad: "c_str (dotted_quad d @ replicate (Suc k) NUL) = dotted_quad d"
proof -
  have "NUL \<notin> set (fmt_u n)" for n
    using numeral_text_digits [of NUL n] less_10_cases by fastforce
  then have "\<forall>c\<in>set (dotted_quad d). c \<noteq> NUL" by (auto simp: dotted_quad_def)
  then show ?thesis by (simp add: c_str_def takeWhile_append)
qed

lemma ntop6_format_none:
  assumes "base best = - 1" and "length ws = 8"
  shows "ntop6_format src ws best [0..<8] [] = Inr (colon_join ws)"
  using ntop6_format_words [of "[0..<8]" best ws src "[]" "[]"] assms colon_words_prefix [of 8 ws] by simp

lemma upt_split3: "b + l \<le> n \<Longrightarrow> [0..<n] = [0..<b] @ [b..<b + l] @ [b + l..<n]"
  by (metis le_add1 le_Suc_ex upt_add_eq_append zero_le add.assoc)

lemma ntop6_format_gap:
  assumes "base best = int b" and "len best = int l" and "2 \<le> l" and "b + l \<le> 8" and "length ws = 8"
    and "\<not> quad_tail ws b l"
  shows "\<exists>t. ntop6_format src ws best [0..<8] [] = Inr t \<and>
    (if b + l = 8 then t @ '':'' else t) = gap_text src ws b l"
proof -
  have no4: "i = 6 \<longrightarrow> \<not> (base best = 0 \<and> (len best = 6 \<or> len best = 7 \<and> ws ! 7 \<noteq> 1 \<or> len best = 5 \<and> ws ! 5 = 0xffff))"
    if "i \<in> set [0..<b] \<union> set [b + l..<8]" for i
    using assms(1,2,6) that by (auto simp: quad_tail_def)
  have "ntop6_format src ws best [0..<8] [] = ntop6_format src ws best ([b..<b + l] @ [b + l..<8]) (colon_words ws [0..<b])"
    unfolding upt_split3 [OF assms(4)]
    using ntop6_format_words [of "[0..<b]" best ws src "[b..<b + l] @ [b + l..<8]" "[]"] no4 assms(1) by simp
  also have "\<dots> = ntop6_format src ws best ([b + l..<8] @ []) (colon_words ws [0..<b] @ '':'')"
    using ntop6_format_run [OF assms(1,2)] assms(3) by simp
  also have "\<dots> = Inr (colon_words ws [0..<b] @ '':'' @ colon_words ws [b + l..<8])"
  proof (subst ntop6_format_words)
    show "\<forall>i\<in>set [b + l..<8]. base best = - 1 \<or> int i < base best \<or> base best + len best \<le> int i"
      using assms(1,2) by auto
    show "\<forall>i\<in>set [b + l..<8]. i = 6 \<longrightarrow> \<not> (base best = 0 \<and> (len best = 6 \<or> len best = 7 \<and> ws ! 7 \<noteq> 1 \<or>
        len best = 5 \<and> ws ! 5 = 0xffff))"
      using no4 by blast
  qed simp
  finally have f: "ntop6_format src ws best [0..<8] [] = Inr (colon_words ws [0..<b] @ '':'' @ colon_words ws [b + l..<8])" .
  have "map ((!) ws) [b + l..<8] = drop (b + l) ws"
    using assms(4,5) by (simp add: list_eq_iff_nth_eq)
  then have "colon_words ws [b + l..<8] = (if b + l = 8 then [] else '':'' @ colon_join (drop (b + l) ws))"
    using colon_words_suffix [of "b + l" 8 ws] colon_join_concat [of "drop (b + l) ws"] assms(3-5) by auto
  moreover have "colon_words ws [0..<b] = colon_join (take b ws)"
    using colon_words_prefix [of b ws] assms(4,5) by simp
  ultimately show ?thesis
    using f assms(5,6) by (auto simp: gap_text_def)
qed

lemma ntop6_format_quad:
  assumes "base best = int b" and "len best = int l" and "length ws = 8" and "quad_tail ws b l"
  shows "ntop6_format src ws best [0..<8] [] = Inr (gap_text src ws b l)"
proof -
  have b: "b = 0" "l = 6 \<or> l = 5" "l = 6 \<or> l = 5 \<and> ws ! 5 = 0xffff" using assms(4) by (auto simp: quad_tail_def)
  define t where "t = '':'' @ colon_words ws [l..<6] @ '':''"
  have "[0..<8] = [0..<0 + l] @ [l..<6] @ [6, 7]" using b(2) by (auto simp: upt_rec)
  then have "ntop6_format src ws best [0..<8] [] = ntop6_format src ws best ([l..<6] @ [6, 7]) '':''"
    using ntop6_format_run [OF assms(1,2), of src ws "[l..<6] @ [6, 7]" "[]"] b by auto
  also have "\<dots> = ntop6_format src ws best [6, 7] ('':'' @ colon_words ws [l..<6])"
    using ntop6_format_words [of "[l..<6]" best ws src "[6, 7]" "'':''"] assms(1,2) b by auto
  also have "\<dots> = (case inet_ntop4 (drop 12 src) (46 - length t) of Inl err \<Rightarrow> Inl err | Inr d \<Rightarrow> Inr (t @ c_str d))"
    using b(3) assms(1,2) b(1) by (elim disjE) (simp_all add: t_def split: sum.splits)
  finally have f: "ntop6_format src ws best [0..<8] [] = \<dots>" .
  have t: "t = ''::'' @ concat (map (\<lambda>w. fmt_x (unat w) @ '':'') (drop l (take 6 ws))) \<and> length t \<le> 7"
  proof (cases "l = 6")
    case False
    then have l: "l = 5" "ws ! 5 = 0xffff" using b by auto
    have "take 6 ws = take 5 ws @ [ws ! 5]" using assms(3) take_Suc_conv_app_nth [of 5 ws] by simp
    then have "drop l (take 6 ws) = [ws ! 5]" using l assms(3) by simp
    moreover have "length (fmt_x 65535) \<le> 4" using length_numeral_text [of 16 65535 3] by simp
    ultimately show ?thesis using l by (simp add: t_def colon_words_def upt_rec)
  qed (use assms(3) in \<open>simp add: t_def colon_words_def\<close>)
  then have "length (dotted_quad (drop 12 src)) < 46 - length t"
    using dotted_quad_length(1) [of "drop 12 src"] by linarith
  moreover from this obtain k where "46 - length t - length (dotted_quad (drop 12 src)) = Suc k"
    by (metis Suc_diff_Suc)
  ultimately show ?thesis using f t c_str_quad [of "drop 12 src" k] assms(4) by (simp add: inet_ntop4_eq gap_text_def)
qed

lemma inet_ntop6_text:
  obtains (plain) "\<And>sz. inet_ntop6 src sz = (let t = colon_join (ntop6_words src) @ [NUL]
      in if length t > sz then Inl UV_ENOSPC else Inr t)"
  | (gap) b l where "2 \<le> l" and "b + l \<le> 8" and "zeros (ntop6_words src) b l"
      and "\<And>sz. inet_ntop6 src sz = (let t = gap_text src (ntop6_words src) b l @ [NUL]
      in if length t > sz then Inl UV_ENOSPC else Inr t)"
proof -
  let ?ws = "ntop6_words src" let ?best = "ntop6_best ?ws"
  show thesis
  proof (rule ntop6_best_spec [of ?ws])
    assume "base ?best = - 1"
    then show thesis
      using ntop6_format_none [of ?best ?ws src] ntop6_words_bound(1) [of src] plain
      by (simp add: inet_ntop6_def Let_def)
  next
    fix b l assume r: "base ?best = int b" "len ?best = int l" "2 \<le> l" "b + l \<le> 8" "zeros ?ws b l"
    show thesis
    proof (cases "quad_tail ?ws b l")
      case True
      then have "b + l \<noteq> 8" by (auto simp: quad_tail_def)
      then show thesis
        using r ntop6_format_quad [OF r(1,2) ntop6_words_bound(1) True] gap [of l b]
        by (simp add: inet_ntop6_def Let_def flip: of_nat_add)
    next
      case False
      obtain t where "ntop6_format src ?ws ?best [0..<8] [] = Inr t"
          "(if b + l = 8 then t @ '':'' else t) = gap_text src ?ws b l"
        using ntop6_format_gap [OF r(1-4) ntop6_words_bound(1) False] by blast
      then show thesis
        using r gap [of l b] by (auto simp: inet_ntop6_def Let_def simp flip: of_nat_add split: if_splits)
    qed
  qed
qed

lemma wbytes_zeros:
  assumes "zeros ws b l" and "b + l \<le> length ws"
  shows "concat (map wbytes ws) =
    concat (map wbytes (take b ws)) @ replicate (2 * l) 0 @ concat (map wbytes (drop (b + l) ws))"
proof -
  have "take l (drop b ws) = replicate l 0"
    using assms by (auto simp: list_eq_iff_nth_eq zeros_def)
  moreover have "ws = take b ws @ take l (drop b ws) @ drop (b + l) ws"
    by (metis add.commute append_take_drop_id drop_drop)
  moreover have "concat (map wbytes (replicate l 0)) = replicate (2 * l) 0"
    by (induction l) (simp_all add: wbytes_def)
  ultimately show ?thesis by (metis concat_append map_append)
qed

lemma gap_text_parse:
  assumes "length src = 16" and "zeros (ntop6_words src) b l" and "2 \<le> l" and "b + l \<le> 8"
  shows "inet_pton6 (gap_text src (ntop6_words src) b l) = Inr src"
proof (cases "quad_tail (ntop6_words src) b l")
  case True
  let ?ws = "ntop6_words src"
  have b: "b = 0" "l \<le> 6" "5 \<le> l" using True by (auto simp: quad_tail_def)
  have ws: "length ?ws = 8" "\<forall>w\<in>set (drop l (take 6 ?ws)). unat w < 65536"
    using ntop6_words_bound [of src] by (auto dest: in_set_dropD in_set_takeD)
  have "concat (map wbytes (take 6 ?ws)) @ concat (map wbytes (drop 6 ?ws)) = src"
    using ntop6_words_bytes [OF assms(1)] by (metis append_take_drop_id concat_append map_append)
  moreover have "length (concat (map wbytes (take 6 ?ws))) = 12" using ws(1) by simp
  ultimately have tail: "concat (map wbytes (drop 6 ?ws)) = drop 12 src" by (metis append_eq_conv_conj)
  have "src = replicate (2 * l) 0 @ concat (map wbytes (drop l ?ws))"
    using wbytes_zeros [OF assms(2)] b ws ntop6_words_bytes [OF assms(1)] by simp
  also have "drop l ?ws = drop l (take 6 ?ws) @ drop 6 ?ws"
    using b ws by (auto simp: list_eq_iff_nth_eq nth_append add.commute)
  finally have s: "replicate (2 * l) 0 @ concat (map wbytes (drop l (take 6 ?ws))) @ drop 12 src = src"
    using tail by simp
  have "12 - 2 * (6 - l) = 2 * l" using b(2) by linarith
  then show ?thesis
    using inet_pton6_quad [OF ws(2), of "drop 12 src"] True b ws assms(1) s by (simp add: gap_text_def)
next
  case False
  let ?ws = "ntop6_words src"
  have "\<forall>w\<in>set (take b ?ws). unat w < 65536" "\<forall>w\<in>set (drop (b + l) ?ws). unat w < 65536" "16 - 2 * (8 - l) = 2 * l"
    using ntop6_words_bound(2) [of src] assms(4) by (auto dest: in_set_takeD in_set_dropD)
  then have "inet_pton6 (gap_text src ?ws b l) = Inr (concat (map wbytes (take b ?ws)) @ replicate (2 * l) 0 @ concat (map wbytes (drop (b + l) ?ws)))"
    using inet_pton6_gap [of "take b ?ws" "drop (b + l) ?ws"] ntop6_words_bound [of src] False assms(3,4)
    by (simp add: gap_text_def)
  then show ?thesis
    using wbytes_zeros [OF assms(2)] assms(4) ntop6_words_bound(1) [of src] ntop6_words_bytes [OF assms(1)] by simp
qed

lemma colon_join_length:
  assumes "\<forall>w\<in>set ws. unat w < 65536"
  shows "length (colon_join ws) \<le> 5 * length ws - 1"
proof -
  have "length (fmt_x (unat w)) \<le> 4" if "w \<in> set ws" for w
    using length_numeral_text [of 16 "unat w" 3] assms that by simp
  then show ?thesis by (induction ws rule: colon_join.induct) (auto simp: less_imp_le_nat, fastforce)
qed

definition addr_chars :: "char set" where
  "addr_chars = set xdigits_l \<union> {CHR '':'', CHR ''.''}"

lemma numeral_text_chars: "2 \<le> b \<Longrightarrow> b \<le> 16 \<Longrightarrow> set (numeral_text b n) \<subseteq> addr_chars"
proof (induction n rule: less_induct)
  case (less n)
  have d: "xdigits_l ! k \<in> addr_chars" if "k < 16" for k
    using nth_mem [of k xdigits_l] that unfolding addr_chars_def by simp
  show ?case
  proof (cases "n < b")
    case True
    then show ?thesis using less.prems d by (simp add: numeral_text_digit)
  next
    case False
    have "n mod b < b" using less.prems by (intro mod_less_divisor) linarith
    then have "n mod b < 16" using less.prems by linarith
    then show ?thesis using less False d by (simp add: numeral_text_step)
  qed
qed

lemma colon_join_chars: "set (colon_join ws) \<subseteq> addr_chars"
  using numeral_text_chars [of 16] by (induction ws rule: colon_join.induct) (auto simp: addr_chars_def)

lemma dotted_quad_chars: "set (dotted_quad bs) \<subseteq> addr_chars"
  using numeral_text_chars [of 10] by (simp add: dotted_quad_def) (simp add: addr_chars_def)

lemma gap_text_bounds:
  assumes "length ws = 8" and "\<forall>w\<in>set ws. unat w < 65536" and "2 \<le> l" and "b + l \<le> 8"
  shows "length (gap_text src ws b l) \<le> 39" and "set (gap_text src ws b l) \<subseteq> addr_chars"
proof -
  have us: "length (colon_join (take b ws)) \<le> 5 * b"
    using colon_join_length [of "take b ws"] assms by (force dest: in_set_takeD)
  have vs: "length (colon_join (drop (b + l) ws)) \<le> 5 * (8 - (b + l))"
    using colon_join_length [of "drop (b + l) ws"] assms by (force dest: in_set_dropD)
  have x: "length (fmt_x (unat w)) \<le> 4" if "w \<in> set ws" for w
    using length_numeral_text [of 16 "unat w" 3] assms(2) that by simp
  have q: "length (concat (map (\<lambda>w. fmt_x (unat w) @ '':'') (drop l (take 6 ws)))) \<le> 5" if "5 \<le> l"
  proof (cases "drop l (take 6 ws)")
    case (Cons w vs)
    have "length (drop l (take 6 ws)) \<le> 1" using that assms(1) by simp
    moreover have "w \<in> set (drop l (take 6 ws))" using Cons by simp
    then have "w \<in> set ws" by (meson in_set_takeD in_set_dropD)
    ultimately show ?thesis using Cons x [of w] by simp
  qed simp
  show "length (gap_text src ws b l) \<le> 39"
  proof (cases "quad_tail ws b l")
    case True
    then show ?thesis
      using q dotted_quad_length(1) [of "drop 12 src"] by (auto simp: gap_text_def quad_tail_def)
  qed (use us vs assms(3,4) in \<open>simp add: gap_text_def\<close>)
  have "set (fmt_x n) \<subseteq> addr_chars" for n using numeral_text_chars [of 16] by simp
  then show "set (gap_text src ws b l) \<subseteq> addr_chars"
    using colon_join_chars dotted_quad_chars by (auto simp: gap_text_def) (auto simp: addr_chars_def)
qed

lemma addr_chars_avoid: "NUL \<notin> addr_chars" "CHR ''%'' \<notin> addr_chars"
  by (simp_all add: addr_chars_def)

text \<open>Printing an address and parsing the text gives the address back.\<close>

lemma inet6_roundtrip:
  assumes "length src = 16"
  obtains t where "\<And>sz. inet_ntop6 src sz = (if length t < sz then Inr (t @ [NUL]) else Inl UV_ENOSPC)"
    and "inet_pton6 t = Inr src" and "length t \<le> 39" and "set t \<subseteq> addr_chars"
proof (rule inet_ntop6_text [of src])
  note ws = ntop6_words_bound [of src]
  assume "\<And>sz. inet_ntop6 src sz = (let t = colon_join (ntop6_words src) @ [NUL]
      in if length t > sz then Inl UV_ENOSPC else Inr t)"
  then show thesis
    using colon_join_length [OF ws(2)] ws(1) colon_join_chars inet_pton6_plain [OF ws(2,1)] ntop6_words_bytes [OF assms]
    by (intro that [of "colon_join (ntop6_words src)"]) (auto simp: Let_def)
next
  note ws = ntop6_words_bound [of src]
  fix b l assume g: "2 \<le> l" "b + l \<le> 8" "zeros (ntop6_words src) b l"
    "\<And>sz. inet_ntop6 src sz = (let t = gap_text src (ntop6_words src) b l @ [NUL]
      in if length t > sz then Inl UV_ENOSPC else Inr t)"
  then show thesis
    using gap_text_parse [OF assms g(3,1,2)] gap_text_bounds [OF ws g(1,2), of src]
    by (intro that [of "gap_text src (ntop6_words src) b l"]) (auto simp: Let_def)
qed

lemma strchr_append:
  "c \<notin> set t \<Longrightarrow> strchr (t @ c # z) c = Some (length t)" "c \<notin> set t \<Longrightarrow> strchr t c = None"
  by (induction t) auto

text \<open>
  Property C25. Every IPv4 and IPv6 address survives printing and parsing: there is one
  text, shorter than the 16 or 46 bytes the code reserves, that \<^verbatim>\<open>uv_inet_ntop\<close> writes
  into every buffer with room for it and its NUL (\<^verbatim>\<open>UV_ENOSPC\<close> otherwise) and that
  \<^verbatim>\<open>uv_inet_pton\<close> turns back into the same bytes; a zone appended to an IPv6 text is
  ignored.\<close>

theorem uv_inet_roundtrip:
  assumes "af = AF_INET \<and> length src = 4 \<or> af = AF_INET6 \<and> length src = 16"
  shows "\<exists>t. NUL \<notin> set t \<and> length t < (if af = AF_INET then 16 else 46) \<and>
    (\<forall>sz. if length t < sz then \<exists>pad. uv_inet_ntop af src sz = Inr (t @ NUL # pad)
          else uv_inet_ntop af src sz = Inl UV_ENOSPC) \<and>
    uv_inet_pton af (Some t) (Some dst) = Inr src \<and>
    (af = AF_INET6 \<longrightarrow> uv_inet_pton af (Some (t @ ''%'' @ zone)) (Some dst) = Inr src)"
proof (cases "af = AF_INET")
  case True
  then have l: "length src = 4" using assms by simp
  have "\<exists>pad. replicate k NUL = NUL # pad" if "0 < k" for k using that by (cases k) auto
  then show ?thesis
    using True inet_pton4_dotted_quad [OF l] dotted_quad_length(1) [of src] dotted_quad_chars [of src] addr_chars_avoid(1)
    by (intro exI [of _ "dotted_quad src"]) (auto simp: uv_inet_ntop_def uv_inet_pton_def inet_ntop4_eq)
next
  case False
  then have l: "length src = 16" "af = AF_INET6" using assms by auto
  obtain t where t: "\<And>sz. inet_ntop6 src sz = (if length t < sz then Inr (t @ [NUL]) else Inl UV_ENOSPC)"
      "inet_pton6 t = Inr src" "length t \<le> 39" "set t \<subseteq> addr_chars"
    using inet6_roundtrip [OF l(1)] by blast
  have no: "NUL \<notin> set t" "CHR ''%'' \<notin> set t" using t(4) addr_chars_avoid by auto
  then show ?thesis
    using l(2) t(1-3) strchr_append [OF no(2)] by (intro exI [of _ t]) (auto simp: uv_inet_ntop_def uv_inet_pton_def)
qed

theorem uv_inet_roundtrip_witness:
  "\<exists>t. NUL \<notin> set t \<and> length t < 46 \<and>
    (\<forall>sz. if length t < sz then \<exists>pad. uv_inet_ntop AF_INET6 (replicate 15 0 @ [1]) sz = Inr (t @ NUL # pad)
          else uv_inet_ntop AF_INET6 (replicate 15 0 @ [1]) sz = Inl UV_ENOSPC) \<and>
    uv_inet_pton AF_INET6 (Some t) (Some 0) = Inr (replicate 15 0 @ [1]) \<and>
    uv_inet_pton AF_INET6 (Some (t @ ''%'' @ ''eth0'')) (Some 0) = Inr (replicate 15 0 @ [1])"
  using uv_inet_roundtrip [of AF_INET6 "replicate 15 0 @ [1]" 0 "''eth0''"] by simp

text \<open>
  The words that \<^verbatim>\<open>inet_ntop6\<close> abbreviates to a double colon are zero, are at
  least two, and no run of zero words of the address is longer; when nothing is
  abbreviated, no two adjacent words are zero.\<close>

theorem ntop6_best_longest:
  "(base (ntop6_best ws) = - 1 \<and> (\<nexists>b l. 2 \<le> l \<and> b + l \<le> 8 \<and> zeros ws b l)) \<or>
   (\<exists>b l. base (ntop6_best ws) = int b \<and> len (ntop6_best ws) = int l \<and> 2 \<le> l \<and> b + l \<le> 8 \<and> zeros ws b l \<and>
      (\<nexists>b' l'. l < l' \<and> b' + l' \<le> 8 \<and> zeros ws b' l'))"
proof (rule ntop6_best_spec [of ws])
  assume "base (ntop6_best ws) = - 1" and "\<And>b l. b + l \<le> 8 \<Longrightarrow> zeros ws b l \<Longrightarrow> l < 2"
  then show ?thesis by (meson not_le)
next
  fix b l assume "base (ntop6_best ws) = int b" "len (ntop6_best ws) = int l" "2 \<le> l" "b + l \<le> 8" "zeros ws b l"
    and "\<And>b' l'. b' + l' \<le> 8 \<Longrightarrow> zeros ws b' l' \<Longrightarrow> l' \<le> l"
  then show ?thesis by (meson not_le)
qed

section \<open>Socket addresses\<close>

text \<open>
  \<^verbatim>\<open>uv_ip4_addr\<close>, \<^verbatim>\<open>uv_ip6_addr\<close> and their inverses, \<^verbatim>\<open>core/libuv/src/uv-common.c\<close>. The
  numbering of network interfaces, \<^verbatim>\<open>if_nametoindex\<close>, is an argument.
\<close>

record sockaddr_in =
  sin_family :: int
  sin_port :: uint16
  sin_addr :: "uint8 list"

record sockaddr_in6 =
  sin6_family :: int
  sin6_port :: uint16
  sin6_addr :: "uint8 list"
  sin6_scope_id :: uint32

text \<open>Host to network order on a little-endian machine.\<close>

definition htons :: "uint16 \<Rightarrow> uint16" where
  "htons p = push_bit 8 p OR drop_bit 8 p"

definition uv_ip4_addr :: "string \<Rightarrow> int \<Rightarrow> int \<times> sockaddr_in" where
  "uv_ip4_addr ip port =
     (let addr = \<lparr>sin_family = AF_INET, sin_port = htons (of_int port), sin_addr = replicate 4 0\<rparr>
      in case uv_inet_pton AF_INET (Some ip) (Some 0) of
           Inl err \<Rightarrow> (err, addr)
         | Inr bs \<Rightarrow> (0, addr\<lparr>sin_addr := bs\<rparr>))"

definition uv_ip6_addr :: "(string \<Rightarrow> uint32) \<Rightarrow> string \<Rightarrow> int \<Rightarrow> int \<times> sockaddr_in6" where
  "uv_ip6_addr if_nametoindex ip port =
     (let addr = \<lparr>sin6_family = AF_INET6, sin6_port = htons (of_int port), sin6_addr = replicate 16 0,
                  sin6_scope_id = 0\<rparr>;
          (ip, addr) =
            (case strchr ip (CHR ''%'') of
               None \<Rightarrow> (ip, addr)
             | Some n \<Rightarrow>
                 let address_part_size = (if n \<ge> 40 then 39 else n)
                 in (take address_part_size ip, addr\<lparr>sin6_scope_id := if_nametoindex (drop (n + 1) ip)\<rparr>))
      in case uv_inet_pton AF_INET6 (Some ip) (Some 0) of
           Inl err \<Rightarrow> (err, addr)
         | Inr bs \<Rightarrow> (0, addr\<lparr>sin6_addr := bs\<rparr>))"

definition uv_ip4_name :: "sockaddr_in \<Rightarrow> nat \<Rightarrow> int + string" where
  "uv_ip4_name src sz = uv_inet_ntop AF_INET (sin_addr src) sz"

definition uv_ip6_name :: "sockaddr_in6 \<Rightarrow> nat \<Rightarrow> int + string" where
  "uv_ip6_name src sz = uv_inet_ntop AF_INET6 (sin6_addr src) sz"

lemma take_c_str: "NUL \<notin> set t \<Longrightarrow> c_str (t @ NUL # pad) = t"
  by (simp add: c_str_def takeWhile_append)

text \<open>
  The text of an IPv6 address, with any zone behind it, makes
  \<^verbatim>\<open>uv_ip6_addr\<close> build the socket address of the same 16 bytes, with the zone's
  interface and the port in network order; likewise \<^verbatim>\<open>uv_ip4_addr\<close> for the text of an
  IPv4 address.\<close>

theorem uv_ip_addr_name:
  assumes "length (sin6_addr a) = 16" and "length (sin_addr b) = 4"
  shows "\<exists>s t. uv_ip6_name a 46 = Inr (s @ [NUL]) \<and> uv_ip4_name b 16 = Inr t \<and>
    uv_ip6_addr ifindex s port = (0, \<lparr>sin6_family = AF_INET6, sin6_port = htons (of_int port),
      sin6_addr = sin6_addr a, sin6_scope_id = 0\<rparr>) \<and>
    uv_ip6_addr ifindex (s @ ''%'' @ zone) port = (0, \<lparr>sin6_family = AF_INET6, sin6_port = htons (of_int port),
      sin6_addr = sin6_addr a, sin6_scope_id = ifindex zone\<rparr>) \<and>
    uv_ip4_addr (c_str t) port = (0, \<lparr>sin_family = AF_INET, sin_port = htons (of_int port), sin_addr = sin_addr b\<rparr>)"
proof -
  obtain s where s: "\<And>sz. inet_ntop6 (sin6_addr a) sz = (if length s < sz then Inr (s @ [NUL]) else Inl UV_ENOSPC)"
      "inet_pton6 s = Inr (sin6_addr a)" "length s \<le> 39" "set s \<subseteq> addr_chars"
    using inet6_roundtrip [OF assms(1)] by blast
  have no: "CHR ''%'' \<notin> set s" using s(4) addr_chars_avoid by auto
  let ?t = "dotted_quad (sin_addr b)"
  have l: "length ?t < 16" using dotted_quad_length(1) [of "sin_addr b"] by simp
  have "NUL \<notin> set ?t" using dotted_quad_chars [of "sin_addr b"] addr_chars_avoid by auto
  then have c: "c_str (?t @ replicate (16 - length ?t) NUL) = ?t"
    using take_c_str [of ?t "replicate (15 - length ?t) NUL"] l by (simp add: Suc_diff_Suc [symmetric] flip: replicate_Suc)
  have "uv_ip6_name a 46 = Inr (s @ [NUL])" using s by (simp add: uv_ip6_name_def uv_inet_ntop_def)
  moreover have "uv_ip4_name b 16 = Inr (?t @ replicate (16 - length ?t) NUL)"
    using l by (simp add: uv_ip4_name_def uv_inet_ntop_def inet_ntop4_eq)
  ultimately show ?thesis
    using s no strchr_append [OF no] c inet_pton4_dotted_quad [OF assms(2)]
    by (intro exI [of _ s] exI [of _ "?t @ replicate (16 - length ?t) NUL"])
      (simp add: uv_ip6_addr_def uv_ip4_addr_def uv_inet_pton_def Let_def)
qed

definition localhost6 :: sockaddr_in6 where
  "localhost6 = \<lparr>sin6_family = AF_INET6, sin6_port = 0, sin6_addr = replicate 15 0 @ [1], sin6_scope_id = 0\<rparr>"

definition localhost4 :: sockaddr_in where
  "localhost4 = \<lparr>sin_family = AF_INET, sin_port = 0, sin_addr = [127, 0, 0, 1]\<rparr>"

theorem uv_ip_addr_name_witness:
  "\<exists>s t. uv_ip6_name localhost6 46 = Inr (s @ [NUL]) \<and> uv_ip4_name localhost4 16 = Inr t \<and>
    uv_ip6_addr (\<lambda>_. 2) s 80 = (0, \<lparr>sin6_family = AF_INET6, sin6_port = htons (of_int 80),
      sin6_addr = sin6_addr localhost6, sin6_scope_id = 0\<rparr>) \<and>
    uv_ip6_addr (\<lambda>_. 2) (s @ ''%'' @ ''eth0'') 80 = (0, \<lparr>sin6_family = AF_INET6, sin6_port = htons (of_int 80),
      sin6_addr = sin6_addr localhost6, sin6_scope_id = 2\<rparr>) \<and>
    uv_ip4_addr (c_str t) 80 = (0, \<lparr>sin_family = AF_INET, sin_port = htons (of_int 80), sin_addr = sin_addr localhost4\<rparr>)"
  by (rule uv_ip_addr_name [where ifindex = "\<lambda>_. 2"]) (simp_all add: localhost6_def localhost4_def)

definition long_mapped :: string where
  "long_mapped = ''0000:0000:0000:0000:0000:ffff:1.2.33.100''"

text \<open>
  \<^verbatim>\<open>uv_ip6_addr\<close> copies only 39 characters of the address in front of a
  zone: a valid address with 40 characters is cut and read as another address,
  without an error, while the same address without a zone is read correctly.\<close>

theorem uv_ip6_addr_truncates:
  "uv_ip6_addr ifindex long_mapped port = (0, \<lparr>sin6_family = AF_INET6, sin6_port = htons (of_int port),
     sin6_addr = [0, 0, 0, 0, 0, 0, 0, 0, 0, 0, 255, 255, 1, 2, 33, 100], sin6_scope_id = 0\<rparr>) \<and>
   uv_ip6_addr ifindex (long_mapped @ ''%eth0'') port = (0, \<lparr>sin6_family = AF_INET6, sin6_port = htons (of_int port),
     sin6_addr = [0, 0, 0, 0, 0, 0, 0, 0, 0, 0, 255, 255, 1, 2, 33, 10], sin6_scope_id = ifindex ''eth0''\<rparr>)"
proof -
  have "uv_inet_pton AF_INET6 (Some long_mapped) (Some 0) = Inr [0, 0, 0, 0, 0, 0, 0, 0, 0, 0, 255, 255, 1, 2, 33, 100]"
    "uv_inet_pton AF_INET6 (Some (take 39 (long_mapped @ ''%eth0''))) (Some 0) =
      Inr [0, 0, 0, 0, 0, 0, 0, 0, 0, 0, 255, 255, 1, 2, 33, 10]"
    "strchr long_mapped (CHR ''%'') = None" "strchr (long_mapped @ ''%eth0'') (CHR ''%'') = Some 40"
    "drop 41 (long_mapped @ ''%eth0'') = ''eth0''"
    by code_simp+
  then show ?thesis unfolding uv_ip6_addr_def Let_def by simp
qed

end
