(* ===== verification/Lua_State.thy ===== *)
theory Lua_State
  imports Complex_Main Shark_Prelude "HOL-Library.Monad_Syntax"
begin

text \<open>
  The part of the Lua state the C code of shark works on: values, the stack
  and the tables with the fields shark adds to LuaJIT's \<^verbatim>\<open>GCtab\<close>
  (\<^verbatim>\<open>core/luajit/src/lj_obj.h\<close>), and the API functions it calls
  (\<^verbatim>\<open>core/luajit/src/lj_api.c\<close>). Lua numbers are IEEE doubles: a finite one is
  the rational it denotes. Integers are stored in memory little endian.
\<close>

type_synonym byte = uint8

section \<open>Numbers\<close>

datatype lua_Number = Fin rat | Inf | NegInf | NaN

text \<open>
  The C conversion of a double to an integer type with values \<open>lo\<close> to \<open>hi\<close>
  truncates; a truncated value outside the type has no defined result.
\<close>

definition truncate_rat :: "rat \<Rightarrow> int" where
  "truncate_rat x = (if 0 \<le> x then \<lfloor>x\<rfloor> else \<lceil>x\<rceil>)"

fun cast_number :: "int \<Rightarrow> int \<Rightarrow> lua_Number \<Rightarrow> int option" where
  "cast_number lo hi (Fin x) =
     (if lo \<le> truncate_rat x \<and> truncate_rat x \<le> hi then Some (truncate_rat x) else None)"
| "cast_number lo hi _ = None"

text \<open>
  The C conversion of an integer to double rounds to 53 significant bits, to
  the nearest and on a tie to the even one.
\<close>

fun bit_len :: "nat \<Rightarrow> nat" where
  "bit_len n = (if n = 0 then 0 else Suc (bit_len (n div 2)))"

declare bit_len.simps [simp del]

definition round_double :: "int \<Rightarrow> int" where
  "round_double n =
     (let m = nat \<bar>n\<bar>; s = bit_len m - 53; q = m div 2 ^ s; r = m mod 2 ^ s;
          q = (if 2 * r > 2 ^ s \<or> 2 * r = 2 ^ s \<and> odd q then q + 1 else q)
      in sgn n * int (q * 2 ^ s))"

lemma bit_len_less: "n < 2 ^ k \<Longrightarrow> bit_len n \<le> k"
proof (induction n arbitrary: k rule: bit_len.induct)
  case (1 n)
  show ?case
  proof (cases "n = 0")
    case False
    then obtain j where k: "k = Suc j" using 1(2) by (cases k) auto
    then have "n div 2 < 2 ^ j" using 1(2) by auto
    with 1(1) False k show ?thesis by (simp add: bit_len.simps [of n])
  qed (simp add: bit_len.simps)
qed

lemma round_double_exact: "\<bar>n\<bar> < 2 ^ 53 \<Longrightarrow> round_double n = n"
  using bit_len_less [of "nat \<bar>n\<bar>" 53]
  by (simp add: round_double_def Let_def nat_less_iff sgn_mult_abs)

section \<open>Bytes\<close>

fun le_bytes :: "nat \<Rightarrow> int \<Rightarrow> byte list" where
  "le_bytes 0 n = []"
| "le_bytes (Suc k) n = word_of_int n # le_bytes k (n div 256)"

fun le_uint :: "byte list \<Rightarrow> int" where
  "le_uint [] = 0"
| "le_uint (b # bs) = uint b + 256 * le_uint bs"

definition le_sint :: "byte list \<Rightarrow> int" where
  "le_sint bs = (let n = le_uint bs in if 2 * n < 256 ^ length bs then n else n - 256 ^ length bs)"

lemma length_le_bytes [simp]: "length (le_bytes k n) = k"
  by (induction k arbitrary: n) auto

lemma le_uint_le_bytes: "le_uint (le_bytes k n) = n mod 256 ^ k"
proof (induction k arbitrary: n)
  case (Suc k)
  have "n mod (256 * 256 ^ k) = 256 * (n div 256 mod 256 ^ k) + n mod 256"
    by (rule zmod_zmult2_eq) simp
  with Suc show ?case by (simp add: uint_word_of_int)
qed simp

lemma le_uint_bounds: "0 \<le> le_uint bs" "le_uint bs < 256 ^ length bs"
proof -
  show "0 \<le> le_uint bs" by (induction bs) auto
  show "le_uint bs < 256 ^ length bs"
  proof (induction bs)
    case (Cons b bs)
    have "uint b < 256" using uint_lt2p [of b] by simp
    with Cons show ?case by simp
  qed simp
qed

lemma le_sint_le_bytes:
  assumes "- (256 ^ k) \<le> 2 * n" and "2 * n < 256 ^ k"
  shows "le_sint (le_bytes k n) = n"
proof (cases "0 \<le> n")
  case True
  with assms show ?thesis by (simp add: le_sint_def le_uint_le_bytes)
next
  case False
  then have "n mod 256 ^ k = n + 256 ^ k"
    using assms by (intro mod_pos_pos_trivial [of "n + 256 ^ k" "256 ^ k", simplified mod_add_self2]) auto
  with False assms show ?thesis by (simp add: le_sint_def le_uint_le_bytes)
qed

text \<open>The length of the C string at the start of some bytes, and the string itself.\<close>

definition c_string :: "byte list \<Rightarrow> byte list" where
  "c_string bs = takeWhile (\<lambda>b. b \<noteq> 0) bs"

lemma c_string_no_nul: "0 \<notin> set s \<Longrightarrow> c_string (s @ 0 # xs) = s" "0 \<notin> set s \<Longrightarrow> c_string s = s"
  unfolding c_string_def by (induction s) auto

lemma no_nul_c_string: "0 \<notin> set (c_string bs)"
  by (auto simp: c_string_def dest: set_takeWhileD)

text \<open>\<^verbatim>\<open>memcpy\<close> into the front of an object; writing past its end is not defined.\<close>

definition memcpy :: "byte list \<Rightarrow> byte list \<Rightarrow> byte list option" where
  "memcpy dst src = (if length src \<le> length dst then Some (src @ drop (length src) dst) else None)"

lemma memcpy_length: "memcpy dst src = Some r \<Longrightarrow> length r = length dst"
  by (auto simp: memcpy_def split: if_splits)

section \<open>The state\<close>

text \<open>\<open>'f\<close> are the C functions, \<open>'d\<close> what the added \<^verbatim>\<open>data2\<close> field of a table points at.\<close>

datatype 'f lua_value =
    LNil | LBoolean bool | LNumber lua_Number | LString "byte list" | LUserdata "byte list"
  | LTable nat | LCFunction 'f

record ('f, 'd) gctab =
  hash :: "string \<Rightarrow> 'f lua_value option"
  metatable :: "nat option"
  data1 :: int
  data2 :: "'d option"
  data3 :: "'f option"
  data4 :: "'f option"
  data5 :: "'f option"

text \<open>The stack has its top first; \<open>ntab\<close> is the number of tables made so far.\<close>

record ('f, 'd) lua_state =
  lstack :: "'f lua_value list"
  tables :: "nat \<Rightarrow> ('f, 'd) gctab"
  ntab :: nat
  globals :: "string \<Rightarrow> 'f lua_value option"

text \<open>
  What the code depends on and does not determine: LuaJIT's conversions between
  strings and numbers, the bytes that happen to follow a string in memory, and
  the contents of uninitialised locals.
\<close>

record lua_env =
  strscan_num :: "byte list \<Rightarrow> lua_Number option"
  str_fromnumber :: "lua_Number \<Rightarrow> byte list"
  beyond :: "byte list \<Rightarrow> nat \<Rightarrow> byte"
  uninit :: "nat \<Rightarrow> byte"

section \<open>The API\<close>

text \<open>Stack position \<open>i\<close> below the top, \<open>0\<close> for the index \<open>-1\<close>.\<close>

definition index2adr :: "('f, 'd) lua_state \<Rightarrow> nat \<Rightarrow> 'f lua_value" where
  "index2adr ls i = (if i < length (lstack ls) then lstack ls ! i else LNil)"

definition lua_tonumber :: "lua_env \<Rightarrow> ('f, 'd) lua_state \<Rightarrow> nat \<Rightarrow> lua_Number" where
  "lua_tonumber E ls i =
     (case index2adr ls i of
        LNumber x \<Rightarrow> x
      | LString s \<Rightarrow> (case strscan_num E s of Some x \<Rightarrow> x | None \<Rightarrow> Fin 0)
      | _ \<Rightarrow> Fin 0)"

definition lua_tostring :: "lua_env \<Rightarrow> ('f, 'd) lua_state \<Rightarrow> nat \<Rightarrow> byte list option \<times> ('f, 'd) lua_state" where
  "lua_tostring E ls i =
     (case index2adr ls i of
        LString s \<Rightarrow> (Some s, ls)
      | LNumber x \<Rightarrow>
          (Some (str_fromnumber E x), ls\<lparr>lstack := (lstack ls)[i := LString (str_fromnumber E x)]\<rparr>)
      | _ \<Rightarrow> (None, ls))"

definition lua_isnil :: "('f, 'd) lua_state \<Rightarrow> nat \<Rightarrow> bool" where
  "lua_isnil ls i \<longleftrightarrow> (case index2adr ls i of LNil \<Rightarrow> True | _ \<Rightarrow> False)"

definition lua_push :: "'f lua_value \<Rightarrow> ('f, 'd) lua_state \<Rightarrow> ('f, 'd) lua_state" where
  "lua_push v ls = ls\<lparr>lstack := v # lstack ls\<rparr>"

definition lua_pushnumber :: "lua_Number \<Rightarrow> ('f, 'd) lua_state \<Rightarrow> ('f, 'd) lua_state" where
  "lua_pushnumber n = lua_push (LNumber n)"

definition lua_pushnil :: "('f, 'd) lua_state \<Rightarrow> ('f, 'd) lua_state" where
  "lua_pushnil = lua_push LNil"

definition lua_pushcfunction :: "'f \<Rightarrow> ('f, 'd) lua_state \<Rightarrow> ('f, 'd) lua_state" where
  "lua_pushcfunction f = lua_push (LCFunction f)"

definition lua_pushvalue :: "nat \<Rightarrow> ('f, 'd) lua_state \<Rightarrow> ('f, 'd) lua_state" where
  "lua_pushvalue i ls = lua_push (index2adr ls i) ls"

text \<open>The bytes pushed are those before the first zero byte; without one the read leaves the object.\<close>

definition lua_pushstring :: "byte list \<Rightarrow> ('f, 'd) lua_state \<Rightarrow> ('f, 'd) lua_state option" where
  "lua_pushstring buf ls = (if 0 \<in> set buf then Some (lua_push (LString (c_string buf)) ls) else None)"

definition lua_pop :: "nat \<Rightarrow> ('f, 'd) lua_state \<Rightarrow> ('f, 'd) lua_state" where
  "lua_pop n ls = ls\<lparr>lstack := drop n (lstack ls)\<rparr>"

definition empty_table :: "('f, 'd) gctab" where
  "empty_table = \<lparr>hash = (\<lambda>_. None), metatable = None, data1 = 0, data2 = None, data3 = None, data4 = None, data5 = None\<rparr>"

definition lua_createtable :: "('f, 'd) lua_state \<Rightarrow> ('f, 'd) lua_state" where
  "lua_createtable ls =
     lua_push (LTable (ntab ls)) (ls\<lparr>tables := (tables ls)(ntab ls := empty_table), ntab := Suc (ntab ls)\<rparr>)"

definition upd_table :: "nat \<Rightarrow> (('f, 'd) gctab \<Rightarrow> ('f, 'd) gctab) \<Rightarrow> ('f, 'd) lua_state \<Rightarrow> ('f, 'd) lua_state" where
  "upd_table t g ls = ls\<lparr>tables := (tables ls)(t := g (tables ls t))\<rparr>"

text \<open>
  Setting a field of a table that has no metatable; on other values the call
  runs Lua code or raises an error, which is \<open>None\<close> here. Storing nil removes the field.
\<close>

definition field_value :: "'f lua_value \<Rightarrow> 'f lua_value option" where
  "field_value v = (case v of LNil \<Rightarrow> None | _ \<Rightarrow> Some v)"

definition lua_setfield :: "nat \<Rightarrow> string \<Rightarrow> ('f, 'd) lua_state \<Rightarrow> ('f, 'd) lua_state option" where
  "lua_setfield i k ls =
     (case index2adr ls i of
        LTable t \<Rightarrow>
          if metatable (tables ls t) = None \<and> lstack ls \<noteq> [] then
            Some (lua_pop 1 (upd_table t (\<lambda>x. x\<lparr>hash := (hash x)(k := field_value (index2adr ls 0))\<rparr>) ls))
          else None
      | _ \<Rightarrow> None)"

definition lua_setmetatable :: "nat \<Rightarrow> ('f, 'd) lua_state \<Rightarrow> ('f, 'd) lua_state option" where
  "lua_setmetatable i ls =
     (case (index2adr ls i, index2adr ls 0) of
        (LTable t, LTable mt) \<Rightarrow> Some (lua_pop 1 (upd_table t (\<lambda>x. x\<lparr>metatable := Some mt\<rparr>) ls))
      | (LTable t, LNil) \<Rightarrow> Some (lua_pop 1 (upd_table t (\<lambda>x. x\<lparr>metatable := None\<rparr>) ls))
      | _ \<Rightarrow> None)"

definition lua_getglobal :: "string \<Rightarrow> ('f, 'd) lua_state \<Rightarrow> ('f, 'd) lua_state" where
  "lua_getglobal k ls = lua_push (case globals ls k of Some v \<Rightarrow> v | None \<Rightarrow> LNil) ls"

definition lua_setglobal :: "string \<Rightarrow> ('f, 'd) lua_state \<Rightarrow> ('f, 'd) lua_state" where
  "lua_setglobal k ls = lua_pop 1 (ls\<lparr>globals := (globals ls)(k := field_value (index2adr ls 0))\<rparr>)"

lemma index2adr_push [simp]:
  "index2adr (lua_push v ls) 0 = v" "index2adr (lua_push v ls) (Suc i) = index2adr ls i"
  by (simp_all add: index2adr_def lua_push_def)

lemma lua_push_simps [simp]:
  "lstack (lua_push v ls) = v # lstack ls" "tables (lua_push v ls) = tables ls"
  "ntab (lua_push v ls) = ntab ls" "globals (lua_push v ls) = globals ls"
  by (simp_all add: lua_push_def)

lemmas lua_api = lua_pushnumber_def lua_pushnil_def lua_pushcfunction_def lua_pushvalue_def lua_pop_def
  lua_createtable_def upd_table_def lua_setfield_def lua_setmetatable_def lua_getglobal_def lua_setglobal_def
  field_value_def

end
