(* ===== verification/Bpf_Kernel.thy ===== *)
theory Bpf_Kernel
  imports Lua_State
begin

text \<open>
  The \<^verbatim>\<open>bpf\<close> system call and its wrappers, \<^verbatim>\<open>bpf/libbpf/libbpf.c\<close>. The kernel is an
  argument: a function from command, attribute and kernel state to the return
  value, the bytes written through the attribute's output pointer and the new
  state. A pointer in the attribute is the object it points at. What the map
  code relies on is the predicate \<open>map_kernel\<close>, which states the documented
  behaviour of the element commands on a map.
\<close>

section \<open>The system call\<close>

datatype bpf_cmd =
    BPF_MAP_CREATE | BPF_MAP_LOOKUP_ELEM | BPF_MAP_UPDATE_ELEM | BPF_MAP_DELETE_ELEM
  | BPF_MAP_GET_NEXT_KEY | BPF_PROG_LOAD

record bpf_attr =
  attr_map_type :: uint32
  attr_key_size :: uint32
  attr_value_size :: uint32
  attr_max_entries :: uint32
  attr_map_fd :: int
  attr_key :: "byte list"
  attr_value :: "byte list"
  attr_flags :: uint64
  attr_prog_type :: uint32
  attr_insns :: "byte list"
  attr_insn_cnt :: uint32
  attr_license :: "byte list"
  attr_log_size :: uint32
  attr_log_level :: uint32
  attr_kern_version :: uint32

definition zero_attr :: bpf_attr where
  "zero_attr = \<lparr>attr_map_type = 0, attr_key_size = 0, attr_value_size = 0, attr_max_entries = 0,
     attr_map_fd = 0, attr_key = [], attr_value = [], attr_flags = 0, attr_prog_type = 0, attr_insns = [],
     attr_insn_cnt = 0, attr_license = [], attr_log_size = 0, attr_log_level = 0, attr_kern_version = 0\<rparr>"

type_synonym 'k bpf_syscall = "bpf_cmd \<Rightarrow> bpf_attr \<Rightarrow> 'k \<Rightarrow> int \<times> byte list \<times> 'k"

section \<open>The wrappers\<close>

definition bpf_create_map :: "'k bpf_syscall \<Rightarrow> uint32 \<Rightarrow> uint32 \<Rightarrow> uint32 \<Rightarrow> uint32 \<Rightarrow> 'k \<Rightarrow> int \<times> 'k" where
  "bpf_create_map bpf map_type key_size value_size max_entries k =
     (let attr = zero_attr\<lparr>attr_map_type := map_type, attr_key_size := key_size,
            attr_value_size := value_size, attr_max_entries := max_entries\<rparr>;
          (r, _, k) = bpf BPF_MAP_CREATE attr k
      in (r, k))"

definition bpf_update_elem :: "'k bpf_syscall \<Rightarrow> int \<Rightarrow> byte list \<Rightarrow> byte list \<Rightarrow> uint64 \<Rightarrow> 'k \<Rightarrow> int \<times> 'k" where
  "bpf_update_elem bpf fd key val flags k =
     (let attr = zero_attr\<lparr>attr_map_fd := fd, attr_key := key, attr_value := val, attr_flags := flags\<rparr>;
          (r, _, k) = bpf BPF_MAP_UPDATE_ELEM attr k
      in (r, k))"

text \<open>The result holds the value object after the call; the kernel writing past its end is \<open>None\<close>.\<close>

definition bpf_lookup_elem :: "'k bpf_syscall \<Rightarrow> int \<Rightarrow> byte list \<Rightarrow> byte list \<Rightarrow> 'k \<Rightarrow> (int \<times> byte list \<times> 'k) option" where
  "bpf_lookup_elem bpf fd key val k =
     (let attr = zero_attr\<lparr>attr_map_fd := fd, attr_key := key, attr_value := val\<rparr>;
          (r, out, k) = bpf BPF_MAP_LOOKUP_ELEM attr k
      in map_option (\<lambda>v. (r, v, k)) (memcpy val out))"

definition bpf_delete_elem :: "'k bpf_syscall \<Rightarrow> int \<Rightarrow> byte list \<Rightarrow> 'k \<Rightarrow> int \<times> 'k" where
  "bpf_delete_elem bpf fd key k =
     (let attr = zero_attr\<lparr>attr_map_fd := fd, attr_key := key\<rparr>;
          (r, _, k) = bpf BPF_MAP_DELETE_ELEM attr k
      in (r, k))"

definition bpf_get_next_key :: "'k bpf_syscall \<Rightarrow> int \<Rightarrow> byte list \<Rightarrow> byte list \<Rightarrow> 'k \<Rightarrow> (int \<times> byte list \<times> 'k) option" where
  "bpf_get_next_key bpf fd key next_key k =
     (let attr = zero_attr\<lparr>attr_map_fd := fd, attr_key := key, attr_value := next_key\<rparr>;
          (r, out, k) = bpf BPF_MAP_GET_NEXT_KEY attr k
      in map_option (\<lambda>v. (r, v, k)) (memcpy next_key out))"

text \<open>
  \<^verbatim>\<open>prog_len / sizeof(struct bpf_insn)\<close> divides in \<^verbatim>\<open>size_t\<close> and is stored in 32
  bits. The kernel writes its verifier log into \<^verbatim>\<open>bpf_log_buf\<close>, which is made the
  empty string before the call.
\<close>

abbreviation LOG_BUF_SIZE :: uint32 where "LOG_BUF_SIZE \<equiv> 65536"

definition bpf_prog_load :: "'k bpf_syscall \<Rightarrow> uint32 \<Rightarrow> byte list \<Rightarrow> int \<Rightarrow> byte list \<Rightarrow> int \<Rightarrow> 'k \<Rightarrow> int \<times> byte list \<times> 'k" where
  "bpf_prog_load bpf prog_type insns prog_len license kern_version k =
     (let attr = zero_attr\<lparr>attr_prog_type := prog_type, attr_insns := insns,
            attr_insn_cnt := word_of_int (uint (word_of_int prog_len :: uint64) div 8),
            attr_license := license, attr_log_size := LOG_BUF_SIZE, attr_log_level := 1\<rparr>;
          attr = attr\<lparr>attr_kern_version := word_of_int kern_version\<rparr>;
          (r, out, k) = bpf BPF_PROG_LOAD attr k
      in (r, if out = [] then [0] else out, k))"

section \<open>What the kernel promises of maps\<close>

text \<open>A map as the kernel keeps it: the sizes and the elements, in the order of iteration.\<close>

record kmap =
  kkey_size :: nat
  kvalue_size :: nat
  kelems :: "(byte list \<times> byte list) list"

definition kmap_ok :: "kmap \<Rightarrow> bool" where
  "kmap_ok M \<longleftrightarrow> distinct (map fst (kelems M)) \<and>
     (\<forall>(x, v)\<in>set (kelems M). length x = kkey_size M \<and> length v = kvalue_size M)"

text \<open>The key after \<open>x\<close> in the order of iteration; the first key when \<open>x\<close> is no key.\<close>

definition next_of :: "byte list list \<Rightarrow> byte list \<Rightarrow> byte list option" where
  "next_of xs x =
     (case dropWhile (\<lambda>y. y \<noteq> x) xs of
        [] \<Rightarrow> (case xs of [] \<Rightarrow> None | y # _ \<Rightarrow> Some y)
      | _ # [] \<Rightarrow> None
      | _ # y # _ \<Rightarrow> Some y)"

text \<open>
  \<open>view k fd\<close> is the map behind a descriptor. Lookup and next-key only read; an
  update either is refused or makes the key's value the one given.
\<close>

definition lookup_spec :: "'k bpf_syscall \<Rightarrow> ('k \<Rightarrow> int \<Rightarrow> kmap option) \<Rightarrow> bool" where
  "lookup_spec bpf view \<longleftrightarrow>
     (\<forall>a k M. view k (attr_map_fd a) = Some M \<and> kkey_size M \<le> length (attr_key a) \<longrightarrow>
        (\<exists>k'. view k' = view k \<and> bpf BPF_MAP_LOOKUP_ELEM a k =
           (case map_of (kelems M) (take (kkey_size M) (attr_key a)) of
              Some v \<Rightarrow> (0, v, k') | None \<Rightarrow> (- 1, [], k'))))"

definition update_spec :: "'k bpf_syscall \<Rightarrow> ('k \<Rightarrow> int \<Rightarrow> kmap option) \<Rightarrow> bool" where
  "update_spec bpf view \<longleftrightarrow>
     (\<forall>a k M. view k (attr_map_fd a) = Some M \<and> kkey_size M \<le> length (attr_key a) \<and>
        kvalue_size M \<le> length (attr_value a) \<and> attr_flags a = 0 \<longrightarrow>
        (\<exists>k' es. (bpf BPF_MAP_UPDATE_ELEM a k = (- 1, [], k') \<and> view k' = view k) \<or>
           (bpf BPF_MAP_UPDATE_ELEM a k = (0, [], k') \<and>
            view k' = (view k)(attr_map_fd a := Some (M\<lparr>kelems := es\<rparr>)) \<and> kmap_ok (M\<lparr>kelems := es\<rparr>) \<and>
            map_of es = (map_of (kelems M))(take (kkey_size M) (attr_key a) \<mapsto> take (kvalue_size M) (attr_value a)))))"

definition next_key_spec :: "'k bpf_syscall \<Rightarrow> ('k \<Rightarrow> int \<Rightarrow> kmap option) \<Rightarrow> bool" where
  "next_key_spec bpf view \<longleftrightarrow>
     (\<forall>a k M. view k (attr_map_fd a) = Some M \<and> kkey_size M \<le> length (attr_key a) \<longrightarrow>
        (\<exists>k'. view k' = view k \<and> bpf BPF_MAP_GET_NEXT_KEY a k =
           (case next_of (map fst (kelems M)) (take (kkey_size M) (attr_key a)) of
              Some y \<Rightarrow> (0, y, k') | None \<Rightarrow> (- 1, [], k'))))"

definition map_kernel :: "'k bpf_syscall \<Rightarrow> ('k \<Rightarrow> int \<Rightarrow> kmap option) \<Rightarrow> bool" where
  "map_kernel bpf view \<longleftrightarrow> lookup_spec bpf view \<and> update_spec bpf view \<and> next_key_spec bpf view \<and>
     (\<forall>k fd M. view k fd = Some M \<longrightarrow> kmap_ok M)"

text \<open>The kernel was asked, in state \<open>k\<close>, to set an element of a map, returned \<open>r\<close> and is now in state \<open>k'\<close>.\<close>

definition update_call :: "'k bpf_syscall \<Rightarrow> int \<Rightarrow> byte list \<Rightarrow> byte list \<Rightarrow> 'k \<Rightarrow> int \<Rightarrow> 'k \<Rightarrow> bool" where
  "update_call bpf fd key val k r k' \<longleftrightarrow>
     (\<exists>a out. attr_map_fd a = fd \<and> attr_key a = key \<and> attr_value a = val \<and> attr_flags a = 0 \<and>
        bpf BPF_MAP_UPDATE_ELEM a k = (r, out, k'))"

section \<open>The wrappers on such a kernel\<close>

lemma map_kernel_sizes:
  assumes "map_kernel bpf view" and "view k fd = Some M" and "map_of (kelems M) x = Some v"
  shows "length x = kkey_size M" "length v = kvalue_size M"
proof -
  have "kmap_ok M" using assms(1,2) by (auto simp: map_kernel_def)
  then show "length x = kkey_size M" "length v = kvalue_size M"
    using map_of_SomeD [OF assms(3)] by (auto simp: kmap_ok_def)
qed

lemma bpf_lookup_elem_hit:
  assumes "map_kernel bpf view" and "view k fd = Some M" and "kkey_size M \<le> length key"
    and "map_of (kelems M) (take (kkey_size M) key) = Some v" and "length v \<le> length buf"
  shows "\<exists>k'. bpf_lookup_elem bpf fd key buf k = Some (0, v @ drop (length v) buf, k') \<and> view k' = view k"
proof -
  let ?a = "zero_attr\<lparr>attr_map_fd := fd, attr_key := key, attr_value := buf\<rparr>"
  obtain k' where "view k' = view k" "bpf BPF_MAP_LOOKUP_ELEM ?a k = (0, v, k')"
    using assms(1-4) unfolding map_kernel_def lookup_spec_def by (fastforce dest: spec [of _ ?a])
  with assms(5) show ?thesis by (simp add: bpf_lookup_elem_def memcpy_def)
qed

lemma bpf_lookup_elem_miss:
  assumes "map_kernel bpf view" and "view k fd = Some M" and "kkey_size M \<le> length key"
    and "map_of (kelems M) (take (kkey_size M) key) = None"
  shows "\<exists>k'. bpf_lookup_elem bpf fd key buf k = Some (- 1, buf, k') \<and> view k' = view k"
proof -
  let ?a = "zero_attr\<lparr>attr_map_fd := fd, attr_key := key, attr_value := buf\<rparr>"
  obtain k' where "view k' = view k" "bpf BPF_MAP_LOOKUP_ELEM ?a k = (- 1, [], k')"
    using assms unfolding map_kernel_def lookup_spec_def by (fastforce dest: spec [of _ ?a])
  then show ?thesis by (simp add: bpf_lookup_elem_def memcpy_def)
qed

lemma bpf_update_elem_call: "bpf_update_elem bpf fd key val 0 k = (r, k') \<Longrightarrow> update_call bpf fd key val k r k'"
  unfolding update_call_def
  by (rule exI [of _ "zero_attr\<lparr>attr_map_fd := fd, attr_key := key, attr_value := val, attr_flags := 0\<rparr>"])
    (auto simp: bpf_update_elem_def Let_def split: prod.splits)

text \<open>An accepted update changes the one element, a refused one nothing.\<close>

lemma bpf_update_elem_spec:
  assumes "map_kernel bpf view" and "view k fd = Some M" and "kkey_size M \<le> length key"
    and "kvalue_size M \<le> length val"
  shows "\<exists>r k'. bpf_update_elem bpf fd key val 0 k = (r, k') \<and> update_call bpf fd key val k r k' \<and>
    (if r = 0 then \<exists>es. view k' = (view k)(fd := Some (M\<lparr>kelems := es\<rparr>)) \<and>
       map_of es = (map_of (kelems M))(take (kkey_size M) key \<mapsto> take (kvalue_size M) val)
     else r = - 1 \<and> view k' = view k)"
proof -
  let ?a = "zero_attr\<lparr>attr_map_fd := fd, attr_key := key, attr_value := val, attr_flags := 0\<rparr>"
  have "update_spec bpf view" using assms(1) by (simp add: map_kernel_def)
  from this [unfolded update_spec_def, rule_format, of k ?a M] assms(2-4)
  obtain k' es where "bpf BPF_MAP_UPDATE_ELEM ?a k = (- 1, [], k') \<and> view k' = view k \<or>
      bpf BPF_MAP_UPDATE_ELEM ?a k = (0, [], k') \<and> view k' = (view k)(fd := Some (M\<lparr>kelems := es\<rparr>)) \<and>
      map_of es = (map_of (kelems M))(take (kkey_size M) key \<mapsto> take (kvalue_size M) val)"
    by (auto simp: zero_attr_def)
  then have "bpf_update_elem bpf fd key val 0 k = (- 1, k') \<and> view k' = view k \<or>
      bpf_update_elem bpf fd key val 0 k = (0, k') \<and> view k' = (view k)(fd := Some (M\<lparr>kelems := es\<rparr>)) \<and>
      map_of es = (map_of (kelems M))(take (kkey_size M) key \<mapsto> take (kvalue_size M) val)"
    by (auto simp: bpf_update_elem_def)
  then show ?thesis
  proof (elim disjE conjE)
    assume "bpf_update_elem bpf fd key val 0 k = (- 1, k')" "view k' = view k"
    then show ?thesis using bpf_update_elem_call by (intro exI [of _ "- 1"] exI [of _ k']) auto
  next
    assume "bpf_update_elem bpf fd key val 0 k = (0, k')" "view k' = (view k)(fd := Some (M\<lparr>kelems := es\<rparr>))"
      "map_of es = (map_of (kelems M))(take (kkey_size M) key \<mapsto> take (kvalue_size M) val)"
    then show ?thesis using bpf_update_elem_call by (intro exI [of _ 0] exI [of _ k']) auto
  qed
qed

lemma bpf_get_next_key_spec:
  assumes "map_kernel bpf view" and "view k fd = Some M" and "kkey_size M \<le> length key"
    and "kkey_size M \<le> length buf"
  shows "\<exists>k'. view k' = view k \<and> bpf_get_next_key bpf fd key buf k =
    (case next_of (map fst (kelems M)) (take (kkey_size M) key) of
       Some y \<Rightarrow> Some (0, y @ drop (length y) buf, k') | None \<Rightarrow> Some (- 1, buf, k'))"
proof -
  let ?a = "zero_attr\<lparr>attr_map_fd := fd, attr_key := key, attr_value := buf\<rparr>"
  let ?n = "next_of (map fst (kelems M)) (take (kkey_size M) key)"
  have "next_key_spec bpf view" and ok: "kmap_ok M" using assms(1,2) by (auto simp: map_kernel_def)
  from this(1) [unfolded next_key_spec_def, rule_format, of k ?a M] assms(2-3)
  obtain k' where k': "view k' = view k" "bpf BPF_MAP_GET_NEXT_KEY ?a k =
      (case ?n of Some y \<Rightarrow> (0, y, k') | None \<Rightarrow> (- 1, [], k'))"
    by (auto simp: zero_attr_def)
  show ?thesis
  proof (cases ?n)
    case (Some y)
    then have "y \<in> set (map fst (kelems M))"
      by (auto simp: next_of_def split: list.splits dest!: arg_cong [of _ _ set] set_dropWhileD)
    then have "length y \<le> length buf" using ok assms(4) by (auto simp: kmap_ok_def)
    with Some k' show ?thesis by (auto simp: bpf_get_next_key_def memcpy_def)
  qed (use k' in \<open>auto simp: bpf_get_next_key_def memcpy_def\<close>)
qed

lemma next_of_middle:
  assumes "distinct (ys @ x # zs)"
  shows "next_of (ys @ x # zs) x = (case zs of [] \<Rightarrow> None | z # _ \<Rightarrow> Some z)"
proof -
  have "dropWhile (\<lambda>y. y \<noteq> x) (ys @ x # zs) = x # zs" using assms by (induction ys) auto
  then show ?thesis by (simp add: next_of_def split: list.splits)
qed

lemma next_of_absent:
  assumes "x \<notin> set xs"
  shows "next_of xs x = (case xs of [] \<Rightarrow> None | y # _ \<Rightarrow> Some y)"
proof -
  have "dropWhile (\<lambda>y. y \<noteq> x) xs = []" using assms by (induction xs) auto
  then show ?thesis unfolding next_of_def by (simp only: list.case)
qed

section \<open>A kernel with these promises\<close>

text \<open>Hash maps without a limit on the number of elements, new elements last.\<close>

definition hash_bpf :: "(int \<Rightarrow> kmap option) bpf_syscall" where
  "hash_bpf cmd a k =
     (case k (attr_map_fd a) of
        None \<Rightarrow> (- 1, [], k)
      | Some M \<Rightarrow>
          let x = take (kkey_size M) (attr_key a); v = take (kvalue_size M) (attr_value a)
          in case cmd of
               BPF_MAP_LOOKUP_ELEM \<Rightarrow> (case map_of (kelems M) x of Some v \<Rightarrow> (0, v, k) | None \<Rightarrow> (- 1, [], k))
             | BPF_MAP_UPDATE_ELEM \<Rightarrow>
                 (0, [], k(attr_map_fd a := Some (M\<lparr>kelems :=
                    (if x \<in> fst ` set (kelems M) then map (\<lambda>(y, w). (y, if y = x then v else w)) (kelems M)
                     else kelems M @ [(x, v)])\<rparr>)))
             | BPF_MAP_GET_NEXT_KEY \<Rightarrow>
                 (case next_of (map fst (kelems M)) x of Some y \<Rightarrow> (0, y, k) | None \<Rightarrow> (- 1, [], k))
             | _ \<Rightarrow> (- 1, [], k))"

definition hash_view :: "(int \<Rightarrow> kmap option) \<Rightarrow> int \<Rightarrow> kmap option" where
  "hash_view k fd = (case k fd of None \<Rightarrow> None | Some M \<Rightarrow> if kmap_ok M then Some M else None)"

lemma hash_view_Some: "hash_view k fd = Some M \<longleftrightarrow> k fd = Some M \<and> kmap_ok M"
  by (auto simp: hash_view_def split: option.splits if_splits)

lemma hash_view_upd: "kmap_ok M \<Longrightarrow> hash_view (k(fd := Some M)) = (hash_view k)(fd := Some M)"
  by (auto simp: hash_view_def)

lemma map_of_replace:
  "x \<in> fst ` set es \<Longrightarrow> map_of (map (\<lambda>(y, w). (y, if y = x then v else w)) es) = (map_of es)(x \<mapsto> v)"
proof -
  have "map_of (map (\<lambda>(y, w). (y, if y = x then v else w)) es) z =
      (if z = x then (if x \<in> fst ` set es then Some v else None) else map_of es z)" for z
    by (induction es) force+
  then show "x \<in> fst ` set es \<Longrightarrow> ?thesis" by (intro ext) simp
qed

lemma map_of_snoc: "x \<notin> fst ` set es \<Longrightarrow> map_of (es @ [(x, v)]) = (map_of es)(x \<mapsto> v)"
  by (induction es) auto

lemma hash_bpf_kernel: "map_kernel hash_bpf hash_view"
proof -
  have "update_spec hash_bpf hash_view"
    unfolding update_spec_def
  proof (intro allI impI)
    fix a :: bpf_attr and k M
    assume h: "hash_view k (attr_map_fd a) = Some M \<and> kkey_size M \<le> length (attr_key a) \<and>
      kvalue_size M \<le> length (attr_value a) \<and> attr_flags a = 0"
    let ?x = "take (kkey_size M) (attr_key a)" and ?v = "take (kvalue_size M) (attr_value a)"
    let ?es = "if ?x \<in> fst ` set (kelems M) then map (\<lambda>(y, w). (y, if y = ?x then ?v else w)) (kelems M)
      else kelems M @ [(?x, ?v)]"
    have m: "k (attr_map_fd a) = Some M" "kmap_ok M" using h by (auto simp: hash_view_Some)
    have "map fst (map (\<lambda>(y, w). (y, if y = ?x then ?v else w)) (kelems M)) = map fst (kelems M)" by auto
    then have ok: "kmap_ok (M\<lparr>kelems := ?es\<rparr>)"
      using m(2) h by (auto simp: kmap_ok_def simp del: map_map)
    have mo: "map_of ?es = (map_of (kelems M))(?x \<mapsto> ?v)"
      using map_of_replace [of ?x "kelems M" ?v] map_of_snoc [of ?x "kelems M" ?v] by simp
    have "hash_bpf BPF_MAP_UPDATE_ELEM a k = (0, [], k(attr_map_fd a := Some (M\<lparr>kelems := ?es\<rparr>)))"
      using m(1) by (simp add: hash_bpf_def Let_def)
    with ok mo hash_view_upd [OF ok] show "\<exists>k' es. (hash_bpf BPF_MAP_UPDATE_ELEM a k = (- 1, [], k') \<and> hash_view k' = hash_view k) \<or>
        (hash_bpf BPF_MAP_UPDATE_ELEM a k = (0, [], k') \<and>
         hash_view k' = (hash_view k)(attr_map_fd a := Some (M\<lparr>kelems := es\<rparr>)) \<and> kmap_ok (M\<lparr>kelems := es\<rparr>) \<and>
         map_of es = (map_of (kelems M))(?x \<mapsto> ?v))"
      by blast
  qed
  moreover have "lookup_spec hash_bpf hash_view" "next_key_spec hash_bpf hash_view"
    by (auto simp: lookup_spec_def next_key_spec_def hash_view_Some hash_bpf_def Let_def split: option.splits)
  ultimately show ?thesis by (auto simp: map_kernel_def hash_view_Some)
qed

lemma hash_bpf_accepts: "update_call hash_bpf fd key val k r k' \<Longrightarrow> k fd \<noteq> None \<Longrightarrow> r = 0"
  by (auto simp: update_call_def hash_bpf_def Let_def)

end
