(* ===== verification/Bpf_Map.thy ===== *)
theory Bpf_Map
  imports Bpf_Kernel
begin

text \<open>
  BPF maps as Lua tables, \<^verbatim>\<open>bpf/bpf.c\<close> and the access functions for every pair of
  key and value types in \<^verbatim>\<open>bpf/bpf_map_index_func.h\<close>,
  \<^verbatim>\<open>bpf/bpf_map_newindex_func.h\<close> and \<^verbatim>\<open>bpf/bpf_map_next_func.h\<close>. One definition
  models the six functions of a key type, with the value type as an argument.
  A result \<open>None\<close> is undefined behaviour: a crash, an access outside an object or
  a conversion outside the target type. The results are the number of values
  returned to Lua, the Lua state and the kernel state.
\<close>

section \<open>Types\<close>

datatype elem_type = T_u8 | T_u16 | T_u32 | T_u64 | T_string | T_userdata

datatype c_function =
    F_mt_index | F_mt_newindex | F_mt_pairs
  | F_map_index elem_type elem_type | F_map_newindex elem_type elem_type | F_map_next elem_type

record bpf_map_def =
  map_name :: string
  map_key_type :: string
  map_val_type :: string
  map_type :: uint32
  map_key_size :: uint32
  map_value_size :: uint32
  map_max_entries :: uint32

type_synonym lstate = "(c_function, bpf_map_def) lua_state"
type_synonym 'k c_result = "(nat \<times> lstate \<times> 'k) option"

text \<open>On x86-64: \<^verbatim>\<open>sizeof(long)\<close> is 8, \<^verbatim>\<open>u8\<close> is \<^verbatim>\<open>char\<close> and \<^verbatim>\<open>u16\<close> is \<^verbatim>\<open>short\<close>, both signed.\<close>

definition get_type :: "string \<Rightarrow> elem_type" where
  "get_type type_name =
     (if type_name = ''char'' \<or> type_name = ''u8'' then T_u8
      else if type_name = ''short'' \<or> type_name = ''u16'' then T_u16
      else if type_name = ''int'' \<or> type_name = ''u32'' then T_u32
      else if type_name = ''long'' then T_u64
      else if type_name = ''long long'' \<or> type_name = ''u64'' then T_u64
      else if type_name = ''string'' then T_string
      else T_userdata)"

fun elem_size :: "elem_type \<Rightarrow> nat" where
  "elem_size T_u8 = 1" | "elem_size T_u16 = 2" | "elem_size T_u32 = 4" | "elem_size T_u64 = 8"
| "elem_size T_string = 1024" | "elem_size T_userdata = 1024"

fun elem_min :: "elem_type \<Rightarrow> int" where
  "elem_min T_u8 = - 128" | "elem_min T_u16 = - 32768" | "elem_min _ = 0"

fun elem_max :: "elem_type \<Rightarrow> int" where
  "elem_max T_u8 = 127" | "elem_max T_u16 = 32767" | "elem_max T_u32 = 4294967295"
| "elem_max _ = 18446744073709551615"

fun is_number :: "elem_type \<Rightarrow> bool" where
  "is_number T_string = False" | "is_number T_userdata = False" | "is_number _ = True"

fun elem_decode :: "elem_type \<Rightarrow> byte list \<Rightarrow> int" where
  "elem_decode T_u8 bs = le_sint bs" | "elem_decode T_u16 bs = le_sint bs"
| "elem_decode _ bs = le_uint bs"

section \<open>Arguments\<close>

text \<open>A number argument cast to the type and stored in a variable of it.\<close>

definition number_arg :: "lua_env \<Rightarrow> elem_type \<Rightarrow> lstate \<Rightarrow> nat \<Rightarrow> byte list option" where
  "number_arg E t ls i =
     map_option (le_bytes (elem_size t)) (cast_number (elem_min t) (elem_max t) (lua_tonumber E ls i))"

text \<open>\<^verbatim>\<open>memcpy(&key, str, strlen(str))\<close> into a zeroed buffer of 1024 bytes; a null pointer crashes.\<close>

definition string_arg :: "lua_env \<Rightarrow> lstate \<Rightarrow> nat \<Rightarrow> (byte list \<times> lstate) option" where
  "string_arg E ls i =
     (case lua_tostring E ls i of
        (None, _) \<Rightarrow> None
      | (Some s, ls) \<Rightarrow> map_option (\<lambda>b. (b, ls)) (memcpy (replicate 1024 0) (c_string s)))"

text \<open>\<^verbatim>\<open>memcpy(&val, lua_tostring(ls, -1), 1024)\<close>: 1024 bytes whatever the length of the string.\<close>

definition string_arg_1024 :: "lua_env \<Rightarrow> lstate \<Rightarrow> nat \<Rightarrow> (byte list \<times> lstate) option" where
  "string_arg_1024 E ls i =
     (case lua_tostring E ls i of
        (None, _) \<Rightarrow> None
      | (Some s, ls) \<Rightarrow> Some (take 1024 (s @ 0 # map (beyond E s) [0..<1024]), ls))"

section \<open>Reading\<close>

definition lookup_and_push :: "lua_env \<Rightarrow> 'k bpf_syscall \<Rightarrow> elem_type \<Rightarrow> byte list \<Rightarrow> lstate \<Rightarrow> int \<Rightarrow> bpf_map_def \<Rightarrow> 'k \<Rightarrow> 'k c_result" where
  "lookup_and_push E bpf vt key ls fd m k =
     (case vt of
        T_string \<Rightarrow> do {
          (_, val, k) \<leftarrow> bpf_lookup_elem bpf fd key (replicate 1024 0) k;
          ls \<leftarrow> lua_pushstring val ls;
          Some (1, ls, k)
        }
      | T_userdata \<Rightarrow> do {
          (_, val, k) \<leftarrow> bpf_lookup_elem bpf fd key (replicate 1024 0) k;
          if unat (map_value_size m) \<le> 1024
            then Some (1, lua_push (LUserdata (take (unat (map_value_size m)) val)) ls, k)
            else None
        }
      | _ \<Rightarrow> do {
          (_, val, k) \<leftarrow> bpf_lookup_elem bpf fd key (map (uninit E) [0..<elem_size vt]) k;
          Some (1, lua_pushnumber (Fin (of_int (round_double (elem_decode vt val)))) ls, k)
        })"

definition map_index_u8_func :: "lua_env \<Rightarrow> 'k bpf_syscall \<Rightarrow> elem_type \<Rightarrow> lstate \<Rightarrow> int \<Rightarrow> bpf_map_def \<Rightarrow> 'k \<Rightarrow> 'k c_result" where
  "map_index_u8_func E bpf vt ls fd m k = do { key \<leftarrow> number_arg E T_u8 ls 0; lookup_and_push E bpf vt key ls fd m k }"

definition map_index_u16_func :: "lua_env \<Rightarrow> 'k bpf_syscall \<Rightarrow> elem_type \<Rightarrow> lstate \<Rightarrow> int \<Rightarrow> bpf_map_def \<Rightarrow> 'k \<Rightarrow> 'k c_result" where
  "map_index_u16_func E bpf vt ls fd m k = do { key \<leftarrow> number_arg E T_u16 ls 0; lookup_and_push E bpf vt key ls fd m k }"

definition map_index_u32_func :: "lua_env \<Rightarrow> 'k bpf_syscall \<Rightarrow> elem_type \<Rightarrow> lstate \<Rightarrow> int \<Rightarrow> bpf_map_def \<Rightarrow> 'k \<Rightarrow> 'k c_result" where
  "map_index_u32_func E bpf vt ls fd m k = do { key \<leftarrow> number_arg E T_u32 ls 0; lookup_and_push E bpf vt key ls fd m k }"

definition map_index_u64_func :: "lua_env \<Rightarrow> 'k bpf_syscall \<Rightarrow> elem_type \<Rightarrow> lstate \<Rightarrow> int \<Rightarrow> bpf_map_def \<Rightarrow> 'k \<Rightarrow> 'k c_result" where
  "map_index_u64_func E bpf vt ls fd m k = do { key \<leftarrow> number_arg E T_u64 ls 0; lookup_and_push E bpf vt key ls fd m k }"

definition map_index_string_func :: "lua_env \<Rightarrow> 'k bpf_syscall \<Rightarrow> elem_type \<Rightarrow> lstate \<Rightarrow> int \<Rightarrow> bpf_map_def \<Rightarrow> 'k \<Rightarrow> 'k c_result" where
  "map_index_string_func E bpf vt ls fd m k = do { (key, ls) \<leftarrow> string_arg E ls 0; lookup_and_push E bpf vt key ls fd m k }"

definition map_index_userdata_func :: "lua_env \<Rightarrow> 'k bpf_syscall \<Rightarrow> elem_type \<Rightarrow> lstate \<Rightarrow> int \<Rightarrow> bpf_map_def \<Rightarrow> 'k \<Rightarrow> 'k c_result" where
  "map_index_userdata_func E bpf vt ls fd m k = lookup_and_push E bpf vt (replicate 1024 0) ls fd m k"

text \<open>The table of functions and the call through it.\<close>

fun map_index_func_array :: "elem_type \<Rightarrow> lua_env \<Rightarrow> 'k bpf_syscall \<Rightarrow> elem_type \<Rightarrow> lstate \<Rightarrow> int \<Rightarrow> bpf_map_def \<Rightarrow> 'k \<Rightarrow> 'k c_result" where
  "map_index_func_array T_u8 = map_index_u8_func"
| "map_index_func_array T_u16 = map_index_u16_func"
| "map_index_func_array T_u32 = map_index_u32_func"
| "map_index_func_array T_u64 = map_index_u64_func"
| "map_index_func_array T_string = map_index_string_func"
| "map_index_func_array T_userdata = map_index_userdata_func"

section \<open>Writing\<close>

abbreviation BPF_ANY :: uint64 where "BPF_ANY \<equiv> 0"

definition update_from_arg :: "lua_env \<Rightarrow> 'k bpf_syscall \<Rightarrow> elem_type \<Rightarrow> byte list \<Rightarrow> lstate \<Rightarrow> int \<Rightarrow> 'k \<Rightarrow> 'k c_result" where
  "update_from_arg E bpf vt key ls fd k = do {
     (val, ls) \<leftarrow> (case vt of
        T_string \<Rightarrow> string_arg_1024 E ls 0
      | T_userdata \<Rightarrow> Some (replicate 1024 0, ls)
      | _ \<Rightarrow> map_option (\<lambda>b. (b, ls)) (number_arg E vt ls 0));
     let (_, k) = bpf_update_elem bpf fd key val BPF_ANY k;
     Some (0, ls, k)
   }"

definition map_newindex_u8_func :: "lua_env \<Rightarrow> 'k bpf_syscall \<Rightarrow> elem_type \<Rightarrow> lstate \<Rightarrow> int \<Rightarrow> bpf_map_def \<Rightarrow> 'k \<Rightarrow> 'k c_result" where
  "map_newindex_u8_func E bpf vt ls fd m k = do { key \<leftarrow> number_arg E T_u8 ls 1; update_from_arg E bpf vt key ls fd k }"

definition map_newindex_u16_func :: "lua_env \<Rightarrow> 'k bpf_syscall \<Rightarrow> elem_type \<Rightarrow> lstate \<Rightarrow> int \<Rightarrow> bpf_map_def \<Rightarrow> 'k \<Rightarrow> 'k c_result" where
  "map_newindex_u16_func E bpf vt ls fd m k = do { key \<leftarrow> number_arg E T_u16 ls 1; update_from_arg E bpf vt key ls fd k }"

definition map_newindex_u32_func :: "lua_env \<Rightarrow> 'k bpf_syscall \<Rightarrow> elem_type \<Rightarrow> lstate \<Rightarrow> int \<Rightarrow> bpf_map_def \<Rightarrow> 'k \<Rightarrow> 'k c_result" where
  "map_newindex_u32_func E bpf vt ls fd m k = do { key \<leftarrow> number_arg E T_u32 ls 1; update_from_arg E bpf vt key ls fd k }"

definition map_newindex_u64_func :: "lua_env \<Rightarrow> 'k bpf_syscall \<Rightarrow> elem_type \<Rightarrow> lstate \<Rightarrow> int \<Rightarrow> bpf_map_def \<Rightarrow> 'k \<Rightarrow> 'k c_result" where
  "map_newindex_u64_func E bpf vt ls fd m k = do { key \<leftarrow> number_arg E T_u64 ls 1; update_from_arg E bpf vt key ls fd k }"

definition map_newindex_string_func :: "lua_env \<Rightarrow> 'k bpf_syscall \<Rightarrow> elem_type \<Rightarrow> lstate \<Rightarrow> int \<Rightarrow> bpf_map_def \<Rightarrow> 'k \<Rightarrow> 'k c_result" where
  "map_newindex_string_func E bpf vt ls fd m k = do { (key, ls) \<leftarrow> string_arg_1024 E ls 1; update_from_arg E bpf vt key ls fd k }"

definition map_newindex_userdata_func :: "lua_env \<Rightarrow> 'k bpf_syscall \<Rightarrow> elem_type \<Rightarrow> lstate \<Rightarrow> int \<Rightarrow> bpf_map_def \<Rightarrow> 'k \<Rightarrow> 'k c_result" where
  "map_newindex_userdata_func E bpf vt ls fd m k = update_from_arg E bpf vt (replicate 1024 0) ls fd k"

fun map_newindex_func_array :: "elem_type \<Rightarrow> lua_env \<Rightarrow> 'k bpf_syscall \<Rightarrow> elem_type \<Rightarrow> lstate \<Rightarrow> int \<Rightarrow> bpf_map_def \<Rightarrow> 'k \<Rightarrow> 'k c_result" where
  "map_newindex_func_array T_u8 = map_newindex_u8_func"
| "map_newindex_func_array T_u16 = map_newindex_u16_func"
| "map_newindex_func_array T_u32 = map_newindex_u32_func"
| "map_newindex_func_array T_u64 = map_newindex_u64_func"
| "map_newindex_func_array T_string = map_newindex_string_func"
| "map_newindex_func_array T_userdata = map_newindex_userdata_func"

section \<open>Iterating\<close>

text \<open>\<^verbatim>\<open>tabV\<close> of a value that is not a table is undefined.\<close>

definition tabV :: "lstate \<Rightarrow> nat \<Rightarrow> (c_function, bpf_map_def) gctab option" where
  "tabV ls i = (case index2adr ls i of LTable t \<Rightarrow> Some (tables ls t) | _ \<Rightarrow> None)"

definition map_next_number_func :: "elem_type \<Rightarrow> lua_env \<Rightarrow> 'k bpf_syscall \<Rightarrow> lstate \<Rightarrow> 'k \<Rightarrow> 'k c_result" where
  "map_next_number_func t E bpf ls k = do {
     tab \<leftarrow> tabV ls 1;
     let fd = data1 tab;
     key \<leftarrow> number_arg E t ls 0;
     (r, nextkey, k) \<leftarrow> bpf_get_next_key bpf fd key (map (uninit E) [0..<elem_size t]) k;
     if r = 0 then Some (1, lua_pushnumber (Fin (of_int (round_double (elem_decode t nextkey)))) ls, k)
     else Some (0, ls, k)
   }"

definition map_next_string_func :: "lua_env \<Rightarrow> 'k bpf_syscall \<Rightarrow> lstate \<Rightarrow> 'k \<Rightarrow> 'k c_result" where
  "map_next_string_func E bpf ls k = do {
     tab \<leftarrow> tabV ls 1;
     let fd = data1 tab;
     (key, ls) \<leftarrow> (if lua_isnil ls 0 then Some ((replicate 1024 0)[0 := 0], ls) else string_arg E ls 0);
     (r, nextkey, k) \<leftarrow> bpf_get_next_key bpf fd key (replicate 1024 0) k;
     if r = 0 then do { ls \<leftarrow> lua_pushstring nextkey ls; Some (1, ls, k) }
     else Some (0, ls, k)
   }"

definition map_next_userdata_func :: "lua_env \<Rightarrow> 'k bpf_syscall \<Rightarrow> lstate \<Rightarrow> 'k \<Rightarrow> 'k c_result" where
  "map_next_userdata_func E bpf ls k = do {
     tab \<leftarrow> tabV ls 1;
     let fd = data1 tab;
     (r, nextkey, k) \<leftarrow> bpf_get_next_key bpf fd (replicate 1024 0) (replicate 1024 0) k;
     if r = 0 then Some (1, ls, k) else Some (0, ls, k)
   }"

definition map_next_func_array :: "elem_type \<Rightarrow> lua_env \<Rightarrow> 'k bpf_syscall \<Rightarrow> lstate \<Rightarrow> 'k \<Rightarrow> 'k c_result" where
  "map_next_func_array t =
     (case t of T_string \<Rightarrow> map_next_string_func | T_userdata \<Rightarrow> map_next_userdata_func
      | _ \<Rightarrow> map_next_number_func t)"

section \<open>The metatable\<close>

definition mt_index :: "lua_env \<Rightarrow> 'k bpf_syscall \<Rightarrow> lstate \<Rightarrow> 'k \<Rightarrow> 'k c_result" where
  "mt_index E bpf ls k = do {
     t \<leftarrow> tabV ls 1;
     m \<leftarrow> data2 t;
     func \<leftarrow> data3 t;
     (case func of
        F_map_index kt vt \<Rightarrow> do { (_, ls, k) \<leftarrow> map_index_func_array kt E bpf vt ls (data1 t) m k; Some (1, ls, k) }
      | _ \<Rightarrow> None)
   }"

definition mt_newindex :: "lua_env \<Rightarrow> 'k bpf_syscall \<Rightarrow> lstate \<Rightarrow> 'k \<Rightarrow> 'k c_result" where
  "mt_newindex E bpf ls k = do {
     t \<leftarrow> tabV ls 2;
     m \<leftarrow> data2 t;
     func \<leftarrow> data4 t;
     (case func of
        F_map_newindex kt vt \<Rightarrow> do { (_, ls, k) \<leftarrow> map_newindex_func_array kt E bpf vt ls (data1 t) m k; Some (0, ls, k) }
      | _ \<Rightarrow> None)
   }"

definition mt_pairs :: "lstate \<Rightarrow> 'k \<Rightarrow> 'k c_result" where
  "mt_pairs ls k = do {
     t \<leftarrow> tabV ls 0;
     m \<leftarrow> data2 t;
     func \<leftarrow> data5 t;
     let ls = lua_pushcfunction func ls;
     let ls = lua_pushvalue 1 ls;
     let ls = lua_pushnil ls;
     Some (3, ls, k)
   }"

definition init_metatable :: "lstate \<Rightarrow> bpf_map_def \<Rightarrow> int \<Rightarrow> lstate option" where
  "init_metatable ls m fd = do {
     let index_func = F_map_index (get_type (map_key_type m)) (get_type (map_val_type m));
     let newindex_func = F_map_newindex (get_type (map_key_type m)) (get_type (map_val_type m));
     let next_func = F_map_next (get_type (map_key_type m));
     t \<leftarrow> (case index2adr ls 0 of LTable t \<Rightarrow> Some t | _ \<Rightarrow> None);
     let ls = upd_table t (\<lambda>x. x\<lparr>data1 := fd, data2 := Some m, data3 := Some index_func,
                data4 := Some newindex_func, data5 := Some next_func\<rparr>) ls;
     let ls = lua_createtable ls;
     let ls = lua_pushcfunction F_mt_index ls;
     ls \<leftarrow> lua_setfield 1 ''__index'' ls;
     let ls = lua_pushcfunction F_mt_newindex ls;
     ls \<leftarrow> lua_setfield 1 ''__newindex'' ls;
     let ls = lua_pushcfunction F_mt_pairs ls;
     ls \<leftarrow> lua_setfield 1 ''__pairs'' ls;
     let ls = lua_pushcfunction F_mt_pairs ls;
     ls \<leftarrow> lua_setfield 1 ''__ipairs'' ls;
     lua_setmetatable 1 ls
   }"

section \<open>Creating the maps of a program\<close>

abbreviation MAX_MAPS :: nat where "MAX_MAPS \<equiv> 32"

text \<open>The loop of \<^verbatim>\<open>shark_create_bpf_map\<close> from map number \<open>i\<close> on; \<open>map_fd\<close> is the global array.\<close>

fun create_maps_from :: "'k bpf_syscall \<Rightarrow> bpf_map_def list \<Rightarrow> nat \<Rightarrow> lstate \<Rightarrow> int list \<Rightarrow> 'k \<Rightarrow> (int \<times> lstate \<times> int list \<times> 'k) option" where
  "create_maps_from bpf [] i ls map_fd k = Some (0, ls, map_fd, k)"
| "create_maps_from bpf (m # ms) i ls map_fd k =
     (let (fd, k) = bpf_create_map bpf (map_type m) (map_key_size m) (map_value_size m) (map_max_entries m) k
      in if i < length map_fd then
           let map_fd = map_fd[i := fd]
           in if map_fd ! i < 0 then Some (1, ls, map_fd, k)
              else do {
                let ls = lua_createtable ls;
                ls \<leftarrow> init_metatable ls m (map_fd ! i);
                ls \<leftarrow> lua_setfield 1 (map_name m) ls;
                create_maps_from bpf ms (Suc i) ls map_fd k
              }
         else None)"

definition shark_create_bpf_map :: "'k bpf_syscall \<Rightarrow> bpf_map_def list \<Rightarrow> lstate \<Rightarrow> int list \<Rightarrow> 'k \<Rightarrow> (int \<times> lstate \<times> int list \<times> 'k) option" where
  "shark_create_bpf_map bpf maps ls map_fd k = do {
     let ls = lua_getglobal ''bpf'' ls;
     let ls = lua_createtable ls;
     (r, ls, map_fd, k) \<leftarrow> create_maps_from bpf maps 0 ls map_fd k;
     if r \<noteq> 0 then Some (r, ls, map_fd, k)
     else do {
       ls \<leftarrow> lua_setfield 1 ''var'' ls;
       let ls = lua_pop 1 ls;
       let ls = lua_pushnil ls;
       let ls = lua_setglobal ''bpf'' ls;
       Some (0, ls, map_fd, k)
     }
   }"

section \<open>Numbers through a map\<close>

lemma le_bytes_inj:
  assumes "le_bytes k x = le_bytes k y" and "a \<le> x" "x < a + 256 ^ k" "a \<le> y" "y < a + 256 ^ k"
  shows "x = y"
proof -
  have "x mod 256 ^ k = y mod 256 ^ k" using assms(1) le_uint_le_bytes by metis
  then have "(256 :: int) ^ k dvd x - y" by (simp add: mod_eq_dvd_iff)
  moreover have "\<bar>x - y\<bar> < 256 ^ k" using assms(2-5) by auto
  ultimately show ?thesis using dvd_imp_le_int [of "x - y" "256 ^ k"] by fastforce
qed

definition elem_range :: "elem_type \<Rightarrow> int set" where
  "elem_range t = {elem_min t..elem_max t}"

lemma elem_range_width: "is_number t \<Longrightarrow> elem_max t + 1 = elem_min t + 256 ^ elem_size t"
  by (cases t) simp_all

lemma elem_bytes_inj:
  assumes "is_number t" and "x \<in> elem_range t" and "y \<in> elem_range t"
    and "le_bytes (elem_size t) x = le_bytes (elem_size t) y"
  shows "x = y"
  using le_bytes_inj [OF assms(4), of "elem_min t"] elem_range_width [OF assms(1)] assms(2,3)
  by (auto simp: elem_range_def)

lemma elem_decode_bytes:
  assumes "is_number t" and "x \<in> elem_range t"
  shows "elem_decode t (le_bytes (elem_size t) x) = x"
proof -
  have s: "le_sint (le_bytes 1 x) = x" if "- 128 \<le> x" "x \<le> 127" for x using le_sint_le_bytes [of 1 x] that by simp
  have u: "le_sint (le_bytes 2 x) = x" if "- 32768 \<le> x" "x \<le> 32767" for x using le_sint_le_bytes [of 2 x] that by simp
  show ?thesis using assms s u by (cases t) (auto simp: elem_range_def le_uint_le_bytes)
qed

lemma truncate_of_int [simp]: "truncate_rat (of_int n) = n"
  by (simp add: truncate_rat_def)

lemma number_arg_int:
  assumes "index2adr ls i = LNumber (Fin (of_int n))" and "n \<in> elem_range t"
  shows "number_arg E t ls i = Some (le_bytes (elem_size t) n)"
  using assms by (simp add: number_arg_def lua_tonumber_def elem_range_def)

lemma elem_decode_range:
  assumes "is_number t" and "length bs = elem_size t"
  shows "elem_decode t bs \<in> elem_range t"
proof -
  have "0 \<le> le_uint bs" "le_uint bs < 256 ^ elem_size t" using le_uint_bounds [of bs] assms(2) by auto
  then show ?thesis using assms by (cases t) (auto simp: elem_range_def le_sint_def Let_def)
qed

text \<open>
  A Lua value that is a map table: the fields added to the table hold the map's
  descriptor and definition and the functions for its types.
\<close>

definition map_object :: "lstate \<Rightarrow> nat \<Rightarrow> int \<Rightarrow> bpf_map_def \<Rightarrow> elem_type \<Rightarrow> elem_type \<Rightarrow> bool" where
  "map_object ls t fd m kt vt \<longleftrightarrow>
     data1 (tables ls t) = fd \<and> data2 (tables ls t) = Some m \<and> data3 (tables ls t) = Some (F_map_index kt vt) \<and>
     data4 (tables ls t) = Some (F_map_newindex kt vt) \<and> data5 (tables ls t) = Some (F_map_next kt)"

lemma map_index_number_func:
  "is_number kt \<Longrightarrow> map_index_func_array kt E bpf vt ls fd m k =
     do { key \<leftarrow> number_arg E kt ls 0; lookup_and_push E bpf vt key ls fd m k }"
  by (cases kt) (simp_all add: map_index_u8_func_def map_index_u16_func_def map_index_u32_func_def map_index_u64_func_def)

lemma map_newindex_number_func:
  "is_number kt \<Longrightarrow> map_newindex_func_array kt E bpf vt ls fd m k =
     do { key \<leftarrow> number_arg E kt ls 1; update_from_arg E bpf vt key ls fd k }"
  by (cases kt) (simp_all add: map_newindex_u8_func_def map_newindex_u16_func_def map_newindex_u32_func_def map_newindex_u64_func_def)

text \<open>What reading a key pushes, given what the map holds.\<close>

definition number_result :: "lua_env \<Rightarrow> elem_type \<Rightarrow> byte list option \<Rightarrow> c_function lua_value" where
  "number_result E vt v =
     LNumber (Fin (of_int (round_double (elem_decode vt
       (case v of Some bs \<Rightarrow> bs | None \<Rightarrow> map (uninit E) [0..<elem_size vt])))))"

lemma lookup_and_push_number:
  assumes "map_kernel bpf view" and "view k fd = Some M" and "is_number vt"
    and "kkey_size M \<le> length key" and "kvalue_size M = elem_size vt"
  shows "\<exists>k'. lookup_and_push E bpf vt key ls fd m k =
    Some (1, lua_push (number_result E vt (map_of (kelems M) (take (kkey_size M) key))) ls, k') \<and> view k' = view k"
proof -
  let ?buf = "map (uninit E) [0..<elem_size vt]"
  have l: "lookup_and_push E bpf vt key ls fd m k = do {
      (_, val, k) \<leftarrow> bpf_lookup_elem bpf fd key ?buf k;
      Some (1, lua_push (LNumber (Fin (of_int (round_double (elem_decode vt val))))) ls, k) }"
    using assms(3) by (cases vt) (simp_all add: lookup_and_push_def lua_pushnumber_def)
  show ?thesis
  proof (cases "map_of (kelems M) (take (kkey_size M) key)")
    case None
    then obtain k' where "bpf_lookup_elem bpf fd key ?buf k = Some (- 1, ?buf, k')" "view k' = view k"
      using bpf_lookup_elem_miss [OF assms(1,2), of key ?buf] assms(4) by auto
    with None show ?thesis by (auto simp: l number_result_def)
  next
    case (Some v)
    then have len: "length v = elem_size vt"
      using map_kernel_sizes(2) [OF assms(1,2) Some] assms(5) by simp
    then obtain k' where "bpf_lookup_elem bpf fd key ?buf k = Some (0, v, k')" "view k' = view k"
      using bpf_lookup_elem_hit [OF assms(1,2), of key v ?buf] assms(4) Some by auto
    with Some show ?thesis by (auto simp: l number_result_def)
  qed
qed

lemma mt_index_number:
  assumes "map_kernel bpf view" and "view k fd = Some M" and "is_number kt" and "is_number vt"
    and "kkey_size M = elem_size kt" and "kvalue_size M = elem_size vt"
    and "lstack ls = LNumber (Fin (of_int x)) # LTable t # rest" and "map_object ls t fd m kt vt"
    and "x \<in> elem_range kt"
  shows "\<exists>k'. mt_index E bpf ls k =
    Some (1, lua_push (number_result E vt (map_of (kelems M) (le_bytes (elem_size kt) x))) ls, k') \<and> view k' = view k"
proof -
  have i: "index2adr ls 0 = LNumber (Fin (of_int x))" "tabV ls 1 = Some (tables ls t)"
    using assms(7) by (simp_all add: index2adr_def tabV_def)
  have "mt_index E bpf ls k = do { (_, ls, k) \<leftarrow> map_index_func_array kt E bpf vt ls fd m k; Some (1, ls, k) }"
    using assms(8) i(2) by (simp add: mt_index_def map_object_def)
  also have "\<dots> = do { (_, ls, k) \<leftarrow> lookup_and_push E bpf vt (le_bytes (elem_size kt) x) ls fd m k; Some (1, ls, k) }"
    using number_arg_int [OF i(1) assms(9)] by (simp add: map_index_number_func [OF assms(3)])
  finally show ?thesis
    using lookup_and_push_number [OF assms(1,2,4), of "le_bytes (elem_size kt) x" E ls m] assms(5,6) by auto
qed

text \<open>
  What an assignment does to the map: the kernel is asked for it once, with the bytes of key and value. When it
  accepts, the element is set, and when it refuses, nothing has changed.
\<close>

definition map_updated :: "'k bpf_syscall \<Rightarrow> ('k \<Rightarrow> int \<Rightarrow> kmap option) \<Rightarrow> int \<Rightarrow> kmap \<Rightarrow> byte list \<Rightarrow> byte list \<Rightarrow> 'k \<Rightarrow> int \<Rightarrow> 'k \<Rightarrow> bool" where
  "map_updated bpf view fd M key val k r k' \<longleftrightarrow>
     update_call bpf fd key val k r k' \<and>
     (if r = 0 then \<exists>es. view k' = (view k)(fd := Some (M\<lparr>kelems := es\<rparr>)) \<and>
        map_of es = (map_of (kelems M))(take (kkey_size M) key \<mapsto> take (kvalue_size M) val)
      else r = - 1 \<and> view k' = view k)"

lemma map_updated_wrapper:
  assumes "map_kernel bpf view" and "view k fd = Some M" and "kkey_size M \<le> length key" and "kvalue_size M \<le> length val"
  shows "\<exists>r. map_updated bpf view fd M key val k r (snd (bpf_update_elem bpf fd key val BPF_ANY k))"
proof -
  from bpf_update_elem_spec [OF assms] obtain r k' where "bpf_update_elem bpf fd key val 0 k = (r, k')" "map_updated bpf view fd M key val k r k'"
    unfolding map_updated_def by blast
  then show ?thesis by auto
qed

lemma mt_newindex_number:
  assumes "map_kernel bpf view" and "view k fd = Some M" and "is_number kt" and "is_number vt"
    and "kkey_size M = elem_size kt" and "kvalue_size M = elem_size vt"
    and "lstack ls = LNumber (Fin (of_int y)) # LNumber (Fin (of_int x)) # LTable t # rest"
    and "map_object ls t fd m kt vt" and "x \<in> elem_range kt" and "y \<in> elem_range vt"
  shows "\<exists>r k'. mt_newindex E bpf ls k = Some (0, ls, k') \<and>
    map_updated bpf view fd M (le_bytes (elem_size kt) x) (le_bytes (elem_size vt) y) k r k'"
proof -
  let ?x = "le_bytes (elem_size kt) x" and ?y = "le_bytes (elem_size vt) y"
  have i: "index2adr ls 0 = LNumber (Fin (of_int y))" "index2adr ls 1 = LNumber (Fin (of_int x))"
      "tabV ls 2 = Some (tables ls t)"
    using assms(7) by (simp_all add: index2adr_def tabV_def)
  have "mt_newindex E bpf ls k = do { (_, ls, k) \<leftarrow> map_newindex_func_array kt E bpf vt ls fd m k; Some (0, ls, k) }"
    using assms(8) i(3) by (simp add: mt_newindex_def map_object_def)
  also have "\<dots> = do { (_, ls, k) \<leftarrow> update_from_arg E bpf vt ?x ls fd k; Some (0, ls, k) }"
    using number_arg_int [OF i(2) assms(9)] by (simp add: map_newindex_number_func [OF assms(3)])
  also have "update_from_arg E bpf vt ?x ls fd k = Some (0, ls, snd (bpf_update_elem bpf fd ?x ?y BPF_ANY k))"
    using number_arg_int [OF i(1) assms(10)] assms(4)
    by (cases vt) (simp_all add: update_from_arg_def case_prod_beta)
  finally have r: "mt_newindex E bpf ls k = Some (0, ls, snd (bpf_update_elem bpf fd ?x ?y BPF_ANY k))" by simp
  then show ?thesis using map_updated_wrapper [OF assms(1,2), of ?x ?y] assms(5,6) by auto
qed

section \<open>Strings through a map\<close>

lemma c_string_take_pad:
  assumes "0 \<notin> set s" and "length s < n"
  shows "c_string (take n (s @ 0 # xs) @ ys) = s" and "0 \<in> set (take n (s @ 0 # xs) @ ys)"
proof -
  obtain d where n: "n = length s + Suc d" using assms(2) less_iff_Suc_add by auto
  then have "take n (s @ 0 # xs) = s @ 0 # take d xs" by simp
  then show "c_string (take n (s @ 0 # xs) @ ys) = s" "0 \<in> set (take n (s @ 0 # xs) @ ys)"
    using c_string_no_nul(1) [OF assms(1)] by simp_all
qed

lemma string_arg_1024_string:
  assumes "index2adr ls i = LString s"
  shows "string_arg_1024 E ls i = Some (take 1024 (s @ 0 # map (beyond E s) [0..<1024]), ls)"
  using assms by (simp add: string_arg_1024_def lua_tostring_def)

lemma lookup_and_push_string:
  assumes "map_kernel bpf view" and "view k fd = Some M" and "kkey_size M \<le> length key"
    and "map_of (kelems M) (take (kkey_size M) key) = Some (take (kvalue_size M) (s @ 0 # xs))"
    and "0 \<notin> set s" and "length s < kvalue_size M" and "kvalue_size M \<le> 1024"
  shows "\<exists>k'. lookup_and_push E bpf T_string key ls fd m k = Some (1, lua_push (LString s) ls, k') \<and> view k' = view k"
proof -
  define v where "v = take (kvalue_size M) (s @ 0 # xs)"
  have at: "map_of (kelems M) (take (kkey_size M) key) = Some v" using assms(4) unfolding v_def .
  have "length v \<le> length (replicate 1024 (0 :: byte))" using map_kernel_sizes(2) [OF assms(1,2) at] assms(7) by simp
  from bpf_lookup_elem_hit [OF assms(1-3) at this] obtain k' where "bpf_lookup_elem bpf fd key (replicate 1024 0) k =
      Some (0, v @ drop (length v) (replicate 1024 0), k')" "view k' = view k"
    by blast
  moreover have "c_string (v @ ys) = s" for ys
    using c_string_take_pad(1) [OF assms(5,6), of xs] by (simp add: v_def)
  moreover have "0 \<in> set v"
    using c_string_take_pad(2) [OF assms(5,6), of xs "[]"] by (simp add: v_def)
  ultimately show ?thesis
    by (simp add: lookup_and_push_def lua_pushstring_def)
qed

text \<open>The 1024 bytes that are copied from the start of a string in memory.\<close>

definition copied_1024 :: "lua_env \<Rightarrow> byte list \<Rightarrow> byte list" where
  "copied_1024 E s = take 1024 (s @ 0 # map (beyond E s) [0..<1024])"

lemma length_copied_1024 [simp]: "length (copied_1024 E s) = 1024"
  by (simp add: copied_1024_def)

lemma take_copied_1024: "n \<le> 1024 \<Longrightarrow> take n (copied_1024 E s) = take n (s @ 0 # map (beyond E s) [0..<1024])"
  by (simp add: copied_1024_def min_def)

lemma mt_newindex_string_value:
  assumes "map_kernel bpf view" and "view k fd = Some M" and "is_number kt"
    and "kkey_size M = elem_size kt" and "kvalue_size M \<le> 1024"
    and "lstack ls = LString s # LNumber (Fin (of_int x)) # LTable t # rest"
    and "map_object ls t fd m kt T_string" and "x \<in> elem_range kt"
  shows "\<exists>r k'. mt_newindex E bpf ls k = Some (0, ls, k') \<and>
    map_updated bpf view fd M (le_bytes (elem_size kt) x) (copied_1024 E s) k r k'"
proof -
  let ?x = "le_bytes (elem_size kt) x" and ?v = "copied_1024 E s"
  have i: "index2adr ls 0 = LString s" "index2adr ls 1 = LNumber (Fin (of_int x))" "tabV ls 2 = Some (tables ls t)"
    using assms(6) by (simp_all add: index2adr_def tabV_def)
  have "mt_newindex E bpf ls k = do { (_, ls, k) \<leftarrow> update_from_arg E bpf T_string ?x ls fd k; Some (0, ls, k) }"
    using assms(7) i(3) number_arg_int [OF i(2) assms(8)]
    by (simp add: mt_newindex_def map_object_def map_newindex_number_func [OF assms(3)])
  then have "mt_newindex E bpf ls k = Some (0, ls, snd (bpf_update_elem bpf fd ?x ?v BPF_ANY k))"
    using string_arg_1024_string [OF i(1)] by (simp add: copied_1024_def update_from_arg_def case_prod_beta)
  then show ?thesis using map_updated_wrapper [OF assms(1,2), of ?x ?v] assms(4,5) by auto
qed

text \<open>
  Keys: reading pads the string with zero bytes, writing with whatever follows
  the string in memory.
\<close>

definition read_key :: "nat \<Rightarrow> byte list \<Rightarrow> byte list" where
  "read_key n s = take n (s @ replicate 1024 0)"

definition written_key :: "lua_env \<Rightarrow> nat \<Rightarrow> byte list \<Rightarrow> byte list" where
  "written_key E n s = take n (s @ 0 # map (beyond E s) [0..<1024])"

lemma string_arg_key:
  assumes "index2adr ls i = LString s" and "0 \<notin> set s" and "length s < n" and "n \<le> 1024"
  shows "\<exists>key. string_arg E ls i = Some (key, ls) \<and> length key = 1024 \<and> take n key = read_key n s"
proof -
  have "string_arg E ls i = Some (s @ replicate (1024 - length s) 0, ls)"
    using assms by (simp add: string_arg_def lua_tostring_def memcpy_def c_string_no_nul)
  moreover have "take n (s @ replicate (1024 - length s) 0) = read_key n s"
    using assms(3,4) by (auto simp: read_key_def min_def)
  ultimately show ?thesis using assms(3,4) by auto
qed

lemma read_key_eq_written_key:
  assumes "length s < n" and "n \<le> 1024"
  shows "read_key n s = written_key E n s \<longleftrightarrow> (\<forall>j < n - length s - 1. beyond E s j = 0)"
proof -
  obtain d where n: "n = length s + Suc d" using assms(1) less_iff_Suc_add by auto
  then have d: "d < 1024" using assms(2) by simp
  have "read_key n s = s @ 0 # replicate d 0" using n d by (simp add: read_key_def min_def flip: replicate_Suc)
  moreover have "written_key E n s = s @ 0 # map (beyond E s) [0..<d]"
    using n d by (simp add: written_key_def take_map min_def)
  moreover have "replicate d 0 = map (beyond E s) [0..<d] \<longleftrightarrow> (\<forall>j<d. beyond E s j = 0)"
    by (auto simp: list_eq_iff_nth_eq)
  ultimately show ?thesis using n by simp
qed

lemma mt_newindex_string_key:
  assumes "map_kernel bpf view" and "view k fd = Some M" and "is_number vt"
    and "kkey_size M \<le> 1024" and "kvalue_size M = elem_size vt"
    and "lstack ls = LNumber (Fin (of_int y)) # LString s # LTable t # rest"
    and "map_object ls t fd m T_string vt" and "y \<in> elem_range vt"
  shows "\<exists>r k'. mt_newindex E bpf ls k = Some (0, ls, k') \<and>
    map_updated bpf view fd M (copied_1024 E s) (le_bytes (elem_size vt) y) k r k'"
proof -
  let ?x = "copied_1024 E s" and ?y = "le_bytes (elem_size vt) y"
  have i: "index2adr ls 0 = LNumber (Fin (of_int y))" "index2adr ls 1 = LString s" "tabV ls 2 = Some (tables ls t)"
    using assms(6) by (simp_all add: index2adr_def tabV_def)
  have "mt_newindex E bpf ls k = do { (_, ls, k) \<leftarrow> update_from_arg E bpf vt ?x ls fd k; Some (0, ls, k) }"
    using assms(7) i(3) string_arg_1024_string [OF i(2)]
    by (simp add: copied_1024_def mt_newindex_def map_object_def map_newindex_string_func_def)
  moreover have "update_from_arg E bpf vt ?x ls fd k = Some (0, ls, snd (bpf_update_elem bpf fd ?x ?y BPF_ANY k))"
    using number_arg_int [OF i(1) assms(8)] assms(3) by (cases vt) (simp_all add: update_from_arg_def case_prod_beta)
  ultimately show ?thesis using map_updated_wrapper [OF assms(1,2), of ?x ?y] assms(4,5) by auto
qed

lemma mt_index_string_key:
  assumes "map_kernel bpf view" and "view k fd = Some M" and "is_number vt"
    and "length s < kkey_size M" and "kkey_size M \<le> 1024" and "kvalue_size M = elem_size vt" and "0 \<notin> set s"
    and "lstack ls = LString s # LTable t # rest" and "map_object ls t fd m T_string vt"
  shows "\<exists>k'. mt_index E bpf ls k =
    Some (1, lua_push (number_result E vt (map_of (kelems M) (read_key (kkey_size M) s))) ls, k') \<and> view k' = view k"
proof -
  have i: "index2adr ls 0 = LString s" "tabV ls 1 = Some (tables ls t)"
    using assms(8) by (simp_all add: index2adr_def tabV_def)
  obtain key where key: "string_arg E ls 0 = Some (key, ls)" "length key = 1024"
      "take (kkey_size M) key = read_key (kkey_size M) s"
    using string_arg_key [OF i(1) assms(7,4,5)] by blast
  have "mt_index E bpf ls k = do { (_, ls, k) \<leftarrow> lookup_and_push E bpf vt key ls fd m k; Some (1, ls, k) }"
    using assms(9) i(2) key(1) by (simp add: mt_index_def map_object_def map_index_string_func_def)
  then show ?thesis
    using lookup_and_push_number [OF assms(1,2,3), of key E ls m] assms(5,6) key(2,3) by auto
qed
section \<open>Iterating over a map\<close>

lemma byte_256: "(256 :: byte) = 0"
  using word_of_int_2p_len [where ?'a = 8] by simp

lemma le_bytes_mod: "le_bytes k (n - 256 ^ k) = le_bytes k n"
proof (induction k arbitrary: n)
  case (Suc k)
  have "(n - 256 * 256 ^ k) div 256 = n div 256 - 256 ^ k"
    using div_mult_self1 [of 256 n "- (256 ^ k)"] by (simp add: algebra_simps)
  moreover have "(word_of_int (n - 256 * 256 ^ k) :: byte) = word_of_int n"
    by (simp add: byte_256)
  ultimately show ?case using Suc by simp
qed simp

lemma le_bytes_le_uint: "le_bytes (length bs) (le_uint bs) = bs"
proof (induction bs)
  case (Cons b bs)
  have b: "uint b < 256" "0 \<le> uint b" using uint_lt2p [of b] by simp_all
  have "(word_of_int (uint b + 256 * le_uint bs) :: byte) = b"
    by (simp add: byte_256)
  moreover have "(uint b + 256 * le_uint bs) div 256 = le_uint bs" using b by simp
  ultimately show ?case using Cons by simp
qed simp

lemma elem_bytes_decode:
  assumes "is_number t" and "length bs = elem_size t"
  shows "le_bytes (elem_size t) (elem_decode t bs) = bs"
proof -
  have "le_bytes (length bs) (le_sint bs) = bs" using le_bytes_le_uint [of bs] le_bytes_mod [of "length bs" "le_uint bs"]
    by (simp add: le_sint_def Let_def)
  then show ?thesis using assms le_bytes_le_uint [of bs] by (cases t) auto
qed

text \<open>
  The generic \<^verbatim>\<open>for\<close> of Lua over the iterator that \<open>mt_pairs\<close> returns: the
  function is called with the table and the previous key until it returns
  nothing. \<open>n\<close> bounds the number of calls.
\<close>

fun pairs_loop :: "nat \<Rightarrow> lua_env \<Rightarrow> 'k bpf_syscall \<Rightarrow> elem_type \<Rightarrow> nat \<Rightarrow> c_function lua_value \<Rightarrow> lstate \<Rightarrow> 'k \<Rightarrow>
    (c_function lua_value list \<times> 'k) option" where
  "pairs_loop 0 E bpf kt t v ls k = None"
| "pairs_loop (Suc n) E bpf kt t v ls k = do {
     (r, ls', k) \<leftarrow> map_next_func_array kt E bpf (ls\<lparr>lstack := v # LTable t # lstack ls\<rparr>) k;
     if r = 0 then Some ([], k)
     else do {
       let v = index2adr ls' 0;
       (vs, k) \<leftarrow> pairs_loop n E bpf kt t v ls k;
       Some (v # vs, k)
     }
   }"

definition key_value :: "elem_type \<Rightarrow> byte list \<Rightarrow> c_function lua_value" where
  "key_value kt x = LNumber (Fin (of_int (round_double (elem_decode kt x))))"

lemma map_next_number:
  assumes "map_kernel bpf view" and "view k fd = Some M" and "is_number kt" and "kkey_size M = elem_size kt"
    and "map_object ls t fd m kt vt" and "number_arg E kt (ls\<lparr>lstack := v # LTable t # lstack ls\<rparr>) 0 = Some key"
  shows "\<exists>k'. view k' = view k \<and> map_next_func_array kt E bpf (ls\<lparr>lstack := v # LTable t # lstack ls\<rparr>) k =
    (case next_of (map fst (kelems M)) key of
       None \<Rightarrow> Some (0, ls\<lparr>lstack := v # LTable t # lstack ls\<rparr>, k')
     | Some y \<Rightarrow> Some (1, lua_push (key_value kt y) (ls\<lparr>lstack := v # LTable t # lstack ls\<rparr>), k'))"
proof -
  let ?ls = "ls\<lparr>lstack := v # LTable t # lstack ls\<rparr>" and ?buf = "map (uninit E) [0..<elem_size kt]"
  have len: "length key = elem_size kt" using assms(6) by (auto simp: number_arg_def)
  have t: "tabV ?ls 1 = Some (tables ls t)" "data1 (tables ls t) = fd"
    using assms(5) by (simp_all add: tabV_def index2adr_def map_object_def)
  have f: "map_next_func_array kt = map_next_number_func kt" using assms(3) by (cases kt) (simp_all add: map_next_func_array_def)
  obtain k' where k': "view k' = view k" "bpf_get_next_key bpf fd key ?buf k =
      (case next_of (map fst (kelems M)) (take (kkey_size M) key) of
         Some y \<Rightarrow> Some (0, y @ drop (length y) ?buf, k') | None \<Rightarrow> Some (- 1, ?buf, k'))"
    using bpf_get_next_key_spec [OF assms(1,2), of key ?buf] len assms(4) by auto
  show ?thesis
  proof (cases "next_of (map fst (kelems M)) key")
    case None
    with k' t len assms(4,6) show ?thesis by (auto simp: f map_next_number_func_def)
  next
    case (Some y)
    have ok: "kmap_ok M" using assms(1,2) by (auto simp: map_kernel_def)
    have "y \<in> set (map fst (kelems M))"
      using Some by (auto simp: next_of_def split: list.splits dest!: arg_cong [of _ _ set] set_dropWhileD)
    then have "length y = elem_size kt" using ok assms(4) by (auto simp: kmap_ok_def)
    with Some k' t len assms(4,6) show ?thesis
      by (auto simp: f map_next_number_func_def key_value_def lua_pushnumber_def)
  qed
qed

lemma pairs_loop_from:
  assumes "map_kernel bpf view" and "is_number kt" and "map_object ls t fd m kt vt"
  shows "view k fd = Some M \<Longrightarrow> kkey_size M = elem_size kt \<Longrightarrow> map fst (kelems M) = ys @ zs \<Longrightarrow>
    \<forall>x\<in>set zs. \<bar>elem_decode kt x\<bar> < 2 ^ 53 \<Longrightarrow>
    number_arg E kt (ls\<lparr>lstack := v # LTable t # lstack ls\<rparr>) 0 = Some key \<Longrightarrow>
    next_of (map fst (kelems M)) key = (case zs of [] \<Rightarrow> None | z # _ \<Rightarrow> Some z) \<Longrightarrow> length zs < n \<Longrightarrow>
    \<exists>k'. view k' = view k \<and> pairs_loop n E bpf kt t v ls k =
      Some (map (\<lambda>x. LNumber (Fin (of_int (elem_decode kt x)))) zs, k')"
proof (induction zs arbitrary: ys k n v key)
  case Nil
  then obtain n' where n: "n = Suc n'" by (cases n) auto
  from map_next_number [OF assms(1) Nil(1) assms(2) Nil(2) assms(3) Nil(5)] Nil(6)
  show ?case by (auto simp: n)
next
  case (Cons z zs)
  then obtain n' where n: "n = Suc n'" by (cases n) auto
  obtain k1 where k1: "view k1 = view k" "map_next_func_array kt E bpf (ls\<lparr>lstack := v # LTable t # lstack ls\<rparr>) k =
      Some (1, lua_push (key_value kt z) (ls\<lparr>lstack := v # LTable t # lstack ls\<rparr>), k1)"
    using map_next_number [OF assms(1) Cons.prems(1) assms(2) Cons.prems(2) assms(3) Cons.prems(5)] Cons.prems(6) by auto
  have ok: "kmap_ok M" using assms(1) Cons.prems(1) by (auto simp: map_kernel_def)
  have kz: "key_value kt z = LNumber (Fin (of_int (elem_decode kt z)))"
    using Cons.prems(4) by (simp add: key_value_def round_double_exact)
  have "z \<in> set (map fst (kelems M))" using Cons.prems(3) by simp
  then have lz: "length z = elem_size kt" using ok Cons.prems(2) by (auto simp: kmap_ok_def)
  have na: "number_arg E kt (ls\<lparr>lstack := key_value kt z # LTable t # lstack ls\<rparr>) 0 = Some z"
    using number_arg_int [of "ls\<lparr>lstack := key_value kt z # LTable t # lstack ls\<rparr>" 0 "elem_decode kt z" kt E]
      elem_decode_range [OF assms(2) lz] elem_bytes_decode [OF assms(2) lz] kz by (simp add: index2adr_def)
  have "distinct (ys @ z # zs)" using ok Cons.prems(3) by (simp add: kmap_ok_def)
  then have nx: "next_of (map fst (kelems M)) z = (case zs of [] \<Rightarrow> None | z # _ \<Rightarrow> Some z)"
    unfolding Cons.prems(3) by (rule next_of_middle)
  obtain k2 where "view k2 = view k1" "pairs_loop n' E bpf kt t (key_value kt z) ls k1 =
      Some (map (\<lambda>x. LNumber (Fin (of_int (elem_decode kt x)))) zs, k2)"
    using Cons.IH [of k1 "ys @ [z]" "key_value kt z" z n'] Cons.prems na nx k1(1) n by auto
  with k1 kz show ?case by (auto simp: n)
qed

text \<open>The first call passes nil, which reads as the number zero.\<close>

lemma number_arg_nil:
  "index2adr ls i = LNil \<Longrightarrow> is_number t \<Longrightarrow> number_arg E t ls i = Some (le_bytes (elem_size t) 0)"
  by (cases t) (simp_all add: number_arg_def lua_tonumber_def truncate_rat_def)

lemma pairs_from_nil:
  assumes "map_kernel bpf view" and "view k fd = Some M" and "is_number kt" and "kkey_size M = elem_size kt"
    and "map_object ls t fd m kt vt" and "\<forall>x\<in>set (map fst (kelems M)). \<bar>elem_decode kt x\<bar> < 2 ^ 53"
  shows "\<exists>k'. view k' = view k \<and> pairs_loop (Suc (length (kelems M))) E bpf kt t LNil ls k =
    Some (map (\<lambda>x. LNumber (Fin (of_int (elem_decode kt x))))
      (if le_bytes (elem_size kt) 0 \<in> set (map fst (kelems M))
       then tl (dropWhile (\<lambda>x. x \<noteq> le_bytes (elem_size kt) 0) (map fst (kelems M))) else map fst (kelems M)), k')"
proof -
  let ?z = "le_bytes (elem_size kt) 0" and ?xs = "map fst (kelems M)"
  have na: "number_arg E kt (ls\<lparr>lstack := LNil # LTable t # lstack ls\<rparr>) 0 = Some ?z"
    using assms(3) by (intro number_arg_nil) (simp_all add: index2adr_def)
  show ?thesis
  proof (cases "?z \<in> set ?xs")
    case False
    then show ?thesis
      using pairs_loop_from [OF assms(1,3,5,2,4), of "[]" ?xs E LNil ?z "Suc (length (kelems M))"] assms(6) na
        next_of_absent [OF False] by simp
  next
    case True
    then obtain ys zs where ys: "?xs = ys @ ?z # zs" "?z \<notin> set ys" by (meson split_list_first)
    have "distinct ?xs" using assms(1,2) by (auto simp: map_kernel_def kmap_ok_def)
    then have nx: "next_of ?xs ?z = (case zs of [] \<Rightarrow> None | z # _ \<Rightarrow> Some z)"
      unfolding ys(1) by (rule next_of_middle)
    have dw: "tl (dropWhile (\<lambda>x. x \<noteq> ?z) ?xs) = zs"
      unfolding ys(1) using ys(2) by (subst dropWhile_append2) auto
    have "length zs < Suc (length (kelems M))" using arg_cong [OF ys(1), of length] by simp
    then show ?thesis
      using pairs_loop_from [OF assms(1,3,5,2,4), of "ys @ [?z]" zs E LNil ?z "Suc (length (kelems M))"] assms(6) na nx ys(1) True dw
      by simp
  qed
qed
section \<open>The tables made for the maps of a program\<close>

text \<open>A complete map table: the data fields for the declared types and the four metamethods.\<close>

definition map_table :: "lstate \<Rightarrow> nat \<Rightarrow> int \<Rightarrow> bpf_map_def \<Rightarrow> bool" where
  "map_table ls t fd m \<longleftrightarrow>
     map_object ls t fd m (get_type (map_key_type m)) (get_type (map_val_type m)) \<and>
     (\<exists>mt < ntab ls. metatable (tables ls t) = Some mt \<and>
        hash (tables ls mt) ''__index'' = Some (LCFunction F_mt_index) \<and>
        hash (tables ls mt) ''__newindex'' = Some (LCFunction F_mt_newindex) \<and>
        hash (tables ls mt) ''__pairs'' = Some (LCFunction F_mt_pairs) \<and>
        hash (tables ls mt) ''__ipairs'' = Some (LCFunction F_mt_pairs))"

lemma map_table_frame:
  assumes "map_table ls t fd m" and "metatable (tables ls t) = Some mt" and "ntab ls \<le> ntab ls'"
    and "tables ls' t = tables ls t" and "tables ls' mt = tables ls mt"
  shows "map_table ls' t fd m"
  using assms by (auto simp: map_table_def map_object_def)

lemma map_table_set_field:
  assumes "map_table ls t fd m" and "ntab ls' = ntab ls" and "n = ''var''"
    and "tables ls' = (tables ls)(b := (tables ls b)\<lparr>hash := (hash (tables ls b))(n := x)\<rparr>)"
  shows "map_table ls' t fd m"
proof -
  have same: "data1 (tables ls' u) = data1 (tables ls u)" "data2 (tables ls' u) = data2 (tables ls u)"
      "data3 (tables ls' u) = data3 (tables ls u)" "data4 (tables ls' u) = data4 (tables ls u)"
      "data5 (tables ls' u) = data5 (tables ls u)" "metatable (tables ls' u) = metatable (tables ls u)"
      "f \<noteq> n \<Longrightarrow> hash (tables ls' u) f = hash (tables ls u) f" for u f
    by (simp_all add: assms(4))
  show ?thesis using assms(1) unfolding map_table_def map_object_def assms(2) by (simp add: same assms(3))
qed

lemma init_metatable_spec:
  assumes "lstack ls = LTable t # st" and "t < ntab ls"
  shows "\<exists>ls'. init_metatable ls m fd = Some ls' \<and> lstack ls' = lstack ls \<and> globals ls' = globals ls \<and>
    ntab ls' = Suc (ntab ls) \<and> (\<forall>u. u \<noteq> t \<and> u \<noteq> ntab ls \<longrightarrow> tables ls' u = tables ls u) \<and>
    hash (tables ls' t) = hash (tables ls t) \<and> metatable (tables ls' (ntab ls)) = None \<and>
    metatable (tables ls' t) = Some (ntab ls) \<and> map_table ls' t fd m"
  using assms
  by (simp add: init_metatable_def index2adr_def lua_api empty_table_def lua_push_def map_table_def map_object_def)

text \<open>The descriptors the kernel hands out for the maps, one after the other.\<close>

fun create_fds :: "'k bpf_syscall \<Rightarrow> bpf_map_def list \<Rightarrow> 'k \<Rightarrow> int list \<times> 'k" where
  "create_fds bpf [] k = ([], k)"
| "create_fds bpf (m # ms) k =
     (let (fd, k) = bpf_create_map bpf (map_type m) (map_key_size m) (map_value_size m) (map_max_entries m) k;
          (fds, k) = create_fds bpf ms k
      in (fd # fds, k))"

text \<open>One round of the loop: a new table, made a map table and stored under the map's name.\<close>

lemma create_map_round:
  assumes "lstack ls = LTable v # st" and "v < ntab ls" and "metatable (tables ls v) = None"
  shows "\<exists>ls1 ls2. init_metatable (lua_createtable ls) m fd = Some ls1 \<and> lua_setfield 1 (map_name m) ls1 = Some ls2 \<and>
    lstack ls2 = lstack ls \<and> globals ls2 = globals ls \<and> ntab ls2 = ntab ls + 2 \<and>
    (\<forall>u < ntab ls. u \<noteq> v \<longrightarrow> tables ls2 u = tables ls u) \<and> metatable (tables ls2 v) = None \<and>
    hash (tables ls2 v) = (hash (tables ls v))(map_name m \<mapsto> LTable (ntab ls)) \<and>
    map_table ls2 (ntab ls) fd m \<and> metatable (tables ls2 (ntab ls)) = Some (ntab ls + 1)"
proof -
  let ?t = "ntab ls"
  obtain ls1 where ls1: "init_metatable (lua_createtable ls) m fd = Some ls1" "lstack ls1 = LTable ?t # LTable v # st"
      "globals ls1 = globals ls" "ntab ls1 = ?t + 2" "\<forall>u. u \<noteq> ?t \<and> u \<noteq> Suc ?t \<longrightarrow> tables ls1 u = tables (lua_createtable ls) u"
      "metatable (tables ls1 (Suc ?t)) = None" "metatable (tables ls1 ?t) = Some (Suc ?t)" "map_table ls1 ?t fd m"
    using init_metatable_spec [of "lua_createtable ls" ?t "LTable v # st" m fd] assms
    by (auto simp: lua_createtable_def)
  have v: "tables ls1 v = tables ls v" using ls1(5) assms(2) by (simp add: lua_createtable_def)
  have other: "tables ls1 u = tables ls u" if "u < ?t" for u using ls1(5) that by (simp add: lua_createtable_def)
  let ?ls2 = "lua_pop 1 (upd_table v (\<lambda>x. x\<lparr>hash := (hash x)(map_name m := Some (LTable ?t))\<rparr>) ls1)"
  have s: "lua_setfield 1 (map_name m) ls1 = Some ?ls2"
    using ls1(2) v assms(3) by (simp add: lua_setfield_def index2adr_def field_value_def)
  have "map_table ?ls2 ?t fd m"
    using ls1(7,8) assms(2) by (auto simp: map_table_def map_object_def lua_pop_def upd_table_def)
  with s ls1 v other assms show ?thesis
    by (intro exI [of _ ls1] exI [of _ ?ls2]) (auto simp: lua_pop_def upd_table_def)
qed

lemma create_maps_from_ok:
  assumes "lstack ls = LTable v # st" and "v < ntab ls" and "metatable (tables ls v) = None"
    and "i + length ms \<le> length mfd" and "create_fds bpf ms k = (fds, k')" and "\<forall>fd\<in>set fds. 0 \<le> fd"
    and "distinct (map map_name ms)"
  shows "\<exists>ls' mfd'. create_maps_from bpf ms i ls mfd k = Some (0, ls', mfd', k') \<and> lstack ls' = lstack ls \<and>
    globals ls' = globals ls \<and> ntab ls \<le> ntab ls' \<and> (\<forall>u < ntab ls. u \<noteq> v \<longrightarrow> tables ls' u = tables ls u) \<and>
    metatable (tables ls' v) = None \<and> length mfd' = length mfd \<and> (\<forall>j < i. mfd' ! j = mfd ! j) \<and>
    (\<forall>n. n \<notin> set (map map_name ms) \<longrightarrow> hash (tables ls' v) n = hash (tables ls v) n) \<and>
    (\<forall>j < length ms. mfd' ! (i + j) = fds ! j \<and>
      (\<exists>t. hash (tables ls' v) (map_name (ms ! j)) = Some (LTable t) \<and> map_table ls' t (fds ! j) (ms ! j)))"
  using assms
proof (induction ms arbitrary: i ls mfd k fds)
  case (Cons m ms)
  obtain fd k1 where c: "bpf_create_map bpf (map_type m) (map_key_size m) (map_value_size m) (map_max_entries m) k = (fd, k1)"
    by fastforce
  obtain fds1 where f: "create_fds bpf ms k1 = (fds1, k')" "fds = fd # fds1"
    using Cons.prems(5) c by (auto simp: Let_def split: prod.splits)
  obtain ls1 ls2 where r: "init_metatable (lua_createtable ls) m fd = Some ls1" "lua_setfield 1 (map_name m) ls1 = Some ls2"
      "lstack ls2 = lstack ls" "globals ls2 = globals ls" "ntab ls2 = ntab ls + 2"
      "\<forall>u < ntab ls. u \<noteq> v \<longrightarrow> tables ls2 u = tables ls u" "metatable (tables ls2 v) = None"
      "hash (tables ls2 v) = (hash (tables ls v))(map_name m \<mapsto> LTable (ntab ls))"
      "map_table ls2 (ntab ls) fd m" "metatable (tables ls2 (ntab ls)) = Some (ntab ls + 1)"
    using create_map_round [OF Cons.prems(1-3), of m fd] by blast
  let ?mfd = "mfd[i := fd]"
  obtain ls' mfd' where IH: "create_maps_from bpf ms (Suc i) ls2 ?mfd k1 = Some (0, ls', mfd', k')" "lstack ls' = lstack ls2"
      "globals ls' = globals ls2" "ntab ls2 \<le> ntab ls'" "\<forall>u < ntab ls2. u \<noteq> v \<longrightarrow> tables ls' u = tables ls2 u"
      "metatable (tables ls' v) = None" "length mfd' = length mfd" "\<forall>j < Suc i. mfd' ! j = ?mfd ! j"
      "\<forall>n. n \<notin> set (map map_name ms) \<longrightarrow> hash (tables ls' v) n = hash (tables ls2 v) n"
      "\<forall>j < length ms. mfd' ! (Suc i + j) = fds1 ! j \<and>
        (\<exists>t. hash (tables ls' v) (map_name (ms ! j)) = Some (LTable t) \<and> map_table ls' t (fds1 ! j) (ms ! j))"
    using Cons.IH [of ls2 "Suc i" ?mfd k1 fds1] Cons.prems r f by auto
  have run: "create_maps_from bpf (m # ms) i ls mfd k = Some (0, ls', mfd', k')"
    using Cons.prems(4,6) c r(1,2) f(2) IH(1) by (simp add: Let_def)
  have "map_table ls' (ntab ls) fd m"
    by (rule map_table_frame [OF r(9,10) IH(4)]) (use IH(5) r(5) Cons.prems(2) in auto)
  moreover have "hash (tables ls' v) (map_name m) = Some (LTable (ntab ls))"
    using IH(9) r(8) Cons.prems(7) by simp
  moreover have "mfd' ! i = fd" using IH(8) Cons.prems(4) by simp
  ultimately have "\<forall>j < length (m # ms). mfd' ! (i + j) = fds ! j \<and>
      (\<exists>t. hash (tables ls' v) (map_name ((m # ms) ! j)) = Some (LTable t) \<and> map_table ls' t (fds ! j) ((m # ms) ! j))"
    using IH(10) f(2) by (auto simp: less_Suc_eq_0_disj)
  moreover have "\<forall>u < ntab ls. u \<noteq> v \<longrightarrow> tables ls' u = tables ls u" using IH(5) r(5,6) by simp
  moreover have "\<forall>n. n \<notin> set (map map_name (m # ms)) \<longrightarrow> hash (tables ls' v) n = hash (tables ls v) n"
    using IH(9) r(8) by simp
  ultimately show ?case using run IH(2,3,4,6,7,8) r(3,4,5) by (intro exI [of _ ls'] exI [of _ mfd']) simp
qed simp

lemma shark_create_bpf_map_ok:
  assumes "globals ls ''bpf'' = Some (LTable b)" and "b < ntab ls" and "metatable (tables ls b) = None"
    and "length maps \<le> length mfd" and "create_fds bpf maps k = (fds, k')" and "\<forall>fd\<in>set fds. 0 \<le> fd"
    and "distinct (map map_name maps)"
  shows "\<exists>ls' mfd' v. shark_create_bpf_map bpf maps ls mfd k = Some (0, ls', mfd', k') \<and> lstack ls' = lstack ls \<and>
    globals ls' ''bpf'' = None \<and> hash (tables ls' b) ''var'' = Some (LTable v) \<and>
    (\<forall>j < length maps. mfd' ! j = fds ! j \<and>
      (\<exists>t. hash (tables ls' v) (map_name (maps ! j)) = Some (LTable t) \<and> map_table ls' t (fds ! j) (maps ! j)))"
proof -
  let ?ls0 = "lua_createtable (lua_getglobal ''bpf'' ls)" and ?v = "ntab ls"
  have l0: "lstack ?ls0 = LTable ?v # LTable b # lstack ls" "ntab ?ls0 = Suc ?v" "metatable (tables ?ls0 ?v) = None"
      "tables ?ls0 b = tables ls b"
    using assms(1,2) by (simp_all add: lua_createtable_def lua_getglobal_def empty_table_def)
  obtain ls1 mfd' where l1: "create_maps_from bpf maps 0 ?ls0 mfd k = Some (0, ls1, mfd', k')" "lstack ls1 = lstack ?ls0"
      "globals ls1 = globals ?ls0" "\<forall>u < Suc ?v. u \<noteq> ?v \<longrightarrow> tables ls1 u = tables ?ls0 u"
      "\<forall>j < length maps. mfd' ! j = fds ! j \<and>
        (\<exists>t. hash (tables ls1 ?v) (map_name (maps ! j)) = Some (LTable t) \<and> map_table ls1 t (fds ! j) (maps ! j))"
    using create_maps_from_ok [of ?ls0 ?v _ 0 maps mfd bpf k fds k'] l0 assms(4-7) by auto
  have b: "tables ls1 b = tables ls b" using l1(4) assms(2) l0(4) by simp
  let ?ls2 = "lua_pop 1 (upd_table b (\<lambda>x. x\<lparr>hash := (hash x)(''var'' := Some (LTable ?v))\<rparr>) ls1)"
  have s: "lua_setfield 1 ''var'' ls1 = Some ?ls2"
    using l1(2) l0(1) b assms(3) by (simp add: lua_setfield_def index2adr_def field_value_def)
  define ls3 where "ls3 = lua_setglobal ''bpf'' (lua_pushnil (lua_pop 1 ?ls2))"
  have run: "shark_create_bpf_map bpf maps ls mfd k = Some (0, ls3, mfd', k')"
    using l1(1) s by (simp add: shark_create_bpf_map_def ls3_def)
  have t3: "tables ls3 = (tables ls1)(b := (tables ls1 b)\<lparr>hash := (hash (tables ls1 b))(''var'' := Some (LTable ?v))\<rparr>)"
      "lstack ls3 = lstack ls" "globals ls3 ''bpf'' = None" "ntab ls3 = ntab ls1"
    using l1(2) l0(1) by (simp_all add: ls3_def lua_setglobal_def lua_pushnil_def lua_pop_def upd_table_def field_value_def)
  have "map_table ls3 t (fds ! j) (maps ! j)" if "map_table ls1 t (fds ! j) (maps ! j)" for t j
    by (rule map_table_set_field [OF that t3(4) refl t3(1)])
  moreover have "tables ls3 ?v = tables ls1 ?v" "hash (tables ls3 b) ''var'' = Some (LTable ?v)"
    using assms(2) by (simp_all add: t3(1))
  ultimately have "\<forall>j < length maps. mfd' ! j = fds ! j \<and>
      (\<exists>t. hash (tables ls3 ?v) (map_name (maps ! j)) = Some (LTable t) \<and> map_table ls3 t (fds ! j) (maps ! j))"
    using l1(5) by metis
  with run t3(2,3) \<open>hash (tables ls3 b) ''var'' = Some (LTable ?v)\<close> show ?thesis by blast
qed
section \<open>Rounding of large values\<close>

lemma bit_len_ge: "2 ^ k \<le> n \<Longrightarrow> k < bit_len n"
proof (induction k arbitrary: n)
  case 0
  then show ?case by (simp add: bit_len.simps [of n])
next
  case (Suc k)
  then have "2 ^ k \<le> n div 2" by auto
  with Suc.IH have "k < bit_len (n div 2)" by blast
  moreover have "n \<noteq> 0" using Suc.prems by (metis not_le power_eq_0_iff zero_less_numeral zero_less_power)
  ultimately show ?case by (simp add: bit_len.simps [of n])
qed

lemma round_double_even:
  assumes "2 ^ 53 \<le> n"
  shows "even (round_double n)"
proof -
  have "2 ^ 53 \<le> nat \<bar>n\<bar>" using assms by (simp add: le_nat_iff)
  then have "0 < bit_len (nat \<bar>n\<bar>) - 53" using bit_len_ge by fastforce
  then show ?thesis by (auto simp: round_double_def Let_def)
qed

text \<open>
  What Lua does for \<^verbatim>\<open>t[x]\<close> and \<^verbatim>\<open>t[x] = y\<close> on a map table, whose own hash part is
  always empty: it calls the metamethod with the operands on the stack.
\<close>

definition lua_read :: "lua_env \<Rightarrow> 'k bpf_syscall \<Rightarrow> lstate \<Rightarrow> nat \<Rightarrow> c_function lua_value \<Rightarrow> 'k \<Rightarrow>
    (c_function lua_value \<times> 'k) option" where
  "lua_read E bpf ls t x k = do {
     (_, ls', k) \<leftarrow> mt_index E bpf (ls\<lparr>lstack := x # LTable t # lstack ls\<rparr>) k;
     Some (index2adr ls' 0, k)
   }"

definition lua_write :: "lua_env \<Rightarrow> 'k bpf_syscall \<Rightarrow> lstate \<Rightarrow> nat \<Rightarrow> c_function lua_value \<Rightarrow> c_function lua_value \<Rightarrow> 'k \<Rightarrow>
    'k option" where
  "lua_write E bpf ls t x y k = do {
     (_, _, k) \<leftarrow> mt_newindex E bpf (ls\<lparr>lstack := y # x # LTable t # lstack ls\<rparr>) k;
     Some k
   }"

abbreviation lua_int :: "int \<Rightarrow> c_function lua_value" where
  "lua_int n \<equiv> LNumber (Fin (of_int n))"

lemma lua_read_number:
  assumes "map_kernel bpf view" and "view k fd = Some M" and "is_number kt" and "is_number vt"
    and "kkey_size M = elem_size kt" and "kvalue_size M = elem_size vt"
    and "map_object ls t fd m kt vt" and "x \<in> elem_range kt"
  shows "\<exists>k'. lua_read E bpf ls t (lua_int x) k =
    Some (number_result E vt (map_of (kelems M) (le_bytes (elem_size kt) x)), k') \<and> view k' = view k"
  using mt_index_number [OF assms(1-6), of "ls\<lparr>lstack := lua_int x # LTable t # lstack ls\<rparr>" x t "lstack ls" m E] assms(7,8)
  by (auto simp: lua_read_def map_object_def)

lemma lua_write_number:
  assumes "map_kernel bpf view" and "view k fd = Some M" and "is_number kt" and "is_number vt"
    and "kkey_size M = elem_size kt" and "kvalue_size M = elem_size vt"
    and "map_object ls t fd m kt vt" and "x \<in> elem_range kt" and "y \<in> elem_range vt"
  shows "\<exists>r k'. lua_write E bpf ls t (lua_int x) (lua_int y) k = Some k' \<and>
    map_updated bpf view fd M (le_bytes (elem_size kt) x) (le_bytes (elem_size vt) y) k r k'"
  using mt_newindex_number [OF assms(1-6), of "ls\<lparr>lstack := lua_int y # lua_int x # LTable t # lstack ls\<rparr>" y x t "lstack ls" m E]
    assms(7-9)
  by (fastforce simp: lua_write_def map_object_def)

lemma number_result_exact:
  assumes "is_number vt" and "y \<in> elem_range vt" and "\<bar>y\<bar> < 2 ^ 53"
  shows "number_result E vt (Some (le_bytes (elem_size vt) y)) = lua_int y"
  using elem_decode_bytes [OF assms(1,2)] assms(3) by (simp add: number_result_def round_double_exact)

section \<open>Properties\<close>

text \<open>A kernel with one hash map, descriptor 3, and a Lua state with a table for it.\<close>

definition env0 :: lua_env where
  "env0 = \<lparr>strscan_num = (\<lambda>_. None), str_fromnumber = (\<lambda>_. []), beyond = (\<lambda>_ _. 7), uninit = (\<lambda>_. 9)\<rparr>"

definition kernel0 :: "nat \<Rightarrow> nat \<Rightarrow> (byte list \<times> byte list) list \<Rightarrow> int \<Rightarrow> kmap option" where
  "kernel0 ks vs es fd = (if fd = 3 then Some \<lparr>kkey_size = ks, kvalue_size = vs, kelems = es\<rparr> else None)"

definition def0 :: "string \<Rightarrow> string \<Rightarrow> uint32 \<Rightarrow> uint32 \<Rightarrow> bpf_map_def" where
  "def0 kt vt ks vs = \<lparr>map_name = ''m'', map_key_type = kt, map_val_type = vt, map_type = 1,
     map_key_size = ks, map_value_size = vs, map_max_entries = 16\<rparr>"

definition lua0 :: "elem_type \<Rightarrow> elem_type \<Rightarrow> bpf_map_def \<Rightarrow> c_function lua_value list \<Rightarrow> lstate" where
  "lua0 kt vt m st = \<lparr>lstack = st,
     tables = (\<lambda>_. \<lparr>hash = (\<lambda>_. None), metatable = None, data1 = 3, data2 = Some m, data3 = Some (F_map_index kt vt),
       data4 = Some (F_map_newindex kt vt), data5 = Some (F_map_next kt)\<rparr>),
     ntab = 1, globals = (\<lambda>_. None)\<rparr>"

lemma lua0_object [simp]: "map_object (lua0 kt vt m st) 0 3 m kt vt"
  by (simp add: map_object_def lua0_def)

lemma lua0_stack [simp]: "lstack (lua0 kt vt m st) = st"
  by (simp add: lua0_def)

lemma kernel0_view: "kmap_ok \<lparr>kkey_size = ks, kvalue_size = vs, kelems = es\<rparr> \<Longrightarrow>
    hash_view (kernel0 ks vs es) 3 = Some \<lparr>kkey_size = ks, kvalue_size = vs, kelems = es\<rparr>"
  by (simp add: hash_view_def kernel0_def)

text \<open>
  Property C1. For a map with number keys and values, assigning \<open>y\<close> to key \<open>x\<close>
  from Lua asks the kernel to set the element with the bytes of \<open>x\<close> to the bytes of \<open>y\<close>. If the kernel
  accepts, reading \<open>x\<close> gives \<open>y\<close> and reading any other key gives what it gave before, for all values a
  double holds exactly; if it refuses, the maps are as before.
\<close>
theorem bpf_map_write_read:
  assumes "map_kernel bpf view" and "view k fd = Some M" and "is_number kt" and "is_number vt"
    and "kkey_size M = elem_size kt" and "kvalue_size M = elem_size vt"
    and "map_object ls t fd m kt vt" and "x \<in> elem_range kt" and "y \<in> elem_range vt" and "\<bar>y\<bar> < 2 ^ 53"
  shows "\<exists>r k'. lua_write E bpf ls t (lua_int x) (lua_int y) k = Some k' \<and>
    update_call bpf fd (le_bytes (elem_size kt) x) (le_bytes (elem_size vt) y) k r k' \<and>
    (if r = 0 then
       (\<exists>k1. lua_read E bpf ls t (lua_int x) k' = Some (lua_int y, k1)) \<and>
       (\<forall>z\<in>elem_range kt. z \<noteq> x \<longrightarrow> (\<exists>v k1 k2.
          lua_read E bpf ls t (lua_int z) k' = Some (v, k1) \<and> lua_read E bpf ls t (lua_int z) k = Some (v, k2)))
     else r = - 1 \<and> view k' = view k)"
proof -
  let ?x = "le_bytes (elem_size kt) x" and ?y = "le_bytes (elem_size vt) y"
  obtain r k' where k': "lua_write E bpf ls t (lua_int x) (lua_int y) k = Some k'"
    and u: "map_updated bpf view fd M ?x ?y k r k'"
    using lua_write_number [OF assms(1-9)] by blast
  have call: "update_call bpf fd ?x ?y k r k'" using u by (simp add: map_updated_def)
  show ?thesis
  proof (cases "r = 0")
    case True
    then obtain es where es: "view k' fd = Some (M\<lparr>kelems := es\<rparr>)" "map_of es = (map_of (kelems M))(?x \<mapsto> ?y)"
      using u assms(5,6) by (auto simp: map_updated_def)
    have rd: "\<exists>k1. lua_read E bpf ls t (lua_int z) k' =
        Some (number_result E vt (map_of es (le_bytes (elem_size kt) z)), k1)" if "z \<in> elem_range kt" for z
      using lua_read_number [OF assms(1) es(1) assms(3,4) _ _ assms(7) that, of E] assms(5,6) by auto
    have rd0: "\<exists>k1. lua_read E bpf ls t (lua_int z) k =
        Some (number_result E vt (map_of (kelems M) (le_bytes (elem_size kt) z)), k1)" if "z \<in> elem_range kt" for z
      using lua_read_number [OF assms(1-7) that, of E] by auto
    have "map_of es (le_bytes (elem_size kt) z) = map_of (kelems M) (le_bytes (elem_size kt) z)"
      if "z \<in> elem_range kt" "z \<noteq> x" for z
      using elem_bytes_inj [OF assms(3) that(1) assms(8)] that(2) by (auto simp: es(2))
    then have "\<forall>z\<in>elem_range kt. z \<noteq> x \<longrightarrow> (\<exists>v k1 k2. lua_read E bpf ls t (lua_int z) k' = Some (v, k1) \<and> lua_read E bpf ls t (lua_int z) k = Some (v, k2))"
      using rd rd0 by metis
    moreover have "\<exists>k1. lua_read E bpf ls t (lua_int x) k' = Some (lua_int y, k1)"
      using rd [OF assms(8)] number_result_exact [OF assms(4,9,10), of E] by (simp add: es(2))
    ultimately show ?thesis using k' call True by (intro exI [of _ r] exI [of _ k']) simp
  next
    case False
    then show ?thesis using k' call u by (intro exI [of _ r] exI [of _ k']) (simp add: map_updated_def)
  qed
qed

theorem bpf_map_write_read_witness:
  "\<exists>k' k1. lua_write env0 hash_bpf (lua0 T_u32 T_u64 (def0 ''int'' ''u64'' 4 8) []) 0 (lua_int 5) (lua_int 77) (kernel0 4 8 []) = Some k' \<and>
     lua_read env0 hash_bpf (lua0 T_u32 T_u64 (def0 ''int'' ''u64'' 4 8) []) 0 (lua_int 5) k' = Some (lua_int 77, k1)"
proof -
  let ?ls = "lua0 T_u32 T_u64 (def0 ''int'' ''u64'' 4 8) []" and ?k = "kernel0 4 8 []"
  have v: "hash_view ?k 3 = Some \<lparr>kkey_size = 4, kvalue_size = 8, kelems = []\<rparr>" using kernel0_view [of 4 8 "[]"] by (simp add: kmap_ok_def)
  obtain r k' where k': "lua_write env0 hash_bpf ?ls 0 (lua_int 5) (lua_int 77) ?k = Some k'"
      "update_call hash_bpf 3 (le_bytes (elem_size T_u32) 5) (le_bytes (elem_size T_u64) 77) ?k r k'"
    and rd: "if r = 0 then (\<exists>k1. lua_read env0 hash_bpf ?ls 0 (lua_int 5) k' = Some (lua_int 77, k1)) \<and>
       (\<forall>z\<in>elem_range T_u32. z \<noteq> 5 \<longrightarrow> (\<exists>v k1 k2. lua_read env0 hash_bpf ?ls 0 (lua_int z) k' = Some (v, k1) \<and> lua_read env0 hash_bpf ?ls 0 (lua_int z) ?k = Some (v, k2)))
     else r = - 1 \<and> hash_view k' = hash_view ?k"
    using bpf_map_write_read [where bpf = hash_bpf and view = hash_view and k = ?k and fd = 3 and kt = T_u32 and vt = T_u64 and t = 0
      and ls = ?ls and m = "def0 ''int'' ''u64'' 4 8" and x = 5 and y = 77 and E = env0, OF hash_bpf_kernel v]
    by (simp add: elem_range_def) blast
  have "r = 0" using hash_bpf_accepts [OF k'(2)] by (simp add: kernel0_def)
  then show ?thesis using k'(1) rd by auto
qed

text \<open>
  Property C22. Reading a key that is not in the map does not give nil: the
  failed lookup is not noticed and the bytes of the uninitialised local are
  pushed as a number.
\<close>
theorem bpf_map_absent_key_garbage:
  assumes "map_kernel bpf view" and "view k fd = Some M" and "is_number kt" and "is_number vt"
    and "kkey_size M = elem_size kt" and "kvalue_size M = elem_size vt"
    and "map_object ls t fd m kt vt" and "x \<in> elem_range kt" and "le_bytes (elem_size kt) x \<notin> fst ` set (kelems M)"
  shows "\<exists>k'. lua_read E bpf ls t (lua_int x) k =
    Some (lua_int (round_double (elem_decode vt (map (uninit E) [0..<elem_size vt]))), k')"
proof -
  have "map_of (kelems M) (le_bytes (elem_size kt) x) = None" using assms(9) by (simp add: map_of_eq_None_iff)
  with lua_read_number [OF assms(1-8), of E] show ?thesis by (auto simp: number_result_def)
qed

theorem bpf_map_absent_key_garbage_witness:
  "\<exists>k'. lua_read env0 hash_bpf (lua0 T_u32 T_u8 (def0 ''int'' ''u8'' 4 1) []) 0 (lua_int 5) (kernel0 4 1 []) =
     Some (lua_int 9, k')"
proof -
  have "round_double (elem_decode T_u8 (map (uninit env0) [0..<elem_size T_u8])) = 9"
    by (simp add: env0_def le_sint_def round_double_exact)
  with bpf_map_absent_key_garbage [where bpf = hash_bpf and view = hash_view and k = "kernel0 4 1 []" and fd = 3
      and M = "\<lparr>kkey_size = 4, kvalue_size = 1, kelems = []\<rparr>" and kt = T_u32 and vt = T_u8 and t = 0
      and ls = "lua0 T_u32 T_u8 (def0 ''int'' ''u8'' 4 1) []" and m = "def0 ''int'' ''u8'' 4 1" and x = 5 and E = env0]
    hash_bpf_kernel kernel0_view [of 4 1 "[]"]
  show ?thesis by (simp add: kmap_ok_def elem_range_def)
qed

text \<open>
  Property C20. Storing a string under a number key asks the kernel to set the element to the string, with whatever bytes follow it in
  memory. If the kernel accepts and the string has no zero byte and is shorter than the map's values, reading the key
  gives the string back unchanged; if it refuses, the maps are as before.
\<close>
theorem bpf_map_string_value_roundtrip:
  assumes "map_kernel bpf view" and "view k fd = Some M" and "is_number kt" and "kkey_size M = elem_size kt"
    and "kvalue_size M \<le> 1024" and "length s < kvalue_size M" and "0 \<notin> set s"
    and "map_object ls t fd m kt T_string" and "x \<in> elem_range kt"
  shows "\<exists>r k'. lua_write E bpf ls t (lua_int x) (LString s) k = Some k' \<and>
    update_call bpf fd (le_bytes (elem_size kt) x) (copied_1024 E s) k r k' \<and>
    (if r = 0 then \<exists>k1. lua_read E' bpf ls t (lua_int x) k' = Some (LString s, k1) else r = - 1 \<and> view k' = view k)"
proof -
  let ?w = "ls\<lparr>lstack := LString s # lua_int x # LTable t # lstack ls\<rparr>" and ?r = "ls\<lparr>lstack := lua_int x # LTable t # lstack ls\<rparr>"
  let ?x = "le_bytes (elem_size kt) x"
  have ob: "map_object ?w t fd m kt T_string" "map_object ?r t fd m kt T_string" using assms(8) by (simp_all add: map_object_def)
  obtain r k' where k': "mt_newindex E bpf ?w k = Some (0, ?w, k')" and u: "map_updated bpf view fd M ?x (copied_1024 E s) k r k'"
    using mt_newindex_string_value [OF assms(1-5) _ ob(1) assms(9), of s "lstack ls" E] by auto
  have "\<exists>k1. lua_read E' bpf ls t (lua_int x) k' = Some (LString s, k1)" if "r = 0"
  proof -
    obtain es where es: "view k' fd = Some (M\<lparr>kelems := es\<rparr>)"
        "map_of es ?x = Some (take (kvalue_size M) (s @ 0 # map (beyond E s) [0..<1024]))"
      using u \<open>r = 0\<close> assms(4) take_copied_1024 [OF assms(5)] by (auto simp: map_updated_def)
    have i: "index2adr ?r 0 = lua_int x" "tabV ?r 1 = Some (tables ls t)" by (simp_all add: index2adr_def tabV_def)
    have "mt_index E' bpf ?r k' = do { (_, ls, k) \<leftarrow> lookup_and_push E' bpf T_string ?x ?r fd m k'; Some (1, ls, k) }"
      using assms(8) i(2) number_arg_int [OF i(1) assms(9)]
      by (simp add: mt_index_def map_object_def map_index_number_func [OF assms(3)])
    then show ?thesis
      using lookup_and_push_string [OF assms(1) es(1), of ?x s "map (beyond E s) [0..<1024]" E' ?r m] es(2) assms(4-7) by (auto simp: lua_read_def)
  qed
  then show ?thesis using k' u by (intro exI [of _ r] exI [of _ k']) (simp add: lua_write_def map_updated_def)
qed

theorem bpf_map_string_value_roundtrip_witness:
  "\<exists>k' k1. lua_write env0 hash_bpf (lua0 T_u32 T_string (def0 ''int'' ''string'' 4 16) []) 0 (lua_int 5) (LString [104, 105]) (kernel0 4 16 []) = Some k' \<and>
     lua_read env0 hash_bpf (lua0 T_u32 T_string (def0 ''int'' ''string'' 4 16) []) 0 (lua_int 5) k' = Some (LString [104, 105], k1)"
proof -
  let ?ls = "lua0 T_u32 T_string (def0 ''int'' ''string'' 4 16) []" and ?k = "kernel0 4 16 []"
  have v: "hash_view ?k 3 = Some \<lparr>kkey_size = 4, kvalue_size = 16, kelems = []\<rparr>" using kernel0_view [of 4 16 "[]"] by (simp add: kmap_ok_def)
  obtain r k' where k': "lua_write env0 hash_bpf ?ls 0 (lua_int 5) (LString [104, 105]) ?k = Some k'"
      "update_call hash_bpf 3 (le_bytes (elem_size T_u32) 5) (copied_1024 env0 [104, 105]) ?k r k'"
    and rd: "if r = 0 then \<exists>k1. lua_read env0 hash_bpf ?ls 0 (lua_int 5) k' = Some (LString [104, 105], k1) else r = - 1 \<and> hash_view k' = hash_view ?k"
    using bpf_map_string_value_roundtrip [where bpf = hash_bpf and view = hash_view and k = ?k and fd = 3 and kt = T_u32 and t = 0
      and s = "[104, 105]" and ls = ?ls and m = "def0 ''int'' ''string'' 4 16" and x = 5 and E = env0 and E' = env0, OF hash_bpf_kernel v]
    by (simp add: elem_range_def) blast
  have "r = 0" using hash_bpf_accepts [OF k'(2)] by (simp add: kernel0_def)
  then show ?thesis using k'(1) rd by auto
qed

text \<open>
  Property C21. A string key is written with the bytes that happen to follow the
  string in memory and read padded with zeros. Writing \<open>y\<close> at key \<open>s\<close> asks the kernel for the former; if it accepts,
  reading \<open>s\<close> gives \<open>y\<close> exactly when those bytes are all zero up to
  the map's key size, and otherwise what the map held before for the padded key; if it refuses, the maps are as before.
\<close>
theorem bpf_map_string_key:
  assumes "map_kernel bpf view" and "view k fd = Some M" and "is_number vt"
    and "length s < kkey_size M" and "kkey_size M \<le> 1024" and "kvalue_size M = elem_size vt" and "0 \<notin> set s"
    and "map_object ls t fd m T_string vt" and "y \<in> elem_range vt" and "\<bar>y\<bar> < 2 ^ 53"
  shows "\<exists>r k'. lua_write E bpf ls t (LString s) (lua_int y) k = Some k' \<and>
    update_call bpf fd (copied_1024 E s) (le_bytes (elem_size vt) y) k r k' \<and>
    (if r = 0 then
       \<exists>k1. lua_read E bpf ls t (LString s) k' =
         Some (if \<forall>j < kkey_size M - length s - 1. beyond E s j = 0 then lua_int y
               else number_result E vt (map_of (kelems M) (read_key (kkey_size M) s)), k1)
     else r = - 1 \<and> view k' = view k)"
proof -
  let ?w = "ls\<lparr>lstack := lua_int y # LString s # LTable t # lstack ls\<rparr>" and ?r = "ls\<lparr>lstack := LString s # LTable t # lstack ls\<rparr>"
  let ?rk = "read_key (kkey_size M) s" and ?wk = "written_key E (kkey_size M) s"
  have ob: "map_object ?w t fd m T_string vt" "map_object ?r t fd m T_string vt" using assms(8) by (simp_all add: map_object_def)
  obtain r k' where k': "mt_newindex E bpf ?w k = Some (0, ?w, k')" and u: "map_updated bpf view fd M (copied_1024 E s) (le_bytes (elem_size vt) y) k r k'"
    using mt_newindex_string_key [OF assms(1-3,5,6) _ ob(1) assms(9), of s "lstack ls" E] by auto
  have "\<exists>k1. lua_read E bpf ls t (LString s) k' =
      Some (if \<forall>j < kkey_size M - length s - 1. beyond E s j = 0 then lua_int y
            else number_result E vt (map_of (kelems M) ?rk), k1)" if "r = 0"
  proof -
    obtain es where es: "view k' fd = Some (M\<lparr>kelems := es\<rparr>)"
        "map_of es = (map_of (kelems M))(?wk \<mapsto> le_bytes (elem_size vt) y)"
      using u \<open>r = 0\<close> assms(6) take_copied_1024 [OF assms(5)] by (auto simp: map_updated_def written_key_def)
    have rd: "\<exists>k1. lua_read E bpf ls t (LString s) k' = Some (number_result E vt (map_of es ?rk), k1)"
      using mt_index_string_key [OF assms(1) es(1) assms(3), of s ?r t "lstack ls" m E] assms(4-7) ob(2)
      by (auto simp: lua_read_def)
    have "?rk = ?wk \<longleftrightarrow> (\<forall>j < kkey_size M - length s - 1. beyond E s j = 0)"
      by (rule read_key_eq_written_key [OF assms(4,5)])
    then show ?thesis using rd number_result_exact [OF assms(3,9,10), of E] by (auto simp: es(2))
  qed
  moreover have "lua_write E bpf ls t (LString s) (lua_int y) k = Some k'" using k' by (simp add: lua_write_def)
  moreover have "update_call bpf fd (copied_1024 E s) (le_bytes (elem_size vt) y) k r k'" "r \<noteq> 0 \<Longrightarrow> r = - 1 \<and> view k' = view k"
    using u by (simp_all add: map_updated_def)
  ultimately show ?thesis by (intro exI [of _ r] exI [of _ k'] conjI) (simp_all split del: if_split, simp split: if_split)
qed

theorem bpf_map_string_key_witness:
  "\<exists>k' k1. lua_write env0 hash_bpf (lua0 T_string T_u8 (def0 ''string'' ''u8'' 16 1) []) 0 (LString [104, 105]) (lua_int 7) (kernel0 16 1 []) = Some k' \<and>
     lua_read env0 hash_bpf (lua0 T_string T_u8 (def0 ''string'' ''u8'' 16 1) []) 0 (LString [104, 105]) k' = Some (lua_int 9, k1)"
proof -
  let ?ls = "lua0 T_string T_u8 (def0 ''string'' ''u8'' 16 1) []" and ?k = "kernel0 16 1 []"
  have g: "number_result env0 T_u8 None = lua_int 9" "\<not> (\<forall>j < 13. beyond env0 s j = 0)" for s
    by (auto simp: number_result_def env0_def le_sint_def round_double_exact intro!: exI [of _ 0])
  let ?M = "\<lparr>kkey_size = 16, kvalue_size = 1, kelems = []\<rparr>"
  have v: "hash_view ?k 3 = Some ?M" using kernel0_view [of 16 1 "[]"] by (simp add: kmap_ok_def)
  have e: "(if \<forall>j < kkey_size ?M - length [104, 105 :: byte] - 1. beyond env0 [104, 105] j = 0 then lua_int 7
      else number_result env0 T_u8 (map_of (kelems ?M) (read_key (kkey_size ?M) [104, 105]))) = lua_int 9" using g by simp
  obtain r k' where k': "lua_write env0 hash_bpf ?ls 0 (LString [104, 105]) (lua_int 7) ?k = Some k'"
      "update_call hash_bpf 3 (copied_1024 env0 [104, 105]) (le_bytes (elem_size T_u8) 7) ?k r k'"
    and rd: "if r = 0 then \<exists>k1. lua_read env0 hash_bpf ?ls 0 (LString [104, 105]) k' = Some (lua_int 9, k1) else r = - 1 \<and> hash_view k' = hash_view ?k"
    using bpf_map_string_key [where bpf = hash_bpf and view = hash_view and k = ?k and fd = 3 and vt = T_u8 and t = 0
      and s = "[104, 105]" and ls = ?ls and m = "def0 ''string'' ''u8'' 16 1" and y = 7 and E = env0, OF hash_bpf_kernel v, unfolded e]
    by (simp add: elem_range_def) blast
  have "r = 0" using hash_bpf_accepts [OF k'(2)] by (simp add: kernel0_def)
  then show ?thesis using k'(1) rd by auto
qed

text \<open>
  Property C19. Iterating over a map with number keys ends and visits the keys in
  the kernel's order, each once, but starts after key zero if zero is a key:
  nil is passed to the kernel as the number zero, so every key up to and
  including zero is left out.
\<close>
theorem bpf_map_pairs:
  assumes "map_kernel bpf view" and "view k fd = Some M" and "is_number kt" and "kkey_size M = elem_size kt"
    and "map_object ls t fd m kt vt" and "\<forall>x\<in>set (map fst (kelems M)). \<bar>elem_decode kt x\<bar> < 2 ^ 53"
  shows "\<exists>k'. pairs_loop (Suc (length (kelems M))) E bpf kt t LNil ls k =
    Some (map (\<lambda>x. lua_int (elem_decode kt x))
      (if le_bytes (elem_size kt) 0 \<in> set (map fst (kelems M))
       then tl (dropWhile (\<lambda>x. x \<noteq> le_bytes (elem_size kt) 0) (map fst (kelems M))) else map fst (kelems M)), k')"
  using pairs_from_nil [OF assms] by blast

theorem bpf_map_pairs_witness:
  "\<exists>k'. pairs_loop (Suc (Suc (Suc (Suc 0)))) env0 hash_bpf T_u8 0 LNil (lua0 T_u8 T_u8 (def0 ''u8'' ''u8'' 1 1) [])
     (kernel0 1 1 [([5], [1]), ([0], [2]), ([6], [3])]) = Some ([lua_int 6], k')"
proof -
  let ?es = "[([5], [1]), ([0], [2]), ([6], [3])] :: (byte list \<times> byte list) list"
  have d: "elem_decode T_u8 [5] = 5" "elem_decode T_u8 [0] = 0" "elem_decode T_u8 [6] = 6"
    by (simp_all add: le_sint_def)
  show ?thesis
    using bpf_map_pairs [where bpf = hash_bpf and view = hash_view and k = "kernel0 1 1 ?es" and fd = 3
      and M = "\<lparr>kkey_size = 1, kvalue_size = 1, kelems = ?es\<rparr>" and kt = T_u8 and vt = T_u8 and t = 0
      and ls = "lua0 T_u8 T_u8 (def0 ''u8'' ''u8'' 1 1) []" and m = "def0 ''u8'' ''u8'' 1 1" and E = env0]
      hash_bpf_kernel kernel0_view [of 1 1 ?es] d
    by (simp add: kmap_ok_def del: elem_decode.simps pairs_loop.simps)
qed

text \<open>
  Property C3. When the kernel accepts all maps of a program, at most 32 with
  distinct names, \<open>shark_create_bpf_map\<close> returns 0, leaves the Lua stack as it
  was, takes the global \<^verbatim>\<open>bpf\<close> away and has put under the \<^verbatim>\<open>var\<close> field of its table a
  table for every map that carries the map's descriptor and the access
  functions of its declared key and value types.
\<close>
theorem shark_create_bpf_map_correct:
  assumes "globals ls ''bpf'' = Some (LTable b)" and "b < ntab ls" and "metatable (tables ls b) = None"
    and "length maps \<le> MAX_MAPS" and "length mfd = MAX_MAPS" and "create_fds bpf maps k = (fds, k')"
    and "\<forall>fd\<in>set fds. 0 \<le> fd" and "distinct (map map_name maps)"
  shows "\<exists>ls' mfd' v. shark_create_bpf_map bpf maps ls mfd k = Some (0, ls', mfd', k') \<and> lstack ls' = lstack ls \<and>
    globals ls' ''bpf'' = None \<and> hash (tables ls' b) ''var'' = Some (LTable v) \<and>
    (\<forall>j < length maps. mfd' ! j = fds ! j \<and>
      (\<exists>t. hash (tables ls' v) (map_name (maps ! j)) = Some (LTable t) \<and> map_table ls' t (fds ! j) (maps ! j)))"
  using shark_create_bpf_map_ok [OF assms(1-3) _ assms(6-8), of mfd] assms(4,5) by simp

theorem shark_create_bpf_map_correct_witness:
  "\<exists>ls' mfd' v t. shark_create_bpf_map (\<lambda>c a k. (4, [], k)) [def0 ''int'' ''u64'' 4 8]
      ((lua0 T_u8 T_u8 (def0 ''int'' ''u64'' 4 8) [])\<lparr>globals := (\<lambda>_. Some (LTable 0))\<rparr>) (replicate 32 0) () = Some (0, ls', mfd', ()) \<and>
     hash (tables ls' v) ''m'' = Some (LTable t) \<and> map_table ls' t 4 (def0 ''int'' ''u64'' 4 8)"
  using shark_create_bpf_map_correct [where bpf = "\<lambda>c a k. (4, [], k)" and maps = "[def0 ''int'' ''u64'' 4 8]" and k = "()"
      and ls = "(lua0 T_u8 T_u8 (def0 ''int'' ''u64'' 4 8) [])\<lparr>globals := (\<lambda>_. Some (LTable 0))\<rparr>" and b = 0
      and mfd = "replicate 32 0" and fds = "[4]" and k' = "()"]
  by (auto simp: lua0_def bpf_create_map_def def0_def)

text \<open>
  Property C24. Values of a map with value type \<^verbatim>\<open>u8\<close> (or \<^verbatim>\<open>char\<close>) are read as signed:
  a stored byte of 128 or more comes out of Lua less by 256.
\<close>
theorem bpf_map_u8_signed:
  assumes "map_kernel bpf view" and "view k fd = Some M" and "is_number kt"
    and "kkey_size M = elem_size kt" and "kvalue_size M = 1" and "map_object ls t fd m kt T_u8" and "x \<in> elem_range kt"
    and "map_of (kelems M) (le_bytes (elem_size kt) x) = Some [b]"
  shows "\<exists>k'. lua_read E bpf ls t (lua_int x) k = Some (lua_int (if uint b < 128 then uint b else uint b - 256), k')"
proof -
  have "uint b < 256" "0 \<le> uint b" using uint_lt2p [of b] by simp_all
  then have "number_result E T_u8 (Some [b]) = lua_int (if uint b < 128 then uint b else uint b - 256)"
    by (simp add: number_result_def le_sint_def Let_def round_double_exact)
  with lua_read_number [OF assms(1,2,3) _ assms(4) _ assms(6,7), of E] assms(5,8) show ?thesis by auto
qed

theorem bpf_map_u8_signed_witness:
  "\<exists>k'. lua_read env0 hash_bpf (lua0 T_u8 T_u8 (def0 ''u8'' ''u8'' 1 1) []) 0 (lua_int 5) (kernel0 1 1 [([5], [200])]) =
     Some (lua_int (- 56), k')"
  using bpf_map_u8_signed [where bpf = hash_bpf and view = hash_view and k = "kernel0 1 1 [([5], [200])]" and fd = 3
      and M = "\<lparr>kkey_size = 1, kvalue_size = 1, kelems = [([5], [200])]\<rparr>" and kt = T_u8 and t = 0 and b = 200
      and ls = "lua0 T_u8 T_u8 (def0 ''u8'' ''u8'' 1 1) []" and m = "def0 ''u8'' ''u8'' 1 1" and x = 5 and E = env0]
    hash_bpf_kernel kernel0_view [of 1 1 "[([5], [200])]"]
  by (simp add: kmap_ok_def elem_range_def)

text \<open>
  A 64-bit value above \<^verbatim>\<open>2^53\<close> that is odd never comes out of Lua as it
  is in the map: a Lua number has 53 bits.
\<close>
theorem bpf_map_u64_rounds:
  assumes "map_kernel bpf view" and "view k fd = Some M" and "is_number kt"
    and "kkey_size M = elem_size kt" and "kvalue_size M = 8" and "map_object ls t fd m kt T_u64" and "x \<in> elem_range kt"
    and "map_of (kelems M) (le_bytes (elem_size kt) x) = Some (le_bytes 8 v)" and "2 ^ 53 < v" and "v < 2 ^ 64" and "odd v"
  shows "\<exists>k' w. lua_read E bpf ls t (lua_int x) k = Some (lua_int w, k') \<and> w \<noteq> v \<and> w = round_double v"
proof -
  have "number_result E T_u64 (Some (le_bytes 8 v)) = lua_int (round_double v)"
    using assms(9,10) by (simp add: number_result_def le_uint_le_bytes)
  moreover have "round_double v \<noteq> v" using round_double_even [of v] assms(9,11) by auto
  ultimately show ?thesis
    using lua_read_number [OF assms(1,2,3) _ assms(4) _ assms(6,7), of E] assms(5,8) by auto
qed

theorem bpf_map_u64_rounds_witness:
  "\<exists>k' w. lua_read env0 hash_bpf (lua0 T_u8 T_u64 (def0 ''u8'' ''u64'' 1 8) []) 0 (lua_int 5)
       (kernel0 1 8 [([5], le_bytes 8 9007199254740993)]) = Some (lua_int w, k') \<and> w \<noteq> 9007199254740993"
proof -
  let ?es = "[([5 :: byte], le_bytes 8 9007199254740993)]"
  have e: "length (le_bytes 8 9007199254740993) = 8" by (rule length_le_bytes)
  show ?thesis
    using bpf_map_u64_rounds [where bpf = hash_bpf and view = hash_view and k = "kernel0 1 8 ?es" and fd = 3
        and M = "\<lparr>kkey_size = 1, kvalue_size = 8, kelems = ?es\<rparr>" and kt = T_u8 and t = 0 and v = 9007199254740993
        and ls = "lua0 T_u8 T_u64 (def0 ''u8'' ''u64'' 1 8) []" and m = "def0 ''u8'' ''u64'' 1 8" and x = 5 and E = env0]
      hash_bpf_kernel kernel0_view [of 1 8 ?es] e
    by (simp add: kmap_ok_def elem_range_def) blast
qed

end
