(* ===== verification/Bpf_Load.thy ===== *)
theory Bpf_Load
  imports Bpf_Map
begin

text \<open>
  The ELF loader, \<^verbatim>\<open>bpf/libbpf/bpf_load.c\<close>. What libelf reads from the file is the
  argument \<open>elf\<close>: for every section number the header fields, name and data
  descriptors the library returns. The operating system is a record of functions
  on a world \<open>'w\<close>. \<open>None\<close> is undefined behaviour, in particular an access
  outside one of the fixed-size arrays.
\<close>

section \<open>What the loader reads and keeps\<close>

record elf_shdr =
  sh_size :: nat
  sh_type :: nat
  sh_info :: nat
  sh_entsize :: nat

abbreviation SHT_SYMTAB :: nat where "SHT_SYMTAB \<equiv> 2"
abbreviation SHT_REL :: nat where "SHT_REL \<equiv> 9"

text \<open>
  \<open>scn_hdr\<close> and \<open>scn_name\<close> are \<open>None\<close> where \<^verbatim>\<open>gelf_getshdr\<close> or \<^verbatim>\<open>elf_strptr\<close> fail;
  \<open>scn_data\<close> are the data descriptors \<^verbatim>\<open>elf_getdata\<close> returns one after the other.
\<close>

record elf_scn =
  scn_hdr :: "elf_shdr option"
  scn_name :: "string option"
  scn_data :: "byte list list"

text \<open>A relocation entry: the offset and the symbol number.\<close>

record elf_file =
  e_shnum :: nat
  elf_getscn :: "nat \<Rightarrow> elf_scn option"
  gelf_getrel :: "byte list \<Rightarrow> nat \<Rightarrow> (nat \<times> nat) option"
  gelf_getsym :: "byte list \<Rightarrow> nat \<Rightarrow> nat option"

record 'w os =
  os_system :: "string \<Rightarrow> 'w \<Rightarrow> int \<times> 'w"
  os_open :: "string \<Rightarrow> 'w \<Rightarrow> int \<times> 'w"
  os_read :: "int \<Rightarrow> nat \<Rightarrow> 'w \<Rightarrow> int \<times> byte list \<times> 'w"
  os_close :: "int \<Rightarrow> 'w \<Rightarrow> 'w"
  os_bpf :: "'w bpf_syscall"
  os_perf_event_open :: "int \<Rightarrow> 'w \<Rightarrow> int \<times> 'w"
  os_ioctl :: "int \<Rightarrow> string \<Rightarrow> int \<Rightarrow> 'w \<Rightarrow> 'w"

text \<open>The file-scope variables, with the Lua state and the world.\<close>

record 'w load_state =
  license :: "byte list"
  kern_version :: int
  processed_sec :: "bool list"
  map_fd :: "int list"
  prog_fd :: "int list"
  event_fd :: "int list"
  prog_cnt :: nat
  g_ls :: lstate
  world :: 'w

abbreviation MAX_PROGS :: nat where "MAX_PROGS \<equiv> 32"

definition load_state_ok :: "'w load_state \<Rightarrow> bool" where
  "load_state_ok S \<longleftrightarrow> length (license S) = 128 \<and> length (processed_sec S) = 128 \<and> length (map_fd S) = 32 \<and>
     length (prog_fd S) = 32 \<and> length (event_fd S) = 32"

section \<open>Attaching a program\<close>

definition strprefix :: "string \<Rightarrow> string \<Rightarrow> bool" where
  "strprefix p s \<longleftrightarrow> take (length p) s = p"

abbreviation DEBUGFS :: string where "DEBUGFS \<equiv> ''/sys/kernel/debug/tracing/''"

abbreviation BPF_PROG_TYPE_SOCKET_FILTER :: uint32 where "BPF_PROG_TYPE_SOCKET_FILTER \<equiv> 1"
abbreviation BPF_PROG_TYPE_KPROBE :: uint32 where "BPF_PROG_TYPE_KPROBE \<equiv> 2"

text \<open>\<^verbatim>\<open>atoi\<close>: optional white space and sign, then digits; a value outside \<^verbatim>\<open>int\<close> is undefined.\<close>

definition is_digit :: "byte \<Rightarrow> bool" where
  "is_digit b \<longleftrightarrow> 48 \<le> b \<and> b \<le> 57"

definition is_space :: "byte \<Rightarrow> bool" where
  "is_space b \<longleftrightarrow> b = 32 \<or> 9 \<le> b \<and> b \<le> 13"

fun digits_value :: "int \<Rightarrow> byte list \<Rightarrow> int" where
  "digits_value a [] = a"
| "digits_value a (b # bs) = (if is_digit b then digits_value (10 * a + (uint b - 48)) bs else a)"

definition atoi :: "byte list \<Rightarrow> int option" where
  "atoi buf =
     (let s = dropWhile is_space (c_string buf);
          n = (case s of
                 [] \<Rightarrow> 0
               | b # bs \<Rightarrow> if b = 45 then - digits_value 0 bs else if b = 43 then digits_value 0 bs else digits_value 0 s)
      in if - 2147483648 \<le> n \<and> n \<le> 2147483647 then Some n else None)"

definition kprobe_command :: "bool \<Rightarrow> string \<Rightarrow> string" where
  "kprobe_command is_kprobe event =
     take 255 (''echo '' @ [CHR 0x27, if is_kprobe then CHR ''p'' else CHR ''r'', CHR '':''] @ event @ '' '' @ event @
       [CHR 0x27] @ '' >> /sys/kernel/debug/tracing/kprobe_events'')"

text \<open>The second half of \<open>load_and_attach\<close>: the tracepoint of a probe is opened and bound to the program.\<close>

definition attach_event :: "'w os \<Rightarrow> string \<Rightarrow> int \<Rightarrow> 'w load_state \<Rightarrow> (int \<times> 'w load_state) option" where
  "attach_event os event fd S =
     (let path = DEBUGFS @ ''events/kprobes/'' @ event @ ''/id''
      in if length path + 1 > 256 then None
      else
        let (efd, w) = os_open os path (world S);
            S = S\<lparr>world := w\<rparr>
        in if efd < 0 then Some (- 1, S)
        else
          let (err, buf, w) = os_read os efd 256 (world S);
              S = S\<lparr>world := w\<rparr>
          in if err < 0 \<or> err \<ge> 256 then Some (- 1, S)
          else
            let S = S\<lparr>world := os_close os efd (world S)\<rparr>
            in do {
              id \<leftarrow> atoi (take (nat err) buf @ [0]);
              let (efd, w) = os_perf_event_open os id (world S);
              let S = S\<lparr>world := w\<rparr>;
              if efd < 0 then Some (- 1, S)
              else if \<not> prog_cnt S - 1 < length (event_fd S) then None
              else
                let S = S\<lparr>event_fd := (event_fd S)[prog_cnt S - 1 := efd]\<rparr>;
                    S = S\<lparr>world := os_ioctl os efd ''PERF_EVENT_IOC_ENABLE'' 0 (world S)\<rparr>;
                    S = S\<lparr>world := os_ioctl os efd ''PERF_EVENT_IOC_SET_BPF'' fd (world S)\<rparr>
                in Some (0, S)
            })"

definition load_and_attach :: "'w os \<Rightarrow> string \<Rightarrow> byte list \<Rightarrow> 'w load_state \<Rightarrow> (int \<times> 'w load_state) option" where
  "load_and_attach os event prog S =
     (let is_socket = strprefix ''socket'' event;
          is_kprobe = strprefix ''kprobe/'' event;
          is_kretprobe = strprefix ''kretprobe/'' event
      in if \<not> is_socket \<and> \<not> is_kprobe \<and> \<not> is_kretprobe then Some (- 1, S)
      else
        let prog_type = (if is_socket then BPF_PROG_TYPE_SOCKET_FILTER else BPF_PROG_TYPE_KPROBE);
            probe = (is_kprobe \<or> is_kretprobe);
            event = (if \<not> probe then event else if is_kprobe then drop 7 event else drop 10 event);
            (err, w) = (if probe then os_system os (kprobe_command is_kprobe event) (world S) else (0, world S));
            S = S\<lparr>world := w\<rparr>
        in if probe \<and> err < 0 then Some (- 1, S)
        else
          let (fd, _, w) = bpf_prog_load (os_bpf os) prog_type prog (int (length prog)) (license S) (kern_version S) (world S);
              S = S\<lparr>world := w\<rparr>
          in if fd < 0 then Some (- 1, S)
          else if \<not> prog_cnt S < length (prog_fd S) then None
          else
            let S = S\<lparr>prog_fd := (prog_fd S)[prog_cnt S := fd], prog_cnt := prog_cnt S + 1\<rparr>
            in if is_socket then Some (0, S) else attach_event os event fd S)"

section \<open>Sections\<close>

text \<open>The parts of a section, or the error number of \<^verbatim>\<open>get_sec\<close>.\<close>

definition get_sec :: "elf_file \<Rightarrow> nat \<Rightarrow> int + (string \<times> elf_shdr \<times> byte list)" where
  "get_sec elf i =
     (case elf_getscn elf i of
        None \<Rightarrow> Inl 1
      | Some scn \<Rightarrow>
          (case scn_hdr scn of
             None \<Rightarrow> Inl 2
           | Some shdr \<Rightarrow>
               (case scn_name scn of
                  None \<Rightarrow> Inl 3
                | Some shname \<Rightarrow>
                    if sh_size shdr = 0 then Inl 3
                    else (case scn_data scn of [data] \<Rightarrow> Inr (shname, shdr, data) | _ \<Rightarrow> Inl 4))))"

text \<open>
  The maps section as an array of definitions of 64 bytes; the three names are
  C strings in fields of 16 bytes, and a name that fills its field runs on.
\<close>

definition byte_string :: "byte list \<Rightarrow> string" where
  "byte_string bs = map (\<lambda>b. char_of (unat b)) (c_string bs)"

definition le_uint32 :: "byte list \<Rightarrow> uint32" where
  "le_uint32 bs = word_of_int (le_uint (take 4 bs))"

definition map_def_at :: "byte list \<Rightarrow> nat \<Rightarrow> bpf_map_def" where
  "map_def_at d i =
     (let e = drop (64 * i) d
      in \<lparr>map_name = byte_string e, map_key_type = byte_string (drop 16 e), map_val_type = byte_string (drop 32 e),
          map_type = le_uint32 (drop 48 e), map_key_size = le_uint32 (drop 52 e),
          map_value_size = le_uint32 (drop 56 e), map_max_entries = le_uint32 (drop 60 e)\<rparr>)"

definition load_maps :: "'w os \<Rightarrow> byte list \<Rightarrow> 'w load_state \<Rightarrow> (int \<times> 'w load_state) option" where
  "load_maps os d S = do {
     (r, ls, mfd, w) \<leftarrow> shark_create_bpf_map (os_bpf os) (map (map_def_at d) [0..<length d div 64]) (g_ls S) (map_fd S) (world S);
     Some (r, S\<lparr>g_ls := ls, map_fd := mfd, world := w\<rparr>)
   }"

section \<open>Relocations\<close>

text \<open>
  An instruction is eight bytes: the code, the registers (source in the high
  half), two bytes of offset and four of immediate. \<open>BPF_LD | BPF_IMM | BPF_DW\<close> is 0x18.
\<close>

definition set_map_fd :: "nat \<Rightarrow> int \<Rightarrow> byte list \<Rightarrow> byte list" where
  "set_map_fd n fd insns =
     (let insns = insns[8 * n + 1 := (insns ! (8 * n + 1) AND 0x0F) OR 0x10]
      in take (8 * n + 4) insns @ le_bytes 4 fd @ drop (8 * n + 8) insns)"

text \<open>
  One relocation: the error result is \<open>Inl\<close>. A relocation or symbol libelf
  does not return leaves the local uninitialised, and a map number outside the
  array reads outside it: \<open>None\<close>.
\<close>

definition apply_relo :: "elf_file \<Rightarrow> byte list option \<Rightarrow> byte list \<Rightarrow> int list \<Rightarrow> nat \<Rightarrow> byte list \<Rightarrow> (int + byte list) option" where
  "apply_relo elf symbols data mfd i insns = do {
     (r_offset, r_sym) \<leftarrow> gelf_getrel elf data i;
     let insn_idx = r_offset div 8 mod 2 ^ 32;
     if \<not> 8 * insn_idx + 8 \<le> length insns then None
     else if insns ! (8 * insn_idx) \<noteq> 0x18 then Some (Inl 1)
     else do {
       symbols \<leftarrow> symbols;
       st_value \<leftarrow> gelf_getsym elf symbols r_sym;
       if \<not> st_value div 64 < length mfd then None
       else Some (Inr (set_map_fd insn_idx (mfd ! (st_value div 64)) insns))
     }
   }"

text \<open>
  The result is the return value and the instructions, changed in place; \<open>n\<close>
  relocations are left from number \<open>i\<close> on.
\<close>

fun apply_relos :: "elf_file \<Rightarrow> byte list option \<Rightarrow> byte list \<Rightarrow> int list \<Rightarrow> nat \<Rightarrow> nat \<Rightarrow> byte list \<Rightarrow> (int \<times> byte list) option" where
  "apply_relos elf symbols data mfd i 0 insns = Some (0, insns)"
| "apply_relos elf symbols data mfd i (Suc n) insns = do {
     r \<leftarrow> apply_relo elf symbols data mfd i insns;
     (case r of Inl e \<Rightarrow> Some (e, insns) | Inr insns \<Rightarrow> apply_relos elf symbols data mfd (Suc i) n insns)
   }"

definition parse_relo_and_apply :: "elf_file \<Rightarrow> byte list \<Rightarrow> byte list option \<Rightarrow> elf_shdr \<Rightarrow> int list \<Rightarrow> byte list \<Rightarrow> (int \<times> byte list) option" where
  "parse_relo_and_apply elf data symbols shdr mfd insns =
     (if sh_entsize shdr = 0 then None
      else apply_relos elf symbols data mfd 0 (sh_size shdr div sh_entsize shdr) insns)"

section \<open>Loading a file\<close>

definition mark_processed :: "nat \<Rightarrow> 'w load_state \<Rightarrow> 'w load_state option" where
  "mark_processed i S =
     (if i < length (processed_sec S) then Some (S\<lparr>processed_sec := (processed_sec S)[i := True]\<rparr>) else None)"

text \<open>The first scan, from section \<open>i\<close> with \<open>n\<close> to go: licence, version, maps and symbols. \<open>Inl\<close> is the jump to the error exit.\<close>

fun scan_sections :: "'w os \<Rightarrow> elf_file \<Rightarrow> nat \<Rightarrow> nat \<Rightarrow> byte list option \<Rightarrow> 'w load_state \<Rightarrow>
    ((unit + byte list option) \<times> 'w load_state) option" where
  "scan_sections os elf i 0 symbols S = Some (Inr symbols, S)"
| "scan_sections os elf i (Suc n) symbols S =
     (case get_sec elf i of
        Inl _ \<Rightarrow> scan_sections os elf (Suc i) n symbols S
      | Inr (shname, shdr, data) \<Rightarrow>
          if shname = ''license'' then do {
            S \<leftarrow> mark_processed i S;
            l \<leftarrow> memcpy (license S) data;
            scan_sections os elf (Suc i) n symbols (S\<lparr>license := l\<rparr>)
          }
          else if shname = ''version'' then do {
            S \<leftarrow> mark_processed i S;
            if length data \<noteq> 4 then Some (Inl (), S)
            else scan_sections os elf (Suc i) n symbols (S\<lparr>kern_version := le_sint data\<rparr>)
          }
          else if shname = ''maps'' then do {
            S \<leftarrow> mark_processed i S;
            (r, S) \<leftarrow> load_maps os data S;
            if r \<noteq> 0 then Some (Inl (), S)
            else scan_sections os elf (Suc i) n symbols S
          }
          else if sh_type shdr = SHT_SYMTAB then scan_sections os elf (Suc i) n (Some data) S
          else scan_sections os elf (Suc i) n symbols S)"

text \<open>\<^verbatim>\<open>memcmp\<close> of the name with the three prefixes; a shorter name is compared up to its terminator.\<close>

definition is_prog_section :: "string \<Rightarrow> bool" where
  "is_prog_section s \<longleftrightarrow> strprefix ''kprobe/'' s \<or> strprefix ''kretprobe/'' s \<or> strprefix ''socket'' s"

text \<open>
  The second loop: programs with relocations. The relocated instructions stay
  in the section's data, so the ELF file is passed on changed.
\<close>

definition set_sec_data :: "nat \<Rightarrow> byte list \<Rightarrow> elf_file \<Rightarrow> elf_file" where
  "set_sec_data i d elf =
     elf\<lparr>elf_getscn := (elf_getscn elf)(i := map_option (\<lambda>s. s\<lparr>scn_data := [d]\<rparr>) (elf_getscn elf i))\<rparr>"

fun load_relocated :: "'w os \<Rightarrow> nat \<Rightarrow> nat \<Rightarrow> byte list option \<Rightarrow> elf_file \<Rightarrow> 'w load_state \<Rightarrow> (elf_file \<times> 'w load_state) option" where
  "load_relocated os i 0 symbols elf S = Some (elf, S)"
| "load_relocated os i (Suc n) symbols elf S =
     (case get_sec elf i of
        Inl _ \<Rightarrow> load_relocated os (Suc i) n symbols elf S
      | Inr (shname, shdr, data) \<Rightarrow>
          if sh_type shdr = SHT_REL then
            (case get_sec elf (sh_info shdr) of
               Inl _ \<Rightarrow> load_relocated os (Suc i) n symbols elf S
             | Inr (shname_prog, shdr_prog, insns) \<Rightarrow> do {
                 S \<leftarrow> mark_processed (sh_info shdr) S;
                 S \<leftarrow> mark_processed i S;
                 (r, insns) \<leftarrow> parse_relo_and_apply elf data symbols shdr (map_fd S) insns;
                 let elf = set_sec_data (sh_info shdr) insns elf;
                 if r \<noteq> 0 then load_relocated os (Suc i) n symbols elf S
                 else if is_prog_section shname_prog then do {
                   (_, S) \<leftarrow> load_and_attach os shname_prog insns S;
                   load_relocated os (Suc i) n symbols elf S
                 }
                 else load_relocated os (Suc i) n symbols elf S
               })
          else load_relocated os (Suc i) n symbols elf S)"

text \<open>The third loop: the remaining program sections. Reading \<^verbatim>\<open>processed_sec\<close> past its end is undefined.\<close>

fun load_remaining :: "'w os \<Rightarrow> nat \<Rightarrow> nat \<Rightarrow> elf_file \<Rightarrow> 'w load_state \<Rightarrow> 'w load_state option" where
  "load_remaining os i 0 elf S = Some S"
| "load_remaining os i (Suc n) elf S =
     (if \<not> i < length (processed_sec S) then None
      else if processed_sec S ! i then load_remaining os (Suc i) n elf S
      else case get_sec elf i of
        Inl _ \<Rightarrow> load_remaining os (Suc i) n elf S
      | Inr (shname, shdr, data) \<Rightarrow>
          if is_prog_section shname then do {
            (_, S) \<leftarrow> load_and_attach os shname data S;
            load_remaining os (Suc i) n elf S
          }
          else load_remaining os (Suc i) n elf S)"

text \<open>
  \<^verbatim>\<open>load_bpf_file\<close>: opening fails, libelf fails (\<open>elf = None\<close>) or the loops run.
\<close>

definition load_bpf_file :: "'w os \<Rightarrow> string \<Rightarrow> elf_file option \<Rightarrow> 'w load_state \<Rightarrow> (int \<times> 'w load_state) option" where
  "load_bpf_file os path elf S =
     (let (fd, w) = os_open os path (world S);
          S = S\<lparr>world := w\<rparr>
      in if fd < 0 then Some (1, S)
      else case elf of
        None \<Rightarrow> Some (1, S\<lparr>world := os_close os fd (world S)\<rparr>)
      | Some elf \<Rightarrow>
          let S = S\<lparr>world := snd (os_system os ''echo \"\" > /sys/kernel/debug/tracing/kprobe_events'' (world S))\<rparr>;
              n = e_shnum elf - 1
          in do {
            (r, S) \<leftarrow> scan_sections os elf 1 n None S;
            (case r of
               Inl _ \<Rightarrow> Some (1, S\<lparr>world := os_close os fd (world S)\<rparr>)
             | Inr symbols \<Rightarrow> do {
                 (elf, S) \<leftarrow> load_relocated os 1 n symbols elf S;
                 S \<leftarrow> load_remaining os 1 n elf S;
                 Some (0, S\<lparr>world := os_close os fd (world S)\<rparr>)
               })
          })"

text \<open>
  One round of the endless loop of \<^verbatim>\<open>read_trace_pipe\<close>: the text printed, if any.
  The buffer has 4096 bytes and the read asks for 4096.
\<close>

definition trace_pipe_round :: "'w os \<Rightarrow> int \<Rightarrow> byte list \<Rightarrow> 'w \<Rightarrow> (byte list option \<times> byte list \<times> 'w) option" where
  "trace_pipe_round os trace_fd buf w =
     (let (sz, out, w) = os_read os trace_fd 4096 w
      in if sz > 0 then do {
           buf \<leftarrow> memcpy buf (take (nat sz) out);
           if nat sz < length buf then Some (Some (c_string (buf[nat sz := 0])), buf[nat sz := 0], w) else None
         }
         else Some (None, buf, w))"

section \<open>Relocated instructions\<close>

lemma length_set_map_fd [simp]: "8 * n + 8 \<le> length insns \<Longrightarrow> length (set_map_fd n fd insns) = length insns"
  by (simp add: set_map_fd_def Let_def)

lemma set_map_fd_other:
  assumes "8 * n + 8 \<le> length insns" and "p < length insns" and "p div 8 \<noteq> n"
  shows "set_map_fd n fd insns ! p = insns ! p"
proof (cases "p < 8 * n")
  case True
  then show ?thesis using assms(1) by (simp add: set_map_fd_def Let_def nth_append)
next
  case False
  then have "8 * n + 8 \<le> p" using assms(3) by auto
  then obtain q where "p = 8 * n + 8 + q" using le_Suc_ex by blast
  then show ?thesis using assms(1,2) by (simp add: set_map_fd_def Let_def nth_append)
qed

definition relocated :: "nat \<Rightarrow> int \<Rightarrow> byte list \<Rightarrow> byte list \<Rightarrow> bool" where
  "relocated n fd insns insns' \<longleftrightarrow>
     insns' ! (8 * n) = insns ! (8 * n) \<and> insns' ! (8 * n + 1) = (insns ! (8 * n + 1) AND 0x0F) OR 0x10 \<and>
     insns' ! (8 * n + 2) = insns ! (8 * n + 2) \<and> insns' ! (8 * n + 3) = insns ! (8 * n + 3) \<and>
     take 4 (drop (8 * n + 4) insns') = le_bytes 4 fd"

lemma set_map_fd_this:
  assumes "8 * n + 8 \<le> length insns"
  shows "relocated n fd insns (set_map_fd n fd insns)"
  using assms by (simp add: relocated_def set_map_fd_def Let_def nth_append)

lemma relocated_cong:
  assumes "relocated n fd insns insns'" and "8 * n + 8 \<le> length insns'" and "length insns'' = length insns'"
    and "length insns0 = length insns"
    and "\<And>p. p < length insns' \<Longrightarrow> p div 8 = n \<Longrightarrow> insns'' ! p = insns' ! p"
    and "\<And>p. p < length insns' \<Longrightarrow> p div 8 = n \<Longrightarrow> insns0 ! p = insns ! p"
  shows "relocated n fd insns0 insns''"
proof -
  have "take 4 (drop (8 * n + 4) insns'') = take 4 (drop (8 * n + 4) insns')"
    by (rule nth_equalityI) (use assms(2,3,5) in auto)
  then show ?thesis using assms(1,2,5,6) by (simp add: relocated_def)
qed

text \<open>The instruction and the map a relocation names.\<close>

definition relo_insn :: "elf_file \<Rightarrow> byte list \<Rightarrow> nat \<Rightarrow> nat" where
  "relo_insn elf data i = fst (the (gelf_getrel elf data i)) div 8 mod 2 ^ 32"

definition relo_map :: "elf_file \<Rightarrow> byte list \<Rightarrow> byte list \<Rightarrow> nat \<Rightarrow> nat" where
  "relo_map elf symbols data i = the (gelf_getsym elf symbols (snd (the (gelf_getrel elf data i)))) div 64"

definition relo_ok :: "elf_file \<Rightarrow> byte list \<Rightarrow> byte list \<Rightarrow> int list \<Rightarrow> byte list \<Rightarrow> nat \<Rightarrow> bool" where
  "relo_ok elf symbols data mfd insns i \<longleftrightarrow>
     gelf_getrel elf data i \<noteq> None \<and> gelf_getsym elf symbols (snd (the (gelf_getrel elf data i))) \<noteq> None \<and>
     8 * relo_insn elf data i + 8 \<le> length insns \<and> insns ! (8 * relo_insn elf data i) = 0x18 \<and>
     relo_map elf symbols data i < length mfd"

lemma apply_relo_ok:
  assumes "relo_ok elf symbols data mfd insns i"
  shows "apply_relo elf (Some symbols) data mfd i insns =
    Some (Inr (set_map_fd (relo_insn elf data i) (mfd ! relo_map elf symbols data i) insns))"
  using assms by (auto simp: relo_ok_def apply_relo_def relo_insn_def relo_map_def)

lemma relo_ok_cong:
  assumes "relo_ok elf symbols data mfd insns i" and "length insns' = length insns"
    and "insns' ! (8 * relo_insn elf data i) = insns ! (8 * relo_insn elf data i)"
  shows "relo_ok elf symbols data mfd insns' i"
  using assms by (simp add: relo_ok_def)

lemma apply_relos_ok:
  assumes "\<forall>j\<in>{i..<i + n}. relo_ok elf symbols data mfd insns j"
    and "inj_on (relo_insn elf data) {i..<i + n}"
  shows "\<exists>insns'. apply_relos elf (Some symbols) data mfd i n insns = Some (0, insns') \<and> length insns' = length insns \<and>
    (\<forall>j\<in>{i..<i + n}. relocated (relo_insn elf data j) (mfd ! relo_map elf symbols data j) insns insns') \<and>
    (\<forall>p < length insns. p div 8 \<notin> relo_insn elf data ` {i..<i + n} \<longrightarrow> insns' ! p = insns ! p)"
  using assms
proof (induction n arbitrary: i insns)
  case (Suc n)
  let ?k = "relo_insn elf data i" and ?fd = "mfd ! relo_map elf symbols data i"
  let ?insns = "set_map_fd ?k ?fd insns"
  have ivl: "{i..<i + Suc n} = insert i {Suc i..<Suc i + n}" by auto
  have ri: "relo_ok elf symbols data mfd insns i" and len: "8 * ?k + 8 \<le> length insns"
    using Suc.prems(1) by (auto simp: relo_ok_def)
  have ne: "relo_insn elf data j \<noteq> ?k" if "j \<in> {Suc i..<Suc i + n}" for j
    using inj_onD [OF Suc.prems(2), of j i] that by auto
  have "relo_ok elf symbols data mfd ?insns j" if j: "j \<in> {Suc i..<Suc i + n}" for j
  proof -
    have o: "relo_ok elf symbols data mfd insns j" using Suc.prems(1) j by auto
    show ?thesis
      by (rule relo_ok_cong [OF o]) (use o ne [OF j] len in \<open>auto simp: relo_ok_def set_map_fd_other\<close>)
  qed
  moreover have "inj_on (relo_insn elf data) {Suc i..<Suc i + n}" using Suc.prems(2) unfolding ivl by simp
  ultimately obtain insns' where IH: "apply_relos elf (Some symbols) data mfd (Suc i) n ?insns = Some (0, insns')"
      "length insns' = length insns"
      "\<forall>j\<in>{Suc i..<Suc i + n}. relocated (relo_insn elf data j) (mfd ! relo_map elf symbols data j) ?insns insns'"
      "\<forall>p < length insns. p div 8 \<notin> relo_insn elf data ` {Suc i..<Suc i + n} \<longrightarrow> insns' ! p = ?insns ! p"
    using Suc.IH [of "Suc i" ?insns] len by auto
  have run: "apply_relos elf (Some symbols) data mfd i (Suc n) insns = Some (0, insns')"
    using apply_relo_ok [OF ri] IH(1) by simp
  have first: "relocated ?k ?fd insns insns'"
    by (rule relocated_cong [OF set_map_fd_this [OF len]]) (use IH(2,4) len ne in auto)
  have later: "relocated (relo_insn elf data j) (mfd ! relo_map elf symbols data j) insns insns'"
    if j: "j \<in> {Suc i..<Suc i + n}" for j
  proof -
    have "8 * relo_insn elf data j + 8 \<le> length insns'" using Suc.prems(1) j IH(2) by (auto simp: relo_ok_def)
    then show ?thesis
      by (rule_tac relocated_cong [OF IH(3) [rule_format, OF j]]) (use IH(2) len ne [OF j] in \<open>auto simp: set_map_fd_other\<close>)
  qed
  have "\<forall>j\<in>{i..<i + Suc n}. relocated (relo_insn elf data j) (mfd ! relo_map elf symbols data j) insns insns'"
    unfolding ivl using first later by blast
  moreover have "insns' ! p = insns ! p" if "p < length insns" "p div 8 \<notin> relo_insn elf data ` {i..<i + Suc n}" for p
    using IH(4) that set_map_fd_other [OF len that(1)] unfolding ivl by auto
  ultimately show ?case using run IH(2) by blast
qed simp
section \<open>The state of the loader\<close>

text \<open>The arrays keep their sizes, and the programs recorded have valid descriptors.\<close>

definition load_inv :: "'w load_state \<Rightarrow> bool" where
  "load_inv S \<longleftrightarrow> load_state_ok S \<and> prog_cnt S \<le> MAX_PROGS \<and> (\<forall>i < prog_cnt S. 0 \<le> prog_fd S ! i)"

lemma load_inv_upd [simp]:
  "load_inv (S\<lparr>world := w\<rparr>) = load_inv S" "load_inv (S\<lparr>g_ls := l\<rparr>) = load_inv S"
  "load_inv (S\<lparr>kern_version := v\<rparr>) = load_inv S"
  "length b = 128 \<Longrightarrow> load_inv S \<Longrightarrow> load_inv (S\<lparr>license := b\<rparr>)"
  "length m = 32 \<Longrightarrow> load_inv S \<Longrightarrow> load_inv (S\<lparr>map_fd := m\<rparr>)"
  "length e = 32 \<Longrightarrow> load_inv S \<Longrightarrow> load_inv (S\<lparr>event_fd := e\<rparr>)"
  "length p = 128 \<Longrightarrow> load_inv S \<Longrightarrow> load_inv (S\<lparr>processed_sec := p\<rparr>)"
  by (simp_all add: load_inv_def load_state_ok_def)

lemma load_inv_sizes:
  "load_inv S \<Longrightarrow> length (license S) = 128 \<and> length (processed_sec S) = 128 \<and> length (map_fd S) = 32 \<and>
     length (prog_fd S) = 32 \<and> length (event_fd S) = 32"
  by (simp add: load_inv_def load_state_ok_def)

lemma load_inv_record:
  assumes "load_inv S" and "0 \<le> fd" and "prog_cnt S < length (prog_fd S)"
  shows "load_inv (S\<lparr>prog_fd := (prog_fd S)[prog_cnt S := fd], prog_cnt := prog_cnt S + 1\<rparr>)"
  using assms by (auto simp: load_inv_def load_state_ok_def nth_list_update less_Suc_eq)

lemma attach_event_frame:
  assumes "attach_event os event fd S = Some (r, S')"
  shows "\<exists>w e. S' = S\<lparr>world := w, event_fd := e\<rparr> \<and> length e = length (event_fd S)"
proof -
  have refl: "\<exists>w e. S\<lparr>world := v\<rparr> = S\<lparr>world := w, event_fd := e\<rparr> \<and> length e = length (event_fd S)" for v
    by (intro exI [of _ v] exI [of _ "event_fd S"]) simp
  have set: "\<exists>w e. S\<lparr>event_fd := (event_fd S)[i := x], world := v\<rparr> = S\<lparr>world := w, event_fd := e\<rparr> \<and> length e = length (event_fd S)" for v i x
    by (intro exI [of _ v] exI [of _ "(event_fd S)[i := x]"]) simp
  show ?thesis
    using assms unfolding attach_event_def Let_def
    by (auto simp: refl set split: if_splits prod.splits bind_splits)
qed

text \<open>The body of \<open>load_and_attach\<close> with the results of its two calls; \<open>ev\<close> is the name of the probed function.\<close>

lemma load_and_attach_eq:
  obtains err w fd w2 ev where
    "load_and_attach os event prog S =
      (if \<not> strprefix ''socket'' event \<and> \<not> strprefix ''kprobe/'' event \<and> \<not> strprefix ''kretprobe/'' event then Some (- 1, S)
       else if (strprefix ''kprobe/'' event \<or> strprefix ''kretprobe/'' event) \<and> err < 0 then Some (- 1, S\<lparr>world := w\<rparr>)
       else if fd < 0 then Some (- 1, S\<lparr>world := w2\<rparr>)
       else if \<not> prog_cnt S < length (prog_fd S) then None
       else if strprefix ''socket'' event
         then Some (0, S\<lparr>world := w2, prog_fd := (prog_fd S)[prog_cnt S := fd], prog_cnt := prog_cnt S + 1\<rparr>)
         else attach_event os ev fd (S\<lparr>world := w2, prog_fd := (prog_fd S)[prog_cnt S := fd], prog_cnt := prog_cnt S + 1\<rparr>))"
    and "fst (bpf_prog_load (os_bpf os) (if strprefix ''socket'' event then BPF_PROG_TYPE_SOCKET_FILTER else BPF_PROG_TYPE_KPROBE)
         prog (int (length prog)) (license S) (kern_version S) w) = fd"
    and "strprefix ''kprobe/'' event \<or> strprefix ''kretprobe/'' event \<longrightarrow>
         (\<exists>c. err = fst (os_system os c (world S))) \<and> length ev \<le> length event - 7"
proof -
  let ?ty = "if strprefix ''socket'' event then BPF_PROG_TYPE_SOCKET_FILTER else BPF_PROG_TYPE_KPROBE"
  let ?pr = "strprefix ''kprobe/'' event \<or> strprefix ''kretprobe/'' event"
  let ?ev = "if \<not> ?pr then event else if strprefix ''kprobe/'' event then drop 7 event else drop 10 event"
  obtain err w where sys: "(if ?pr then os_system os (kprobe_command (strprefix ''kprobe/'' event) ?ev) (world S) else (0, world S)) = (err, w)"
    by fastforce
  obtain fd out w2 where ld: "bpf_prog_load (os_bpf os) ?ty prog (int (length prog)) (license S) (kern_version S) w = (fd, out, w2)"
    using prod_cases3 by blast
  have ld2: "bpf_prog_load (os_bpf os) ?ty prog (int (length prog)) (license (S\<lparr>world := w\<rparr>)) (kern_version (S\<lparr>world := w\<rparr>))
      (world (S\<lparr>world := w\<rparr>)) = (fd, out, w2)" using ld by simp
  have sysc: "?pr \<longrightarrow> (\<exists>c. err = fst (os_system os c (world S))) \<and> length ?ev \<le> length event - 7"
  proof
    assume p: ?pr
    then have "err = fst (os_system os (kprobe_command (strprefix ''kprobe/'' event) ?ev) (world S))" using sys by (metis fst_conv)
    then show "(\<exists>c. err = fst (os_system os c (world S))) \<and> length ?ev \<le> length event - 7" using p by auto
  qed
  show thesis
    by (rule that [of err w fd w2 ?ev]) (unfold load_and_attach_def Let_def sys prod.case ld2, use ld sysc in simp_all)
qed

text \<open>The three outcomes: rejected before a program is recorded, or recorded and then attached or not.\<close>

lemma load_and_attach_cases:
  assumes "load_and_attach os event prog S = Some (r, S')"
  obtains w where "S' = S\<lparr>world := w\<rparr>" "r = - 1"
  | w w' e fd where "S' = S\<lparr>world := w', event_fd := e, prog_fd := (prog_fd S)[prog_cnt S := fd], prog_cnt := prog_cnt S + 1\<rparr>"
      "length e = length (event_fd S)" "0 \<le> fd" "prog_cnt S < length (prog_fd S)"
      "fst (bpf_prog_load (os_bpf os) (if strprefix ''socket'' event then BPF_PROG_TYPE_SOCKET_FILTER else BPF_PROG_TYPE_KPROBE)
         prog (int (length prog)) (license S) (kern_version S) w) = fd"
proof -
  let ?ty = "if strprefix ''socket'' event then BPF_PROG_TYPE_SOCKET_FILTER else BPF_PROG_TYPE_KPROBE"
  let ?pr = "strprefix ''kprobe/'' event \<or> strprefix ''kretprobe/'' event"
  obtain err w fd w2 ev where eq: "load_and_attach os event prog S =
      (if \<not> strprefix ''socket'' event \<and> \<not> strprefix ''kprobe/'' event \<and> \<not> strprefix ''kretprobe/'' event then Some (- 1, S)
       else if ?pr \<and> err < 0 then Some (- 1, S\<lparr>world := w\<rparr>)
       else if fd < 0 then Some (- 1, S\<lparr>world := w2\<rparr>)
       else if \<not> prog_cnt S < length (prog_fd S) then None
       else if strprefix ''socket'' event
         then Some (0, S\<lparr>world := w2, prog_fd := (prog_fd S)[prog_cnt S := fd], prog_cnt := prog_cnt S + 1\<rparr>)
         else attach_event os ev fd (S\<lparr>world := w2, prog_fd := (prog_fd S)[prog_cnt S := fd], prog_cnt := prog_cnt S + 1\<rparr>))"
      and ld: "fst (bpf_prog_load (os_bpf os) ?ty prog (int (length prog)) (license S) (kern_version S) w) = fd"
      and "?pr \<longrightarrow> (\<exists>c. err = fst (os_system os c (world S))) \<and> length ev \<le> length event - 7"
    by (rule load_and_attach_eq [of os event prog S])
  let ?S2 = "S\<lparr>world := w2, prog_fd := (prog_fd S)[prog_cnt S := fd], prog_cnt := prog_cnt S + 1\<rparr>"
  show thesis
  proof (cases "\<not> strprefix ''socket'' event \<and> \<not> strprefix ''kprobe/'' event \<and> \<not> strprefix ''kretprobe/'' event")
    case True
    then have "Some (- 1, S) = Some (r, S')" using assms by (simp only: eq simp_thms if_True)
    then show thesis using that(1) [of "world S"] by simp
  next
    case known: False
    show thesis
    proof (cases "?pr \<and> err < 0 \<or> fd < 0")
      case True
      then have "Some (- 1, S\<lparr>world := if ?pr \<and> err < 0 then w else w2\<rparr>) = Some (r, S')"
        using assms known unfolding eq by presburger
      then show thesis using that(1) by blast
    next
      case ok: False
      then have rec: "0 \<le> fd" "prog_cnt S < length (prog_fd S)"
          "(if strprefix ''socket'' event then Some (0, ?S2) else attach_event os ev fd ?S2) = Some (r, S')"
        using assms known unfolding eq by (auto split: if_splits)
      obtain w3 e where "S' = ?S2\<lparr>world := w3, event_fd := e\<rparr>" "length e = length (event_fd S)"
      proof (cases "strprefix ''socket'' event")
        case True
        then have "S' = ?S2\<lparr>world := w2, event_fd := event_fd S\<rparr>" using rec(3) by auto
        then show thesis using that by blast
      next
        case False
        then show thesis using rec(3) attach_event_frame [of os ev fd ?S2 r S'] that by fastforce
      qed
      with rec show thesis using that(2) [of fd e w3 w] ld by simp
    qed
  qed
qed

lemma load_and_attach_inv:
  assumes "load_and_attach os event prog S = Some (r, S')" and "load_inv S"
  shows "load_inv S'"
  using assms(1)
proof (cases rule: load_and_attach_cases)
  case (2 w w' e fd)
  with assms(2) show ?thesis by (auto simp: load_inv_def load_state_ok_def nth_list_update less_Suc_eq)
qed (use assms(2) in simp)
lemma create_maps_from_length:
  "create_maps_from bpf ms i ls mfd k = Some (r, ls', mfd', k') \<Longrightarrow> length mfd' = length mfd"
proof (induction ms arbitrary: i ls mfd k)
  case (Cons m ms)
  then show ?case
    by (auto simp: Let_def split: prod.splits if_splits bind_splits dest!: Cons.IH)
qed simp

lemma load_maps_inv:
  assumes "load_maps os d S = Some (r, S')" and "load_inv S"
  shows "load_inv S'"
proof -
  obtain ls mfd w where c: "shark_create_bpf_map (os_bpf os) (map (map_def_at d) [0..<length d div 64]) (g_ls S) (map_fd S) (world S) =
      Some (r, ls, mfd, w)" "S' = S\<lparr>g_ls := ls, map_fd := mfd, world := w\<rparr>"
    using assms(1) by (auto simp: load_maps_def split: bind_splits)
  have "length mfd = length (map_fd S)"
    using c(1) unfolding shark_create_bpf_map_def Let_def
    by (auto split: bind_splits if_splits prod.splits dest!: create_maps_from_length)
  then show ?thesis using assms(2) c(2) load_inv_sizes [OF assms(2)] by (simp add: load_inv_def load_state_ok_def)
qed

lemma mark_processed_inv: "mark_processed i S = Some S' \<Longrightarrow> load_inv S \<Longrightarrow> load_inv S'"
  by (auto simp: mark_processed_def load_inv_def load_state_ok_def split: if_splits)

lemma scan_sections_inv:
  "scan_sections os elf i n symbols S = Some (r, S') \<Longrightarrow> load_inv S \<Longrightarrow> load_inv S'"
proof (induction n arbitrary: i symbols S)
  case (Suc n)
  show ?case
  proof (cases "get_sec elf i")
    case (Inl e)
    then show ?thesis using Suc.IH Suc.prems by simp
  next
    case (Inr x)
    then obtain shname shdr data where x: "get_sec elf i = Inr (shname, shdr, data)" by (cases x) auto
    consider S1 l where "mark_processed i S = Some S1" "memcpy (license S1) data = Some l"
        "scan_sections os elf (Suc i) n symbols (S1\<lparr>license := l\<rparr>) = Some (r, S')"
      | S1 where "mark_processed i S = Some S1" "S' = S1"
      | S1 v where "mark_processed i S = Some S1" "scan_sections os elf (Suc i) n symbols (S1\<lparr>kern_version := v\<rparr>) = Some (r, S')"
      | S1 S2 e where "mark_processed i S = Some S1" "load_maps os data S1 = Some (e, S2)"
          "S' = S2 \<or> scan_sections os elf (Suc i) n symbols S2 = Some (r, S')"
      | y where "scan_sections os elf (Suc i) n y S = Some (r, S')"
      using Suc.prems(1) x by (auto split: if_splits bind_splits)
    then show ?thesis
    proof cases
      case 1
      then have "length l = 128" using mark_processed_inv [OF 1(1) Suc.prems(2)] memcpy_length load_inv_sizes by metis
      then show ?thesis using Suc.IH [OF 1(3)] mark_processed_inv [OF 1(1) Suc.prems(2)] by simp
    next
      case 3
      then show ?thesis using Suc.IH [OF 3(2)] mark_processed_inv [OF 3(1) Suc.prems(2)] by simp
    next
      case 4
      then show ?thesis using Suc.IH load_maps_inv [OF 4(2) mark_processed_inv [OF 4(1) Suc.prems(2)]] by blast
    qed (use Suc mark_processed_inv in blast)+
  qed
qed simp

text \<open>What marking sections and attaching programs preserve, the two loading loops preserve.\<close>

lemma load_relocated_preserves:
  assumes mark: "\<And>i S S'. mark_processed i S = Some S' \<Longrightarrow> P S \<Longrightarrow> P S'"
    and attach: "\<And>ev pr r S S'. load_and_attach os ev pr S = Some (r, S') \<Longrightarrow> P S \<Longrightarrow> P S'"
  shows "load_relocated os i n symbols elf S = Some (elf', S') \<Longrightarrow> P S \<Longrightarrow> P S'"
proof (induction n arbitrary: i elf S)
  case (Suc n)
  have step: "P S'" if "load_relocated os j n symbols e T = Some (elf', S')" "P T" for j e T
    using Suc.IH that by blast
  from Suc.prems(1) show ?case
    apply (simp add: Let_def split: sum.splits if_splits bind_splits prod.splits)
         apply (insert Suc.prems(2))
         apply (blast intro: step mark attach)+
    done
qed simp

lemma load_remaining_preserves:
  assumes attach: "\<And>ev pr r S S'. load_and_attach os ev pr S = Some (r, S') \<Longrightarrow> P S \<Longrightarrow> P S'"
  shows "load_remaining os i n elf S = Some S' \<Longrightarrow> P S \<Longrightarrow> P S'"
proof (induction n arbitrary: i S)
  case (Suc n)
  have step: "P S'" if "load_remaining os j n elf T = Some S'" "P T" for j T
    using Suc.IH that by blast
  from Suc.prems(1) show ?case
    apply (simp split: sum.splits if_splits bind_splits prod.splits)
       apply (insert Suc.prems(2))
       apply (blast intro: step attach)+
    done
qed simp

text \<open>Whatever the file holds, a load that returns keeps the invariant; when it returns is the subject of \<open>Bpf_File\<close>.\<close>

lemma load_bpf_file_inv:
  assumes "load_bpf_file os path elf S = Some (r, S')" and "load_inv S"
  shows "load_inv S'"
proof -
  have "load_inv T" if "load_relocated os i n y e U = Some (e', T)" "load_inv U" for i n y e e' T and U :: "'a load_state"
    by (rule load_relocated_preserves [of load_inv, OF mark_processed_inv load_and_attach_inv that])
  moreover have "load_inv T" if "load_remaining os i n e U = Some T" "load_inv U" for i n e T and U :: "'a load_state"
    by (rule load_remaining_preserves [of _ load_inv, OF load_and_attach_inv that])
  ultimately show ?thesis
    using assms unfolding load_bpf_file_def Let_def
    by (auto split: prod.splits if_splits option.splits bind_splits sum.splits dest!: scan_sections_inv)
qed

section \<open>Properties\<close>

text \<open>
  An operating system in which every call succeeds with the number given, and the
  loader's variables as the program starts.
\<close>

definition os0 :: "int \<Rightarrow> unit os" where
  "os0 r = \<lparr>os_system = (\<lambda>_ w. (0, w)), os_open = (\<lambda>_ w. (7, w)), os_read = (\<lambda>_ n w. (2, [52, 50], w)),
     os_close = (\<lambda>_ w. w), os_bpf = (\<lambda>_ _ w. (r, [], w)), os_perf_event_open = (\<lambda>_ w. (8, w)), os_ioctl = (\<lambda>_ _ _ w. w)\<rparr>"

definition load0 :: "unit load_state" where
  "load0 = \<lparr>license = replicate 128 0, kern_version = 0, processed_sec = replicate 128 False, map_fd = replicate 32 5,
     prog_fd = replicate 32 0, event_fd = replicate 32 0, prog_cnt = 0,
     g_ls = \<lparr>lstack = [], tables = (\<lambda>_. empty_table), ntab = 0, globals = (\<lambda>_. None)\<rparr>, world = ()\<rparr>"

lemma load0_inv: "load_inv load0"
  by (simp add: load_inv_def load_state_ok_def load0_def)

text \<open>A file with one program section, number 1.\<close>

definition elf0 :: "string \<Rightarrow> byte list \<Rightarrow> elf_file" where
  "elf0 name d = \<lparr>e_shnum = 2,
     elf_getscn = (\<lambda>i. if i = 1 then Some \<lparr>scn_hdr = Some \<lparr>sh_size = 8, sh_type = 1, sh_info = 0, sh_entsize = 0\<rparr>,
       scn_name = Some name, scn_data = [d]\<rparr> else None),
     gelf_getrel = (\<lambda>_ _. Some (0, 0)), gelf_getsym = (\<lambda>_ _. Some 64)\<rparr>"

lemma bpf_prog_load_fst: "\<exists>a. fst (bpf_prog_load bpf ty insns n lic v w) = fst (bpf BPF_PROG_LOAD a w)"
  unfolding bpf_prog_load_def Let_def by (rule exI) (simp add: case_prod_beta)

lemma strprefix_hd: "strprefix (c # cs) s \<Longrightarrow> s \<noteq> [] \<and> hd s = c"
  by (cases s) (auto simp: strprefix_def)

text \<open>
  Property C2. When every relocation of a section names a 64-bit immediate load
  inside the program, no two the same one, and a symbol inside the map array,
  \<open>parse_relo_and_apply\<close> returns 0 and has put into each of these instructions
  the descriptor of its map and the pseudo source register, and has changed no
  other byte of the program.
\<close>
theorem parse_relo_and_apply_correct:
  assumes "n = sh_size shdr div sh_entsize shdr" and "sh_entsize shdr \<noteq> 0"
    and "\<forall>i<n. relo_ok elf symbols data mfd insns i" and "inj_on (relo_insn elf data) {0..<n}"
  shows "\<exists>insns'. parse_relo_and_apply elf data (Some symbols) shdr mfd insns = Some (0, insns') \<and>
    length insns' = length insns \<and>
    (\<forall>i<n. relocated (relo_insn elf data i) (mfd ! relo_map elf symbols data i) insns insns') \<and>
    (\<forall>p < length insns. p div 8 \<notin> relo_insn elf data ` {0..<n} \<longrightarrow> insns' ! p = insns ! p)"
  using apply_relos_ok [of 0 n elf symbols data mfd insns] assms by (auto simp: parse_relo_and_apply_def)

theorem parse_relo_and_apply_correct_witness:
  "\<exists>insns'. parse_relo_and_apply (elf0 ''x'' []) [] (Some []) \<lparr>sh_size = 16, sh_type = 9, sh_info = 1, sh_entsize = 16\<rparr>
       [3, 4] [0x18, 2, 0, 0, 9, 9, 9, 9] = Some (0, insns') \<and>
     relocated 0 4 [0x18, 2, 0, 0, 9, 9, 9, 9] insns'"
  using parse_relo_and_apply_correct [where n = 1 and elf = "elf0 ''x'' []" and symbols = "[]" and data = "[]" and mfd = "[3, 4]"
      and shdr = "\<lparr>sh_size = 16, sh_type = 9, sh_info = 1, sh_entsize = 16\<rparr>" and insns = "[0x18, 2, 0, 0, 9, 9, 9, 9]"]
  by (simp add: relo_ok_def relo_insn_def relo_map_def elf0_def) blast

text \<open>
  Property C23. Once the first scan has succeeded, \<open>load_bpf_file\<close> returns 0,
  success, also when the kernel rejects every program and none is loaded.
\<close>
theorem load_bpf_file_ignores_rejections:
  assumes "\<And>a w. fst (os_bpf os BPF_PROG_LOAD a w) < 0"
    and "load_bpf_file os path (Some elf) S = Some (r, S')" and "fst (os_open os path (world S)) \<ge> 0"
    and "scan_sections os elf 1 (e_shnum elf - 1) None (S\<lparr>world := snd (os_system os
        ''echo \"\" > /sys/kernel/debug/tracing/kprobe_events'' (snd (os_open os path (world S))))\<rparr>) = Some (Inr symbols, M)"
  shows "r = 0 \<and> prog_cnt S' = prog_cnt M \<and> prog_fd S' = prog_fd M"
proof -
  let ?P = "\<lambda>T. prog_cnt T = prog_cnt M \<and> prog_fd T = prog_fd M"
  have mark: "?P U" if "mark_processed i T = Some U" "?P T" for i T U
    using that by (auto simp: mark_processed_def split: if_splits)
  have att: "?P U" if "load_and_attach os ev pr T = Some (q, U)" "?P T" for ev pr q T U
    using that(1)
  proof (cases rule: load_and_attach_cases)
    case (2 w w' e fd)
    then have "fd < 0" using assms(1) bpf_prog_load_fst by metis
    with 2(3) show ?thesis by simp
  qed (use that(2) in auto)
  have rel: "?P U" if "load_relocated os i n y e T = Some (e', U)" "?P T" for i n y e e' T U
    by (rule load_relocated_preserves [of ?P, OF mark att that])
  have rem: "?P U" if "load_remaining os i n e T = Some U" "?P T" for i n e T U
    by (rule load_remaining_preserves [of _ ?P, OF att that])
  obtain fd w where o: "os_open os path (world S) = (fd, w)" by fastforce
  have "load_bpf_file os path (Some elf) S = do {
      (elf', U) \<leftarrow> load_relocated os 1 (e_shnum elf - 1) symbols elf M;
      U \<leftarrow> load_remaining os 1 (e_shnum elf - 1) elf' U;
      Some (0, U\<lparr>world := os_close os fd (world U)\<rparr>) }"
    using assms(3,4) o by (simp add: load_bpf_file_def Let_def)
  with assms(2) obtain elf' V U where "load_relocated os 1 (e_shnum elf - 1) symbols elf M = Some (elf', V)"
      "load_remaining os 1 (e_shnum elf - 1) elf' V = Some U" "r = 0" "S' = U\<lparr>world := os_close os fd (world U)\<rparr>"
    by (auto split: bind_splits)
  then show ?thesis using rel rem by simp
qed

theorem load_bpf_file_ignores_rejections_witness:
  "\<exists>S'. load_bpf_file (os0 (- 1)) ''a.o'' (Some (elf0 ''kprobe/f'' [])) load0 = Some (0, S') \<and> prog_cnt S' = 0"
proof -
  have s: "scan_sections (os0 (- 1)) (elf0 ''kprobe/f'' []) 1 (e_shnum (elf0 ''kprobe/f'' []) - 1) None (load0\<lparr>world := ()\<rparr>) =
      Some (Inr None, load0)"
    by (simp add: elf0_def get_sec_def load0_def)
  obtain r S' where "load_bpf_file (os0 (- 1)) ''a.o'' (Some (elf0 ''kprobe/f'' [])) load0 = Some (r, S')"
    by (simp add: load_bpf_file_def elf0_def os0_def load0_def get_sec_def is_prog_section_def strprefix_def
        load_and_attach_def attach_event_def bpf_prog_load_def Let_def)
  then show ?thesis
    using load_bpf_file_ignores_rejections [where os = "os0 (- 1)" and path = "''a.o''" and elf = "elf0 ''kprobe/f'' []"
        and S = load0 and M = load0 and symbols = None and r = r and S' = S'] s
    by (simp add: os0_def) (simp add: load0_def)
qed

text \<open>
  With 32 programs loaded already, loading another one that the
  kernel accepts writes past the end of \<^verbatim>\<open>prog_fd\<close>: there is no check.
\<close>
theorem load_and_attach_overflows:
  assumes "load_inv S" and "prog_cnt S = MAX_PROGS" and "strprefix ''socket'' event"
    and "\<And>a w. fst (os_bpf os BPF_PROG_LOAD a w) \<ge> 0"
  shows "load_and_attach os event prog S = None"
proof -
  have k: "\<not> strprefix ''kprobe/'' event" "\<not> strprefix ''kretprobe/'' event"
    using strprefix_hd [OF assms(3)] strprefix_hd [of "CHR ''k''" _ event] by auto
  obtain fd out w where ld: "bpf_prog_load (os_bpf os) BPF_PROG_TYPE_SOCKET_FILTER prog (int (length prog)) (license S) (kern_version S) (world S) = (fd, out, w)"
    using prod_cases3 by blast
  then have "0 \<le> fd" using assms(4) bpf_prog_load_fst by (metis fst_conv)
  then show ?thesis
    using ld assms(2,3) k load_inv_sizes [OF assms(1)] by (simp add: load_and_attach_def Let_def)
qed

theorem load_and_attach_overflows_witness:
  "load_and_attach (os0 6) ''socket1'' [] (load0\<lparr>prog_cnt := 32\<rparr>) = None"
  using load_and_attach_overflows [of "load0\<lparr>prog_cnt := 32\<rparr>" "''socket1''" "os0 6" "[]"]
  by (simp add: load_inv_def load_state_ok_def load0_def strprefix_def os0_def)

text \<open>
  A read of the trace pipe that fills the buffer of \<^verbatim>\<open>read_trace_pipe\<close>
  makes it store the terminating zero one byte past the buffer; any shorter read is printed.
\<close>
theorem trace_pipe_terminator:
  assumes "length buf = 4096" and "os_read os fd 4096 w = (sz, out, w')" and "0 < sz" and "sz = int (length out)" and "sz \<le> 4096"
  shows "(sz = 4096 \<longrightarrow> trace_pipe_round os fd buf w = None) \<and>
    (sz < 4096 \<longrightarrow> (\<exists>buf'. trace_pipe_round os fd buf w = Some (Some (c_string (out @ [0])), buf', w') \<and> length buf' = 4096))"
proof -
  have "c_string ((out @ drop (length out) buf)[length out := 0]) = c_string (out @ [0])" if "length out < 4096"
  proof -
    obtain x xs where "drop (length out) buf = x # xs" using \<open>length out < 4096\<close> assms(1) by (cases "drop (length out) buf") auto
    then have "(out @ drop (length out) buf)[length out := 0] = out @ 0 # xs" by (simp add: list_update_append)
    moreover have "c_string (out @ 0 # ys) = c_string (out @ [0])" for ys unfolding c_string_def by (induction out) auto
    ultimately show ?thesis by metis
  qed
  then show ?thesis using assms by (auto simp: trace_pipe_round_def memcpy_def)
qed

theorem trace_pipe_terminator_witness:
  "\<exists>buf'. trace_pipe_round (os0 0) 3 (replicate 4096 9) () = Some (Some [52, 50], buf', ())"
proof -
  define b where "b = replicate 4096 (9 :: byte)"
  have c: "c_string ([52, 50] @ [0]) = [52, 50]" by (simp add: c_string_def)
  have l: "length b = 4096" unfolding b_def by (rule length_replicate)
  have r: "os_read (os0 0) 3 4096 () = (2, [52, 50], ())" by (simp add: os0_def)
  have "(2 :: int) < 4096" "(0 :: int) < 2" "(2 :: int) = int (length [52, 50 :: byte])" "(2 :: int) \<le> 4096" by simp_all
  from trace_pipe_terminator [OF l r this(2-4)] this(1) show ?thesis unfolding b_def c by blast
qed

end
