(* ===== verification/Bpf_File.thy ===== *)
theory Bpf_File
  imports Bpf_Load
begin

text \<open>
  What \<^verbatim>\<open>load_bpf_file\<close> of \<^verbatim>\<open>bpf/libbpf/bpf_load.c\<close> does with a file that fits its fixed-size arrays: it
  returns, records each program the kernel accepts and keeps the loader's state. The first part
  says what it is to fit, in terms of the file alone; the others follow the three loops.
\<close>

section \<open>Files that fit\<close>
















section \<open>Attaching a program\<close>





section \<open>The first scan\<close>









section \<open>The loop over the relocation sections\<close>

text \<open>Instructions that agree in their number and operation codes; relocating keeps both.\<close>

definition same_code :: "byte list \<Rightarrow> byte list \<Rightarrow> bool" where
  "same_code d d' \<longleftrightarrow> length d' = length d \<and> (\<forall>p. 8 * p + 8 \<le> length d \<longrightarrow> d' ! (8 * p) = d ! (8 * p))"

lemma same_code_refl [simp]: "same_code d d"
  by (simp add: same_code_def)
















section \<open>The loop over the remaining programs\<close>



section \<open>Loading a file\<close>













end
