(* ===== verification/Lj_Obj.thy ===== *)
theory Lj_Obj
  imports Shark_Prelude
begin

text \<open>
  Tagged values of the Lua runtime, \<^verbatim>\<open>core/luajit/src/lj_obj.h\<close> and \<^verbatim>\<open>lj_obj.c\<close>: the
  union \<^verbatim>\<open>TValue\<close> as a datatype, numbers as the bit patterns of IEEE doubles, the
  conversions between doubles and 32 bit integers, and the equality of objects. On
  the targets without dual numbers every Lua number is a double.
\<close>

section \<open>The code\<close>

text \<open>
  A string, another garbage-collected object (with its type tag) and light user data
  carry the bits of their reference, a number those of the double.
\<close>

datatype tvalue =
    TNil
  | TBool bool
  | TLightud uint64
  | TStr uint32
  | TGC uint32 uint32
  | TNum uint64

fun tvisnil :: "tvalue \<Rightarrow> bool" where
  "tvisnil TNil = True"
| "tvisnil _ = False"

fun tvisstr :: "tvalue \<Rightarrow> bool" where
  "tvisstr (TStr _) = True"
| "tvisstr _ = False"

fun tvisnum :: "tvalue \<Rightarrow> bool" where
  "tvisnum (TNum _) = True"
| "tvisnum _ = False"

text \<open>\<^verbatim>\<open>n != n\<close> and \<^verbatim>\<open>a == b\<close> on doubles: a NaN equals nothing, and both zeros are equal.\<close>

definition num_isnan :: "uint64 \<Rightarrow> bool" where
  "num_isnan n \<longleftrightarrow> n AND 0x7FFFFFFFFFFFFFFF > 0x7FF0000000000000"

definition num_eq :: "uint64 \<Rightarrow> uint64 \<Rightarrow> bool" where
  "num_eq a b \<longleftrightarrow> \<not> num_isnan a \<and> \<not> num_isnan b \<and> (a = b \<or> (a OR b) AND 0x7FFFFFFFFFFFFFFF = 0)"

definition tvisnan :: "uint64 \<Rightarrow> bool" where
  "tvisnan n \<longleftrightarrow> \<not> num_eq n n"

definition tvismzero :: "uint64 \<Rightarrow> bool" where
  "tvismzero n \<longleftrightarrow> n = 0x8000000000000000"

text \<open>The index of the highest bit set.\<close>

fun lj_fls :: "nat \<Rightarrow> nat" where
  "lj_fls x = (if x < 2 then 0 else Suc (lj_fls (x div 2)))"

declare lj_fls.simps [simp del]

text \<open>Rotation to the left.\<close>

definition lj_rol :: "uint32 \<Rightarrow> nat \<Rightarrow> uint32" where
  "lj_rol x n = push_bit n x OR drop_bit (32 - n) x"

text \<open>The conversion of an \<^verbatim>\<open>int32_t\<close> to a double, which is exact: sign, exponent and fraction.\<close>

definition num_of_int :: "int \<Rightarrow> uint64" where
  "num_of_int k =
     (if k = 0 then 0
      else let a = nat \<bar>k\<bar>; e = lj_fls a
           in of_nat ((if k < 0 then 2 ^ 63 else 0) + (e + 1023) * 2 ^ 52 + (a - 2 ^ e) * 2 ^ (52 - e)))"

text \<open>
  The conversion \<^verbatim>\<open>(int32_t)n\<close> truncates; outside the range of \<^verbatim>\<open>int32_t\<close> the result is not
  defined, the processor gives the least value.
\<close>

definition num_trunc :: "uint64 \<Rightarrow> int" where
  "num_trunc n =
     (let e = unat n div 2 ^ 52 mod 2 ^ 11; f = unat n mod 2 ^ 52;
          m = (if e = 0 then f else f + 2 ^ 52);
          a = (if e \<ge> 1075 then m * 2 ^ (e - 1075) else m div 2 ^ (1075 - max e 1))
      in if bit n 63 then - int a else int a)"

definition lj_num2int :: "uint64 \<Rightarrow> int" where
  "lj_num2int n =
     (if - (2 ^ 31) \<le> num_trunc n \<and> num_trunc n < 2 ^ 31 then num_trunc n else - (2 ^ 31))"

definition lj_obj_equal :: "tvalue \<Rightarrow> tvalue \<Rightarrow> bool" where
  "lj_obj_equal o1 o2 =
     (case (o1, o2) of (TNum a, TNum b) \<Rightarrow> num_eq a b | (TNum _, _) \<Rightarrow> False | (_, TNum _) \<Rightarrow> False | _ \<Rightarrow> o1 = o2)"

section \<open>Integers as doubles\<close>

lemma lj_fls_bounds: "0 < x \<Longrightarrow> 2 ^ lj_fls x \<le> x \<and> x < 2 ^ Suc (lj_fls x)"
proof (induction x rule: lj_fls.induct)
  case (1 x)
  show ?case
  proof (cases "x < 2")
    case True
    then show ?thesis using 1(2) by (simp add: lj_fls.simps)
  next
    case False
    then have "2 ^ lj_fls (x div 2) \<le> x div 2 \<and> x div 2 < 2 ^ Suc (lj_fls (x div 2))" using 1(1) by simp
    then have "2 * 2 ^ lj_fls (x div 2) \<le> x" "x < 2 * 2 ^ Suc (lj_fls (x div 2))" by linarith+
    then show ?thesis using False by (simp add: lj_fls.simps [of x])
  qed
qed

lemma lj_fls_less: "0 < x \<Longrightarrow> x < 2 ^ n \<Longrightarrow> lj_fls x < n"
  using lj_fls_bounds [of x] by (metis le_less_trans nat_power_less_imp_less zero_less_numeral)

text \<open>The integer a number is exactly, if there is one.\<close>

definition num_int :: "uint64 \<Rightarrow> int option" where
  "num_int n = (if num_eq n (num_of_int (lj_num2int n)) then Some (lj_num2int n) else None)"

lemma lj_num2int_range: "- (2 ^ 31) \<le> lj_num2int n \<and> lj_num2int n < 2 ^ 31"
  by (simp add: lj_num2int_def)

lemma num_int_range: "num_int n = Some k \<Longrightarrow> - (2 ^ 31) \<le> k \<and> k < 2 ^ 31"
  using lj_num2int_range [of n] by (auto simp: num_int_def split: if_splits)

text \<open>The fields of the double of a non-zero integer.\<close>

lemma num_of_int_fields:
  assumes k: "k \<noteq> 0" "\<bar>k\<bar> \<le> 2 ^ 31"
  defines "a \<equiv> nat \<bar>k\<bar>"
  defines "e \<equiv> lj_fls a"
  shows "unat (num_of_int k) div 2 ^ 52 mod 2 ^ 11 = e + 1023" and "unat (num_of_int k) mod 2 ^ 52 = (a - 2 ^ e) * 2 ^ (52 - e)"
    and "unat (num_of_int k) div 2 ^ 63 = (if k < 0 then 1 else 0)" and "e < 32"
    and "2 ^ e \<le> a"
proof -
  have "0 < a" "a < 2 ^ 32" using k by (auto simp: a_def nat_less_iff)
  then have b: "2 ^ e \<le> a" "a < 2 ^ Suc e" "e < 32" using lj_fls_bounds [of a] lj_fls_less [of a 32] by (auto simp: e_def)
  have "(a - 2 ^ e) * 2 ^ (52 - e) < 2 ^ e * 2 ^ (52 - e)" using b by (intro mult_strict_right_mono) auto
  then have f: "(a - 2 ^ e) * 2 ^ (52 - e) < 2 ^ 52" using b(3) by (simp add: power_add [symmetric])
  let ?s = "if k < 0 then 1 else 0 :: nat" let ?f = "(a - 2 ^ e) * 2 ^ (52 - e)"
  have n: "num_of_int k = of_nat (?s * 2 ^ 63 + (e + 1023) * 2 ^ 52 + ?f)"
    using k(1) by (simp add: num_of_int_def a_def e_def Let_def)
  have low: "(e + 1023) * 2 ^ 52 + ?f < 2 ^ 63" using b(3) f by simp
  then have u: "unat (num_of_int k) = ?s * 2 ^ 63 + ((e + 1023) * 2 ^ 52 + ?f)"
    unfolding n by (subst unat_of_nat_small) auto
  have "?s * 2 ^ 63 + ((e + 1023) * 2 ^ 52 + ?f) = ?f + (?s * 2 ^ 11 + (e + 1023)) * 2 ^ 52" by simp
  with u have "unat (num_of_int k) = ?f + (?s * 2 ^ 11 + (e + 1023)) * 2 ^ 52" by simp
  then have d: "unat (num_of_int k) div 2 ^ 52 = ?s * 2 ^ 11 + (e + 1023)" "unat (num_of_int k) mod 2 ^ 52 = ?f"
    using f by (simp_all only: div_mult_self1 mod_mult_self1 div_less mod_less)
  show "unat (num_of_int k) div 2 ^ 52 mod 2 ^ 11 = e + 1023" using d(1) b(3) by simp
  show "unat (num_of_int k) mod 2 ^ 52 = ?f" by (rule d(2))
  show "unat (num_of_int k) div 2 ^ 63 = ?s" using u low by simp
  show "e < 32" "2 ^ e \<le> a" using b by simp_all
qed

lemma bit_63_unat: "bit n 63 \<longleftrightarrow> unat n div 2 ^ 63 = 1" for n :: uint64
proof -
  have "unat n div 2 ^ 63 < 2" using unat_uint64_less [of n] by simp
  moreover have "bit n 63 \<longleftrightarrow> bit (unat n) 63" by (simp add: bit_unsigned_iff possible_bit_def)
  then have "bit n 63 \<longleftrightarrow> odd (unat n div 2 ^ 63)" by (simp only: bit_iff_odd)
  ultimately show ?thesis by (cases "unat n div 2 ^ 63") auto
qed

lemma unat_and_63: "unat (n AND 0x7FFFFFFFFFFFFFFF) = unat n mod 2 ^ 63" for n :: uint64
proof -
  have "n AND 0x7FFFFFFFFFFFFFFF = take_bit 63 n" by (simp add: take_bit_eq_mask mask_eq_exp_minus_1)
  then have "unat (n AND 0x7FFFFFFFFFFFFFFF) = take_bit 63 (unat n)" by (simp only: unsigned_take_bit_eq)
  then show ?thesis by (simp only: take_bit_eq_mod)
qed

lemma num_of_int_not_nan: "\<bar>k\<bar> \<le> 2 ^ 31 \<Longrightarrow> \<not> num_isnan (num_of_int k)"
proof (cases "k = 0")
  case False
  assume "\<bar>k\<bar> \<le> 2 ^ 31"
  note f = num_of_int_fields [OF False this]
  let ?u = "unat (num_of_int k)"
  have "?u mod 2 ^ 63 = ?u div 2 ^ 52 mod 2 ^ 11 * 2 ^ 52 + ?u mod 2 ^ 52"
    using mod_mult2_eq [of ?u "2 ^ 52" "2 ^ 11"] by simp
  moreover have "?u mod 2 ^ 52 < 2 ^ 52" by (rule mod_less_divisor) simp
  moreover have "x < 2047 * 2 ^ 52" if "x = (e + 1023) * 2 ^ 52 + y" "y < 2 ^ 52" "e < 32" for x y e :: nat
    using that by simp
  ultimately have "?u mod 2 ^ 63 < 2047 * 2 ^ 52" unfolding f(1) using f(4) by blast
  then show ?thesis by (simp add: num_isnan_def word_less_nat_alt unat_and_63)
qed (simp add: num_isnan_def num_of_int_def)

text \<open>The conversion to a double is exact.\<close>

lemma lj_num2int_of_int: "- (2 ^ 31) \<le> k \<Longrightarrow> k < 2 ^ 31 \<Longrightarrow> lj_num2int (num_of_int k) = k"
proof (cases "k = 0")
  case False
  assume k: "- (2 ^ 31) \<le> k" "k < 2 ^ 31"
  then have "\<bar>k\<bar> \<le> 2 ^ 31" by simp
  note f = num_of_int_fields [OF False this]
  let ?a = "nat \<bar>k\<bar>" let ?e = "lj_fls ?a"
  have "2 ^ ?e * 2 ^ (52 - ?e) = (2 ^ 52 :: nat)" using f(4) by (simp add: power_add [symmetric])
  then have "(?a - 2 ^ ?e) * 2 ^ (52 - ?e) + 2 ^ 52 = ?a * 2 ^ (52 - ?e)"
    using mult_le_mono1 [OF f(5), of "2 ^ (52 - ?e)"] by (simp only: diff_mult_distrib) linarith
  moreover have "1075 - max (?e + 1023) 1 = 52 - ?e" "(1075 \<le> ?e + 1023) = False" "(?e + 1023 = 0) = False" using f(4) by auto
  ultimately have "num_trunc (num_of_int k) = (if (if k < 0 then 1 else 0 :: nat) = 1 then - int ?a else int ?a)"
    unfolding num_trunc_def Let_def f(1,2) bit_63_unat f(3)
    by (simp only: if_False nonzero_mult_div_cancel_right power_not_zero zero_neq_numeral [symmetric] not_False_eq_True)
  then have "num_trunc (num_of_int k) = k" by (cases "k < 0") simp_all
  then show ?thesis using k by (simp add: lj_num2int_def)
qed (simp add: lj_num2int_def num_of_int_def num_trunc_def)

lemma num_int_of_int: "- (2 ^ 31) \<le> k \<Longrightarrow> k < 2 ^ 31 \<Longrightarrow> num_int (num_of_int k) = Some k"
  using num_of_int_not_nan [of k] by (simp add: num_int_def lj_num2int_of_int num_eq_def)

section \<open>Keys\<close>

text \<open>Keys that are neither nil nor NaN, and keys with the zero of a table key.\<close>

definition proper_key :: "tvalue \<Rightarrow> bool" where
  "proper_key k \<longleftrightarrow> (case k of TNil \<Rightarrow> False | TNum n \<Rightarrow> \<not> tvisnan n | _ \<Rightarrow> True)"

definition canon :: "tvalue \<Rightarrow> tvalue" where
  "canon k = (case k of TNum n \<Rightarrow> TNum (if tvismzero n then 0 else n) | _ \<Rightarrow> k)"

definition int_key :: "tvalue \<Rightarrow> int option" where
  "int_key k = (case k of TNum n \<Rightarrow> num_int n | _ \<Rightarrow> None)"

lemma tvisnan_isnan: "tvisnan n \<longleftrightarrow> num_isnan n"
  by (simp add: tvisnan_def num_eq_def)

lemma and_63_zero: "n AND 0x7FFFFFFFFFFFFFFF = 0 \<longleftrightarrow> n = 0 \<or> n = 0x8000000000000000" for n :: uint64
proof -
  have "n AND 0x7FFFFFFFFFFFFFFF = 0 \<longleftrightarrow> unat n mod 2 ^ 63 = 0"
    using unat_and_63 [of n] by (metis unsigned_0 unsigned_eq_0_iff)
  also have "\<dots> \<longleftrightarrow> unat n = 0 \<or> unat n = 2 ^ 63"
    using unat_uint64_less [of n] by (auto simp: dvd_def)
  also have "\<dots> \<longleftrightarrow> n = 0 \<or> n = 0x8000000000000000" by (simp add: word_unat_eq_iff)
  finally show ?thesis .
qed

lemma num_eq_canon:
  "\<not> num_isnan a \<Longrightarrow> \<not> num_isnan b \<Longrightarrow> num_eq a b \<longleftrightarrow> (if tvismzero a then 0 else a) = (if tvismzero b then 0 else b)"
proof -
  assume n: "\<not> num_isnan a" "\<not> num_isnan b"
  have "(a OR b) AND 0x7FFFFFFFFFFFFFFF = 0 \<longleftrightarrow> a AND 0x7FFFFFFFFFFFFFFF = 0 \<and> b AND 0x7FFFFFFFFFFFFFFF = 0"
    by (simp add: bit.conj_disj_distrib2 or_eq_0_iff)
  then show ?thesis using n by (auto simp: num_eq_def tvismzero_def and_63_zero)
qed

lemma lj_obj_equal_canon:
  assumes "proper_key b"
  shows "lj_obj_equal a b \<longleftrightarrow> proper_key a \<and> canon a = canon b"
proof (cases a; cases b)
  fix m n assume "a = TNum m" "b = TNum n"
  then show ?thesis
    using assms num_eq_canon [of m n] by (auto simp: lj_obj_equal_def proper_key_def canon_def tvisnan_isnan num_eq_def)
qed (use assms in \<open>auto simp: lj_obj_equal_def proper_key_def canon_def\<close>)

lemma canon_simps [simp]: "canon (canon k) = canon k" "proper_key (canon k) = proper_key k" "int_key (canon k) = int_key k"
proof -
  have z: "\<not> num_isnan 0" "\<not> num_isnan 0x8000000000000000" by (simp_all add: num_isnan_def)
  have "num_trunc 0 = 0" "num_trunc 0x8000000000000000 = 0" by (simp_all add: num_trunc_def)
  then have "num_int 0 = Some 0" "num_int 0x8000000000000000 = Some 0"
    using z by (simp_all add: num_int_def lj_num2int_def num_of_int_def num_eq_def)
  then show "canon (canon k) = canon k" "proper_key (canon k) = proper_key k" "int_key (canon k) = int_key k"
    using z by (auto simp: canon_def proper_key_def int_key_def tvismzero_def tvisnan_isnan split: tvalue.splits)
qed

text \<open>The key of an integer.\<close>

definition key_of_int :: "int \<Rightarrow> tvalue" where
  "key_of_int i = TNum (num_of_int i)"

lemma num_of_int_not_mzero: "\<bar>k\<bar> \<le> 2 ^ 31 \<Longrightarrow> \<not> tvismzero (num_of_int k)"
proof (cases "k = 0")
  case False
  assume "\<bar>k\<bar> \<le> 2 ^ 31"
  then have "unat (num_of_int k) div 2 ^ 52 mod 2 ^ 11 = lj_fls (nat \<bar>k\<bar>) + 1023"
    using num_of_int_fields(1) [OF False] by simp
  then show ?thesis by (auto simp: tvismzero_def)
qed (simp add: num_of_int_def tvismzero_def)

lemma key_of_int_props:
  assumes "- (2 ^ 31) \<le> i" and "i < 2 ^ 31"
  shows "int_key (key_of_int i) = Some i" and "canon (key_of_int i) = key_of_int i" and "proper_key (key_of_int i)"
    and "key_of_int i \<noteq> TNil"
proof -
  have "\<bar>i\<bar> \<le> 2 ^ 31" using assms by simp
  then show "int_key (key_of_int i) = Some i" "canon (key_of_int i) = key_of_int i" "proper_key (key_of_int i)" "key_of_int i \<noteq> TNil"
    using num_int_of_int [OF assms] num_of_int_not_mzero [of i] num_of_int_not_nan [of i]
    by (simp_all add: int_key_def key_of_int_def canon_def proper_key_def tvisnan_isnan)
qed

lemma int_key_canon: "int_key k = Some i \<Longrightarrow> canon k = key_of_int i"
proof -
  assume k: "int_key k = Some i"
  then obtain n where n: "k = TNum n" "num_int n = Some i" by (auto simp: int_key_def split: tvalue.splits)
  then have e: "num_eq n (num_of_int i)" by (auto simp: num_int_def split: if_splits)
  have "\<bar>i\<bar> \<le> 2 ^ 31" using num_int_range [OF n(2)] by auto
  then show ?thesis
    using e n(1) num_eq_canon [of n "num_of_int i"] num_of_int_not_mzero [of i] num_of_int_not_nan [of i]
    by (auto simp: canon_def key_of_int_def num_eq_def)
qed

lemma int_key_range: "int_key k = Some i \<Longrightarrow> - (2 ^ 31) \<le> i \<and> i < 2 ^ 31"
  using num_int_range by (auto simp: int_key_def split: tvalue.splits)

end
