(* ===== verification/Lj_Tab.thy ===== *)
theory Lj_Tab
  imports Lj_Obj "HOL-Library.Monad_Syntax"
begin

text \<open>
  Lua tables, \<^verbatim>\<open>core/luajit/src/lj_tab.c\<close> and \<^verbatim>\<open>lj_tab.h\<close>: an array part, and a hash part
  whose nodes are chained with Brent's variation of open hashing. Nodes are known by
  their index in the hash part; the hash part of a table without one is the shared
  empty node, which is never written. The hash of a string is a field of the string,
  read by the argument \<open>sh\<close>. Where the array part is stored, memory and the garbage
  collector are left out.
\<close>

section \<open>The code\<close>

record lnode =
  nval :: tvalue
  nkey :: tvalue
  nnext :: "nat option"

text \<open>The size of the array part is the length of \<open>array\<close>, \<^verbatim>\<open>hmask\<close> is one less than the number of nodes.\<close>

record ltab =
  nomm :: uint8
  array :: "tvalue list"
  node :: "lnode list"
  freetop :: nat

definition hmask :: "ltab \<Rightarrow> nat" where
  "hmask t = length (node t) - 1"

definition empty_node :: lnode where
  "empty_node = \<lparr>nval = TNil, nkey = TNil, nnext = None\<rparr>"

datatype lj_err = LJ_ERR_TABOV | LJ_ERR_NANIDX | LJ_ERR_NILIDX | LJ_ERR_NEXTIDX

abbreviation LJ_MAX_HBITS :: nat where "LJ_MAX_HBITS \<equiv> 26"
abbreviation LJ_MAX_ABITS :: nat where "LJ_MAX_ABITS \<equiv> 28"
abbreviation LJ_MAX_ASIZE :: nat where "LJ_MAX_ASIZE \<equiv> 2 ^ 27 + 1"

text \<open>Results: an error that is thrown, or a value; \<open>None\<close> is a crash or no result.\<close>

type_synonym 'a res = "(lj_err + 'a) option"

definition bind_res :: "'a res \<Rightarrow> ('a \<Rightarrow> 'b res) \<Rightarrow> 'b res" where
  "bind_res r f = (case r of None \<Rightarrow> None | Some (Inl e) \<Rightarrow> Some (Inl e) | Some (Inr x) \<Rightarrow> f x)"

text \<open>The address of a value in a table.\<close>

datatype tab_slot = Arr nat | Hsh nat

definition upd_node :: "nat \<Rightarrow> (lnode \<Rightarrow> lnode) \<Rightarrow> lnode list \<Rightarrow> lnode list" where
  "upd_node i f ns = ns[i := f (ns ! i)]"

fun set_slot :: "tab_slot \<Rightarrow> tvalue \<Rightarrow> ltab \<Rightarrow> ltab" where
  "set_slot (Arr i) v t = t\<lparr>array := (array t)[i := v]\<rparr>"
| "set_slot (Hsh i) v t = t\<lparr>node := upd_node i (\<lambda>x. x\<lparr>nval := v\<rparr>) (node t)\<rparr>"

subsection \<open>Object hashing\<close>

abbreviation HASH_BIAS :: uint32 where "HASH_BIAS \<equiv> - 0x04c11db7"

definition hashrot :: "uint32 \<Rightarrow> uint32 \<Rightarrow> uint32" where
  "hashrot lo hi =
     (let lo = lo XOR hi; hi = lj_rol hi 14;
          lo = lo - hi; hi = lj_rol hi 5;
          hi = hi XOR lo; hi = hi - lj_rol lo 13
      in hi)"

definition hashmask :: "nat \<Rightarrow> uint32 \<Rightarrow> nat" where
  "hashmask hm h = unat (h AND of_nat hm)"

definition hashnum :: "nat \<Rightarrow> uint64 \<Rightarrow> nat" where
  "hashnum hm n = hashmask hm (hashrot (ucast n) (push_bit 1 (ucast (drop_bit 32 n))))"

definition hashgcref :: "nat \<Rightarrow> uint32 \<Rightarrow> nat" where
  "hashgcref hm r = hashmask hm (hashrot r (r + HASH_BIAS))"

text \<open>Nil is never hashed.\<close>

definition hashkey :: "(uint32 \<Rightarrow> uint32) \<Rightarrow> nat \<Rightarrow> tvalue \<Rightarrow> nat" where
  "hashkey sh hm key =
     (case key of
        TStr s \<Rightarrow> hashmask hm (sh s)
      | TNum n \<Rightarrow> hashnum hm n
      | TBool b \<Rightarrow> hashmask hm (if b then 1 else 0)
      | TLightud p \<Rightarrow> hashgcref hm (ucast p)
      | TGC _ r \<Rightarrow> hashgcref hm r
      | TNil \<Rightarrow> 0)"

subsection \<open>Creation\<close>

text \<open>New nodes and array slots are uninitialised until they are cleared or copied to; the model has them empty.\<close>

definition newhpart :: "ltab \<Rightarrow> nat \<Rightarrow> ltab res" where
  "newhpart t hbits =
     (if hbits = 0 then None
      else if hbits > LJ_MAX_HBITS then Some (Inl LJ_ERR_TABOV)
      else Some (Inr (t\<lparr>node := replicate (2 ^ hbits) empty_node, freetop := 2 ^ hbits\<rparr>)))"

definition clearhpart :: "ltab \<Rightarrow> ltab" where
  "clearhpart t = t\<lparr>node := map (\<lambda>n. n\<lparr>nnext := None, nkey := TNil, nval := TNil\<rparr>) (node t)\<rparr>"

definition clearapart :: "ltab \<Rightarrow> ltab" where
  "clearapart t = t\<lparr>array := map (\<lambda>_. TNil) (array t)\<rparr>"

text \<open>\<open>nilnode\<close> is the hash part of a table without one.\<close>

definition no_hpart :: "ltab \<Rightarrow> ltab" where
  "no_hpart t = t\<lparr>node := [empty_node], freetop := 0\<rparr>"

definition newtab :: "nat \<Rightarrow> nat \<Rightarrow> ltab res" where
  "newtab asize hbits =
     (if asize > LJ_MAX_ASIZE then Some (Inl LJ_ERR_TABOV)
      else
        let t = \<lparr>nomm = - 1, array = replicate asize TNil, node = [empty_node], freetop = 0\<rparr>
        in if hbits \<noteq> 0 then newhpart t hbits else Some (Inr t))"

definition lj_tab_new :: "nat \<Rightarrow> nat \<Rightarrow> ltab res" where
  "lj_tab_new asize hbits =
     bind_res (newtab asize hbits) (\<lambda>t.
       let t = clearapart t
       in Some (Inr (if hmask t > 0 then clearhpart t else t)))"

definition lj_tab_new1 :: "uint32 \<Rightarrow> ltab res" where
  "lj_tab_new1 ahsize =
     bind_res (newtab (unat (ahsize AND 0xffffff)) (unat (drop_bit 24 ahsize))) (\<lambda>t.
       let t = clearapart t
       in Some (Inr (if hmask t > 0 then clearhpart t else t)))"

definition lj_tab_dup :: "ltab \<Rightarrow> ltab res" where
  "lj_tab_dup kt =
     bind_res (newtab (length (array kt)) (if hmask kt > 0 then lj_fls (hmask kt) + 1 else 0)) (\<lambda>t.
       if \<not> (length (array kt) = length (array t) \<and> hmask kt = hmask t) then None
       else
         let t = t\<lparr>nomm := 0\<rparr>;
             t = t\<lparr>array := array kt\<rparr>
         in Some (Inr (if hmask kt > 0 then t\<lparr>node := node kt, freetop := freetop kt\<rparr> else t)))"

subsection \<open>Getters\<close>

text \<open>The loop over a chain, \<^verbatim>\<open>do { if (...) return &n->val; } while ((n = nextnode(n)))\<close>.\<close>

partial_function (option) find_node :: "(tvalue \<Rightarrow> bool) \<Rightarrow> lnode list \<Rightarrow> nat \<Rightarrow> nat option option" where
  "find_node P ns n =
     (if P (nkey (ns ! n)) then Some (Some n)
      else case nnext (ns ! n) of None \<Rightarrow> Some None | Some m \<Rightarrow> find_node P ns m)"

definition is_num :: "uint64 \<Rightarrow> tvalue \<Rightarrow> bool" where
  "is_num k x = (case x of TNum n \<Rightarrow> num_eq n k | _ \<Rightarrow> False)"

definition is_str :: "uint32 \<Rightarrow> tvalue \<Rightarrow> bool" where
  "is_str s x = (case x of TStr r \<Rightarrow> r = s | _ \<Rightarrow> False)"

definition find_int :: "ltab \<Rightarrow> int \<Rightarrow> nat option option" where
  "find_int t k = find_node (is_num (num_of_int k)) (node t) (hashnum (hmask t) (num_of_int k))"

definition find_str :: "(uint32 \<Rightarrow> uint32) \<Rightarrow> ltab \<Rightarrow> uint32 \<Rightarrow> nat option option" where
  "find_str sh t s = find_node (is_str s) (node t) (hashmask (hmask t) (sh s))"

definition find_key :: "(uint32 \<Rightarrow> uint32) \<Rightarrow> ltab \<Rightarrow> tvalue \<Rightarrow> nat option option" where
  "find_key sh t key = find_node (\<lambda>x. lj_obj_equal x key) (node t) (hashkey sh (hmask t) key)"

definition lj_tab_getinth :: "ltab \<Rightarrow> int \<Rightarrow> tvalue option option" where
  "lj_tab_getinth t key = map_option (map_option (\<lambda>n. nval (node t ! n))) (find_int t key)"

definition lj_tab_getstr :: "(uint32 \<Rightarrow> uint32) \<Rightarrow> ltab \<Rightarrow> uint32 \<Rightarrow> tvalue option option" where
  "lj_tab_getstr sh t key = map_option (map_option (\<lambda>n. nval (node t ! n))) (find_str sh t key)"

definition inarray :: "ltab \<Rightarrow> int \<Rightarrow> bool" where
  "inarray t key \<longleftrightarrow> nat (key mod 2 ^ 32) < length (array t)"

definition lj_tab_getint :: "ltab \<Rightarrow> int \<Rightarrow> tvalue option option" where
  "lj_tab_getint t key =
     (if inarray t key then Some (Some (array t ! nat (key mod 2 ^ 32))) else lj_tab_getinth t key)"

definition or_nil :: "tvalue option \<Rightarrow> tvalue" where
  "or_nil tv = (case tv of None \<Rightarrow> TNil | Some v \<Rightarrow> v)"

definition gen_get :: "(uint32 \<Rightarrow> uint32) \<Rightarrow> ltab \<Rightarrow> tvalue \<Rightarrow> tvalue option" where
  "gen_get sh t key = map_option (\<lambda>r. or_nil (map_option (\<lambda>n. nval (node t ! n)) r)) (find_key sh t key)"

definition lj_tab_get :: "(uint32 \<Rightarrow> uint32) \<Rightarrow> ltab \<Rightarrow> tvalue \<Rightarrow> tvalue option" where
  "lj_tab_get sh t key =
     (case key of
        TStr s \<Rightarrow> map_option or_nil (lj_tab_getstr sh t s)
      | TNum nk \<Rightarrow>
          let k = lj_num2int nk
          in if num_eq nk (num_of_int k) then map_option or_nil (lj_tab_getint t k)
             else gen_get sh t key
      | TNil \<Rightarrow> Some TNil
      | _ \<Rightarrow> gen_get sh t key)"
subsection \<open>Setters\<close>

text \<open>The functions that insert are given the one that inserts a new key, \<open>nk\<close>; its definition below closes the recursion.\<close>

definition lj_tab_setinth :: "(ltab \<Rightarrow> tvalue \<Rightarrow> (tab_slot \<times> ltab) res) \<Rightarrow> ltab \<Rightarrow> int \<Rightarrow> (tab_slot \<times> ltab) res" where
  "lj_tab_setinth nk t key = do {
     r \<leftarrow> find_int t key;
     (case r of Some n \<Rightarrow> Some (Inr (Hsh n, t)) | None \<Rightarrow> nk t (key_of_int key))
   }"

definition lj_tab_setint :: "(ltab \<Rightarrow> tvalue \<Rightarrow> (tab_slot \<times> ltab) res) \<Rightarrow> ltab \<Rightarrow> int \<Rightarrow> (tab_slot \<times> ltab) res" where
  "lj_tab_setint nk t key =
     (if inarray t key then Some (Inr (Arr (nat (key mod 2 ^ 32)), t)) else lj_tab_setinth nk t key)"

definition lj_tab_setstr ::
  "(uint32 \<Rightarrow> uint32) \<Rightarrow> (ltab \<Rightarrow> tvalue \<Rightarrow> (tab_slot \<times> ltab) res) \<Rightarrow> ltab \<Rightarrow> uint32 \<Rightarrow> (tab_slot \<times> ltab) res" where
  "lj_tab_setstr sh nk t key = do {
     r \<leftarrow> find_str sh t key;
     (case r of Some n \<Rightarrow> Some (Inr (Hsh n, t)) | None \<Rightarrow> nk t (TStr key))
   }"

definition gen_set ::
  "(uint32 \<Rightarrow> uint32) \<Rightarrow> (ltab \<Rightarrow> tvalue \<Rightarrow> (tab_slot \<times> ltab) res) \<Rightarrow> ltab \<Rightarrow> tvalue \<Rightarrow> (tab_slot \<times> ltab) res" where
  "gen_set sh nk t key = do {
     r \<leftarrow> find_key sh t key;
     (case r of Some n \<Rightarrow> Some (Inr (Hsh n, t)) | None \<Rightarrow> nk t key)
   }"

definition tab_set ::
  "(uint32 \<Rightarrow> uint32) \<Rightarrow> (ltab \<Rightarrow> tvalue \<Rightarrow> (tab_slot \<times> ltab) res) \<Rightarrow> ltab \<Rightarrow> tvalue \<Rightarrow> (tab_slot \<times> ltab) res" where
  "tab_set sh nk t key =
     (let t = t\<lparr>nomm := 0\<rparr>
      in case key of
           TStr s \<Rightarrow> lj_tab_setstr sh nk t s
         | TNum n \<Rightarrow>
             let k = lj_num2int n
             in if num_eq n (num_of_int k) then lj_tab_setint nk t k
                else if tvisnan n then Some (Inl LJ_ERR_NANIDX)
                else gen_set sh nk t key
         | TNil \<Rightarrow> Some (Inl LJ_ERR_NILIDX)
         | _ \<Rightarrow> gen_set sh nk t key)"

subsection \<open>Resizing\<close>

fun reinsert_array ::
  "(ltab \<Rightarrow> tvalue \<Rightarrow> (tab_slot \<times> ltab) res) \<Rightarrow> nat \<Rightarrow> tvalue list \<Rightarrow> ltab \<Rightarrow> ltab res" where
  "reinsert_array nk i [] t = Some (Inr t)"
| "reinsert_array nk i (v # vs) t =
     (if tvisnil v then reinsert_array nk (Suc i) vs t
      else bind_res (lj_tab_setinth nk t (int i)) (\<lambda>(s, t). reinsert_array nk (Suc i) vs (set_slot s v t)))"

fun reinsert_nodes ::
  "(uint32 \<Rightarrow> uint32) \<Rightarrow> (ltab \<Rightarrow> tvalue \<Rightarrow> (tab_slot \<times> ltab) res) \<Rightarrow> lnode list \<Rightarrow> ltab \<Rightarrow> ltab res" where
  "reinsert_nodes sh nk [] t = Some (Inr t)"
| "reinsert_nodes sh nk (n # ns) t =
     (if tvisnil (nval n) then reinsert_nodes sh nk ns t
      else bind_res (tab_set sh nk t (nkey n)) (\<lambda>(s, t). reinsert_nodes sh nk ns (set_slot s (nval n) t)))"

definition resizetab ::
  "(uint32 \<Rightarrow> uint32) \<Rightarrow> (ltab \<Rightarrow> tvalue \<Rightarrow> (tab_slot \<times> ltab) res) \<Rightarrow> ltab \<Rightarrow> nat \<Rightarrow> nat \<Rightarrow> ltab res" where
  "resizetab sh nk t asize hbits =
     (let oldnode = node t; oldarray = array t; oldasize = length (array t); oldhmask = hmask t
      in if asize > oldasize \<and> asize > LJ_MAX_ASIZE then Some (Inl LJ_ERR_TABOV)
         else
           let t = (if asize > oldasize then t\<lparr>array := oldarray @ replicate (asize - oldasize) TNil\<rparr> else t)
           in bind_res (if hbits \<noteq> 0 then bind_res (newhpart t hbits) (\<lambda>t. Some (Inr (clearhpart t)))
                        else Some (Inr (no_hpart t))) (\<lambda>t.
              bind_res (if asize < oldasize
                        then reinsert_array nk asize (drop asize oldarray) (t\<lparr>array := take asize oldarray\<rparr>)
                        else Some (Inr t)) (\<lambda>t.
              if oldhmask > 0 then reinsert_nodes sh nk oldnode t else Some (Inr t))))"

definition countint :: "tvalue \<Rightarrow> nat list \<Rightarrow> nat \<times> nat list" where
  "countint key bins =
     (case key of
        TNum nk \<Rightarrow>
          let k = lj_num2int nk
          in if k mod 2 ^ 32 < int LJ_MAX_ASIZE \<and> num_eq nk (num_of_int k) then
               let b = (if k > 2 then lj_fls (nat (k - 1)) else 0)
               in (1, bins[b := bins ! b + 1])
             else (0, bins)
      | _ \<Rightarrow> (0, bins))"

text \<open>\<open>countarray\<close> with \<open>n\<close> more rounds to go, from bin \<open>b\<close> and array index \<open>i\<close> on.\<close>

fun countarray_from :: "tvalue list \<Rightarrow> nat \<Rightarrow> nat \<Rightarrow> nat \<Rightarrow> nat \<Rightarrow> nat list \<Rightarrow> nat \<times> nat list" where
  "countarray_from vs 0 b i na bins = (na, bins)"
| "countarray_from vs (Suc r) b i na bins =
     (let top = 2 * 2 ^ b; top = (if top \<ge> length vs then length vs - 1 else top)
      in if 2 * 2 ^ b \<ge> length vs \<and> i > top then (na, bins)
         else
           let n = length (filter (\<lambda>j. \<not> tvisnil (vs ! j)) [i..<Suc top])
           in countarray_from vs r (Suc b) (max i (Suc top)) (na + n) (bins[b := bins ! b + n]))"

definition countarray :: "ltab \<Rightarrow> nat list \<Rightarrow> nat \<times> nat list" where
  "countarray t bins =
     (if array t = [] then (0, bins) else countarray_from (array t) LJ_MAX_ABITS 0 0 0 bins)"

text \<open>The results are the number of nodes in use, the number of integer keys and the bins.\<close>

fun counthash :: "lnode list \<Rightarrow> nat list \<Rightarrow> nat \<Rightarrow> nat \<times> nat \<times> nat list" where
  "counthash [] bins narray = (0, narray, bins)"
| "counthash (n # ns) bins narray =
     (if \<not> tvisnil (nval n) then
        let (c, bins) = countint (nkey n) bins; (total, narray, bins) = counthash ns bins (narray + c)
        in (Suc total, narray, bins)
      else counthash ns bins narray)"

text \<open>\<open>bestasize\<close> from bin \<open>b\<close> on; the result is the number of elements and the size. There are bins enough, or \<open>None\<close>.\<close>

fun bestasize_from :: "nat list \<Rightarrow> nat \<Rightarrow> nat \<Rightarrow> nat \<Rightarrow> nat \<Rightarrow> nat \<Rightarrow> (nat \<times> nat) option" where
  "bestasize_from bins b nn acc na sz =
     (if 2 * nn > 2 ^ b \<and> acc \<noteq> nn then
        (case bins of
           [] \<Rightarrow> None
         | x # bins \<Rightarrow>
             if x > 0 then
               let acc = acc + x
               in if 2 * acc > 2 ^ b then bestasize_from bins (Suc b) nn acc acc (2 * 2 ^ b + 1)
                  else bestasize_from bins (Suc b) nn acc na sz
             else bestasize_from bins (Suc b) nn acc na sz)
      else Some (na, sz))"

definition bestasize :: "nat list \<Rightarrow> nat \<Rightarrow> (nat \<times> nat) option" where
  "bestasize bins narray = bestasize_from bins 0 narray 0 0 0"

definition hsize2hbits :: "nat \<Rightarrow> nat" where
  "hsize2hbits s = (if s \<noteq> 0 then if s = 1 then 1 else 1 + lj_fls (s - 1) else 0)"

definition rehashtab ::
  "(uint32 \<Rightarrow> uint32) \<Rightarrow> (ltab \<Rightarrow> tvalue \<Rightarrow> (tab_slot \<times> ltab) res) \<Rightarrow> ltab \<Rightarrow> tvalue \<Rightarrow> ltab res" where
  "rehashtab sh nk t ek =
     (let bins = replicate LJ_MAX_ABITS 0;
          (asize, bins) = countarray t bins;
          total = 1 + asize;
          (n, asize, bins) = counthash (node t) bins asize;
          total = total + n;
          (c, bins) = countint ek bins;
          asize = asize + c
      in case bestasize bins asize of
           None \<Rightarrow> None
         | Some (na, asize) \<Rightarrow> resizetab sh nk t asize (hsize2hbits (total - na)))"

subsection \<open>New keys\<close>

text \<open>Nodes from \<^verbatim>\<open>freetop\<close> on are not free.\<close>

fun find_free :: "lnode list \<Rightarrow> nat \<Rightarrow> nat option" where
  "find_free ns 0 = None"
| "find_free ns (Suc f) = (if tvisnil (nkey (ns ! f)) then Some f else find_free ns f)"

partial_function (option) find_pred :: "lnode list \<Rightarrow> nat \<Rightarrow> nat \<Rightarrow> nat option" where
  "find_pred ns collide n =
     (if nnext (ns ! collide) = Some n then Some collide
      else case nnext (ns ! collide) of None \<Rightarrow> None | Some m \<Rightarrow> find_pred ns m n)"

text \<open>Strings in the chain of \<open>freenode\<close> that belong to \<open>n\<close> are moved to the chain of \<open>n\<close>.\<close>

partial_function (option) rechain :: "(uint32 \<Rightarrow> uint32) \<Rightarrow> nat \<Rightarrow> nat \<Rightarrow> lnode list \<Rightarrow> lnode list option" where
  "rechain sh n freenode ns =
     (case nnext (ns ! freenode) of
        None \<Rightarrow> Some ns
      | Some nn \<Rightarrow>
          if tvisstr (nkey (ns ! nn)) \<and> \<not> tvisnil (nval (ns ! nn)) \<and> hashkey sh (length ns - 1) (nkey (ns ! nn)) = n then
            let ns = upd_node freenode (\<lambda>x. x\<lparr>nnext := nnext (ns ! nn)\<rparr>) ns;
                ns = upd_node nn (\<lambda>x. x\<lparr>nnext := nnext (ns ! n)\<rparr>) ns;
                ns = upd_node n (\<lambda>x. x\<lparr>nnext := Some nn\<rparr>) ns
            in rechain sh n freenode ns
          else rechain sh n nn ns)"

text \<open>Node \<open>n\<close> is taken: the node for the new key, when \<open>freenode\<close> is free.\<close>

definition resolve :: "(uint32 \<Rightarrow> uint32) \<Rightarrow> nat \<Rightarrow> nat \<Rightarrow> lnode list \<Rightarrow> (nat \<times> lnode list) option" where
  "resolve sh n freenode ns =
     (let collide = hashkey sh (length ns - 1) (nkey (ns ! n))
      in if collide \<noteq> n then do {
           collide \<leftarrow> find_pred ns collide n;
           let ns = upd_node collide (\<lambda>x. x\<lparr>nnext := Some freenode\<rparr>) ns;
           let ns = upd_node freenode (\<lambda>x. x\<lparr>nval := nval (ns ! n), nkey := nkey (ns ! n), nnext := nnext (ns ! n)\<rparr>) ns;
           let ns = upd_node n (\<lambda>x. x\<lparr>nnext := None, nval := TNil\<rparr>) ns;
           ns \<leftarrow> rechain sh n freenode ns;
           Some (n, ns)
         }
         else
           let ns = upd_node freenode (\<lambda>x. x\<lparr>nnext := nnext (ns ! n)\<rparr>) ns;
               ns = upd_node n (\<lambda>x. x\<lparr>nnext := Some freenode\<rparr>) ns
           in Some (freenode, ns))"

text \<open>The key is stored, minus zero as zero.\<close>

definition put_key :: "tvalue \<Rightarrow> nat \<Rightarrow> ltab \<Rightarrow> tab_slot \<times> ltab" where
  "put_key key n t = (Hsh n, t\<lparr>node := upd_node n (\<lambda>x. x\<lparr>nkey := canon key\<rparr>) (node t)\<rparr>)"

text \<open>
  The depth of the recursion is bounded: a rehash makes room for all keys, so that the
  insertions it does and the repeated one find a free node.
\<close>

fun lj_tab_newkey :: "(uint32 \<Rightarrow> uint32) \<Rightarrow> nat \<Rightarrow> ltab \<Rightarrow> tvalue \<Rightarrow> (tab_slot \<times> ltab) res" where
  "lj_tab_newkey sh 0 t key = None"
| "lj_tab_newkey sh (Suc d) t key =
     (let n = hashkey sh (hmask t) key
      in if \<not> tvisnil (nval (node t ! n)) \<or> hmask t = 0 then
           (case find_free (node t) (freetop t) of
              None \<Rightarrow>
                bind_res (rehashtab sh (lj_tab_newkey sh d) t key) (\<lambda>t. tab_set sh (lj_tab_newkey sh d) t key)
            | Some freenode \<Rightarrow>
                (case resolve sh n freenode (node t) of
                   None \<Rightarrow> None
                 | Some (n, ns) \<Rightarrow> Some (Inr (put_key key n (t\<lparr>node := ns, freetop := freenode\<rparr>)))))
         else Some (Inr (put_key key n t)))"

definition lj_tab_set :: "(uint32 \<Rightarrow> uint32) \<Rightarrow> ltab \<Rightarrow> tvalue \<Rightarrow> (tab_slot \<times> ltab) res" where
  "lj_tab_set sh t key = tab_set sh (lj_tab_newkey sh 2) t key"

definition lj_tab_rehash :: "(uint32 \<Rightarrow> uint32) \<Rightarrow> ltab \<Rightarrow> ltab res" where
  "lj_tab_rehash sh t = rehashtab sh (lj_tab_newkey sh 2) t TNil"

definition lj_tab_reasize :: "(uint32 \<Rightarrow> uint32) \<Rightarrow> ltab \<Rightarrow> nat \<Rightarrow> ltab res" where
  "lj_tab_reasize sh t nasize =
     resizetab sh (lj_tab_newkey sh 2) t (nasize + 1) (if hmask t > 0 then lj_fls (hmask t) + 1 else 0)"

subsection \<open>Traversal\<close>

definition hash_index :: "(uint32 \<Rightarrow> uint32) \<Rightarrow> ltab \<Rightarrow> tvalue \<Rightarrow> uint32 res" where
  "hash_index sh t key = do {
     r \<leftarrow> find_key sh t key;
     (case r of
        Some n \<Rightarrow> Some (Inr (of_nat (length (array t)) + of_nat n))
      | None \<Rightarrow>
          (case key of
             TNum u \<Rightarrow> if drop_bit 32 u = 0xfffe7fff then Some (Inr (ucast u - 1)) else Some (Inl LJ_ERR_NEXTIDX)
           | _ \<Rightarrow> Some (Inl LJ_ERR_NEXTIDX)))
   }"

text \<open>The index of a key; nil has the index before the first, \<^verbatim>\<open>~0u\<close>.\<close>

definition keyindex :: "(uint32 \<Rightarrow> uint32) \<Rightarrow> ltab \<Rightarrow> tvalue \<Rightarrow> uint32 res" where
  "keyindex sh t key =
     (case key of
        TNil \<Rightarrow> Some (Inr (- 1))
      | TNum nk \<Rightarrow>
          let k = lj_num2int nk
          in if inarray t k \<and> num_eq nk (num_of_int k) then Some (Inr (of_int k)) else hash_index sh t key
      | _ \<Rightarrow> hash_index sh t key)"

text \<open>The first used slot of the array from index \<open>i\<close> on, and the first used node.\<close>

fun next_array :: "nat \<Rightarrow> tvalue list \<Rightarrow> (tvalue \<times> tvalue) option" where
  "next_array i [] = None"
| "next_array i (v # vs) = (if \<not> tvisnil v then Some (key_of_int (int i), v) else next_array (Suc i) vs)"

fun next_node :: "lnode list \<Rightarrow> (tvalue \<times> tvalue) option" where
  "next_node [] = None"
| "next_node (n # ns) = (if \<not> tvisnil (nval n) then Some (nkey n, nval n) else next_node ns)"

definition lj_tab_next :: "(uint32 \<Rightarrow> uint32) \<Rightarrow> ltab \<Rightarrow> tvalue \<Rightarrow> (tvalue \<times> tvalue) option res" where
  "lj_tab_next sh t key =
     bind_res (keyindex sh t key) (\<lambda>i.
       let i = unat (i + 1); asize = length (array t)
       in Some (Inr (
            case next_array i (drop i (array t)) of
              Some kv \<Rightarrow> Some kv
            | None \<Rightarrow> next_node (drop (max i asize - asize) (node t)))))"

subsection \<open>Length\<close>

definition present :: "tvalue option \<Rightarrow> bool" where
  "present tv \<longleftrightarrow> (case tv of None \<Rightarrow> False | Some v \<Rightarrow> \<not> tvisnil v)"

partial_function (option) linear_search :: "ltab \<Rightarrow> nat \<Rightarrow> nat option" where
  "linear_search t i = do {
     tv \<leftarrow> lj_tab_getint t (int i);
     if present tv then linear_search t (Suc i) else Some (i - 1)
   }"

partial_function (option) double_search :: "ltab \<Rightarrow> nat \<Rightarrow> nat \<Rightarrow> (nat + nat \<times> nat) option" where
  "double_search t i j = do {
     tv \<leftarrow> lj_tab_getint t (int j);
     if present tv then
       if j * 2 > 2147483647 - 2 then map_option Inl (linear_search t 1)
       else double_search t j (j * 2)
     else Some (Inr (i, j))
   }"

partial_function (option) binary_search :: "ltab \<Rightarrow> nat \<Rightarrow> nat \<Rightarrow> nat option" where
  "binary_search t i j =
     (if j - i > 1 then do {
        let m = (i + j) div 2;
        tv \<leftarrow> lj_tab_getint t (int m);
        if present tv then binary_search t m j else binary_search t i m
      }
      else Some i)"

definition unbound_search :: "ltab \<Rightarrow> nat \<Rightarrow> nat option" where
  "unbound_search t j = do {
     r \<leftarrow> double_search t j (j + 1);
     (case r of Inl i \<Rightarrow> Some i | Inr (i, j) \<Rightarrow> binary_search t i j)
   }"

function array_search :: "tvalue list \<Rightarrow> nat \<Rightarrow> nat \<Rightarrow> nat" where
  "array_search vs i j =
     (if j - i > 1 then
        let m = (i + j) div 2
        in if tvisnil (vs ! (m - 1)) then array_search vs i m else array_search vs m j
      else i)"
  by auto
termination by (relation "measure (\<lambda>(_, i, j). j - i)") (auto simp: Let_def)

declare array_search.simps [simp del]

definition lj_tab_len :: "ltab \<Rightarrow> nat option" where
  "lj_tab_len t =
     (let j = length (array t)
      in if j > 1 \<and> tvisnil (array t ! (j - 1)) then Some (array_search (array t) 1 j - 1)
         else
           let j = (if j \<noteq> 0 then j - 1 else j)
           in if hmask t = 0 then Some j else unbound_search t j)"

end
