(* ===== verification/Lj_Chain.thy ===== *)
theory Lj_Chain
  imports Lj_Tab
begin

text \<open>
  The chains of the hash part of a Lua table: every key can be reached from the main
  position its hash gives it, over links that never form a cycle, and inserting a key
  keeps it so, whether it takes an unused main position, is chained behind it, or
  drives out a node that belongs to another chain.
\<close>

section \<open>Chains\<close>

inductive reach :: "lnode list \<Rightarrow> nat \<Rightarrow> nat \<Rightarrow> bool" for ns where
  reach_refl: "reach ns i i"
| reach_step: "nnext (ns ! i) = Some m \<Longrightarrow> reach ns m j \<Longrightarrow> reach ns i j"

inductive_cases reach_stepE: "reach ns i j"

definition links_ok :: "lnode list \<Rightarrow> bool" where
  "links_ok ns \<longleftrightarrow>
     (\<forall>i<length ns. \<forall>j. nnext (ns ! i) = Some j \<longrightarrow> j < length ns \<and> nkey (ns ! i) \<noteq> TNil \<and> nkey (ns ! j) \<noteq> TNil) \<and>
     (\<forall>i<length ns. \<forall>j<length ns. nnext (ns ! i) \<noteq> None \<longrightarrow> nnext (ns ! i) = nnext (ns ! j) \<longrightarrow> i = j) \<and>
     (\<exists>rank :: nat \<Rightarrow> nat. \<forall>i<length ns. \<forall>j. nnext (ns ! i) = Some j \<longrightarrow> rank j < rank i)"

definition keys_ok :: "lnode list \<Rightarrow> bool" where
  "keys_ok ns \<longleftrightarrow>
     (\<forall>i<length ns. nkey (ns ! i) = TNil \<longrightarrow> nval (ns ! i) = TNil) \<and>
     (\<forall>i<length ns. \<forall>j<length ns. nkey (ns ! i) \<noteq> TNil \<longrightarrow> nkey (ns ! i) = nkey (ns ! j) \<longrightarrow> i = j)"

text \<open>
  A key is reached from its main position \<open>mn\<close>, and a position held by a key of
  another chain is the main position of no key.
\<close>

definition main_ok :: "(tvalue \<Rightarrow> nat) \<Rightarrow> lnode list \<Rightarrow> bool" where
  "main_ok mn ns \<longleftrightarrow>
     (\<forall>i<length ns. nkey (ns ! i) \<noteq> TNil \<longrightarrow> reach ns (mn (nkey (ns ! i))) i) \<and>
     (\<forall>i<length ns. \<forall>j<length ns. nkey (ns ! i) \<noteq> TNil \<longrightarrow> mn (nkey (ns ! i)) \<noteq> i \<longrightarrow> nkey (ns ! j) \<noteq> TNil \<longrightarrow>
        mn (nkey (ns ! j)) \<noteq> i)"

definition chains_ok :: "(tvalue \<Rightarrow> nat) \<Rightarrow> lnode list \<Rightarrow> bool" where
  "chains_ok mn ns \<longleftrightarrow> links_ok ns \<and> keys_ok ns \<and> main_ok mn ns"

lemma links_okD:
  assumes "links_ok ns" and "i < length ns" and "nnext (ns ! i) = Some j"
  shows "j < length ns" and "nkey (ns ! i) \<noteq> TNil" and "nkey (ns ! j) \<noteq> TNil" and "j \<noteq> i"
    and "\<And>h. h < length ns \<Longrightarrow> nnext (ns ! h) = Some j \<Longrightarrow> h = i"
proof -
  show "j < length ns" "nkey (ns ! i) \<noteq> TNil" "nkey (ns ! j) \<noteq> TNil"
    using assms(2,3) assms(1) [unfolded links_ok_def, THEN conjunct1] by blast+
  obtain rank :: "nat \<Rightarrow> nat" where "\<forall>i<length ns. \<forall>j. nnext (ns ! i) = Some j \<longrightarrow> rank j < rank i"
    using assms(1) [unfolded links_ok_def] by blast
  then have "rank j < rank i" using assms(2,3) by blast
  then show "j \<noteq> i" by blast
  fix h assume "h < length ns" "nnext (ns ! h) = Some j"
  then show "h = i"
    using assms(2,3) assms(1) [unfolded links_ok_def, THEN conjunct2, THEN conjunct1, rule_format, of h i] by simp
qed

lemma links_ok_nil_next: "links_ok ns \<Longrightarrow> i < length ns \<Longrightarrow> nkey (ns ! i) = TNil \<Longrightarrow> nnext (ns ! i) = None"
  using links_okD(2) by (cases "nnext (ns ! i)") auto

lemma reach_less: "reach ns i j \<Longrightarrow> links_ok ns \<Longrightarrow> i < length ns \<Longrightarrow> j < length ns"
  by (induction rule: reach.induct) (auto dest: links_okD(1))

lemma reach_last:
  "reach ns i j \<Longrightarrow> links_ok ns \<Longrightarrow> i < length ns \<Longrightarrow> i = j \<or> (\<exists>p<length ns. reach ns i p \<and> nnext (ns ! p) = Some j)"
proof (induction rule: reach.induct)
  case (reach_step i m j)
  have "m < length ns" using reach_step links_okD(1) by blast
  then have "m = j \<or> (\<exists>p<length ns. reach ns m p \<and> nnext (ns ! p) = Some j)" using reach_step by blast
  then show ?case using reach_step.hyps(1) reach_step.prems(2) by (auto intro: reach.intros)
qed simp

lemma reach_nil_start: "reach ns i j \<Longrightarrow> links_ok ns \<Longrightarrow> i < length ns \<Longrightarrow> nkey (ns ! i) = TNil \<Longrightarrow> j = i"
  by (erule reach_stepE) (auto dest: links_okD(2))

lemma reach_nil_end: "reach ns i j \<Longrightarrow> links_ok ns \<Longrightarrow> i < length ns \<Longrightarrow> nkey (ns ! j) = TNil \<Longrightarrow> j = i"
  using reach_last [of ns i j] by (auto dest: links_okD(3))

section \<open>Walking a chain\<close>

lemma rank_induct [consumes 2, case_names node]:
  assumes "links_ok ns" and "i < length ns"
    and step: "\<And>i. i < length ns \<Longrightarrow> (\<And>m. nnext (ns ! i) = Some m \<Longrightarrow> m < length ns \<Longrightarrow> P m) \<Longrightarrow> P i"
  shows "P i"
proof -
  obtain rank :: "nat \<Rightarrow> nat" where r: "\<forall>i<length ns. \<forall>j. nnext (ns ! i) = Some j \<longrightarrow> rank j < rank i"
    using assms(1) unfolding links_ok_def by blast
  show ?thesis
    using assms(2)
  proof (induction "rank i" arbitrary: i rule: less_induct)
    case less
    show ?case
      by (rule step [OF less.prems]) (use less r in blast)
  qed
qed

lemma reach_acyclic:
  assumes "links_ok ns" and "i < length ns" and "nnext (ns ! i) = Some m"
  shows "\<not> reach ns m i"
proof
  obtain rank :: "nat \<Rightarrow> nat" where r: "\<forall>i<length ns. \<forall>j. nnext (ns ! i) = Some j \<longrightarrow> rank j < rank i"
    using assms(1) unfolding links_ok_def by blast
  have "rank j \<le> rank k" if "reach ns k j" "k < length ns" for j k
    using that by (induction rule: reach.induct) (use r links_okD(1) [OF assms(1)] in \<open>force+\<close>)
  moreover assume "reach ns m i"
  ultimately have "rank i \<le> rank m" using links_okD(1) [OF assms] by blast
  moreover have "rank m < rank i" using r assms(2,3) by blast
  ultimately show False by simp
qed

lemma find_node_spec:
  assumes "links_ok ns" and "i < length ns"
  shows "\<exists>r. find_node P ns i = Some r \<and>
    (case r of None \<Rightarrow> \<forall>j. reach ns i j \<longrightarrow> \<not> P (nkey (ns ! j)) | Some j \<Rightarrow> j < length ns \<and> P (nkey (ns ! j)))"
  using assms
proof (induction rule: rank_induct)
  case (node i)
  show ?case
  proof (cases "P (nkey (ns ! i))")
    case True
    then show ?thesis using node(1) by (subst find_node.simps) simp
  next
    case False
    show ?thesis
    proof (cases "nnext (ns ! i)")
      case None
      have "\<not> P (nkey (ns ! j))" if "reach ns i j" for j using that False None by (auto elim: reach_stepE)
      then show ?thesis using False None by (subst find_node.simps) simp
    next
      case (Some m)
      then have m: "m < length ns" using links_okD(1) [OF assms(1) node(1)] by blast
      have "\<not> P (nkey (ns ! j))" if "reach ns i j" "\<forall>j. reach ns m j \<longrightarrow> \<not> P (nkey (ns ! j))" for j
        using that False Some by (auto elim: reach_stepE)
      then show ?thesis
        using node(2) [OF Some m] False Some by (subst find_node.simps) (auto split: option.splits)
    qed
  qed
qed

lemma find_pred_spec:
  assumes "links_ok ns" and "i < length ns" and "reach ns i n" and "i \<noteq> n"
  shows "\<exists>p. find_pred ns i n = Some p \<and> p < length ns \<and> nnext (ns ! p) = Some n"
  using assms
proof (induction rule: rank_induct)
  case (node i)
  obtain m where m: "nnext (ns ! i) = Some m" "reach ns m n" using node(3,4) by (auto elim: reach_stepE)
  have ml: "m < length ns" using links_okD(1) [OF assms(1) node(1) m(1)] .
  show ?case
  proof (cases "m = n")
    case True
    then show ?thesis using m node(1) by (subst find_pred.simps) simp
  next
    case False
    then show ?thesis using node(2) [OF m(1) ml m(2)] m(1) by (subst find_pred.simps) simp
  qed
qed

lemma rechain_none:
  assumes "links_ok ns" and "i < length ns"
    and "\<forall>j<length ns. nkey (ns ! j) \<noteq> TNil \<longrightarrow> j \<noteq> i \<longrightarrow> reach ns i j \<longrightarrow> hashkey sh (length ns - 1) (nkey (ns ! j)) \<noteq> n"
  shows "rechain sh n i ns = Some ns"
  using assms
proof (induction rule: rank_induct)
  case (node i)
  show ?case
  proof (cases "nnext (ns ! i)")
    case None
    then show ?thesis by (subst rechain.simps) simp
  next
    case (Some m)
    note D = links_okD [OF assms(1) node(1) Some]
    have "reach ns i m" using Some by (blast intro: reach.intros)
    then have "hashkey sh (length ns - 1) (nkey (ns ! m)) \<noteq> n" using node(3) D by blast
    moreover have "rechain sh n m ns = Some ns"
    proof (rule node(2) [OF Some D(1)], intro allI impI)
      fix j assume j: "j < length ns" "nkey (ns ! j) \<noteq> TNil" "j \<noteq> m" "reach ns m j"
      have "reach ns i j" using Some j(4) by (rule reach_step)
      moreover have "j \<noteq> i"
      proof
        assume "j = i"
        then show False using j(4) reach_acyclic [OF assms(1) node(1) Some] by blast
      qed
      ultimately show "hashkey sh (length ns - 1) (nkey (ns ! j)) \<noteq> n" using node(3) j by blast
    qed
    ultimately show ?thesis using Some by (subst rechain.simps) simp
  qed
qed

section \<open>Inserting a key\<close>

lemma links_okI:
  fixes rank :: "nat \<Rightarrow> nat"
  assumes "\<And>i j. i < length ns \<Longrightarrow> nnext (ns ! i) = Some j \<Longrightarrow>
      j < length ns \<and> nkey (ns ! i) \<noteq> TNil \<and> nkey (ns ! j) \<noteq> TNil \<and> rank j < rank i"
    and "\<And>i j x. i < length ns \<Longrightarrow> j < length ns \<Longrightarrow> nnext (ns ! i) = Some x \<Longrightarrow> nnext (ns ! j) = Some x \<Longrightarrow> i = j"
  shows "links_ok ns"
proof -
  have "i = j" if ij: "i < length ns" "j < length ns" and some: "nnext (ns ! i) \<noteq> None" and eq: "nnext (ns ! i) = nnext (ns ! j)" for i j
  proof -
    obtain x where "nnext (ns ! i) = Some x" using some by auto
    then show ?thesis using assms(2) [OF ij] eq by simp
  qed
  then show ?thesis unfolding links_ok_def using assms(1) by blast
qed

lemma keys_okI:
  assumes "\<And>i. i < length ns \<Longrightarrow> nkey (ns ! i) = TNil \<Longrightarrow> nval (ns ! i) = TNil"
    and "\<And>i j. i < length ns \<Longrightarrow> j < length ns \<Longrightarrow> nkey (ns ! i) \<noteq> TNil \<Longrightarrow> nkey (ns ! i) = nkey (ns ! j) \<Longrightarrow> i = j"
  shows "keys_ok ns"
  unfolding keys_ok_def using assms by blast

lemma keys_okD:
  assumes "keys_ok ns" and "i < length ns"
  shows "nkey (ns ! i) = TNil \<Longrightarrow> nval (ns ! i) = TNil"
    and "j < length ns \<Longrightarrow> nkey (ns ! i) \<noteq> TNil \<Longrightarrow> nkey (ns ! i) = nkey (ns ! j) \<Longrightarrow> i = j"
  using assms unfolding keys_ok_def by blast+

lemma main_okI:
  assumes "\<And>i. i < length ns \<Longrightarrow> nkey (ns ! i) \<noteq> TNil \<Longrightarrow> reach ns (mn (nkey (ns ! i))) i"
    and "\<And>i j. i < length ns \<Longrightarrow> j < length ns \<Longrightarrow> nkey (ns ! i) \<noteq> TNil \<Longrightarrow> mn (nkey (ns ! i)) \<noteq> i \<Longrightarrow> nkey (ns ! j) \<noteq> TNil \<Longrightarrow>
      mn (nkey (ns ! j)) \<noteq> i"
  shows "main_ok mn ns"
  unfolding main_ok_def using assms by blast

lemma main_okD:
  assumes "main_ok mn ns" and "i < length ns" and "nkey (ns ! i) \<noteq> TNil"
  shows "reach ns (mn (nkey (ns ! i))) i"
    and "j < length ns \<Longrightarrow> mn (nkey (ns ! i)) \<noteq> i \<Longrightarrow> nkey (ns ! j) \<noteq> TNil \<Longrightarrow> mn (nkey (ns ! j)) \<noteq> i"
  using assms unfolding main_ok_def by blast+

lemma reach_trans: "reach ns a b \<Longrightarrow> reach ns b c \<Longrightarrow> reach ns a c"
  by (induction rule: reach.induct) (auto intro: reach.intros)

lemma reach_one: "nnext (ns ! i) = Some j \<Longrightarrow> reach ns i j"
  by (blast intro: reach.intros)

lemma reach_map:
  assumes "reach ns i j" and "links_ok ns" and "i < length ns"
    and "\<And>i j. i < length ns \<Longrightarrow> nnext (ns ! i) = Some j \<Longrightarrow> reach ns' (g i) (g j)"
  shows "reach ns' (g i) (g j)"
  using assms(1,3)
proof (induction rule: reach.induct)
  case (reach_step i m j)
  then show ?case using assms(4) links_okD(1) [OF assms(2)] reach_trans by blast
qed (rule reach_refl)

lemma keys_ok_put:
  assumes ok: "keys_ok ns" and k: "k \<notin> nkey ` set ns" "k \<noteq> TNil" and len: "length ns' = length ns" and new: "nkey (ns' ! n) = k"
    and old: "\<And>i. i < length ns \<Longrightarrow> i \<noteq> n \<Longrightarrow> g i < length ns \<and> nkey (ns' ! i) = nkey (ns ! g i) \<and> nval (ns' ! i) = nval (ns ! g i)"
    and inj: "\<And>i j. i < length ns \<Longrightarrow> j < length ns \<Longrightarrow> i \<noteq> n \<Longrightarrow> j \<noteq> n \<Longrightarrow> g i = g j \<Longrightarrow> i = j"
  shows "keys_ok ns'"
proof (rule keys_okI, unfold len)
  have fresh: "nkey (ns ! j) \<noteq> k" if "j < length ns" for j using k(1) that by force
  fix i j assume i: "i < length ns"
  show "nval (ns' ! i) = TNil" if "nkey (ns' ! i) = TNil"
    using keys_okD(1) [OF ok, of "g i"] old [OF i] that k(2) new by (cases "i = n") auto
  assume j: "j < length ns" and nn: "nkey (ns' ! i) \<noteq> TNil" and eq: "nkey (ns' ! i) = nkey (ns' ! j)"
  show "i = j"
  proof (cases "i = n \<or> j = n")
    case True
    have other: "nkey (ns' ! h) \<noteq> k" if "h < length ns" "h \<noteq> n" for h
      using old [OF that] fresh [of "g h"] by simp
    have "j = n" if "i = n" using other [OF j] eq [unfolded that new] by blast
    moreover have "i = n" if "j = n" using other [OF i] eq [unfolded that new] by blast
    ultimately show ?thesis using True by blast
  next
    case False
    then have a: "g i < length ns" "nkey (ns' ! i) = nkey (ns ! g i)" and b: "g j < length ns" "nkey (ns' ! j) = nkey (ns ! g j)"
      using old [OF i] old [OF j] by simp_all
    have "g i = g j" by (rule keys_okD(2) [OF ok a(1) b(1) nn [unfolded a(2)] eq [unfolded a(2) b(2)]])
    then show ?thesis using inj [OF i j] False by blast
  qed
qed

text \<open>Any hash function that gives each key a position among the nodes will do.\<close>

locale main_position =
  fixes mn :: "tvalue \<Rightarrow> nat" and size :: nat
  assumes main_less: "mn k < size"
begin

text \<open>An unused main position is taken.\<close>

lemma overwrite_ok:
  assumes ok: "chains_ok mn ns" and size: "length ns = size" and n: "n < length ns" "mn k = n" and k: "k \<noteq> TNil" "k \<notin> nkey ` set ns"
    and v: "nval (ns ! n) = TNil"
  shows "chains_ok mn (upd_node n (\<lambda>x. x\<lparr>nkey := k\<rparr>) ns)"
proof -
  let ?ns = "upd_node n (\<lambda>x. x\<lparr>nkey := k\<rparr>) ns"
  have O: "links_ok ns" "keys_ok ns" "main_ok mn ns" using ok by (simp_all add: chains_ok_def)
  obtain rank where r: "\<And>i j. i < length ns \<Longrightarrow> nnext (ns ! i) = Some j \<Longrightarrow> (rank j :: nat) < rank i"
    using O(1) unfolding links_ok_def by blast
  have key: "nkey (?ns ! i) = (if i = n then k else nkey (ns ! i))" for i using n by (simp add: upd_node_def)
  have len [simp]: "length ?ns = length ns" by (simp add: upd_node_def)
  have nx: "nnext (?ns ! i) = nnext (ns ! i)" for i using n by (cases "i = n") (simp_all add: upd_node_def)
  have "links_ok ?ns"
  proof (rule links_okI [where rank = rank], unfold nx len)
    fix i j assume "i < length ns" "nnext (ns ! i) = Some j"
    note D = links_okD [OF O(1) this] r [OF this]
    show "j < length ns \<and> nkey (?ns ! i) \<noteq> TNil \<and> nkey (?ns ! j) \<noteq> TNil \<and> rank j < rank i"
      using D k(1) unfolding key by auto
  qed (rule links_okD(5) [OF O(1)])
  moreover have "keys_ok ?ns"
    by (rule keys_ok_put [OF O(2) k(2,1) len, where g = id and n = n]) (auto simp: upd_node_def n)
  moreover have reach: "reach ?ns i j" if "reach ns i j" "i < length ns" for i j
    using reach_map [OF that(1) O(1) that(2), where g = id] nx reach_one [of ?ns] by simp
  have "main_ok mn ?ns"
  proof (rule main_okI, unfold len key)
    fix i j assume i: "i < length ns" and nn: "(if i = n then k else nkey (ns ! i)) \<noteq> TNil"
    show "reach ?ns (mn (if i = n then k else nkey (ns ! i))) i"
      using n reach_refl main_okD(1) [OF O(3) i] nn reach [OF _ main_less [folded size]] by auto
    assume j: "j < length ns" and m: "mn (if i = n then k else nkey (ns ! i)) \<noteq> i" "(if j = n then k else nkey (ns ! j)) \<noteq> TNil"
    show "mn (if j = n then k else nkey (ns ! j)) \<noteq> i"
      using main_okD(2) [OF O(3) i _ j] m nn n(2) by (auto split: if_splits)
  qed
  ultimately show ?thesis by (simp add: chains_ok_def)
qed

end

interpretation hash_main: main_position "hashkey sh hm" "Suc hm" for sh hm
proof
  have "hashmask hm h \<le> hm" for h
  proof -
    have "unat (h AND of_nat hm :: uint32) \<le> unat (of_nat hm :: uint32)" using word_and_le1 [of h "of_nat hm"] by (simp add: word_le_nat_alt and.commute)
    also have "\<dots> \<le> hm" by (simp add: unat_of_nat)
    finally show ?thesis by (simp add: hashmask_def)
  qed
  then show "hashkey sh hm k < Suc hm" for k by (simp add: hashkey_def hashnum_def hashgcref_def le_imp_less_Suc split: tvalue.splits)
qed

text \<open>The new key goes into a free node \<open>f\<close> that is linked in behind the main position \<open>n\<close>.\<close>

lemma links_ok_behind:
  assumes ok: "links_ok ns" and n: "n < length ns" "nkey (ns ! n) \<noteq> TNil" and f: "f < length ns" "nkey (ns ! f) = TNil"
    and k: "k \<noteq> TNil" and len: "length ns' = length ns"
    and nx: "\<And>i. nnext (ns' ! i) = (if i = f then nnext (ns ! n) else if i = n then Some f else nnext (ns ! i))"
    and key: "\<And>i. nkey (ns' ! i) = (if i = f then k else nkey (ns ! i))"
  shows "links_ok ns'"
proof -
  have nf: "n \<noteq> f" using n f by auto
  have nopred: "nnext (ns ! i) \<noteq> Some f" if "i < length ns" for i using links_okD(3) [OF ok that] f(2) by blast
  obtain rank :: "nat \<Rightarrow> nat" where r: "\<And>i j. i < length ns \<Longrightarrow> nnext (ns ! i) = Some j \<Longrightarrow> rank j < rank i"
    using ok unfolding links_ok_def by blast
  let ?s = "\<lambda>i. if i = f then n else i" let ?r = "\<lambda>i. if i = f then 2 * rank n else 2 * rank i + 1"
  have via: "?s i < length ns \<and> nnext (ns ! ?s i) = Some j \<and> j \<noteq> f" if "i < length ns" "i \<noteq> n" "nnext (ns' ! i) = Some j" for i j
    using that n(1) nopred [of "?s i"] by (auto simp: nx split: if_splits)
  show ?thesis
  proof (rule links_okI [where rank = ?r], unfold len)
    fix i j x assume i: "i < length ns" and x: "nnext (ns' ! i) = Some x"
    show "x < length ns \<and> nkey (ns' ! i) \<noteq> TNil \<and> nkey (ns' ! x) \<noteq> TNil \<and> ?r x < ?r i"
    proof (cases "i = n")
      case True
      then show ?thesis using x n(2) nf f(1) k by (simp add: nx key)
    next
      case False
      note v = via [OF i False x]
      have "x < length ns" "nkey (ns ! ?s i) \<noteq> TNil" "nkey (ns ! x) \<noteq> TNil" "rank x < rank (?s i)"
        using links_okD(1,2,3) [OF ok] r v by blast+
      then show ?thesis using v False k by (auto simp: key)
    qed
    assume j: "j < length ns" and y: "nnext (ns' ! j) = Some x"
    have tof: "i = n" if "x = f" using via [OF i _ x] that by blast
    have tof': "j = n" if "x = f" using via [OF j _ y] that by blast
    show "i = j"
    proof (cases "x = f")
      case False
      then have "i \<noteq> n" "j \<noteq> n" using x y nf by (auto simp: nx)
      then have "?s i = ?s j" using links_okD(5) [OF ok, of "?s j" x "?s i"] via [OF i _ x] via [OF j _ y] by blast
      then show ?thesis using \<open>i \<noteq> n\<close> \<open>j \<noteq> n\<close> by (auto split: if_splits)
    qed (use tof tof' in blast)
  qed
qed

lemma no_main_nil:
  assumes "chains_ok mn ns" and "f < length ns" "nkey (ns ! f) = TNil" and "j < length ns" "nkey (ns ! j) \<noteq> TNil"
  shows "mn (nkey (ns ! j)) \<noteq> f"
proof
  assume "mn (nkey (ns ! j)) = f"
  then have "reach ns f j" using main_okD(1) [of mn ns j] assms by (simp add: chains_ok_def)
  then have "j = f" using reach_nil_start [of ns f j] assms by (simp add: chains_ok_def)
  then show False using assms by simp
qed

context main_position
begin

lemma behind_ok:
  assumes ok: "chains_ok mn ns" and size: "length ns = size" and n: "n < length ns" "nkey (ns ! n) \<noteq> TNil" "mn (nkey (ns ! n)) = n" "mn k = n"
    and f: "f < length ns" "nkey (ns ! f) = TNil" and k: "k \<noteq> TNil" "k \<notin> nkey ` set ns" and len: "length ns' = length ns"
    and nth: "\<And>i. ns' ! i = (if i = f then (ns ! f)\<lparr>nnext := nnext (ns ! n), nkey := k\<rparr> else if i = n then (ns ! n)\<lparr>nnext := Some f\<rparr> else ns ! i)"
  shows "chains_ok mn ns'"
proof -
  have O: "links_ok ns" "keys_ok ns" "main_ok mn ns" using ok by (simp_all add: chains_ok_def)
  have nf: "n \<noteq> f" using n f by auto
  have nx: "nnext (ns' ! i) = (if i = f then nnext (ns ! n) else if i = n then Some f else nnext (ns ! i))" for i by (simp add: nth)
  have key: "nkey (ns' ! i) = (if i = f then k else nkey (ns ! i))" for i by (simp add: nth)
  have "links_ok ns'" by (rule links_ok_behind [OF O(1) n(1,2) f k(1) len nx key])
  moreover have "keys_ok ns'"
    by (rule keys_ok_put [OF O(2) k(2,1) len, where g = id and n = f]) (auto simp: nth)
  moreover have step: "reach ns' i j" if "i < length ns" "nnext (ns ! i) = Some j" for i j
  proof (cases "i = n")
    case True
    have "nnext (ns' ! n) = Some f" "nnext (ns' ! f) = Some j" using that True nf by (simp_all add: nx)
    then show ?thesis unfolding True using reach_one reach_step by blast
  next
    case False
    moreover have "i \<noteq> f" using links_ok_nil_next [OF O(1) f] that by auto
    ultimately show ?thesis using that by (intro reach_one) (simp add: nx)
  qed
  have reach: "reach ns' (mn x) j" if "reach ns (mn x) j" for x j
    using reach_map [OF that O(1) main_less [folded size], where g = id and ns' = ns'] step by simp
  have "main_ok mn ns'"
  proof (rule main_okI, unfold len)
    fix i j assume i: "i < length ns" and nn: "nkey (ns' ! i) \<noteq> TNil"
    show "reach ns' (mn (nkey (ns' ! i))) i"
    proof (cases "i = f")
      case True
      then show ?thesis using n(4) nf by (simp add: key, intro reach_one) (simp add: nx)
    next
      case False
      then show ?thesis using main_okD(1) [OF O(3) i] nn reach by (simp add: key)
    qed
    assume j: "j < length ns" and m: "mn (nkey (ns' ! i)) \<noteq> i" and nj: "nkey (ns' ! j) \<noteq> TNil"
    show "mn (nkey (ns' ! j)) \<noteq> i"
    proof (cases "i = f")
      case True
      then show ?thesis using no_main_nil [OF ok f j] nj n(4) nf by (auto simp: key)
    next
      case False
      then have "mn (nkey (ns ! i)) \<noteq> i" "nkey (ns ! i) \<noteq> TNil" using m nn by (simp_all add: key)
      then show ?thesis using main_okD(2) [OF O(3) i _ j] main_okD(2) [OF O(3) i _ n(1)] n(2,3,4) nj by (auto simp: key split: if_splits)
    qed
  qed
  ultimately show ?thesis by (simp add: chains_ok_def)
qed

end

text \<open>
  The node \<open>n\<close> is held by a key of another chain, behind the node \<open>p\<close>: the key moves
  to the free node \<open>f\<close>, and \<open>n\<close> starts a chain of its own.
\<close>

lemma links_ok_move:
  assumes ok: "links_ok ns" and n: "n < length ns" "nkey (ns ! n) \<noteq> TNil" and p: "p < length ns" "nnext (ns ! p) = Some n"
    and f: "f < length ns" "nkey (ns ! f) = TNil" and k: "k \<noteq> TNil" and len: "length ns' = length ns"
    and nx: "\<And>i. nnext (ns' ! i) = (if i = n then None else if i = f then nnext (ns ! n) else if i = p then Some f else nnext (ns ! i))"
    and key: "\<And>i. nkey (ns' ! i) = (if i = n then k else if i = f then nkey (ns ! n) else nkey (ns ! i))"
  shows "links_ok ns'"
proof -
  have nf: "n \<noteq> f" using n f by auto
  have pf: "p \<noteq> f" using links_ok_nil_next [OF ok f] p by auto
  have pn: "p \<noteq> n" using links_okD(4) [OF ok p] by simp
  have nopred: "nnext (ns ! i) \<noteq> Some f" if "i < length ns" for i using links_okD(3) [OF ok that] f(2) by blast
  have onlyp: "i = p" if "i < length ns" "nnext (ns ! i) = Some n" for i using links_okD(5) [OF ok p that] .
  obtain rank :: "nat \<Rightarrow> nat" where r: "\<And>i j. i < length ns \<Longrightarrow> nnext (ns ! i) = Some j \<Longrightarrow> rank j < rank i"
    using ok unfolding links_ok_def by blast
  let ?s = "\<lambda>i. if i = f then n else i" let ?r = "\<lambda>i. rank (?s i)"
  have via: "?s i < length ns \<and> nnext (ns ! ?s i) = Some (if j = f then n else j) \<and> j \<noteq> n" if "i < length ns" "nnext (ns' ! i) = Some j" for i j
  proof (cases "i = p")
    case True
    then show ?thesis using that p pn pf nf by (simp add: nx)
  next
    case False
    then have *: "?s i < length ns" "nnext (ns ! ?s i) = Some j" using that n(1) by (auto simp: nx split: if_splits)
    moreover have "j \<noteq> f" using nopred * by blast
    moreover have "j \<noteq> n"
    proof
      assume "j = n"
      then have "?s i = p" using onlyp * by blast
      then show False using False pn by (auto split: if_splits)
    qed
    ultimately show ?thesis by simp
  qed
  show ?thesis
  proof (rule links_okI [where rank = ?r], unfold len)
    fix i j x assume i: "i < length ns" and x: "nnext (ns' ! i) = Some x"
    note v = via [OF i x]
    have "?s x < length ns" "nkey (ns ! ?s i) \<noteq> TNil" "nkey (ns ! ?s x) \<noteq> TNil" "rank (?s x) < rank (?s i)"
      using links_okD(1,2,3) [OF ok] r v by blast+
    then show "x < length ns \<and> nkey (ns' ! i) \<noteq> TNil \<and> nkey (ns' ! x) \<noteq> TNil \<and> ?r x < ?r i"
      using v k f(1) by (auto simp: key split: if_splits)
    assume j: "j < length ns" and y: "nnext (ns' ! j) = Some x"
    have "i \<noteq> n" "j \<noteq> n" using x y by (auto simp: nx)
    moreover have "?s i = ?s j" using links_okD(5) [OF ok, of "?s j" "?s x" "?s i"] v via [OF j y] by blast
    ultimately show "i = j" by (auto split: if_splits)
  qed
qed

context main_position
begin

lemma move_ok:
  assumes ok: "chains_ok mn ns" and size: "length ns = size" and n: "n < length ns" "nkey (ns ! n) \<noteq> TNil" "mn (nkey (ns ! n)) \<noteq> n" "mn k = n"
    and p: "p < length ns" "nnext (ns ! p) = Some n" and f: "f < length ns" "nkey (ns ! f) = TNil"
    and k: "k \<noteq> TNil" "k \<notin> nkey ` set ns" and len: "length ns' = length ns"
    and nth: "\<And>i. ns' ! i = (if i = n then (ns ! n)\<lparr>nnext := None, nval := TNil, nkey := k\<rparr>
        else if i = f then (ns ! f)\<lparr>nval := nval (ns ! n), nkey := nkey (ns ! n), nnext := nnext (ns ! n)\<rparr>
        else if i = p then (ns ! p)\<lparr>nnext := Some f\<rparr> else ns ! i)"
  shows "chains_ok mn ns'"
proof -
  have O: "links_ok ns" "keys_ok ns" "main_ok mn ns" using ok by (simp_all add: chains_ok_def)
  have nf: "n \<noteq> f" using n f by auto
  have pf: "p \<noteq> f" using links_ok_nil_next [OF O(1) f] p by auto
  have pn: "p \<noteq> n" using links_okD(4) [OF O(1) p] by simp
  have nx: "nnext (ns' ! i) = (if i = n then None else if i = f then nnext (ns ! n) else if i = p then Some f else nnext (ns ! i))" for i
    by (simp add: nth)
  have key: "nkey (ns' ! i) = (if i = n then k else if i = f then nkey (ns ! n) else nkey (ns ! i))" for i by (simp add: nth)
  have "links_ok ns'" by (rule links_ok_move [OF O(1) n(1,2) p f k(1) len nx key])
  moreover have "keys_ok ns'"
    by (rule keys_ok_put [OF O(2) k(2,1) len, where g = "\<lambda>i. if i = f then n else i" and n = n]) (auto simp: nth n(1) split: if_splits)
  moreover let ?g = "\<lambda>i. if i = n then f else i"
  have step: "reach ns' (?g i) (?g j)" if "i < length ns" "nnext (ns ! i) = Some j" for i j
  proof -
    have "i \<noteq> f" using links_ok_nil_next [OF O(1) f] that by auto
    moreover have "j \<noteq> n" if "i \<noteq> p" using links_okD(5) [OF O(1) p \<open>i < length ns\<close>] \<open>nnext (ns ! i) = Some j\<close> that by blast
    moreover have "j = n" if "i = p" using p(2) \<open>nnext (ns ! i) = Some j\<close> that by simp
    ultimately show ?thesis using that nf pn pf by (cases "i = p") (auto simp: nx intro!: reach_one)
  qed
  have reach: "reach ns' (?g (mn x)) (?g j)" if "reach ns (mn x) j" for x j
    using reach_map [OF that O(1) main_less [folded size], where g = ?g and ns' = ns'] step by blast
  have nomain: "mn (nkey (ns ! j)) \<noteq> n" if "j < length ns" "nkey (ns ! j) \<noteq> TNil" for j
    using main_okD(2) [OF O(3) n(1,2) that(1) n(3) that(2)] .
  have old: "reach ns' (mn (nkey (ns ! j))) (?g j)" if "j < length ns" "nkey (ns ! j) \<noteq> TNil" for j
    using reach [OF main_okD(1) [OF O(3) that]] nomain [OF that] by simp
  have "main_ok mn ns'"
  proof (rule main_okI, unfold len)
    fix i j assume i: "i < length ns" and nn: "nkey (ns' ! i) \<noteq> TNil"
    show "reach ns' (mn (nkey (ns' ! i))) i"
      using old [OF i] old [OF n(1,2)] nn n(4) nf by (auto simp: key intro: reach_refl split: if_splits)
    assume j: "j < length ns" and m: "mn (nkey (ns' ! i)) \<noteq> i" and nj: "nkey (ns' ! j) \<noteq> TNil"
    have i': "i \<noteq> n" using m n(4) by (auto simp: key)
    show "mn (nkey (ns' ! j)) \<noteq> i"
    proof (cases "i = f")
      case True
      then show ?thesis using no_main_nil [OF ok f j] no_main_nil [OF ok f n(1,2)] nj n(4) nf by (auto simp: key)
    next
      case False
      then have "mn (nkey (ns ! i)) \<noteq> i" "nkey (ns ! i) \<noteq> TNil" using m nn i' by (simp_all add: key)
      then show ?thesis
        using main_okD(2) [OF O(3) i _ j] main_okD(2) [OF O(3) i _ n(1)] n(2,4) nj i' by (auto simp: key split: if_splits)
    qed
  qed
  ultimately show ?thesis by (simp add: chains_ok_def)
qed

end

section \<open>The contents of the hash part\<close>

definition hval :: "lnode list \<Rightarrow> tvalue \<Rightarrow> tvalue" where
  "hval ns k = (case find (\<lambda>x. nkey x = k) ns of None \<Rightarrow> TNil | Some x \<Rightarrow> nval x)"

definition hkeys :: "lnode list \<Rightarrow> tvalue set" where
  "hkeys ns = nkey ` set ns - {TNil}"

lemma hkeys_iff: "k \<in> hkeys ns \<longleftrightarrow> k \<noteq> TNil \<and> (\<exists>i<length ns. nkey (ns ! i) = k)"
  by (auto simp: hkeys_def in_set_conv_nth image_iff) (metis nth_mem)

lemma hval_nth:
  assumes "keys_ok ns" and "i < length ns" and "nkey (ns ! i) \<noteq> TNil"
  shows "hval ns (nkey (ns ! i)) = nval (ns ! i)"
proof (cases "find (\<lambda>x. nkey x = nkey (ns ! i)) ns")
  case None
  then show ?thesis using nth_mem [OF assms(2)] unfolding find_None_iff by blast
next
  case (Some x)
  then obtain j where j: "j < length ns" "nkey (ns ! j) = nkey (ns ! i)" "x = ns ! j" by (auto simp: find_Some_iff)
  have "i = j" by (rule keys_okD(2) [OF assms(1,2) j(1) assms(3) j(2) [symmetric]])
  then have "nval x = nval (ns ! i)" using j(3) by simp
  then show ?thesis unfolding hval_def Some by simp
qed

lemma hval_none: "k \<notin> hkeys ns \<Longrightarrow> k \<noteq> TNil \<Longrightarrow> hval ns k = TNil"
  by (auto simp: hval_def hkeys_def find_None_iff split: option.splits) (auto simp: find_Some_iff)

lemma hval_put:
  assumes ok: "keys_ok ns" "keys_ok ns'" and len: "length ns' = length ns" and n: "n < length ns" "nval (ns' ! n) = TNil"
    "nkey (ns' ! n) = k" "k \<notin> nkey ` set ns" "k \<noteq> TNil"
    and old: "\<And>i. i < length ns \<Longrightarrow> i \<noteq> n \<Longrightarrow> g i < length ns \<and> nkey (ns' ! i) = nkey (ns ! g i) \<and> nval (ns' ! i) = nval (ns ! g i)"
    and all: "\<And>j. j < length ns \<Longrightarrow> nval (ns ! j) \<noteq> TNil \<Longrightarrow> \<exists>i<length ns. i \<noteq> n \<and> g i = j"
    and x: "x \<noteq> TNil"
  shows "hval ns' x = hval ns x"
proof (cases "hval ns x = TNil")
  case True
  show ?thesis
  proof (cases "x \<in> hkeys ns'")
    case False
    then show ?thesis using True x by (simp add: hval_none)
  next
    case inn: True
    then obtain i where i: "i < length ns'" "nkey (ns' ! i) = x" by (auto simp: hkeys_iff)
    have "nval (ns' ! i) = TNil"
    proof (cases "i = n")
      case False
      then have o: "g i < length ns" "nkey (ns ! g i) = x" "nval (ns' ! i) = nval (ns ! g i)" using old [of i] i len by auto
      then show ?thesis using hval_nth [OF ok(1) o(1)] True x by simp
    qed (use n in simp)
    then show ?thesis using hval_nth [OF ok(2) i(1)] i(2) x True by simp
  qed
next
  case False
  then have "x \<in> hkeys ns" using hval_none x by blast
  then obtain j where j: "j < length ns" "nkey (ns ! j) = x" by (auto simp: hkeys_iff)
  have v: "hval ns x = nval (ns ! j)" using hval_nth [OF ok(1) j(1)] j(2) x by simp
  then obtain i where i: "i < length ns" "i \<noteq> n" "g i = j" using all [OF j(1)] False by auto
  then have "nkey (ns' ! i) = x" "nval (ns' ! i) = nval (ns ! j)" using old [OF i(1,2)] j(2) by auto
  then show ?thesis using hval_nth [OF ok(2), of i] i(1) len v x by simp
qed

lemma hashkey_canon [simp]: "hashkey sh hm (canon k) = hashkey sh hm k"
proof (cases k)
  case (TNum n)
  have z: "(9223372036854775808 :: uint32) = 0" "(4294967296 :: uint32) = 0" by simp_all
  show ?thesis using TNum by (simp add: canon_def hashkey_def hashnum_def tvismzero_def) (simp only: z, simp)
qed (simp_all add: canon_def)

text \<open>No node from the free pointer on is free.\<close>

definition free_ok :: "ltab \<Rightarrow> bool" where
  "free_ok t \<longleftrightarrow> freetop t \<le> length (node t) \<and> (\<forall>i. freetop t \<le> i \<longrightarrow> i < length (node t) \<longrightarrow> nkey (node t ! i) \<noteq> TNil)"

lemma find_free_some:
  "find_free ns f = Some i \<Longrightarrow> i < f \<and> nkey (ns ! i) = TNil \<and> (\<forall>j. i < j \<longrightarrow> j < f \<longrightarrow> nkey (ns ! j) \<noteq> TNil)"
proof (induction f)
  case (Suc f)
  have nil: "tvisnil x \<longleftrightarrow> x = TNil" for x by (cases x) simp_all
  show ?case
  proof (cases "nkey (ns ! f) = TNil")
    case True
    then show ?thesis using Suc.prems by simp
  next
    case False
    then show ?thesis using Suc nil by (auto simp: less_Suc_eq)
  qed
qed simp

lemma find_free_none: "find_free ns f = None \<Longrightarrow> i < f \<Longrightarrow> nkey (ns ! i) \<noteq> TNil"
  by (induction f) (auto simp: less_Suc_eq split: if_splits)

lemma card_hkeys_free:
  assumes "card (hkeys ns) < length ns" and "keys_ok ns"
  shows "\<exists>i<length ns. nkey (ns ! i) = TNil"
proof (rule ccontr)
  assume "\<not> ?thesis"
  then have all: "\<And>i. i < length ns \<Longrightarrow> nkey (ns ! i) \<noteq> TNil" by blast
  then have "inj_on (\<lambda>i. nkey (ns ! i)) {..<length ns}" using keys_okD(2) [OF assms(2)] by (auto intro!: inj_onI)
  then have "card ((\<lambda>i. nkey (ns ! i)) ` {..<length ns}) = length ns" by (simp add: card_image)
  moreover have "(\<lambda>i. nkey (ns ! i)) ` {..<length ns} = hkeys ns" using all by (auto simp: hkeys_iff image_iff)
  ultimately show False using assms(1) by simp
qed

section \<open>The hash part of a table\<close>

definition hash_ok :: "(uint32 \<Rightarrow> uint32) \<Rightarrow> ltab \<Rightarrow> bool" where
  "hash_ok sh t \<longleftrightarrow>
     node t \<noteq> [] \<and> length (node t) \<le> 2 ^ LJ_MAX_HBITS \<and> chains_ok (hashkey sh (hmask t)) (node t) \<and>
     (if hmask t = 0 then node t = [empty_node] \<and> freetop t = 0 else free_ok t)"

text \<open>Key \<open>k\<close> has been given node \<open>n\<close>, which has no value yet; otherwise the contents are the same.\<close>

definition key_put :: "(uint32 \<Rightarrow> uint32) \<Rightarrow> ltab \<Rightarrow> tvalue \<Rightarrow> nat \<Rightarrow> ltab \<Rightarrow> bool" where
  "key_put sh t k n t' \<longleftrightarrow>
     hash_ok sh t' \<and> array t' = array t \<and> nomm t' = nomm t \<and> length (node t') = length (node t) \<and> n < length (node t') \<and>
     nkey (node t' ! n) = k \<and> nval (node t' ! n) = TNil \<and> (\<forall>x. x \<noteq> TNil \<longrightarrow> hval (node t') x = hval (node t) x) \<and>
     hkeys (node t') \<subseteq> insert k (hkeys (node t))"

lemma key_putI:
  assumes ok: "hash_ok sh t" and hm: "hmask t \<noteq> 0" and t': "t' = t\<lparr>node := ns', freetop := f\<rparr>" and len: "length ns' = length (node t)"
    and chains: "chains_ok (hashkey sh (hmask t)) ns'" and n: "n < length (node t)" "nkey (ns' ! n) = k" "nval (ns' ! n) = TNil"
    and k: "k \<noteq> TNil" "k \<notin> nkey ` set (node t)"
    and old: "\<And>i. i < length (node t) \<Longrightarrow> i \<noteq> n \<Longrightarrow>
        g i < length (node t) \<and> nkey (ns' ! i) = nkey (node t ! g i) \<and> nval (ns' ! i) = nval (node t ! g i)"
    and all: "\<And>j. j < length (node t) \<Longrightarrow> nval (node t ! j) \<noteq> TNil \<Longrightarrow> \<exists>i<length (node t). i \<noteq> n \<and> g i = j"
    and free: "f \<le> length (node t)" "\<And>i. f \<le> i \<Longrightarrow> i < length (node t) \<Longrightarrow> i \<noteq> n \<Longrightarrow> nkey (node t ! g i) \<noteq> TNil"
  shows "key_put sh t k n t'"
proof -
  have K: "keys_ok (node t)" "keys_ok ns'" using ok chains by (simp_all add: hash_ok_def chains_ok_def)
  have fields: "node t' = ns'" "freetop t' = f" "array t' = array t" "nomm t' = nomm t" "hmask t' = hmask t"
    using t' len by (simp_all add: hmask_def)
  have "free_ok t'"
    unfolding free_ok_def fields len
  proof (intro conjI allI impI)
    fix i assume i: "f \<le> i" "i < length (node t)"
    show "nkey (ns' ! i) \<noteq> TNil" using free(2) [OF i] old [OF i(2)] n(2) k(1) by (cases "i = n") auto
  qed (rule free(1))
  moreover have "ns' \<noteq> []" using len n(1) by auto
  ultimately have "hash_ok sh t'" using ok chains hm fields len by (simp add: hash_ok_def)
  moreover have "hval ns' x = hval (node t) x" if "x \<noteq> TNil" for x
    by (rule hval_put [OF K len n(1,3,2) k(2,1) old all that])
  moreover have "hkeys ns' \<subseteq> insert k (hkeys (node t))"
  proof
    fix x assume "x \<in> hkeys ns'"
    then obtain i where i: "i < length (node t)" "nkey (ns' ! i) = x" "x \<noteq> TNil" using len by (auto simp: hkeys_iff)
    show "x \<in> insert k (hkeys (node t))"
      using i old [OF i(1)] n(2) by (cases "i = n") (auto simp: hkeys_iff)
  qed
  ultimately show ?thesis using fields len n by (simp add: key_put_def)
qed

lemma tvisnil_iff [simp]: "tvisnil x \<longleftrightarrow> x = TNil"
  by (cases x) simp_all

text \<open>There is room: the main position is unused, or a node is free.\<close>

lemma newkey_unused:
  assumes ok: "hash_ok sh t" and hm: "hmask t \<noteq> 0" and k: "canon k \<noteq> TNil" "canon k \<notin> hkeys (node t)"
    and v: "nval (node t ! hashkey sh (hmask t) k) = TNil"
  shows "\<exists>n t'. lj_tab_newkey sh (Suc d) t k = Some (Inr (Hsh n, t')) \<and> key_put sh t (canon k) n t'"
proof -
  let ?n = "hashkey sh (hmask t) k" let ?ns = "upd_node ?n (\<lambda>x. x\<lparr>nkey := canon k\<rparr>) (node t)"
  have size: "length (node t) = Suc (hmask t)" using ok by (cases "node t") (auto simp: hash_ok_def hmask_def)
  have n: "?n < length (node t)" using hash_main.main_less [of sh "hmask t" k] size by simp
  have fresh: "canon k \<notin> nkey ` set (node t)" using k by (auto simp: hkeys_def)
  have C: "chains_ok (hashkey sh (hmask t)) (node t)" using ok by (simp add: hash_ok_def)
  have C': "chains_ok (hashkey sh (hmask t)) ?ns"
    using hash_main.overwrite_ok [OF C size n, of "canon k"] k(1) fresh v by simp
  have "key_put sh t (canon k) ?n (t\<lparr>node := ?ns, freetop := freetop t\<rparr>)"
  proof (rule key_putI [OF ok hm refl _ C' n _ _ k(1) fresh, where g = id])
    show "\<exists>i<length (node t). i \<noteq> ?n \<and> id i = j" if "j < length (node t)" "nval (node t ! j) \<noteq> TNil" for j
      using that v by (intro exI [of _ j]) auto
  qed (use ok hm n v in \<open>auto simp: upd_node_def hash_ok_def free_ok_def\<close>)
  moreover have "lj_tab_newkey sh (Suc d) t k = Some (Inr (Hsh ?n, t\<lparr>node := ?ns, freetop := freetop t\<rparr>))"
    using v hm by (simp add: put_key_def Let_def)
  ultimately show ?thesis by blast
qed

lemma upd_node_nth: "j < length ns \<Longrightarrow> upd_node j g ns ! i = (if i = j then g (ns ! j) else ns ! i)"
  by (simp add: upd_node_def)

lemma length_upd_node [simp]: "length (upd_node j g ns) = length ns"
  by (simp add: upd_node_def)

lemma newkey_behind:
  assumes ok: "hash_ok sh t" and hm: "hmask t \<noteq> 0" and k: "canon k \<noteq> TNil" "canon k \<notin> hkeys (node t)"
    and v: "nval (node t ! hashkey sh (hmask t) k) \<noteq> TNil" and f: "find_free (node t) (freetop t) = Some f"
    and main: "hashkey sh (hmask t) (nkey (node t ! hashkey sh (hmask t) k)) = hashkey sh (hmask t) k"
  shows "\<exists>n t'. lj_tab_newkey sh (Suc d) t k = Some (Inr (Hsh n, t')) \<and> key_put sh t (canon k) n t'"
proof -
  let ?n = "hashkey sh (hmask t) k"
  define ns' where "ns' = upd_node f (\<lambda>x. x\<lparr>nkey := canon k\<rparr>) (upd_node ?n (\<lambda>x. x\<lparr>nnext := Some f\<rparr>)
      (upd_node f (\<lambda>x. x\<lparr>nnext := nnext (node t ! ?n)\<rparr>) (node t)))"
  have size: "length (node t) = Suc (hmask t)" using ok by (cases "node t") (auto simp: hash_ok_def hmask_def)
  have n: "?n < length (node t)" using hash_main.main_less [of sh "hmask t" k] size by simp
  have fresh: "canon k \<notin> nkey ` set (node t)" using k by (auto simp: hkeys_def)
  have C: "chains_ok (hashkey sh (hmask t)) (node t)" "free_ok t" using ok hm by (simp_all add: hash_ok_def)
  have nkey: "nkey (node t ! ?n) \<noteq> TNil" using C(1) keys_okD(1) [of "node t" ?n] n v by (auto simp: chains_ok_def)
  have F: "f < freetop t" "nkey (node t ! f) = TNil" "\<And>j. f < j \<Longrightarrow> j < freetop t \<Longrightarrow> nkey (node t ! j) \<noteq> TNil"
    using find_free_some [OF f] by auto
  have fl: "f < length (node t)" using F(1) C(2) by (simp add: free_ok_def)
  have nf: "?n \<noteq> f" using nkey F(2) by auto
  have nth: "ns' ! i = (if i = f then (node t ! f)\<lparr>nnext := nnext (node t ! ?n), nkey := canon k\<rparr>
      else if i = ?n then (node t ! ?n)\<lparr>nnext := Some f\<rparr> else node t ! i)" for i
    using n fl nf by (simp add: ns'_def upd_node_nth)
  have len: "length ns' = length (node t)" by (simp add: ns'_def)
  have C': "chains_ok (hashkey sh (hmask t)) ns'"
    by (rule hash_main.behind_ok [OF C(1) size n nkey main _ fl F(2) k(1) fresh len nth]) simp
  have val: "nval (node t ! f) = TNil" using C(1) keys_okD(1) [of "node t" f] fl F(2) by (simp add: chains_ok_def)
  have "key_put sh t (canon k) f (t\<lparr>node := ns', freetop := f\<rparr>)"
  proof (rule key_putI [OF ok hm refl len C' fl _ _ k(1) fresh, where g = id])
    show "\<exists>i<length (node t). i \<noteq> f \<and> id i = j" if "j < length (node t)" "nval (node t ! j) \<noteq> TNil" for j
      using that val by (intro exI [of _ j]) auto
    show "nkey (node t ! id i) \<noteq> TNil" if "f \<le> i" "i < length (node t)" "i \<noteq> f" for i
      using that F(3) [of i] C(2) by (cases "i < freetop t") (auto simp: free_ok_def)
  qed (use fl val in \<open>auto simp: nth\<close>)
  moreover have "lj_tab_newkey sh (Suc d) t k = Some (Inr (Hsh f, t\<lparr>node := ns', freetop := f\<rparr>))"
    using v hm f main by (simp add: put_key_def resolve_def size ns'_def Let_def)
  ultimately show ?thesis by blast
qed

lemma newkey_move:
  assumes ok: "hash_ok sh t" and hm: "hmask t \<noteq> 0" and k: "canon k \<noteq> TNil" "canon k \<notin> hkeys (node t)"
    and v: "nval (node t ! hashkey sh (hmask t) k) \<noteq> TNil" and f: "find_free (node t) (freetop t) = Some f"
    and main: "hashkey sh (hmask t) (nkey (node t ! hashkey sh (hmask t) k)) \<noteq> hashkey sh (hmask t) k"
  shows "\<exists>n t'. lj_tab_newkey sh (Suc d) t k = Some (Inr (Hsh n, t')) \<and> key_put sh t (canon k) n t'"
proof -
  let ?mn = "hashkey sh (hmask t)" let ?n = "?mn k" let ?ns = "node t"
  have size: "length ?ns = Suc (hmask t)" using ok by (cases "node t") (auto simp: hash_ok_def hmask_def)
  have less: "?mn x < length ?ns" for x using hash_main.main_less [of sh "hmask t" x] size by simp
  note n = less [of k]
  have fresh: "canon k \<notin> nkey ` set ?ns" using k by (auto simp: hkeys_def)
  have C: "chains_ok ?mn ?ns" "free_ok t" using ok hm by (simp_all add: hash_ok_def)
  have O: "links_ok ?ns" "keys_ok ?ns" "main_ok ?mn ?ns" using C(1) by (simp_all add: chains_ok_def)
  have nkey: "nkey (?ns ! ?n) \<noteq> TNil" using keys_okD(1) [OF O(2) n] v by auto
  have F: "f < freetop t" "nkey (?ns ! f) = TNil" "\<And>j. f < j \<Longrightarrow> j < freetop t \<Longrightarrow> nkey (?ns ! j) \<noteq> TNil"
    using find_free_some [OF f] by auto
  have fl: "f < length ?ns" using F(1) C(2) by (simp add: free_ok_def)
  have nf: "?n \<noteq> f" using nkey F(2) by auto
  obtain p where p: "find_pred ?ns (?mn (nkey (?ns ! ?n))) ?n = Some p" "p < length ?ns" "nnext (?ns ! p) = Some ?n"
    using find_pred_spec [OF O(1) less main_okD(1) [OF O(3) n nkey] main] by blast
  have pn: "p \<noteq> ?n" using links_okD(4) [OF O(1) p(2,3)] by simp
  have pf: "p \<noteq> f" using links_ok_nil_next [OF O(1) fl F(2)] p(3) by auto
  define ns1 where "ns1 = upd_node ?n (\<lambda>x. x\<lparr>nnext := None, nval := TNil\<rparr>) (upd_node f (\<lambda>x. x\<lparr>nval := nval (?ns ! ?n), nkey := nkey (?ns ! ?n),
      nnext := nnext (?ns ! ?n)\<rparr>) (upd_node p (\<lambda>x. x\<lparr>nnext := Some f\<rparr>) ?ns))"
  have nth1: "ns1 ! i = (if i = ?n then (?ns ! ?n)\<lparr>nnext := None, nval := TNil\<rparr>
        else if i = f then (?ns ! f)\<lparr>nval := nval (?ns ! ?n), nkey := nkey (?ns ! ?n), nnext := nnext (?ns ! ?n)\<rparr>
        else if i = p then (?ns ! p)\<lparr>nnext := Some f\<rparr> else ?ns ! i)" for i
    using n fl p(2) nf pn pf by (simp add: ns1_def upd_node_nth)
  have len1: "length ns1 = length ?ns" by (simp add: ns1_def)
  have L1: "links_ok ns1"
    by (rule links_ok_move [OF O(1) n nkey p(2,3) fl F(2) nkey len1]) (simp_all add: nth1)
  have nomain: "?mn (nkey (ns1 ! j)) \<noteq> ?n" if "j < length ?ns" "nkey (ns1 ! j) \<noteq> TNil" for j
    using main_okD(2) [OF O(3) n nkey that(1) main] that(2) main by (auto simp: nth1 split: if_splits)
  have re: "rechain sh ?n f ns1 = Some ns1"
    using nomain len1 fl size by (intro rechain_none [OF L1]) (auto simp: len1 size)
  define ns' where "ns' = upd_node ?n (\<lambda>x. x\<lparr>nkey := canon k\<rparr>) ns1"
  have nth: "ns' ! i = (if i = ?n then (?ns ! ?n)\<lparr>nnext := None, nval := TNil, nkey := canon k\<rparr>
        else if i = f then (?ns ! f)\<lparr>nval := nval (?ns ! ?n), nkey := nkey (?ns ! ?n), nnext := nnext (?ns ! ?n)\<rparr>
        else if i = p then (?ns ! p)\<lparr>nnext := Some f\<rparr> else ?ns ! i)" for i
    using n len1 by (simp add: ns'_def upd_node_nth nth1)
  have len: "length ns' = length ?ns" using len1 by (simp add: ns'_def)
  have C': "chains_ok ?mn ns'"
    by (rule hash_main.move_ok [OF C(1) size n nkey main _ p(2,3) fl F(2) k(1) fresh len nth]) simp
  have "key_put sh t (canon k) ?n (t\<lparr>node := ns', freetop := f\<rparr>)"
  proof (rule key_putI [OF ok hm refl len C' n _ _ k(1) fresh, where g = "\<lambda>i. if i = f then ?n else i"])
    show "\<exists>i<length ?ns. i \<noteq> ?n \<and> (if i = f then ?n else i) = j" if "j < length ?ns" "nval (?ns ! j) \<noteq> TNil" for j
      using that keys_okD(1) [OF O(2) fl F(2)] fl nf by (intro exI [of _ "if j = ?n then f else j"]) auto
    show "nkey (?ns ! (if i = f then ?n else i)) \<noteq> TNil" if "f \<le> i" "i < length ?ns" "i \<noteq> ?n" for i
      using that F(3) [of i] C(2) nkey by (cases "i < freetop t"; cases "i = f") (auto simp: free_ok_def)
  qed (use fl n in \<open>auto simp: nth\<close>)
  moreover have "resolve sh ?n f ?ns = Some (?n, ns1)"
    using main p(1) re nf pn pf n fl p(2) by (simp add: resolve_def size Let_def ns1_def upd_node_nth)
  then have "lj_tab_newkey sh (Suc d) t k = Some (Inr (Hsh ?n, t\<lparr>node := ns', freetop := f\<rparr>))"
    using v hm f by (simp add: put_key_def ns'_def Let_def)
  ultimately show ?thesis by blast
qed

lemma newkey_room:
  assumes "hash_ok sh t" and "hmask t \<noteq> 0" and "canon k \<noteq> TNil" and "canon k \<notin> hkeys (node t)"
    and "nval (node t ! hashkey sh (hmask t) k) = TNil \<or> find_free (node t) (freetop t) \<noteq> None"
  shows "\<exists>n t'. lj_tab_newkey sh (Suc d) t k = Some (Inr (Hsh n, t')) \<and> key_put sh t (canon k) n t'"
  using newkey_unused [OF assms(1-4)] newkey_behind [OF assms(1-4)] newkey_move [OF assms(1-4)] assms(5) by blast

end
