(* ===== verification/Lj_Table.thy ===== *)
theory Lj_Table
  imports Lj_Chain
begin

text \<open>
  Lua tables as maps: what the getters return, what storing a value changes, and that
  growing and rehashing a table, which moves its values between the array part and
  the hash part, loses nothing.
\<close>

section \<open>Tables as maps\<close>

definition arr_key :: "nat \<Rightarrow> tvalue \<Rightarrow> bool" where
  "arr_key n k \<longleftrightarrow> (case int_key k of None \<Rightarrow> False | Some i \<Rightarrow> nat (i mod 2 ^ 32) < n)"

definition arr_index :: "tvalue \<Rightarrow> nat" where
  "arr_index k = nat (the (int_key k) mod 2 ^ 32)"

definition tab_ok :: "(uint32 \<Rightarrow> uint32) \<Rightarrow> ltab \<Rightarrow> bool" where
  "tab_ok sh t \<longleftrightarrow> hash_ok sh t \<and> length (array t) \<le> LJ_MAX_ASIZE \<and>
     (\<forall>k\<in>hkeys (node t). proper_key k \<and> canon k = k \<and> \<not> arr_key (length (array t)) k)"

text \<open>The value of a key.\<close>

definition tab_val :: "ltab \<Rightarrow> tvalue \<Rightarrow> tvalue" where
  "tab_val t k =
     (if \<not> proper_key k then TNil
      else if arr_key (length (array t)) k then array t ! arr_index k
      else hval (node t) (canon k))"

lemma arr_key_canon [simp]: "arr_key n (canon k) = arr_key n k" "arr_index (canon k) = arr_index k"
  by (simp_all add: arr_key_def arr_index_def)

lemma tab_val_canon [simp]: "tab_val t (canon k) = tab_val t k"
  by (simp add: tab_val_def)

lemma arr_key_index: "arr_key n k \<Longrightarrow> arr_index k < n"
  by (auto simp: arr_key_def arr_index_def split: option.splits)

lemma proper_not_nil: "proper_key k \<Longrightarrow> canon k \<noteq> TNil"
  by (auto simp: proper_key_def canon_def split: tvalue.splits)

text \<open>The array index determines the key.\<close>

lemma arr_index_key:
  assumes "arr_key n k" and "n \<le> LJ_MAX_ASIZE"
  shows "canon k = key_of_int (int (arr_index k))"
proof -
  obtain i where i: "int_key k = Some i" "nat (i mod 2 ^ 32) < n"
    using assms(1) by (auto simp: arr_key_def split: option.splits)
  have r: "- (2 ^ 31) \<le> i" "i < 2 ^ 31" using int_key_range [OF i(1)] by auto
  have "0 \<le> i"
  proof (rule ccontr)
    assume "\<not> 0 \<le> i"
    then have "i mod 2 ^ 32 = i + 2 ^ 32" using r by (intro int_mod_pos_eq [of _ _ "- 1"]) auto
    then show False using i(2) assms(2) r(1) by simp
  qed
  then have "int (arr_index k) = i" using i(1) r(2) by (simp add: arr_index_def)
  then show ?thesis using int_key_canon [OF i(1)] by simp
qed

lemma arr_key_of_int:
  assumes "i \<le> LJ_MAX_ASIZE"
  shows "arr_key n (key_of_int (int i)) \<longleftrightarrow> i < n" and "arr_index (key_of_int (int i)) = i"
    and "proper_key (key_of_int (int i))" and "canon (key_of_int (int i)) = key_of_int (int i)"
proof -
  have "int i < 2 ^ 31" using assms by simp
  note k = key_of_int_props [of "int i", OF _ this]
  have "int i mod 2 ^ 32 = int i" using assms by simp
  then show "arr_key n (key_of_int (int i)) \<longleftrightarrow> i < n" "arr_index (key_of_int (int i)) = i"
    using k(1) by (simp_all add: arr_key_def arr_index_def)
  show "proper_key (key_of_int (int i))" "canon (key_of_int (int i)) = key_of_int (int i)" using k by simp_all
qed

section \<open>Looking up\<close>

lemma find_as_key:
  "find_int t i = find_key sh t (key_of_int i)" "find_str sh t s = find_key sh t (TStr s)"
proof -
  have "is_num u = (\<lambda>x. lj_obj_equal x (TNum u))" "is_str s = (\<lambda>x. lj_obj_equal x (TStr s))" for u
    by (auto simp: fun_eq_iff is_num_def is_str_def lj_obj_equal_def split: tvalue.splits)
  then show "find_int t i = find_key sh t (key_of_int i)" "find_str sh t s = find_key sh t (TStr s)"
    by (simp_all add: find_int_def find_str_def find_key_def key_of_int_def hashkey_def)
qed

lemma tab_okD:
  assumes "tab_ok sh t"
  shows "hash_ok sh t" and "length (array t) \<le> LJ_MAX_ASIZE" and "links_ok (node t)" and "keys_ok (node t)"
    and "main_ok (hashkey sh (hmask t)) (node t)" and "length (node t) = Suc (hmask t)"
    and "\<And>k. k \<in> hkeys (node t) \<Longrightarrow> proper_key k \<and> canon k = k \<and> \<not> arr_key (length (array t)) k"
  using assms by (auto simp: tab_ok_def hash_ok_def chains_ok_def hmask_def)

lemma find_key_spec:
  assumes ok: "tab_ok sh t" and k: "proper_key k"
  shows "\<exists>r. find_key sh t k = Some r \<and>
    (case r of None \<Rightarrow> canon k \<notin> hkeys (node t) | Some n \<Rightarrow> n < length (node t) \<and> nkey (node t ! n) = canon k)"
proof -
  note D = tab_okD [OF ok]
  have less: "hashkey sh (hmask t) k < length (node t)" using hash_main.main_less [of sh "hmask t" k] D(6) by simp
  have eq: "lj_obj_equal (nkey (node t ! j)) k \<longleftrightarrow> nkey (node t ! j) = canon k" if "j < length (node t)" for j
  proof (cases "nkey (node t ! j) = TNil")
    case True
    then show ?thesis using lj_obj_equal_canon [OF k] proper_not_nil [OF k] by (auto simp: proper_key_def)
  next
    case False
    then have "nkey (node t ! j) \<in> hkeys (node t)" using that by (auto simp: hkeys_iff)
    then show ?thesis using lj_obj_equal_canon [OF k] D(7) by auto
  qed
  obtain r where r: "find_key sh t k = Some r"
      "case r of None \<Rightarrow> \<forall>j. reach (node t) (hashkey sh (hmask t) k) j \<longrightarrow> \<not> lj_obj_equal (nkey (node t ! j)) k
       | Some j \<Rightarrow> j < length (node t) \<and> lj_obj_equal (nkey (node t ! j)) k"
    using find_node_spec [OF D(3) less, of "\<lambda>x. lj_obj_equal x k"] unfolding find_key_def by blast
  have "canon k \<notin> hkeys (node t)" if "r = None"
  proof
    assume "canon k \<in> hkeys (node t)"
    then obtain j where j: "j < length (node t)" "nkey (node t ! j) = canon k" "nkey (node t ! j) \<noteq> TNil" by (auto simp: hkeys_iff)
    have "reach (node t) (hashkey sh (hmask t) k) j" using main_okD(1) [OF D(5) j(1,3)] j(2) by simp
    then have "\<not> lj_obj_equal (nkey (node t ! j)) k" using r(2) that by simp
    then show False using eq [OF j(1)] j(2) by blast
  qed
  then show ?thesis using r eq by (cases r) auto
qed

lemma hval_key: "keys_ok ns \<Longrightarrow> i < length ns \<Longrightarrow> nkey (ns ! i) = k \<Longrightarrow> k \<noteq> TNil \<Longrightarrow> hval ns k = nval (ns ! i)"
  using hval_nth by blast

lemma find_key_val:
  assumes "tab_ok sh t" and "proper_key k"
  shows "map_option (\<lambda>r. or_nil (map_option (\<lambda>n. nval (node t ! n)) r)) (find_key sh t k) = Some (hval (node t) (canon k))"
proof -
  obtain r where r: "find_key sh t k = Some r"
      "case r of None \<Rightarrow> canon k \<notin> hkeys (node t) | Some n \<Rightarrow> n < length (node t) \<and> nkey (node t ! n) = canon k"
    using find_key_spec [OF assms] by blast
  note nn = proper_not_nil [OF assms(2)]
  show ?thesis
  proof (cases r)
    case None
    then show ?thesis using r hval_none [OF _ nn] by (simp add: or_nil_def)
  next
    case (Some n)
    then have n: "n < length (node t)" "nkey (node t ! n) = canon k" using r by simp_all
    show ?thesis using r(1) Some hval_key [OF tab_okD(4) [OF assms(1)] n nn] by (simp add: or_nil_def)
  qed
qed

lemma inarray_key: "int_key k = Some i \<Longrightarrow> inarray t i \<longleftrightarrow> arr_key (length (array t)) k"
  by (simp add: inarray_def arr_key_def)

lemma lj_tab_get_spec:
  assumes ok: "tab_ok sh t"
  shows "lj_tab_get sh t k = Some (tab_val t k)"
proof (cases "proper_key k")
  case False
  show ?thesis
  proof (cases k)
    case (TNum n)
    then have nan: "num_isnan n" using False by (simp add: proper_key_def tvisnan_isnan)
    then have none: "lj_obj_equal x k = False" for x using TNum by (cases x) (simp_all add: lj_obj_equal_def num_eq_def)
    note D = tab_okD [OF ok]
    have less: "hashkey sh (hmask t) k < length (node t)" using hash_main.main_less [of sh "hmask t" k] D(6) by simp
    have "find_key sh t k = Some None"
      using find_node_spec [OF D(3) less, of "\<lambda>x. lj_obj_equal x k"] unfolding find_key_def none by (auto split: option.splits)
    then show ?thesis using False TNum nan by (simp add: lj_tab_get_def gen_get_def num_eq_def tab_val_def or_nil_def Let_def)
  qed (use False in \<open>simp_all add: proper_key_def lj_tab_get_def tab_val_def\<close>)
next
  case proper: True
  note V = find_key_val [OF ok]
  have gen: "gen_get sh t k = Some (hval (node t) (canon k))" using V [OF proper] by (simp add: gen_get_def)
  show ?thesis
  proof (cases k)
    case (TNum n)
    show ?thesis
    proof (cases "num_eq n (num_of_int (lj_num2int n))")
      case True
      then have ik: "int_key k = Some (lj_num2int n)" using TNum by (simp add: int_key_def num_int_def)
      then have c: "canon k = key_of_int (lj_num2int n)" by (rule int_key_canon)
      have "map_option or_nil (lj_tab_getinth t (lj_num2int n)) = Some (hval (node t) (canon k))"
        using V [of "canon k"] proper by (simp add: lj_tab_getinth_def find_as_key(1) [of _ _ sh] option.map_comp comp_def c [symmetric])
      then show ?thesis
        using TNum True proper ik inarray_key [OF ik, of t]
        by (simp add: lj_tab_get_def tab_val_def Let_def lj_tab_getint_def arr_index_def or_nil_def)
    next
      case False
      then have "\<not> arr_key n' k" for n' using TNum by (simp add: arr_key_def int_key_def num_int_def)
      then show ?thesis using TNum False proper gen by (simp add: lj_tab_get_def tab_val_def)
    qed
  next
    case (TStr s)
    then have "lj_tab_get sh t k = Some (hval (node t) (canon k))"
      using V [OF proper] by (simp add: lj_tab_get_def lj_tab_getstr_def find_as_key(2) option.map_comp comp_def)
    then show ?thesis using TStr proper by (simp add: tab_val_def arr_key_def int_key_def)
  qed (use proper gen in \<open>simp_all add: lj_tab_get_def tab_val_def arr_key_def int_key_def proper_key_def\<close>)
qed

section \<open>Storing into a slot\<close>

definition slot_for :: "ltab \<Rightarrow> tab_slot \<Rightarrow> tvalue \<Rightarrow> bool" where
  "slot_for t s k \<longleftrightarrow>
     (case s of
        Arr i \<Rightarrow> arr_key (length (array t)) k \<and> i = arr_index k
      | Hsh n \<Rightarrow> \<not> arr_key (length (array t)) k \<and> n < length (node t) \<and> nkey (node t ! n) = canon k)"

definition val_set :: "tvalue \<Rightarrow> tvalue \<Rightarrow> ltab \<Rightarrow> ltab \<Rightarrow> bool" where
  "val_set k v t t' \<longleftrightarrow> (\<forall>x. proper_key x \<longrightarrow> tab_val t' x = (if canon x = canon k then v else tab_val t x))"

lemma hval_upd:
  assumes "keys_ok ns" and "n < length ns" and "nkey (ns ! n) \<noteq> TNil" and "x \<noteq> TNil"
  shows "hval (upd_node n (\<lambda>y. y\<lparr>nval := v\<rparr>) ns) x = (if x = nkey (ns ! n) then v else hval ns x)"
proof -
  let ?ns = "upd_node n (\<lambda>y. y\<lparr>nval := v\<rparr>) ns"
  have key: "nkey (?ns ! i) = nkey (ns ! i)" for i using assms(2) by (auto simp: upd_node_nth)
  have ok: "keys_ok ?ns"
    by (rule keys_okI; simp only: key length_upd_node) (use keys_okD [OF assms(1)] assms(2,3) in \<open>auto simp: upd_node_nth\<close>)
  show ?thesis
  proof (cases "x \<in> hkeys ns")
    case True
    then obtain i where i: "i < length ns" "nkey (ns ! i) = x" by (auto simp: hkeys_iff)
    have "hval ?ns x = nval (?ns ! i)" using i by (intro hval_key [OF ok _ _ assms(4)]) (simp_all add: key)
    moreover have "hval ns x = nval (ns ! i)" by (rule hval_key [OF assms(1) i assms(4)])
    moreover have "n = i" if "x = nkey (ns ! n)"
      by (rule keys_okD(2) [OF assms(1,2) i(1) assms(3)]) (use that i(2) in simp)
    then have "x = nkey (ns ! n) \<longleftrightarrow> i = n" using i(2) by blast
    ultimately show ?thesis using assms(2) by (simp add: upd_node_nth)
  next
    case False
    moreover from False have "x \<notin> hkeys ?ns" using assms(2) by (auto simp: hkeys_iff key)
    moreover have "x \<noteq> nkey (ns ! n)" using False assms(2,4) by (auto simp: hkeys_iff)
    ultimately show ?thesis using assms(4) by (simp add: hval_none)
  qed
qed

lemma hash_ok_val:
  assumes ok: "hash_ok sh t" and n: "n < length (node t)" "nkey (node t ! n) \<noteq> TNil"
  shows "hash_ok sh (set_slot (Hsh n) v t)" and "hkeys (node (set_slot (Hsh n) v t)) = hkeys (node t)"
proof -
  let ?t = "set_slot (Hsh n) v t" let ?mn = "hashkey sh (hmask t)"
  have C: "links_ok (node t)" "keys_ok (node t)" "main_ok ?mn (node t)" using ok by (simp_all add: hash_ok_def chains_ok_def)
  have key: "nkey (node ?t ! i) = nkey (node t ! i)" and nx: "nnext (node ?t ! i) = nnext (node t ! i)" for i
    using n(1) by (auto simp: upd_node_nth)
  have len: "length (node ?t) = length (node t)" by simp
  have reach: "reach (node ?t) i j" if "reach (node t) i j" for i j
    using that by (induction rule: reach.induct) (auto intro: reach.intros simp only: nx [symmetric])
  obtain rank :: "nat \<Rightarrow> nat" where r: "\<And>i j. i < length (node t) \<Longrightarrow> nnext (node t ! i) = Some j \<Longrightarrow> rank j < rank i"
    using C(1) unfolding links_ok_def by blast
  have "links_ok (node ?t)"
    by (rule links_okI [where rank = rank]; simp only: len nx key) (use links_okD(1-3,5) [OF C(1)] r in blast)+
  moreover have "keys_ok (node ?t)"
    by (rule keys_okI; simp only: len key) (use keys_okD [OF C(2)] n in \<open>auto simp: upd_node_nth\<close>)
  moreover have "main_ok ?mn (node ?t)"
    by (rule main_okI; simp only: len key) (use main_okD [OF C(3)] reach in blast)+
  moreover have hm: "hmask ?t = hmask t" "freetop ?t = freetop t" by (simp_all add: hmask_def)
  moreover have nz: "hmask t \<noteq> 0" using ok n by (auto simp: hash_ok_def empty_node_def split: if_splits)
  moreover have "free_ok ?t" using ok nz unfolding free_ok_def len key hm by (simp add: hash_ok_def free_ok_def)
  moreover have "node ?t \<noteq> []" using n(1) by (auto simp: upd_node_def)
  ultimately show "hash_ok sh ?t" using ok unfolding hash_ok_def chains_ok_def by simp
  show "hkeys (node ?t) = hkeys (node t)" by (simp only: set_eq_iff hkeys_iff key len simp_thms)
qed

lemma set_slot_spec:
  assumes ok: "tab_ok sh t" and k: "proper_key k" and s: "slot_for t s k"
  shows "tab_ok sh (set_slot s v t)" and "val_set k v t (set_slot s v t)"
    and "length (array (set_slot s v t)) = length (array t)" and "length (node (set_slot s v t)) = length (node t)"
    and "hkeys (node (set_slot s v t)) = hkeys (node t)"
proof -
  note D = tab_okD [OF ok]
  have "tab_ok sh (set_slot s v t) \<and> val_set k v t (set_slot s v t) \<and> length (array (set_slot s v t)) = length (array t) \<and>
    length (node (set_slot s v t)) = length (node t) \<and> hkeys (node (set_slot s v t)) = hkeys (node t)"
  proof (cases s)
    case (Arr i)
    then have i: "arr_key (length (array t)) k" "i = arr_index k" using s by (simp_all add: slot_for_def)
    have same: "arr_index x = i \<longleftrightarrow> canon x = canon k" if "arr_key (length (array t)) x" for x
      using arr_index_key [OF that D(2)] arr_index_key [OF i(1) D(2)] i(2) arr_key_canon(2) by metis
    have other: "canon x \<noteq> canon k" if "\<not> arr_key (length (array t)) x" for x
      using arr_key_canon(1) [of "length (array t)" x] arr_key_canon(1) [of "length (array t)" k] that i(1) by metis
    have "tab_val (set_slot s v t) x = (if canon x = canon k then v else tab_val t x)" if "proper_key x" for x
    proof (cases "arr_key (length (array t)) x")
      case True
      then show ?thesis
        using Arr same [OF True] arr_key_index [OF True] that True
        by (cases "arr_index x = i") (simp_all add: tab_val_def)
    next
      case False
      then show ?thesis using Arr other [OF False] by (simp add: tab_val_def)
    qed
    then have "val_set k v t (set_slot s v t)" by (simp add: val_set_def)
    moreover have "tab_ok sh (set_slot s v t)"
      using ok Arr by (simp add: tab_ok_def hash_ok_def free_ok_def hmask_def split: if_splits)
    ultimately show ?thesis using Arr by simp
  next
    case (Hsh n)
    then have n: "\<not> arr_key (length (array t)) k" "n < length (node t)" "nkey (node t ! n) = canon k" using s by (simp_all add: slot_for_def)
    have nn: "nkey (node t ! n) \<noteq> TNil" using n(3) proper_not_nil [OF k] by simp
    have H: "hash_ok sh (set_slot s v t)" "hkeys (node (set_slot s v t)) = hkeys (node t)"
      using hash_ok_val [OF D(1) n(2) nn] Hsh by blast+
    have arr: "array (set_slot s v t) = array t" using Hsh by simp
    have "tab_val (set_slot s v t) x = (if canon x = canon k then v else tab_val t x)" if "proper_key x" for x
    proof (cases "arr_key (length (array t)) x")
      case True
      then have "canon x \<noteq> canon k" using n(1) arr_key_canon(1) by metis
      then show ?thesis using True by (simp add: tab_val_def arr)
    next
      case False
      then show ?thesis
        using hval_upd [OF D(4) n(2) nn proper_not_nil [OF that]] n(3) that Hsh by (simp add: tab_val_def)
    qed
    moreover have "tab_ok sh (set_slot s v t)" using ok H arr by (simp add: tab_ok_def)
    ultimately show ?thesis using H(2) Hsh by (simp add: val_set_def)
  qed
  then show "tab_ok sh (set_slot s v t)" "val_set k v t (set_slot s v t)" "length (array (set_slot s v t)) = length (array t)"
    "length (node (set_slot s v t)) = length (node t)" "hkeys (node (set_slot s v t)) = hkeys (node t)" by simp_all
qed

declare lj_tab_newkey.simps(2) [simp del]

section \<open>Finding or making a slot\<close>

text \<open>\<open>slot_made\<close>: the table has a slot for the key, and the values of all keys are as before.\<close>

definition slot_made :: "(uint32 \<Rightarrow> uint32) \<Rightarrow> ltab \<Rightarrow> tvalue \<Rightarrow> tab_slot \<Rightarrow> ltab \<Rightarrow> bool" where
  "slot_made sh t k s t' \<longleftrightarrow> tab_ok sh t' \<and> slot_for t' s k \<and> (\<forall>x. tab_val t' x = tab_val t x)"

definition same_shape :: "ltab \<Rightarrow> tvalue set \<Rightarrow> ltab \<Rightarrow> bool" where
  "same_shape t K t' \<longleftrightarrow> length (array t') = length (array t) \<and> length (node t') = length (node t) \<and>
     hkeys (node t') \<subseteq> hkeys (node t) \<union> K"

text \<open>The number of keys the hash part can hold.\<close>

definition room :: "ltab \<Rightarrow> nat" where
  "room t = (if hmask t = 0 then 0 else length (node t))"

definition key_arg :: "tvalue \<Rightarrow> tvalue" where
  "key_arg k = (if int_key k = None then k else canon k)"

lemma tab_set_proper:
  assumes "proper_key k"
  shows "tab_set sh nk t k = (let t = t\<lparr>nomm := 0\<rparr> in
    if arr_key (length (array t)) k then Some (Inr (Arr (arr_index k), t))
    else do {
      r \<leftarrow> find_key sh t k;
      (case r of Some n \<Rightarrow> Some (Inr (Hsh n, t)) | None \<Rightarrow> nk t (key_arg k))
    })"
proof (cases k)
  case (TNum n)
  show ?thesis
  proof (cases "num_eq n (num_of_int (lj_num2int n))")
    case True
    then have ik: "int_key k = Some (lj_num2int n)" using TNum by (simp add: int_key_def num_int_def)
    have c: "key_of_int (lj_num2int n) = key_arg k" using int_key_canon [OF ik] ik by (simp add: key_arg_def)
    have fk: "find_key sh t' (key_arg k) = find_key sh t' k" for t'
    proof -
      have "lj_obj_equal x (canon k) = lj_obj_equal x k" for x using lj_obj_equal_canon assms by simp
      then show ?thesis using ik by (simp add: find_key_def key_arg_def)
    qed
    show ?thesis
      using TNum True ik inarray_key [OF ik]
      by (simp add: tab_set_def Let_def lj_tab_setint_def lj_tab_setinth_def find_as_key(1) [of _ _ sh] c [unfolded TNum]
          fk [unfolded TNum] arr_index_def cong del: option.case_cong_weak)
  next
    case False
    then have "int_key k = None" using TNum by (simp add: int_key_def num_int_def)
    then show ?thesis
      using TNum False assms by (simp add: tab_set_def Let_def gen_set_def arr_key_def key_arg_def proper_key_def)
  qed
qed (use assms in \<open>simp_all add: proper_key_def tab_set_def Let_def gen_set_def lj_tab_setstr_def find_as_key arr_key_def int_key_def key_arg_def\<close>)

lemma key_arg_simps [simp]: "canon (key_arg k) = canon k" "hashkey sh hm (key_arg k) = hashkey sh hm k"
  by (simp_all add: key_arg_def)

lemma nomm_irrelevant [simp]:
  "tab_ok sh (t\<lparr>nomm := n\<rparr>) = tab_ok sh t" "tab_val (t\<lparr>nomm := n\<rparr>) = tab_val t" "hmask (t\<lparr>nomm := n\<rparr>) = hmask t"
  "hash_ok sh (t\<lparr>nomm := n\<rparr>) = hash_ok sh t" "slot_for (t\<lparr>nomm := n\<rparr>) = slot_for t"
  "room (t\<lparr>nomm := n\<rparr>) = room t"
  by (simp_all add: room_def fun_eq_iff tab_ok_def tab_val_def hash_ok_def hmask_def free_ok_def slot_for_def split: tab_slot.splits)

lemma key_put_tab:
  assumes ok: "tab_ok sh t" and k: "proper_key k" "\<not> arr_key (length (array t)) k" and put: "key_put sh t (canon k) n t'"
  shows "slot_made sh t k (Hsh n) t'" and "same_shape t {canon k} t'"
proof -
  have P: "hash_ok sh t'" "array t' = array t" "length (node t') = length (node t)" "n < length (node t')"
      "nkey (node t' ! n) = canon k" "\<And>x. x \<noteq> TNil \<Longrightarrow> hval (node t') x = hval (node t) x"
      "hkeys (node t') \<subseteq> insert (canon k) (hkeys (node t))"
    using put by (simp_all add: key_put_def)
  have "tab_val t' x = tab_val t x" for x
    using P(6) [OF proper_not_nil] by (simp add: tab_val_def P(2))
  moreover have "tab_ok sh t'"
    using ok P(1,2,7) k by (auto simp: tab_ok_def)
  ultimately show "slot_made sh t k (Hsh n) t'" using P k by (simp add: slot_made_def slot_for_def)
  show "same_shape t {canon k} t'" using P by (auto simp: same_shape_def)
qed

lemma room_free:
  assumes ok: "hash_ok sh t" and "card (hkeys (node t)) < room t"
  shows "hmask t \<noteq> 0" and "find_free (node t) (freetop t) \<noteq> None"
proof -
  show hm: "hmask t \<noteq> 0" using assms(2) by (simp add: room_def split: if_splits)
  have "card (hkeys (node t)) < length (node t)" using assms(2) hm by (simp add: room_def)
  then obtain i where i: "i < length (node t)" "nkey (node t ! i) = TNil"
    using card_hkeys_free ok by (auto simp: hash_ok_def chains_ok_def)
  then have "i < freetop t" using ok hm by (meson free_ok_def hash_ok_def not_le)
  then show "find_free (node t) (freetop t) \<noteq> None" using find_free_none i(2) by blast
qed

lemma find_or_new_room:
  assumes ok: "tab_ok sh t" and k: "proper_key k" "\<not> arr_key (length (array t)) k" and k': "canon k' = canon k"
    and space: "canon k \<in> hkeys (node t) \<or> card (hkeys (node t)) < room t"
  shows "\<exists>s t'. do {
      r \<leftarrow> find_key sh t k;
      (case r of Some n \<Rightarrow> Some (Inr (Hsh n, t)) | None \<Rightarrow> lj_tab_newkey sh (Suc d) t k')
    } = Some (Inr (s, t')) \<and> slot_made sh t k s t' \<and> same_shape t {canon k} t'"
proof -
  obtain r where r: "find_key sh t k = Some r"
      "case r of None \<Rightarrow> canon k \<notin> hkeys (node t) | Some n \<Rightarrow> n < length (node t) \<and> nkey (node t ! n) = canon k"
    using find_key_spec [OF ok k(1)] by blast
  show ?thesis
  proof (cases r)
    case (Some n)
    then show ?thesis using r ok k by (auto simp: slot_made_def slot_for_def same_shape_def)
  next
    case None
    then have new: "canon k' \<notin> hkeys (node t)" using r(2) k' by simp
    then have "card (hkeys (node t)) < room t" using space k' by simp
    note free = room_free [OF tab_okD(1) [OF ok] this]
    have nn: "canon k' \<noteq> TNil" using proper_not_nil [OF k(1)] k' by simp
    obtain n t' where n: "lj_tab_newkey sh (Suc d) t k' = Some (Inr (Hsh n, t'))" "key_put sh t (canon k) n t'"
      using newkey_room [OF tab_okD(1) [OF ok] free(1) nn new, of d] free(2) k' by auto
    then show ?thesis using r(1) None key_put_tab [OF ok k n(2)] by (intro exI [of _ "Hsh n"] exI [of _ t']) simp
  qed
qed

definition has_space :: "ltab \<Rightarrow> tvalue \<Rightarrow> bool" where
  "has_space t k \<longleftrightarrow> arr_key (length (array t)) k \<or> canon k \<in> hkeys (node t) \<or> card (hkeys (node t)) < room t"

definition hash_bound :: "nat \<Rightarrow> tvalue \<Rightarrow> tvalue set" where
  "hash_bound n k = (if arr_key n k then {} else {canon k})"

lemma tab_set_room:
  assumes ok: "tab_ok sh t" and k: "proper_key k" and space: "has_space t k"
  shows "\<exists>s t'. tab_set sh (lj_tab_newkey sh (Suc d)) t k = Some (Inr (s, t')) \<and> slot_made sh t k s t' \<and>
    same_shape t (hash_bound (length (array t)) k) t'"
proof (cases "arr_key (length (array t)) k")
  case True
  then show ?thesis
    using ok by (simp add: tab_set_proper [OF k] slot_made_def slot_for_def same_shape_def)
next
  case False
  let ?t = "t\<lparr>nomm := 0\<rparr>"
  have "tab_ok sh ?t" "\<not> arr_key (length (array ?t)) k" "canon k \<in> hkeys (node ?t) \<or> card (hkeys (node ?t)) < room ?t"
    using ok False space by (simp_all add: has_space_def)
  from find_or_new_room [OF this(1) k this(2) _ this(3), of "key_arg k" d] show ?thesis
    using False by (simp add: tab_set_proper [OF k] slot_made_def same_shape_def hash_bound_def Let_def)
qed

lemma setinth_room:
  assumes ok: "tab_ok sh t" and i: "length (array t) \<le> i" "i \<le> LJ_MAX_ASIZE" and space: "has_space t (key_of_int (int i))"
  shows "\<exists>s t'. lj_tab_setinth (lj_tab_newkey sh (Suc d)) t (int i) = Some (Inr (s, t')) \<and> slot_made sh t (key_of_int (int i)) s t' \<and>
    same_shape t (hash_bound (length (array t)) (key_of_int (int i))) t'"
proof -
  note K = arr_key_of_int [OF i(2)]
  have n: "\<not> arr_key (length (array t)) (key_of_int (int i))" using K(1) i(1) by simp
  show ?thesis
    using find_or_new_room [OF ok K(3) n refl, of d] space n
    by (simp add: lj_tab_setinth_def find_as_key(1) [of _ _ sh] has_space_def hash_bound_def)
qed

section \<open>Reinserting\<close>

fun insert_all :: "(ltab \<Rightarrow> tvalue \<Rightarrow> (tab_slot \<times> ltab) res) \<Rightarrow> (tvalue \<times> tvalue) list \<Rightarrow> ltab \<Rightarrow> ltab res" where
  "insert_all ins [] t = Some (Inr t)"
| "insert_all ins ((k, v) # kvs) t = bind_res (ins t k) (\<lambda>(s, t). insert_all ins kvs (set_slot s v t))"

text \<open>An insertion that succeeds on every table with an array part of size \<open>n\<close> that has space for the key.\<close>

definition inserts :: "(uint32 \<Rightarrow> uint32) \<Rightarrow> nat \<Rightarrow> (ltab \<Rightarrow> tvalue \<Rightarrow> (tab_slot \<times> ltab) res) \<Rightarrow> tvalue \<Rightarrow> bool" where
  "inserts sh n ins k \<longleftrightarrow> proper_key k \<and> canon k = k \<and> (\<forall>t. tab_ok sh t \<longrightarrow> length (array t) = n \<longrightarrow> has_space t k \<longrightarrow>
     (\<exists>s t'. ins t k = Some (Inr (s, t')) \<and> slot_made sh t k s t' \<and> same_shape t (hash_bound n k) t'))"

definition hash_cnt :: "nat \<Rightarrow> (tvalue \<times> tvalue) list \<Rightarrow> nat" where
  "hash_cnt n kvs = length (filter (\<lambda>(k, v). \<not> arr_key n k) kvs)"

lemma hash_cnt_simps [simp]:
  "hash_cnt n [] = 0" "hash_cnt n ((k, v) # kvs) = (if arr_key n k then hash_cnt n kvs else Suc (hash_cnt n kvs))"
  by (simp_all add: hash_cnt_def)

lemma finite_hkeys [simp]: "finite (hkeys ns)"
  by (simp add: hkeys_def)

lemma insert_all_spec:
  assumes "\<forall>(k, v)\<in>set kvs. inserts sh (length (array t)) ins k" and "distinct (map fst kvs)" and "tab_ok sh t"
    and "card (hkeys (node t)) + hash_cnt (length (array t)) kvs \<le> room t"
  shows "\<exists>t'. insert_all ins kvs t = Some (Inr t') \<and> tab_ok sh t' \<and> length (array t') = length (array t) \<and> room t' = room t \<and>
    card (hkeys (node t')) \<le> card (hkeys (node t)) + hash_cnt (length (array t)) kvs \<and>
    (\<forall>x. proper_key x \<longrightarrow> tab_val t' x = (case map_of kvs (canon x) of None \<Rightarrow> tab_val t x | Some v \<Rightarrow> v))"
  using assms
proof (induction kvs arbitrary: t)
  case Nil
  then show ?case by simp
next
  case (Cons kv kvs)
  obtain k v where kv: "kv = (k, v)" by fastforce
  let ?n = "length (array t)"
  have ins: "inserts sh ?n ins k" using Cons.prems(1) kv by simp
  then have k: "proper_key k" "canon k = k" by (simp_all add: inserts_def)
  have "has_space t k" using Cons.prems(4) kv by (auto simp: has_space_def split: if_splits)
  then obtain s K where K: "ins t k = Some (Inr (s, K))" "slot_made sh t k s K" "same_shape t (hash_bound ?n k) K"
    using ins Cons.prems(3) by (auto simp: inserts_def)
  have K2: "tab_ok sh K" "slot_for K s k" "\<And>x. tab_val K x = tab_val t x" using K(2) by (simp_all add: slot_made_def)
  let ?M = "set_slot s v K"
  note M = set_slot_spec [OF K2(1) k(1) K2(2), of v]
  have len: "length (array ?M) = ?n" "length (node ?M) = length (node t)" using M(3,4) K(3) by (simp_all add: same_shape_def)
  then have rm: "room ?M = room t" by (simp add: room_def hmask_def)
  have "card (hkeys (node ?M)) \<le> card (hkeys (node t) \<union> hash_bound ?n k)"
    using M(5) K(3) by (auto simp: same_shape_def hash_bound_def intro!: card_mono)
  also have "\<dots> \<le> card (hkeys (node t)) + (if arr_key ?n k then 0 else 1)"
    by (simp add: hash_bound_def card_insert_if)
  finally have c: "card (hkeys (node ?M)) + hash_cnt ?n kvs \<le> card (hkeys (node t)) + hash_cnt ?n (kv # kvs)"
    using kv by (simp split: if_splits)
  have p: "\<forall>(k, v)\<in>set kvs. inserts sh (length (array ?M)) ins k" "distinct (map fst kvs)" "tab_ok sh ?M"
      "card (hkeys (node ?M)) + hash_cnt (length (array ?M)) kvs \<le> room ?M"
    using Cons.prems c len rm kv M(1) by auto
  obtain t' where t': "insert_all ins kvs ?M = Some (Inr t')" "tab_ok sh t'" "length (array t') = ?n" "room t' = room t"
      "card (hkeys (node t')) \<le> card (hkeys (node ?M)) + hash_cnt ?n kvs"
      "\<And>x. proper_key x \<Longrightarrow> tab_val t' x = (case map_of kvs (canon x) of None \<Rightarrow> tab_val ?M x | Some v \<Rightarrow> v)"
    using Cons.IH [OF p] len rm by auto
  have new: "map_of kvs k = None" using Cons.prems(2) kv by (simp add: map_of_eq_None_iff)
  have "tab_val t' x = (case map_of (kv # kvs) (canon x) of None \<Rightarrow> tab_val t x | Some v \<Rightarrow> v)" if "proper_key x" for x
  proof (cases "canon x = k")
    case True
    then show ?thesis using t'(6) [OF that] M(2) that k new kv by (simp add: val_set_def)
  next
    case False
    then show ?thesis using t'(6) [OF that] M(2) that k K2(3) kv by (simp add: val_set_def split: option.splits)
  qed
  moreover have "insert_all ins (kv # kvs) t = Some (Inr t')" using kv K(1) t'(1) by (simp add: bind_res_def)
  ultimately show ?case using t'(2-5) c by (intro exI [of _ t']) simp
qed

definition node_pairs :: "lnode list \<Rightarrow> (tvalue \<times> tvalue) list" where
  "node_pairs ns = map (\<lambda>n. (nkey n, nval n)) (filter (\<lambda>n. nval n \<noteq> TNil) ns)"

fun arr_pairs :: "nat \<Rightarrow> tvalue list \<Rightarrow> (tvalue \<times> tvalue) list" where
  "arr_pairs i [] = []"
| "arr_pairs i (v # vs) = (if v = TNil then arr_pairs (Suc i) vs else (key_of_int (int i), v) # arr_pairs (Suc i) vs)"

lemma reinsert_nodes_all: "reinsert_nodes sh nk ns t = insert_all (tab_set sh nk) (node_pairs ns) t"
  by (induction ns arbitrary: t) (auto simp: node_pairs_def bind_res_def split: option.splits sum.splits prod.splits)

lemma reinsert_array_all:
  "i + length vs \<le> LJ_MAX_ASIZE \<Longrightarrow>
    reinsert_array nk i vs t = insert_all (\<lambda>t k. lj_tab_setinth nk t (int (arr_index k))) (arr_pairs i vs) t"
  by (induction vs arbitrary: i t) (auto simp: bind_res_def arr_key_of_int split: option.splits sum.splits prod.splits)

lemma arr_pairs_keys: "(k, v) \<in> set (arr_pairs i vs) \<Longrightarrow> \<exists>j. k = key_of_int (int j) \<and> i \<le> j \<and> j < i + length vs"
  by (induction vs arbitrary: i) (fastforce split: if_splits)+

lemma map_of_arr_pairs:
  assumes "i + length vs \<le> LJ_MAX_ASIZE" and "j \<le> LJ_MAX_ASIZE"
  shows "map_of (arr_pairs i vs) (key_of_int (int j)) = (if i \<le> j \<and> j < i + length vs \<and> vs ! (j - i) \<noteq> TNil then Some (vs ! (j - i)) else None)"
  using assms(1)
proof (induction vs arbitrary: i)
  case (Cons v vs)
  have inj: "key_of_int (int i) = key_of_int (int j) \<longleftrightarrow> i = j"
  proof
    assume "key_of_int (int i) = key_of_int (int j)"
    then have "arr_index (key_of_int (int i)) = arr_index (key_of_int (int j))" by (rule arg_cong)
    then show "i = j" using arr_key_of_int(2) [of i] arr_key_of_int(2) [OF assms(2)] Cons.prems by simp
  qed simp
  show ?case
    using Cons.IH [of "Suc i"] Cons.prems inj by (cases "i = j") (auto simp: nth_Cons' Suc_diff_le split: if_splits)
qed simp

lemma distinct_arr_pairs: "i + length vs \<le> LJ_MAX_ASIZE \<Longrightarrow> distinct (map fst (arr_pairs i vs))"
proof (induction vs arbitrary: i)
  case (Cons v vs)
  have "key_of_int (int i) \<notin> fst ` set (arr_pairs (Suc i) vs)"
  proof
    assume "key_of_int (int i) \<in> fst ` set (arr_pairs (Suc i) vs)"
    then obtain j where "key_of_int (int i) = key_of_int (int j)" "Suc i \<le> j" "j < Suc i + length vs"
      using arr_pairs_keys by fastforce
    then have "arr_index (key_of_int (int i)) = arr_index (key_of_int (int j))" "Suc i \<le> j" "j \<le> LJ_MAX_ASIZE" "i \<le> LJ_MAX_ASIZE"
      using Cons.prems by auto
    then show False using arr_key_of_int(2) [of i] arr_key_of_int(2) [of j] by simp
  qed
  then show ?case using Cons by simp
qed simp

section \<open>Resizing\<close>

lemma bind_res_simps [simp]: "bind_res None f = None" "bind_res (Some (Inl e)) f = Some (Inl e)" "bind_res (Some (Inr x)) f = f x"
  by (simp_all add: bind_res_def)

lemma hash_ok_empty:
  assumes "node t = replicate n empty_node" and "0 < n" and "n \<le> 2 ^ LJ_MAX_HBITS" and "freetop t = (if n = 1 then 0 else n)"
  shows "hash_ok sh t" and "hkeys (node t) = {}"
proof -
  have nth: "node t ! i = empty_node" if "i < n" for i using that assms(1) by simp
  have len: "length (node t) = n" using assms(1) by simp
  have "links_ok (node t)" by (rule links_okI [where rank = id]) (simp_all add: len nth empty_node_def)
  moreover have "keys_ok (node t)" by (rule keys_okI) (simp_all add: len nth empty_node_def)
  moreover have "main_ok mn (node t)" for mn by (rule main_okI) (simp_all add: len nth empty_node_def)
  moreover have "free_ok t" if "n \<noteq> 1" using assms(4) that unfolding free_ok_def len by simp
  ultimately show "hash_ok sh t"
    using assms len by (cases "n = 1") (auto simp: hash_ok_def chains_ok_def hmask_def)
  show "hkeys (node t) = {}" using assms(1) by (auto simp: hkeys_def empty_node_def)
qed

text \<open>The table that the values are reinserted into.\<close>

definition resized :: "ltab \<Rightarrow> nat \<Rightarrow> nat \<Rightarrow> ltab" where
  "resized t asize hbits =
     t\<lparr>array := take asize (array t) @ replicate (asize - length (array t)) TNil,
       node := replicate (2 ^ hbits) empty_node, freetop := (if hbits = 0 then 0 else 2 ^ hbits)\<rparr>"

lemma resizetab_steps:
  assumes "asize \<le> LJ_MAX_ASIZE" and "hbits \<le> LJ_MAX_HBITS" and "length (array t) \<le> LJ_MAX_ASIZE"
    and "hmask t = 0 \<longrightarrow> node t = [empty_node]"
  shows "resizetab sh nk t asize hbits =
    bind_res (insert_all (\<lambda>t k. lj_tab_setinth nk t (int (arr_index k))) (arr_pairs asize (drop asize (array t))) (resized t asize hbits))
      (insert_all (tab_set sh nk) (node_pairs (node t)))"
proof -
  let ?old = "length (array t)"
  have empty: "empty_node\<lparr>nnext := None, nkey := TNil, nval := TNil\<rparr> = empty_node" by (simp add: empty_node_def)
  have hp: "(if hbits \<noteq> 0 then bind_res (newhpart u hbits) (\<lambda>t. Some (Inr (clearhpart t))) else Some (Inr (no_hpart u))) =
      Some (Inr (u\<lparr>node := replicate (2 ^ hbits) empty_node, freetop := (if hbits = 0 then 0 else 2 ^ hbits)\<rparr>))" for u
    using assms(2) by (simp add: newhpart_def bind_res_def clearhpart_def empty no_hpart_def)
  have nodes: "(if hmask t > 0 then reinsert_nodes sh nk (node t) u else Some (Inr u)) = insert_all (tab_set sh nk) (node_pairs (node t)) u" for u
    using assms(4) by (simp add: reinsert_nodes_all node_pairs_def empty_node_def)
  have arr: "reinsert_array nk asize (drop asize (array t)) u =
      insert_all (\<lambda>t k. lj_tab_setinth nk t (int (arr_index k))) (arr_pairs asize (drop asize (array t))) u" if "asize < ?old" for u
    using that assms(3) by (intro reinsert_array_all) simp
  have swap: "t\<lparr>node := a, freetop := b, array := c\<rparr> = t\<lparr>array := c, node := a, freetop := b\<rparr>" for a b c by simp
  have "resizetab sh nk t asize hbits =
      bind_res (if asize < ?old then reinsert_array nk asize (drop asize (array t)) (resized t asize hbits) else Some (Inr (resized t asize hbits)))
        (insert_all (tab_set sh nk) (node_pairs (node t)))"
    using assms(1) unfolding resizetab_def Let_def hp nodes bind_res_simps resized_def by (auto simp only: swap split: if_splits, auto simp: swap)
  then show ?thesis by (simp add: arr)
qed

lemma map_of_node_pairs:
  assumes "keys_ok ns" and "k \<noteq> TNil"
  shows "map_of (node_pairs ns) k = (if hval ns k = TNil then None else Some (hval ns k))" and "distinct (map fst (node_pairs ns))"
proof -
  show d: "distinct (map fst (node_pairs ns))"
  proof -
    have "inj_on (\<lambda>i. nkey (ns ! i)) {i. i < length ns \<and> nval (ns ! i) \<noteq> TNil}"
      using keys_okD [OF assms(1)] by (intro inj_onI) blast
    then have "distinct (map (\<lambda>i. nkey (ns ! i)) (filter (\<lambda>i. nval (ns ! i) \<noteq> TNil) [0..<length ns]))"
      by (simp add: distinct_map inj_on_def)
    moreover have "map (\<lambda>i. nkey (ns ! i)) (filter (\<lambda>i. nval (ns ! i) \<noteq> TNil) [0..<length ns]) = map nkey (filter (\<lambda>n. nval n \<noteq> TNil) ns)"
      by (subst (3) map_nth [symmetric, of ns]) (simp add: filter_map comp_def)
    ultimately show ?thesis by (simp add: node_pairs_def comp_def)
  qed
  have mem: "(k, v) \<in> set (node_pairs ns) \<longleftrightarrow> v \<noteq> TNil \<and> hval ns k = v" for v
  proof
    assume "(k, v) \<in> set (node_pairs ns)"
    then obtain i where "i < length ns" "nkey (ns ! i) = k" "nval (ns ! i) = v" "v \<noteq> TNil"
      by (auto simp: node_pairs_def in_set_conv_nth)
    then show "v \<noteq> TNil \<and> hval ns k = v" using hval_key [OF assms(1) _ _ assms(2)] by blast
  next
    assume v: "v \<noteq> TNil \<and> hval ns k = v"
    then have "k \<in> hkeys ns" using hval_none assms(2) by blast
    then obtain i where i: "i < length ns" "nkey (ns ! i) = k" by (auto simp: hkeys_iff)
    then have "nval (ns ! i) = v" using hval_key [OF assms(1) i assms(2)] v by simp
    then have "ns ! i \<in> set (filter (\<lambda>n. nval n \<noteq> TNil) ns)" "(k, v) = (nkey (ns ! i), nval (ns ! i))" using i v by auto
    then show "(k, v) \<in> set (node_pairs ns)" unfolding node_pairs_def set_map by (rule rev_image_eqI)
  qed
  show "map_of (node_pairs ns) k = (if hval ns k = TNil then None else Some (hval ns k))"
  proof (cases "map_of (node_pairs ns) k")
    case None
    then show ?thesis using mem [of "hval ns k"] by (auto simp: map_of_eq_None_iff image_iff)
  next
    case (Some v)
    then show ?thesis using mem [of v] map_of_SomeD [OF Some] by auto
  qed
qed

text \<open>The number of values that belong into the hash part when the array part has size \<open>n\<close>.\<close>

definition bound_cnt :: "ltab \<Rightarrow> nat \<Rightarrow> nat" where
  "bound_cnt t n = hash_cnt n (arr_pairs n (drop n (array t))) + hash_cnt n (node_pairs (node t))"

lemma resized_ok:
  assumes "hash_ok sh t" and "asize \<le> LJ_MAX_ASIZE" and "hbits \<le> LJ_MAX_HBITS" and "length (array t) \<le> LJ_MAX_ASIZE"
  shows "tab_ok sh (resized t asize hbits)" and "hkeys (node (resized t asize hbits)) = {}"
    and "length (array (resized t asize hbits)) = asize" and "room (resized t asize hbits) = (if hbits = 0 then 0 else 2 ^ hbits)"
    and "proper_key x \<Longrightarrow> tab_val (resized t asize hbits) x =
      (if arr_key asize x \<and> arr_index x < length (array t) then array t ! arr_index x else TNil)"
proof -
  let ?t = "resized t asize hbits"
  have p: "2 ^ hbits \<le> (2 ^ LJ_MAX_HBITS :: nat)" "(2 ^ hbits = (1 :: nat)) = (hbits = 0)" using assms(3) by (intro power_increasing) auto
  have H: "hash_ok sh ?t" "hkeys (node ?t) = {}"
    by (rule hash_ok_empty [where n = "2 ^ hbits"]; use p in \<open>simp add: resized_def\<close>)+
  show "hkeys (node ?t) = {}" by (rule H(2))
  show len: "length (array ?t) = asize" by (simp add: resized_def)
  show "tab_ok sh ?t" using H assms(2) len by (simp add: tab_ok_def)
  have "hmask ?t = 2 ^ hbits - 1" by (simp add: hmask_def resized_def)
  moreover have "2 ^ hbits - 1 \<noteq> (0 :: nat)" if "hbits \<noteq> 0" using that one_less_power [of "2 :: nat" hbits] by simp
  ultimately show "room ?t = (if hbits = 0 then 0 else 2 ^ hbits)" by (cases "hbits = 0") (simp_all add: room_def resized_def)
  assume x: "proper_key x"
  have "hval (node ?t) (canon x) = TNil" using hval_none [of "canon x" "node ?t"] H(2) proper_not_nil [OF x] by simp
  moreover have "array ?t ! arr_index x = (if arr_index x < length (array t) then array t ! arr_index x else TNil)" if "arr_key asize x"
    using arr_key_index [OF that] by (auto simp: resized_def nth_append min_def)
  ultimately show "tab_val ?t x = (if arr_key asize x \<and> arr_index x < length (array t) then array t ! arr_index x else TNil)"
    using x by (simp add: tab_val_def len)
qed

lemma resizetab_spec:
  assumes ok: "tab_ok sh t" and a: "asize \<le> LJ_MAX_ASIZE" and h: "hbits \<le> LJ_MAX_HBITS"
    and fits: "bound_cnt t asize \<le> (if hbits = 0 then 0 else 2 ^ hbits)"
  shows "\<exists>t'. resizetab sh (lj_tab_newkey sh (Suc d)) t asize hbits = Some (Inr t') \<and> tab_ok sh t' \<and> length (array t') = asize \<and>
    room t' = (if hbits = 0 then 0 else 2 ^ hbits) \<and> card (hkeys (node t')) \<le> bound_cnt t asize \<and> (\<forall>x. tab_val t' x = tab_val t x)"
proof -
  note D = tab_okD [OF ok]
  let ?nk = "lj_tab_newkey sh (Suc d)" let ?R = "resized t asize hbits" let ?set = "\<lambda>t k. lj_tab_setinth ?nk t (int (arr_index k))"
  let ?avs = "arr_pairs asize (drop asize (array t))" let ?nvs = "node_pairs (node t)"
  note R = resized_ok [OF D(1) a h D(2)]
  have nil: "hmask t = 0 \<longrightarrow> node t = [empty_node]" using D(1) by (simp add: hash_ok_def split: if_splits)
  have ins: "\<forall>(k, v)\<in>set ?avs. inserts sh (length (array ?R)) ?set k"
  proof (clarify, unfold R(3))
    fix k v assume "(k, v) \<in> set ?avs"
    then obtain j where j: "k = key_of_int (int j)" "asize \<le> j" "j < asize + length (drop asize (array t))" using arr_pairs_keys by blast
    then have J: "j \<le> LJ_MAX_ASIZE" using D(2) a by (cases "asize \<le> length (array t)") auto
    note K = arr_key_of_int [OF J]
    show "inserts sh asize ?set k"
      unfolding inserts_def using setinth_room [of sh _ j d] j J K by auto
  qed
  have len: "asize + length (drop asize (array t)) \<le> LJ_MAX_ASIZE" using D(2) a by simp
  obtain M where M: "insert_all ?set ?avs ?R = Some (Inr M)" "tab_ok sh M" "length (array M) = asize" "room M = room ?R"
      "card (hkeys (node M)) \<le> hash_cnt asize ?avs"
      "\<And>x. proper_key x \<Longrightarrow> tab_val M x = (case map_of ?avs (canon x) of None \<Rightarrow> tab_val ?R x | Some v \<Rightarrow> v)"
    using insert_all_spec [OF ins distinct_arr_pairs [OF len] R(1)] fits R(2-4) by (auto simp: bound_cnt_def)
  have ins2: "\<forall>(k, v)\<in>set ?nvs. inserts sh (length (array M)) (tab_set sh ?nk) k"
  proof (clarify, unfold M(3))
    fix k v assume "(k, v) \<in> set ?nvs"
    then obtain n where n: "n < length (node t)" "nkey (node t ! n) = k" "nval (node t ! n) \<noteq> TNil"
      by (auto simp: node_pairs_def in_set_conv_nth)
    then have "k \<in> hkeys (node t)" using keys_okD(1) [OF D(4) n(1)] by (auto simp: hkeys_iff)
    then have "proper_key k" "canon k = k" using D(7) by blast+
    then show "inserts sh asize (tab_set sh ?nk) k" unfolding inserts_def using tab_set_room [of sh _ k d] by auto
  qed
  obtain t' where t': "insert_all (tab_set sh ?nk) ?nvs M = Some (Inr t')" "tab_ok sh t'" "length (array t') = asize" "room t' = room M"
      "card (hkeys (node t')) \<le> card (hkeys (node M)) + hash_cnt asize ?nvs"
      "\<And>x. proper_key x \<Longrightarrow> tab_val t' x = (case map_of ?nvs (canon x) of None \<Rightarrow> tab_val M x | Some v \<Rightarrow> v)"
    using insert_all_spec [OF ins2 map_of_node_pairs(2) [OF D(4), of "TBool True"] M(2)] fits R(2-4) M(3-5) by (auto simp: bound_cnt_def)
  have run: "resizetab sh ?nk t asize hbits = Some (Inr t')"
    using resizetab_steps [OF a h D(2) nil, of sh ?nk] M(1) t'(1) by simp
  have "tab_val t' x = tab_val t x" for x
  proof (cases "proper_key x")
    case False
    then show ?thesis by (simp add: tab_val_def)
  next
    case x: True
    note nn = proper_not_nil [OF x]
    show ?thesis
    proof (cases "arr_key (length (array t)) x")
      case True
      note idx = arr_key_index [OF True] arr_index_key [OF True D(2)]
      have "canon x \<notin> hkeys (node t)" using D(7) True arr_key_canon(1) by blast
      then have "map_of ?nvs (canon x) = None" using map_of_node_pairs(1) [OF D(4) nn] hval_none [OF _ nn] by simp
      moreover have "arr_key asize x \<longleftrightarrow> arr_index x < asize" using arr_key_of_int(1) [of "arr_index x" asize] idx D(2) arr_key_canon(1) [of asize x] by simp
      moreover have "map_of ?avs (canon x) = (if asize \<le> arr_index x \<and> array t ! arr_index x \<noteq> TNil then Some (array t ! arr_index x) else None)"
        using map_of_arr_pairs [OF len, of "arr_index x"] idx D(2) by auto
      ultimately show ?thesis using t'(6) [OF x] M(6) [OF x] R(5) [OF x] True x idx(1) by (auto simp: tab_val_def)
    next
      case False
      have "map_of ?avs (canon x) = None"
      proof (rule ccontr)
        assume "map_of ?avs (canon x) \<noteq> None"
        then obtain v where "(canon x, v) \<in> set ?avs" using map_of_SomeD by fast
        then obtain j where j: "canon x = key_of_int (int j)" "asize \<le> j" "j < asize + length (drop asize (array t))" using arr_pairs_keys by blast
        then have "j < length (array t)" by (cases "asize \<le> length (array t)") auto
        then show False using arr_key_of_int(1) [of j "length (array t)"] j(1) False D(2) arr_key_canon(1) [of "length (array t)" x] by simp
      qed
      moreover have "\<not> arr_index x < length (array t)" if "arr_key asize x"
        using that False arr_index_key [OF that a] arr_key_of_int(1) [of "arr_index x" "length (array t)"] arr_key_index [OF that] a
          arr_key_canon(1) [of "length (array t)" x] by auto
      ultimately show ?thesis
        using t'(6) [OF x] M(6) [OF x] R(5) [OF x] False x map_of_node_pairs(1) [OF D(4) nn] by (auto simp: tab_val_def)
    qed
  qed
  then show ?thesis using run t' M(4,5) R(4) by (intro exI [of _ t']) (simp add: bound_cnt_def)
qed

end
