(* ===== verification/Lj_Rehash.thy ===== *)
theory Lj_Rehash
  imports Lj_Table
begin

text \<open>
  Rehashing a Lua table: the integer keys are counted by powers of two, the size of
  the array part is chosen from the counts, and the new hash part has room for all
  other keys and for the key that is to be inserted. So \<^verbatim>\<open>lj_tab_set\<close> always finds or
  makes a slot.
\<close>

section \<open>Counting integer keys\<close>

definition binof :: "nat \<Rightarrow> nat" where
  "binof j = (if j > 2 then lj_fls (j - 1) else 0)"

definition bins_of :: "nat list \<Rightarrow> nat list" where
  "bins_of js = map (\<lambda>b. length (filter (\<lambda>j. binof j = b) js)) [0..<LJ_MAX_ABITS]"

lemma binof_le: "binof j \<le> b \<longleftrightarrow> j \<le> 2 * 2 ^ b"
proof (cases "j > 2")
  case True
  then have f: "2 ^ lj_fls (j - 1) \<le> j - 1" "j - 1 < 2 ^ Suc (lj_fls (j - 1))" using lj_fls_bounds [of "j - 1"] by auto
  have "lj_fls (j - 1) \<le> b \<longleftrightarrow> j - 1 < 2 ^ Suc b"
  proof
    assume "lj_fls (j - 1) \<le> b"
    then have "(2 :: nat) ^ Suc (lj_fls (j - 1)) \<le> 2 ^ Suc b" by (intro power_increasing) simp_all
    then show "j - 1 < 2 ^ Suc b" using f(2) by linarith
  next
    assume "j - 1 < 2 ^ Suc b"
    then have "(2 :: nat) ^ lj_fls (j - 1) < 2 ^ Suc b" using f(1) by linarith
    then have "lj_fls (j - 1) < Suc b" by (rule power_less_imp_less_exp [rotated]) simp
    then show "lj_fls (j - 1) \<le> b" by simp
  qed
  then show ?thesis using True by (auto simp: binof_def)
next
  case False
  moreover have "2 * 1 \<le> 2 * (2 :: nat) ^ b" by (intro mult_left_mono one_le_power) simp_all
  ultimately have "j \<le> 2 * 2 ^ b" by linarith
  then show ?thesis using False by (simp add: binof_def)
qed

lemma binof_eq: "(if b = 0 then 0 else Suc (2 ^ b)) \<le> j \<Longrightarrow> j \<le> 2 * 2 ^ b \<Longrightarrow> binof j = b"
  using binof_le [of j b] binof_le [of j "b - 1"] by (cases b) auto

lemma binof_less: "j < LJ_MAX_ASIZE \<Longrightarrow> binof j < LJ_MAX_ABITS"
  using binof_le [of j 26] by simp

lemma bins_of_nth: "b < LJ_MAX_ABITS \<Longrightarrow> bins_of js ! b = length (filter (\<lambda>j. binof j = b) js)"
  by (simp add: bins_of_def)

lemma length_bins_of [simp]: "length (bins_of js) = LJ_MAX_ABITS"
  by (simp add: bins_of_def)

lemma bins_of_add:
  assumes "\<forall>j\<in>set ks. binof j = b" and "b < LJ_MAX_ABITS"
  shows "(bins_of js)[b := bins_of js ! b + length ks] = bins_of (js @ ks)"
proof (rule nth_equalityI)
  fix i assume "i < length ((bins_of js)[b := bins_of js ! b + length ks])"
  then have i: "i < LJ_MAX_ABITS" by simp
  have "filter (\<lambda>j. binof j = i) ks = (if i = b then ks else [])"
    using assms(1) by (auto simp: filter_empty_conv filter_id_conv)
  then show "(bins_of js)[b := bins_of js ! b + length ks] ! i = bins_of (js @ ks) ! i"
    using i assms(2) by (simp add: bins_of_nth nth_list_update)
qed simp

definition key_ints :: "tvalue \<Rightarrow> nat list" where
  "key_ints k = (if arr_key LJ_MAX_ASIZE k then [arr_index k] else [])"

lemma countint_bins: "countint k (bins_of js) = (length (key_ints k), bins_of (js @ key_ints k))"
proof (cases k)
  case (TNum n)
  show ?thesis
  proof (cases "num_eq n (num_of_int (lj_num2int n))")
    case True
    let ?i = "lj_num2int n"
    have ik: "int_key k = Some ?i" using TNum True by (simp add: int_key_def num_int_def)
    then have a: "arr_key LJ_MAX_ASIZE k \<longleftrightarrow> ?i mod 2 ^ 32 < int LJ_MAX_ASIZE"
      using pos_mod_sign [of "2 ^ 32" ?i] by (auto simp: arr_key_def nat_less_iff)
    show ?thesis
    proof (cases "arr_key LJ_MAX_ASIZE k")
      case ar: True
      have "key_of_int ?i = key_of_int (int (arr_index k))"
        using int_key_canon [OF ik] arr_index_key [OF ar] by simp
      moreover have r: "- (2 ^ 31) \<le> ?i" "?i < 2 ^ 31" using lj_num2int_range by blast+
      moreover have small: "arr_index k < LJ_MAX_ASIZE" using arr_key_index [OF ar] .
      ultimately have "Some ?i = Some (int (arr_index k))"
        by (subst key_of_int_props(1) [OF r, symmetric], subst key_of_int_props(1) [symmetric]) auto
      then have i: "?i = int (arr_index k)" by (rule option.inject [THEN iffD1])
      have bin: "(if ?i > 2 then lj_fls (nat (?i - 1)) else 0) = binof (arr_index k)"
        unfolding i binof_def by (simp add: nat_diff_distrib)
      have "?i mod 2 ^ 32 < int LJ_MAX_ASIZE \<and> num_eq n (num_of_int ?i)" using a ar True by (rule conjI [OF iffD1])
      then have "countint k (bins_of js) = (1, (bins_of js)[binof (arr_index k) := bins_of js ! binof (arr_index k) + length [arr_index k]])"
        unfolding countint_def Let_def by (simp only: TNum tvalue.case simp_thms if_True bin [unfolded TNum] length_Cons list.size One_nat_def add_0)
      then show ?thesis
        using bins_of_add [of "[arr_index k]" "binof (arr_index k)" js] binof_less [OF small] ar by (simp add: key_ints_def)
    next
      case False
      then show ?thesis using TNum a by (simp add: countint_def key_ints_def Let_def)
    qed
  next
    case False
    then have "\<not> arr_key m k" for m using TNum by (simp add: arr_key_def int_key_def num_int_def)
    then show ?thesis using TNum False by (simp add: countint_def key_ints_def Let_def)
  qed
qed (simp_all add: countint_def key_ints_def arr_key_def int_key_def)

lemma counthash_bins:
  "counthash ns (bins_of js) na =
    (length (node_pairs ns), na + length (concat (map (key_ints \<circ> fst) (node_pairs ns))), bins_of (js @ concat (map (key_ints \<circ> fst) (node_pairs ns))))"
proof (induction ns arbitrary: js na)
  case (Cons n ns)
  then show ?case by (simp add: countint_bins node_pairs_def)
qed (simp add: node_pairs_def)

definition arr_live :: "tvalue list \<Rightarrow> nat \<Rightarrow> nat list" where
  "arr_live vs n = filter (\<lambda>j. vs ! j \<noteq> TNil) [0..<n]"

lemma countarray_from_bins:
  "r + b = LJ_MAX_ABITS \<Longrightarrow> vs \<noteq> [] \<Longrightarrow> length vs \<le> LJ_MAX_ASIZE \<Longrightarrow> i = min (if b = 0 then 0 else Suc (2 ^ b)) (length vs) \<Longrightarrow>
    countarray_from vs r b i (length (arr_live vs i)) (bins_of (arr_live vs i)) =
      (length (arr_live vs (length vs)), bins_of (arr_live vs (length vs)))"
proof (induction r arbitrary: b i)
  case 0
  then have "i = length vs" by simp
  then show ?case by simp
next
  case (Suc r)
  let ?top = "if length vs \<le> 2 * 2 ^ b then length vs - 1 else 2 * 2 ^ b"
  show ?case
  proof (cases "length vs \<le> 2 * 2 ^ b \<and> i > ?top")
    case True
    then have "i = length vs" using Suc.prems(2,4) by (cases "b = 0") auto
    then show ?thesis using True Suc.prems(2) by (simp add: Let_def)
  next
    case False
    have le: "i \<le> Suc ?top"
      using Suc.prems(2,4) by (cases b) (auto simp: min_def Suc_le_eq)
    let ?ks = "filter (\<lambda>j. vs ! j \<noteq> TNil) [i..<Suc ?top]"
    have i': "max i (Suc ?top) = Suc ?top" using le by simp
    have upt: "[0..<Suc ?top] = [0..<i] @ [i..<Suc ?top]" using upt_add_eq_append [of 0 i "Suc ?top - i"] le by simp
    have live: "arr_live vs (Suc ?top) = arr_live vs i @ ?ks" unfolding arr_live_def upt filter_append ..
    have bin: "\<forall>j\<in>set ?ks. binof j = b"
    proof
      fix j assume j: "j \<in> set ?ks"
      have "i = (if b = 0 then 0 else Suc (2 ^ b))"
      proof (rule ccontr)
        assume "i \<noteq> (if b = 0 then 0 else Suc (2 ^ b))"
        then have "i = length vs" "length vs \<le> 2 * 2 ^ b" using Suc.prems(4) one_le_power [of "2 :: nat" b] by (auto simp: min_def split: if_splits)
        then show False using False Suc.prems(2) by simp
      qed
      then show "binof j = b" using j by (intro binof_eq) (auto split: if_splits)
    qed
    have b: "b < LJ_MAX_ABITS" using Suc.prems(1) by simp
    have next_i: "Suc ?top = min (if Suc b = 0 then 0 else Suc (2 ^ Suc b)) (length vs)"
      using Suc.prems(2) by (cases "length vs") auto
    have "countarray_from vs (Suc r) b i na bins =
        countarray_from vs r (Suc b) (max i (Suc ?top)) (na + length ?ks) (bins[b := bins ! b + length ?ks])" for na bins
      using False by (cases "length vs \<le> 2 * 2 ^ b") (simp_all add: Let_def del: upt_Suc)
    then show ?thesis
      using Suc.IH [OF _ Suc.prems(2,3) next_i] Suc.prems(1)
      by (simp only: i' bins_of_add [OF bin b] length_append [symmetric] live [symmetric] add_Suc_right add_Suc)
  qed
qed

lemma countarray_bins:
  assumes "length (array t) \<le> LJ_MAX_ASIZE"
  shows "countarray t (replicate LJ_MAX_ABITS 0) = (length (arr_live (array t) (length (array t))), bins_of (arr_live (array t) (length (array t))))"
proof -
  have z: "replicate LJ_MAX_ABITS 0 = bins_of (arr_live vs 0)" for vs
    by (simp add: bins_of_def arr_live_def map_replicate_const)
  show ?thesis
  proof (cases "array t = []")
    case True
    then show ?thesis using z [of "[]"] by (simp add: countarray_def arr_live_def)
  next
    case False
    then show ?thesis
      using countarray_from_bins [of LJ_MAX_ABITS 0 "array t" 0] assms z [of "array t"] by (simp add: countarray_def arr_live_def)
  qed
qed

section \<open>Choosing the array size\<close>

text \<open>The number of keys that fit into an array part of size \<open>n\<close>.\<close>

definition below :: "nat list \<Rightarrow> nat \<Rightarrow> nat" where
  "below js n = length (filter (\<lambda>j. j < n) js)"

lemma below_bins: "length (filter (\<lambda>j. binof j < Suc b) js) = below js (2 * 2 ^ b + 1)"
  by (simp add: below_def less_Suc_eq_le binof_le)

lemma below_le: "below js n \<le> length js"
  by (simp add: below_def)

lemma filter_bins_Suc:
  "length (filter (\<lambda>j. binof j < Suc b) js) = length (filter (\<lambda>j. binof j < b) js) + length (filter (\<lambda>j. binof j = b) js)"
  by (induction js) auto

text \<open>
  \<open>best\<close>: the size \<open>sz\<close>, which \<open>na\<close> of the keys fit into, has at least a quarter of its slots in use, and
  no power of two below \<open>2 ^ b\<close> that has so many in use would hold more of the keys.
\<close>

definition best :: "nat list \<Rightarrow> nat \<Rightarrow> nat \<Rightarrow> nat \<Rightarrow> bool" where
  "best js b na sz \<longleftrightarrow> na = below js sz \<and> sz \<le> LJ_MAX_ASIZE \<and> sz \<le> 4 * na \<and>
     (\<forall>c<b. 2 ^ c < 2 * below js (2 * 2 ^ c + 1) \<longrightarrow> below js (2 * 2 ^ c + 1) \<le> na)"

lemma bestD: "best js b na sz \<Longrightarrow> c < b \<Longrightarrow> 2 ^ c < 2 * below js (2 * 2 ^ c + 1) \<Longrightarrow> below js (2 * 2 ^ c + 1) \<le> na"
  unfolding best_def by blast

lemma below_mono: "m \<le> n \<Longrightarrow> below js m \<le> below js n"
  unfolding below_def length_filter_conv_card by (intro card_mono) auto

lemma best_same:
  assumes "best js b na sz" and "below js (2 * 2 ^ c + 1) = length (filter (\<lambda>j. binof j < b) js)" and "b \<le> c"
    and "2 ^ c < 2 * below js (2 * 2 ^ c + 1)"
  shows "below js (2 * 2 ^ c + 1) \<le> na"
proof (cases b)
  case (Suc d)
  then have eq: "below js (2 * 2 ^ c + 1) = below js (2 * 2 ^ d + 1)" using assms(2) below_bins by simp
  have "(2 :: nat) ^ d \<le> 2 ^ c" using Suc assms(3) by (intro power_increasing) simp_all
  then have "2 ^ d < 2 * below js (2 * 2 ^ d + 1)" using assms(4) eq by linarith
  then show ?thesis unfolding eq using Suc by (intro bestD [OF assms(1)]) simp_all
qed (use assms in simp)

lemma best_all:
  assumes "best js b na sz"
    and "\<And>c. b \<le> c \<Longrightarrow> 2 ^ c < 2 * below js (2 * 2 ^ c + 1) \<Longrightarrow> length (filter (\<lambda>j. binof j < b) js) = length js"
  shows "best js c na sz"
proof -
  have "below js (2 * 2 ^ d + 1) \<le> na" if d: "2 ^ d < 2 * below js (2 * 2 ^ d + 1)" for d
  proof (cases "d < b")
    case True
    then show ?thesis by (rule bestD [OF assms(1) _ d])
  next
    case False
    then have "length (filter (\<lambda>j. binof j < b) js) = length js" using assms(2) [OF _ d] by simp
    moreover have "length (filter (\<lambda>j. binof j < b) js) \<le> length (filter (\<lambda>j. binof j < Suc d) js)"
      unfolding length_filter_conv_card using False by (intro card_mono) auto
    ultimately have "below js (2 * 2 ^ d + 1) = length (filter (\<lambda>j. binof j < b) js)"
      using below_le [of js "2 * 2 ^ d + 1"] below_bins [of d js] by simp
    then show ?thesis using False d by (intro best_same [OF assms(1)]) simp_all
  qed
  then show ?thesis using assms(1) unfolding best_def by blast
qed

lemma best_Suc:
  assumes "best js b na sz" and "2 ^ b < 2 * below js (2 * 2 ^ b + 1) \<Longrightarrow> below js (2 * 2 ^ b + 1) \<le> na"
  shows "best js (Suc b) na sz"
  using assms by (auto simp: best_def less_Suc_eq)

declare bestasize_from.simps [simp del]

lemma bestasize_step:
  assumes "2 ^ b < 2 * nn" and "acc \<noteq> nn"
  shows "bestasize_from (x # bins) b nn acc na sz =
    (if x > 0 \<and> 2 ^ b < 2 * (acc + x) then bestasize_from bins (Suc b) nn (acc + x) (acc + x) (2 * 2 ^ b + 1)
     else bestasize_from bins (Suc b) nn (acc + x) na sz)"
  using assms by (subst bestasize_from.simps) (auto simp: Let_def)

lemma bestasize_from_best:
  assumes small: "\<forall>j\<in>set js. j < LJ_MAX_ASIZE"
  shows "r + b = LJ_MAX_ABITS \<Longrightarrow> best js b na sz \<Longrightarrow>
    \<exists>na' sz'. bestasize_from (drop b (bins_of js)) b (length js) (length (filter (\<lambda>j. binof j < b) js)) na sz = Some (na', sz') \<and>
      (\<forall>c. best js c na' sz')"
proof (induction r arbitrary: b na sz)
  case 0
  then have "\<forall>j\<in>set js. binof j < b" using small binof_less by simp
  then have all: "filter (\<lambda>j. binof j < b) js = js" by simp
  then have "best js c na sz" for c by (intro best_all [OF 0(2)]) simp
  then show ?case using all by (simp add: bestasize_from.simps)
next
  case (Suc r)
  let ?acc = "length (filter (\<lambda>j. binof j < b) js)" let ?x = "bins_of js ! b"
  have b: "b < LJ_MAX_ABITS" using Suc.prems(1) by simp
  have acc: "?acc + ?x = below js (2 * 2 ^ b + 1)" using filter_bins_Suc bins_of_nth [OF b] below_bins by simp
  show ?case
  proof (cases "2 ^ b < 2 * length js \<and> ?acc \<noteq> length js")
    case False
    have "best js c na sz" for c
    proof (rule best_all [OF Suc.prems(2)])
      fix d assume d: "b \<le> d" "2 ^ d < 2 * below js (2 * 2 ^ d + 1)"
      have "(2 :: nat) ^ b \<le> 2 ^ d" using d(1) by (intro power_increasing) simp_all
      then show "?acc = length js" using False d(2) below_le [of js "2 * 2 ^ d + 1"] by linarith
    qed
    then show ?thesis using False by (subst bestasize_from.simps) auto
  next
    case True
    note step = bestasize_step [OF True [THEN conjunct1] True [THEN conjunct2]]
    have drop: "drop b (bins_of js) = ?x # drop (Suc b) (bins_of js)" using b by (simp add: Cons_nth_drop_Suc)
    have "\<exists>na' sz'. best js (Suc b) na' sz' \<and> bestasize_from (drop b (bins_of js)) b (length js) ?acc na sz =
        bestasize_from (drop (Suc b) (bins_of js)) (Suc b) (length js) (length (filter (\<lambda>j. binof j < Suc b) js)) na' sz'"
    proof (cases "?x > 0 \<and> 2 ^ b < 2 * (?acc + ?x)")
      case grow: True
      then have "filter (\<lambda>j. binof j = b) js \<noteq> []" using bins_of_nth [OF b] by auto
      then obtain j where j: "j \<in> set js" "binof j = b" by (auto simp: filter_empty_conv)
      have "b \<le> 26" using binof_le [of j 26] small j by auto
      then have "(2 :: nat) ^ b \<le> 2 ^ 26" by (intro power_increasing) simp_all
      then have "best js (Suc b) (?acc + ?x) (2 * 2 ^ b + 1)"
        using grow acc below_mono [of "2 * 2 ^ c + 1" "2 * 2 ^ b + 1" js for c] unfolding best_def by (auto simp: less_Suc_eq_le)
      then show ?thesis using grow by (intro exI conjI) (simp_all add: drop step acc below_bins)
    next
      case stay: False
      have "best js (Suc b) na sz"
      proof (rule best_Suc [OF Suc.prems(2)])
        assume "2 ^ b < 2 * below js (2 * 2 ^ b + 1)"
        then show "below js (2 * 2 ^ b + 1) \<le> na" using stay acc best_same [OF Suc.prems(2), of b] by simp
      qed
      then show ?thesis using stay by (intro exI conjI) (auto simp: drop step acc below_bins)
    qed
    then obtain na' sz' where "best js (Suc b) na' sz'" "bestasize_from (drop b (bins_of js)) b (length js) ?acc na sz =
        bestasize_from (drop (Suc b) (bins_of js)) (Suc b) (length js) (length (filter (\<lambda>j. binof j < Suc b) js)) na' sz'" by blast
    then show ?thesis using Suc.IH [of "Suc b" na' sz'] Suc.prems(1) by simp
  qed
qed

lemma bestasize_best:
  assumes "\<forall>j\<in>set js. j < LJ_MAX_ASIZE"
  shows "\<exists>na sz. bestasize (bins_of js) (length js) = Some (na, sz) \<and> (\<forall>b. best js b na sz)"
  using bestasize_from_best [OF assms, of LJ_MAX_ABITS 0 0 0] by (simp add: bestasize_def best_def below_def)

section \<open>Rehashing\<close>

lemma hsize2hbits_bounds:
  shows "s \<le> (if hsize2hbits s = 0 then 0 else 2 ^ hsize2hbits s)" and "s \<le> 2 ^ LJ_MAX_HBITS \<Longrightarrow> hsize2hbits s \<le> LJ_MAX_HBITS"
proof -
  have f: "s > 1 \<Longrightarrow> s - 1 < 2 ^ Suc (lj_fls (s - 1))" using lj_fls_bounds [of "s - 1"] by simp
  then show "s \<le> (if hsize2hbits s = 0 then 0 else 2 ^ hsize2hbits s)" by (cases "s > 1") (auto simp: hsize2hbits_def)
  assume "s \<le> 2 ^ LJ_MAX_HBITS"
  then have "lj_fls (s - 1) < LJ_MAX_HBITS" if "s > 1" using that by (intro lj_fls_less) linarith+
  then show "hsize2hbits s \<le> LJ_MAX_HBITS" by (cases "s > 1") (auto simp: hsize2hbits_def)
qed

text \<open>The number of values in a table.\<close>

definition live_cnt :: "ltab \<Rightarrow> nat" where
  "live_cnt t = length (filter (\<lambda>v. v \<noteq> TNil) (array t)) + length (filter (\<lambda>n. nval n \<noteq> TNil) (node t))"

text \<open>The array indices among the keys of a table and the key that is to be inserted.\<close>

definition index_keys :: "ltab \<Rightarrow> tvalue \<Rightarrow> nat list" where
  "index_keys t ek = arr_live (array t) (length (array t)) @ concat (map (key_ints \<circ> fst) (node_pairs (node t))) @ key_ints ek"

lemma arr_live_less: "j \<in> set (arr_live vs n) \<Longrightarrow> j < n"
  by (auto simp: arr_live_def)

lemma key_ints_less: "j \<in> set (key_ints k) \<Longrightarrow> j < LJ_MAX_ASIZE"
  using arr_key_index [of LJ_MAX_ASIZE k] by (auto simp: key_ints_def split: if_splits)

lemma index_keys_small:
  assumes "length (array t) \<le> LJ_MAX_ASIZE"
  shows "\<forall>j\<in>set (index_keys t ek). j < LJ_MAX_ASIZE"
proof
  fix j assume "j \<in> set (index_keys t ek)"
  then have "j \<in> set (arr_live (array t) (length (array t))) \<or> (\<exists>k. j \<in> set (key_ints k))" by (auto simp: index_keys_def)
  then show "j < LJ_MAX_ASIZE" using arr_live_less key_ints_less assms by (meson less_le_trans)
qed

lemma below_append [simp]: "below (xs @ ys) n = below xs n + below ys n" "below [] n = 0"
  by (simp_all add: below_def)

lemma below_key_ints: "n \<le> LJ_MAX_ASIZE \<Longrightarrow> below (key_ints k) n = (if arr_key n k then 1 else 0)"
  by (auto simp: below_def key_ints_def arr_key_def arr_index_def split: option.splits)

lemma below_node_ints:
  "n \<le> LJ_MAX_ASIZE \<Longrightarrow> below (concat (map (key_ints \<circ> fst) kvs)) n + hash_cnt n kvs = length kvs"
  by (induction kvs) (auto simp: below_key_ints)

lemma length_arr_live: "length (arr_live vs (length vs)) = length (filter (\<lambda>v. v \<noteq> TNil) vs)"
  unfolding arr_live_def length_filter_conv_card [of _ vs] by (simp add: length_filter_conv_card cong: conj_cong)

lemma below_arr_live: "below (arr_live vs (length vs)) n = length (filter (\<lambda>v. v \<noteq> TNil) (take n vs))"
proof -
  have "below (arr_live vs (length vs)) n = card {j. j < length vs \<and> vs ! j \<noteq> TNil \<and> j < n}"
    unfolding below_def arr_live_def filter_filter by (simp add: length_filter_conv_card cong: conj_cong)
  also have "{j. j < length vs \<and> vs ! j \<noteq> TNil \<and> j < n} = {j. j < length (take n vs) \<and> take n vs ! j \<noteq> TNil}" by auto
  finally show ?thesis by (simp only: length_filter_conv_card)
qed

lemma length_arr_pairs: "length (arr_pairs i vs) = length (filter (\<lambda>v. v \<noteq> TNil) vs)"
  by (induction vs arbitrary: i) auto

text \<open>The values that do not go into the new array part, and the new key, are what the new hash part is made for.\<close>

lemma bound_cnt_total:
  assumes "n \<le> LJ_MAX_ASIZE"
  shows "bound_cnt t n + (if arr_key n ek then 0 else 1) + below (index_keys t ek) n \<le> Suc (live_cnt t)"
proof -
  let ?P = "\<lambda>v. v \<noteq> TNil"
  have "hash_cnt n (arr_pairs n (drop n (array t))) \<le> length (filter ?P (drop n (array t)))"
    unfolding hash_cnt_def using length_filter_le by (metis length_arr_pairs)
  moreover have "length (filter ?P (array t)) = length (filter ?P (take n (array t))) + length (filter ?P (drop n (array t)))"
    by (metis append_take_drop_id filter_append length_append)
  ultimately show ?thesis
    using below_node_ints [OF assms, of "node_pairs (node t)"]
    by (auto simp: bound_cnt_def index_keys_def live_cnt_def below_arr_live below_key_ints [OF assms] node_pairs_def)
qed

lemma rehashtab_steps:
  assumes "length (array t) \<le> LJ_MAX_ASIZE" and "bestasize (bins_of (index_keys t ek)) (length (index_keys t ek)) = Some (na, sz)"
  shows "rehashtab sh nk t ek = resizetab sh nk t sz (hsize2hbits (Suc (live_cnt t) - na))"
proof -
  have "length (node_pairs (node t)) = length (filter (\<lambda>n. nval n \<noteq> TNil) (node t))" by (simp add: node_pairs_def)
  then show ?thesis
    using assms(2) unfolding rehashtab_def Let_def countarray_bins [OF assms(1)] counthash_bins countint_bins prod.case
    by (simp add: index_keys_def live_cnt_def length_arr_live add.assoc)
qed

lemma rehashtab_spec:
  assumes ok: "tab_ok sh t" and few: "live_cnt t < 2 ^ LJ_MAX_HBITS"
  shows "\<exists>t'. rehashtab sh (lj_tab_newkey sh (Suc d)) t ek = Some (Inr t') \<and> tab_ok sh t' \<and> has_space t' ek \<and>
    (\<forall>x. tab_val t' x = tab_val t x) \<and> (\<exists>na. \<forall>b. best (index_keys t ek) b na (length (array t')))"
proof -
  note D = tab_okD [OF ok]
  obtain na sz where best: "bestasize (bins_of (index_keys t ek)) (length (index_keys t ek)) = Some (na, sz)"
      "\<forall>b. best (index_keys t ek) b na sz"
    using bestasize_best [OF index_keys_small [OF D(2)]] by blast
  then have sz: "sz \<le> LJ_MAX_ASIZE" and na: "na = below (index_keys t ek) sz" by (simp_all add: best_def)
  let ?s = "Suc (live_cnt t) - na" let ?h = "hsize2hbits ?s"
  have s: "bound_cnt t sz + (if arr_key sz ek then 0 else 1) \<le> ?s" using bound_cnt_total [OF sz, of t ek] na by linarith
  have h: "?h \<le> LJ_MAX_HBITS" using few by (intro hsize2hbits_bounds(2)) simp
  note hb = hsize2hbits_bounds(1) [of ?s]
  have "bound_cnt t sz \<le> (if ?h = 0 then 0 else 2 ^ ?h)" using s hb by linarith
  then obtain t' where t': "resizetab sh (lj_tab_newkey sh (Suc d)) t sz ?h = Some (Inr t')" "tab_ok sh t'" "length (array t') = sz"
      "room t' = (if ?h = 0 then 0 else 2 ^ ?h)" "card (hkeys (node t')) \<le> bound_cnt t sz" "\<forall>x. tab_val t' x = tab_val t x"
    using resizetab_spec [OF ok sz h] by blast
  have "has_space t' ek"
  proof (cases "arr_key sz ek")
    case False
    then have "Suc (bound_cnt t sz) \<le> (if ?h = 0 then 0 else 2 ^ ?h)" using s hb by simp
    then have "card (hkeys (node t')) < room t'" using t'(4,5) by linarith
    then show ?thesis by (simp add: has_space_def)
  qed (simp add: has_space_def t'(3))
  then show ?thesis using t' best(2) rehashtab_steps [OF D(2) best(1)] by (intro exI [of _ t']) auto
qed

section \<open>Setting\<close>

lemma newkey_full:
  assumes ok: "tab_ok sh t" and few: "live_cnt t < 2 ^ LJ_MAX_HBITS" and k: "proper_key k"
    and full: "find_free (node t) (freetop t) = None" "hmask t = 0 \<or> nval (node t ! hashkey sh (hmask t) k) \<noteq> TNil"
  shows "\<exists>s t'. lj_tab_newkey sh (Suc (Suc d)) t k = Some (Inr (s, t')) \<and> slot_made sh t k s t'"
proof -
  obtain t1 where t1: "rehashtab sh (lj_tab_newkey sh (Suc d)) t k = Some (Inr t1)" "tab_ok sh t1" "has_space t1 k"
      "\<forall>x. tab_val t1 x = tab_val t x" using rehashtab_spec [OF ok few] by blast
  obtain s t' where t': "tab_set sh (lj_tab_newkey sh (Suc d)) t1 k = Some (Inr (s, t'))" "slot_made sh t1 k s t'"
    using tab_set_room [OF t1(2) k t1(3)] by blast
  have "lj_tab_newkey sh (Suc (Suc d)) t k = Some (Inr (s, t'))"
    using full t1(1) t'(1) by (subst lj_tab_newkey.simps) (auto simp: Let_def)
  moreover have "slot_made sh t k s t'" using t'(2) t1(4) by (simp add: slot_made_def)
  ultimately show ?thesis by blast
qed

lemma slot_for_key_arg [simp]: "slot_for t s (key_arg k) = slot_for t s k"
proof -
  have "arr_key n (key_arg k) = arr_key n k" "arr_index (key_arg k) = arr_index k" for n
    by (simp_all add: key_arg_def)
  then show ?thesis by (cases s) (simp_all add: slot_for_def)
qed

lemma tab_set_spec:
  assumes ok: "tab_ok sh t" and few: "live_cnt t < 2 ^ LJ_MAX_HBITS" and k: "proper_key k"
  shows "\<exists>s t'. tab_set sh (lj_tab_newkey sh (Suc (Suc d))) t k = Some (Inr (s, t')) \<and> slot_made sh t k s t'"
proof (cases "has_space t k")
  case True
  then show ?thesis using tab_set_room [OF ok k] by blast
next
  case False
  let ?t = "t\<lparr>nomm := 0\<rparr>" and ?k = "key_arg k"
  have n: "\<not> arr_key (length (array ?t)) k" "canon k \<notin> hkeys (node ?t)" using False by (simp_all add: has_space_def)
  have ok': "tab_ok sh ?t" "live_cnt ?t < 2 ^ LJ_MAX_HBITS" using ok few by (simp_all add: live_cnt_def)
  obtain r where r: "find_key sh ?t k = Some r"
      "case r of None \<Rightarrow> canon k \<notin> hkeys (node ?t) | Some n \<Rightarrow> n < length (node ?t) \<and> nkey (node ?t ! n) = canon k"
    using find_key_spec [OF ok'(1) k] by blast
  have "r = None"
  proof (cases r)
    case (Some m)
    then have "nkey (node t ! m) \<in> hkeys (node t)" using r(2) proper_not_nil [OF k] by (auto simp: hkeys_iff)
    then show ?thesis using r(2) Some n(2) by simp
  qed simp
  then have step: "tab_set sh nk t k = nk ?t ?k" for nk using n(1) r(1) by (simp add: tab_set_proper [OF k])
  have k': "proper_key ?k" using k by (simp add: key_arg_def)
  have "\<exists>s t'. lj_tab_newkey sh (Suc (Suc d)) ?t ?k = Some (Inr (s, t')) \<and> slot_made sh ?t ?k s t'"
  proof (cases "hmask ?t \<noteq> 0 \<and> (nval (node ?t ! hashkey sh (hmask ?t) ?k) = TNil \<or> find_free (node ?t) (freetop ?t) \<noteq> None)")
    case True
    have "canon ?k \<noteq> TNil" "canon ?k \<notin> hkeys (node ?t)" using proper_not_nil [OF k] n(2) by simp_all
    then obtain m t' where m: "lj_tab_newkey sh (Suc (Suc d)) ?t ?k = Some (Inr (Hsh m, t'))" "key_put sh ?t (canon ?k) m t'"
      using newkey_room [OF tab_okD(1) [OF ok'(1)] True [THEN conjunct1] _ _ True [THEN conjunct2]] by blast
    have "\<not> arr_key (length (array ?t)) ?k" using n(1) arr_key_canon(1) key_arg_simps(1) by metis
    then show ?thesis using m key_put_tab(1) [OF ok'(1) k' _ m(2)] by blast
  next
    case full: False
    have "find_free (node ?t) (freetop ?t) = None"
      using full tab_okD(1) [OF ok'(1)] by (auto simp: hash_ok_def split: if_splits)
    moreover have "hmask ?t = 0 \<or> nval (node ?t ! hashkey sh (hmask ?t) ?k) \<noteq> TNil" using full by blast
    ultimately show ?thesis by (rule newkey_full [OF ok' k'])
  qed
  then show ?thesis unfolding step by (simp add: slot_made_def)
qed

end
