(* ===== verification/Lj_Map.thy ===== *)
theory Lj_Map
  imports Lj_Rehash
begin

text \<open>
  The contract of Lua tables: storing and getting as on a map, over any sequence of
  stores, the errors, the choice of the array size, traversal and length.
\<close>

section \<open>The number of values\<close>

definition live_keys :: "ltab \<Rightarrow> tvalue set" where
  "live_keys t = {k. proper_key k \<and> canon k = k \<and> tab_val t k \<noteq> TNil}"

lemma arr_keys_iff:
  assumes ok: "tab_ok sh t"
  shows "k \<in> fst ` set (arr_pairs 0 (array t)) \<longleftrightarrow>
    proper_key k \<and> canon k = k \<and> arr_key (length (array t)) k \<and> array t ! arr_index k \<noteq> TNil"
proof (cases "\<exists>j<length (array t). k = key_of_int (int j)")
  case True
  note D = tab_okD [OF ok]
  obtain j where j: "j < length (array t)" "k = key_of_int (int j)" using True by blast
  then have J: "j \<le> LJ_MAX_ASIZE" using D(2) by simp
  note K = arr_key_of_int [OF J]
  have "k \<in> fst ` set (arr_pairs 0 (array t)) \<longleftrightarrow> map_of (arr_pairs 0 (array t)) k \<noteq> None" by (simp add: map_of_eq_None_iff)
  also have "\<dots> \<longleftrightarrow> array t ! j \<noteq> TNil" using map_of_arr_pairs [of 0 "array t" j] D(2) J j by simp
  finally show ?thesis using K j by simp
next
  case False
  note D = tab_okD [OF ok]
  have "k \<notin> fst ` set (arr_pairs 0 (array t))" using False arr_pairs_keys [of k _ 0 "array t"] by fastforce
  moreover have "\<not> (canon k = k \<and> arr_key (length (array t)) k)"
    using False arr_index_key [OF _ D(2), of k] arr_key_index [of "length (array t)" k] by metis
  ultimately show ?thesis by blast
qed

lemma node_keys_iff:
  assumes ok: "tab_ok sh t"
  shows "k \<in> fst ` set (node_pairs (node t)) \<longleftrightarrow>
    proper_key k \<and> canon k = k \<and> \<not> arr_key (length (array t)) k \<and> hval (node t) k \<noteq> TNil"
proof (cases "k \<in> hkeys (node t)")
  case True
  note D = tab_okD [OF ok]
  have P: "proper_key k" "canon k = k" "\<not> arr_key (length (array t)) k" using True D(7) by blast+
  have "k \<in> fst ` set (node_pairs (node t)) \<longleftrightarrow> map_of (node_pairs (node t)) k \<noteq> None" by (simp add: map_of_eq_None_iff)
  then show ?thesis using map_of_node_pairs(1) [OF D(4), of k] proper_not_nil [OF P(1)] P by simp
next
  case False
  have "k \<notin> fst ` set (node_pairs (node t))"
    using False keys_okD(1) [OF tab_okD(4) [OF ok]] by (fastforce simp: node_pairs_def hkeys_iff in_set_conv_nth)
  moreover have "hval (node t) k = TNil" if "proper_key k" "canon k = k" using hval_none [OF False] proper_not_nil [OF that(1)] that(2) by simp
  ultimately show ?thesis by blast
qed

lemma live_keys_pairs:
  assumes ok: "tab_ok sh t"
  shows "live_keys t = fst ` set (arr_pairs 0 (array t)) \<union> fst ` set (node_pairs (node t))"
    and "fst ` set (arr_pairs 0 (array t)) \<inter> fst ` set (node_pairs (node t)) = {}"
  unfolding set_eq_iff Un_iff Int_iff arr_keys_iff [OF ok] node_keys_iff [OF ok] by (auto simp: live_keys_def tab_val_def)

lemma card_live_keys:
  assumes ok: "tab_ok sh t"
  shows "card (live_keys t) = live_cnt t" and "finite (live_keys t)"
proof -
  note D = tab_okD [OF ok]
  have "card (fst ` set kvs) = length kvs" if "distinct (map fst kvs)" for kvs :: "(tvalue \<times> tvalue) list"
    using distinct_card [OF that] by simp
  then have "card (fst ` set (arr_pairs 0 (array t))) = length (arr_pairs 0 (array t))"
      "card (fst ` set (node_pairs (node t))) = length (node_pairs (node t))"
    using distinct_arr_pairs [of 0 "array t"] map_of_node_pairs(2) [OF D(4), of "TBool True"] D(2) by simp_all
  then show "card (live_keys t) = live_cnt t"
    unfolding live_keys_pairs(1) [OF ok] using live_keys_pairs(2) [OF ok]
    by (simp add: card_Un_disjoint live_cnt_def length_arr_pairs node_pairs_def)
  show "finite (live_keys t)" unfolding live_keys_pairs(1) [OF ok] by simp
qed

section \<open>Storing\<close>

text \<open>An assignment \<open>t[k] = v\<close>: the slot that \<^verbatim>\<open>lj_tab_set\<close> returns is written.\<close>

definition store :: "(uint32 \<Rightarrow> uint32) \<Rightarrow> tvalue \<Rightarrow> tvalue \<Rightarrow> ltab \<Rightarrow> ltab res" where
  "store sh k v t = bind_res (lj_tab_set sh t k) (\<lambda>(s, t). Some (Inr (set_slot s v t)))"

lemma store_spec:
  assumes ok: "tab_ok sh t" and few: "card (live_keys t) < 2 ^ LJ_MAX_HBITS" and k: "proper_key k"
  shows "\<exists>t'. store sh k v t = Some (Inr t') \<and> tab_ok sh t' \<and> val_set k v t t'"
proof -
  have "live_cnt t < 2 ^ LJ_MAX_HBITS" using few card_live_keys(1) [OF ok] by simp
  from tab_set_spec [OF ok this k, of 0] obtain s K where K: "lj_tab_set sh t k = Some (Inr (s, K))" "slot_made sh t k s K"
    by (auto simp: lj_tab_set_def numeral_2_eq_2)
  then have K2: "tab_ok sh K" "slot_for K s k" "\<And>x. tab_val K x = tab_val t x" by (simp_all add: slot_made_def)
  note M = set_slot_spec [OF K2(1) k K2(2), of v]
  have "val_set k v t (set_slot s v K)" using M(2) K2(3) by (simp add: val_set_def)
  then show ?thesis using K(1) M(1) by (simp add: store_def)
qed

lemma val_set_live:
  assumes "val_set k v t t'"
  shows "live_keys t' \<subseteq> insert (canon k) (live_keys t)"
  using assms by (auto simp: val_set_def live_keys_def split: if_splits)

lemma val_set_get:
  assumes "tab_ok sh t" and "tab_ok sh t'" and "val_set k v t t'" and "proper_key k"
  shows "lj_tab_get sh t' x = (if proper_key x \<and> canon x = canon k then Some v else lj_tab_get sh t x)"
  using assms by (cases "proper_key x") (simp_all add: lj_tab_get_spec val_set_def, simp add: tab_val_def)

section \<open>Sequences of stores\<close>

fun run_stores :: "('k \<Rightarrow> 'v \<Rightarrow> 't \<Rightarrow> 't res) \<Rightarrow> ('k \<times> 'v) list \<Rightarrow> 't \<Rightarrow> 't res" where
  "run_stores put [] t = Some (Inr t)"
| "run_stores put ((k, v) # kvs) t = bind_res (put k v t) (run_stores put kvs)"

text \<open>
  The contract of a table of bounded capacity: keys with the same representative are the
  same key, and storing under a key changes the value of that key only.
\<close>

locale bounded_table =
  fixes inv :: "'t \<Rightarrow> bool"
    and val :: "'t \<Rightarrow> 'k \<Rightarrow> 'v"
    and put :: "'k \<Rightarrow> 'v \<Rightarrow> 't \<Rightarrow> 't res"
    and count :: "'t \<Rightarrow> nat"
    and capacity :: nat
    and key :: "'k \<Rightarrow> bool"
    and rep :: "'k \<Rightarrow> 'k"
  assumes put_law: "inv t \<Longrightarrow> count t < capacity \<Longrightarrow> key k \<Longrightarrow>
      \<exists>t'. put k v t = Some (Inr t') \<and> inv t' \<and> count t' \<le> Suc (count t) \<and>
        (\<forall>x. key x \<longrightarrow> val t' x = (if rep x = rep k then v else val t x))"
begin

lemma run_stores_spec:
  "inv t \<Longrightarrow> count t + length kvs \<le> capacity \<Longrightarrow> \<forall>(k, v)\<in>set kvs. key k \<Longrightarrow>
    \<exists>t'. run_stores put kvs t = Some (Inr t') \<and> inv t' \<and> count t' \<le> count t + length kvs \<and>
      (\<forall>x. key x \<longrightarrow> val t' x = (case map_of (rev (map (apfst rep) kvs)) (rep x) of None \<Rightarrow> val t x | Some v \<Rightarrow> v))"
proof (induction kvs arbitrary: t)
  case (Cons kv kvs)
  obtain k v where kv: "kv = (k, v)" by fastforce
  obtain t1 where t1: "put k v t = Some (Inr t1)" "inv t1" "count t1 \<le> Suc (count t)"
      "\<forall>x. key x \<longrightarrow> val t1 x = (if rep x = rep k then v else val t x)"
    using put_law [of t k v] Cons.prems kv by auto
  obtain t' where t': "run_stores put kvs t1 = Some (Inr t')" "inv t'" "count t' \<le> count t1 + length kvs"
      "\<forall>x. key x \<longrightarrow> val t' x = (case map_of (rev (map (apfst rep) kvs)) (rep x) of None \<Rightarrow> val t1 x | Some v \<Rightarrow> v)"
    using Cons.IH [OF t1(2)] Cons.prems t1(3) by auto
  have "val t' x = (case map_of (rev (map (apfst rep) (kv # kvs))) (rep x) of None \<Rightarrow> val t x | Some v \<Rightarrow> v)" if "key x" for x
    using t'(4) t1(4) that kv by (auto simp: map_add_def split: option.splits)
  then show ?case using t1(1,3) t' kv by (intro exI [of _ t']) simp
qed simp

end

interpretation lua: bounded_table "tab_ok sh" tab_val "store sh" "\<lambda>t. card (live_keys t)" "2 ^ LJ_MAX_HBITS" proper_key canon for sh
proof
  fix t k v assume t: "tab_ok sh t" "card (live_keys t) < 2 ^ LJ_MAX_HBITS" "proper_key k"
  then obtain t' where t': "store sh k v t = Some (Inr t')" "tab_ok sh t'" "val_set k v t t'" using store_spec by blast
  have "card (live_keys t') \<le> card (insert (canon k) (live_keys t))"
    by (intro card_mono val_set_live [OF t'(3)]) (simp add: card_live_keys(2) [OF t(1)])
  also have "\<dots> \<le> Suc (card (live_keys t))" by (simp add: card_insert_if card_live_keys(2) [OF t(1)])
  finally show "\<exists>t'. store sh k v t = Some (Inr t') \<and> tab_ok sh t' \<and> card (live_keys t') \<le> Suc (card (live_keys t)) \<and>
      (\<forall>x. proper_key x \<longrightarrow> tab_val t' x = (if canon x = canon k then v else tab_val t x))"
    using t' by (auto simp: val_set_def)
qed

lemma lj_tab_new_ok:
  assumes "asize \<le> LJ_MAX_ASIZE" and "hbits \<le> LJ_MAX_HBITS"
  shows "\<exists>t. lj_tab_new asize hbits = Some (Inr t) \<and> tab_ok sh t \<and> (\<forall>x. tab_val t x = TNil) \<and> live_keys t = {}"
proof -
  let ?t = "\<lparr>nomm = - 1, array = replicate asize TNil, node = replicate (2 ^ hbits) empty_node, freetop = (if hbits = 0 then 0 else 2 ^ hbits)\<rparr>"
  have empty: "empty_node\<lparr>nnext := None, nkey := TNil, nval := TNil\<rparr> = empty_node" by (simp add: empty_node_def)
  have p: "2 ^ hbits \<le> (2 ^ LJ_MAX_HBITS :: nat)" "(2 ^ hbits = (1 :: nat)) = (hbits = 0)" using assms(2) by (intro power_increasing) auto
  have H: "hash_ok sh ?t" "hkeys (node ?t) = {}" by (rule hash_ok_empty [where n = "2 ^ hbits"]; use p in simp)+
  have new: "lj_tab_new asize hbits = Some (Inr ?t)"
    using assms by (simp add: lj_tab_new_def newtab_def newhpart_def clearapart_def clearhpart_def empty hmask_def map_replicate_const Let_def)
  have ok: "tab_ok sh ?t" using H assms(1) by (simp add: tab_ok_def)
  have "tab_val ?t x = TNil" for x
    using hval_none [of "canon x" "node ?t"] H(2) proper_not_nil [of x] arr_key_index [of asize x] by (auto simp: tab_val_def)
  then show ?thesis using new ok by (auto simp: live_keys_def)
qed

text \<open>
  Property C4. Lua tables are finite maps. On a new table of any admissible size, every sequence of up to
  2^26 assignments succeeds, whatever hash collisions, moves and rehashes it takes, and afterwards every
  key has the value of the last assignment to it, or nil. Keys that differ only as zero and minus zero are
  the same key, nil and NaN have no value.\<close>
theorem lj_tab_stores_refine:
  assumes "asize \<le> LJ_MAX_ASIZE" and "hbits \<le> LJ_MAX_HBITS"
    and "length kvs \<le> 2 ^ LJ_MAX_HBITS" and "\<forall>(k, v)\<in>set kvs. proper_key k"
  shows "\<exists>t t'. lj_tab_new asize hbits = Some (Inr t) \<and> run_stores (store sh) kvs t = Some (Inr t') \<and> tab_ok sh t' \<and>
    (\<forall>x. lj_tab_get sh t' x =
       Some (if proper_key x then case map_of (rev (map (apfst canon) kvs)) (canon x) of None \<Rightarrow> TNil | Some v \<Rightarrow> v else TNil))"
proof -
  obtain t where t: "lj_tab_new asize hbits = Some (Inr t)" "tab_ok sh t" "\<And>x. tab_val t x = TNil" "live_keys t = {}"
    using lj_tab_new_ok [OF assms(1,2)] by metis
  obtain t' where t': "run_stores (store sh) kvs t = Some (Inr t')" "tab_ok sh t'"
      "\<And>x. proper_key x \<Longrightarrow> tab_val t' x = (case map_of (rev (map (apfst canon) kvs)) (canon x) of None \<Rightarrow> tab_val t x | Some v \<Rightarrow> v)"
    using lua.run_stores_spec [OF t(2) _ assms(4)] assms(3) t(4) by auto
  have "tab_val t' x = TNil" if "\<not> proper_key x" for x using that by (simp add: tab_val_def)
  then show ?thesis using t t' by (intro exI [of _ t] exI [of _ t']) (simp add: lj_tab_get_spec split: option.splits)
qed

theorem lj_tab_stores_refine_witness:
  "\<exists>t t'. lj_tab_new 0 0 = Some (Inr t) \<and>
    run_stores (store (\<lambda>_. 7)) [(TStr 1, TBool True), (TStr 2, TBool True), (TStr 1, TBool False)] t = Some (Inr t') \<and>
    lj_tab_get (\<lambda>_. 7) t' (TStr 1) = Some (TBool False) \<and> lj_tab_get (\<lambda>_. 7) t' (TStr 2) = Some (TBool True) \<and>
    lj_tab_get (\<lambda>_. 7) t' (TStr 3) = Some TNil"
  using lj_tab_stores_refine [of 0 0 "[(TStr 1, TBool True), (TStr 2, TBool True), (TStr 1, TBool False)]" "\<lambda>_. 7"]
  by (force simp: proper_key_def canon_def)

section \<open>Errors\<close>

lemma store_improper:
  "\<not> proper_key k \<Longrightarrow> store sh k v t = Some (Inl (if k = TNil then LJ_ERR_NILIDX else LJ_ERR_NANIDX))"
  by (cases k) (auto simp: proper_key_def store_def lj_tab_set_def tab_set_def Let_def tvisnan_def num_eq_def)

text \<open>
  Property C37. Assigning to a table that is not full fails for two kinds of keys only, with an error of its
  own for each: nil, and numbers that are not a number.\<close>
theorem store_errors:
  assumes "tab_ok sh t" and "card (live_keys t) < 2 ^ LJ_MAX_HBITS"
  shows "store sh k v t = Some (Inl e) \<longleftrightarrow>
    k = TNil \<and> e = LJ_ERR_NILIDX \<or> (\<exists>n. k = TNum n \<and> num_isnan n \<and> e = LJ_ERR_NANIDX)"
proof (cases "proper_key k")
  case True
  then obtain t' where "store sh k v t = Some (Inr t')" using store_spec [OF assms] by blast
  then show ?thesis using True by (auto simp: proper_key_def tvisnan_isnan)
next
  case False
  then have "k = TNil \<or> (\<exists>n. k = TNum n \<and> num_isnan n)" by (cases k) (auto simp: proper_key_def tvisnan_isnan)
  then show ?thesis using store_improper [OF False, of sh v t] by auto
qed

theorem store_errors_witness:
  "\<exists>t. lj_tab_new 3 1 = Some (Inr t) \<and> store (\<lambda>_. 0) TNil (TBool True) t = Some (Inl LJ_ERR_NILIDX) \<and>
    store (\<lambda>_. 0) (TNum 0x7FF8000000000000) (TBool True) t = Some (Inl LJ_ERR_NANIDX) \<and>
    store (\<lambda>_. 0) (TStr 5) (TBool True) t \<noteq> Some (Inl LJ_ERR_TABOV)"
proof -
  obtain t where t: "lj_tab_new 3 1 = Some (Inr t)" "tab_ok (\<lambda>_. 0) t" "live_keys t = {}"
    using lj_tab_new_ok [of 3 1 "\<lambda>_. 0"] by auto
  have nan: "num_isnan 0x7FF8000000000000" by (simp add: num_isnan_def)
  show ?thesis using store_errors [OF t(2)] t nan by simp
qed

section \<open>Rehashing\<close>

text \<open>The number of values under integer keys below \<open>n\<close>.\<close>

definition index_cnt :: "ltab \<Rightarrow> nat \<Rightarrow> nat" where
  "index_cnt t n = card {j. j < n \<and> tab_val t (key_of_int (int j)) \<noteq> TNil}"

lemma key_ints_iff: "canon k = k \<Longrightarrow> j \<in> set (key_ints k) \<longleftrightarrow> j < LJ_MAX_ASIZE \<and> k = key_of_int (int j)"
proof -
  assume k: "canon k = k"
  have "k = key_of_int (int (arr_index k))" if "arr_key LJ_MAX_ASIZE k" using arr_index_key [OF that] k by simp
  moreover have "arr_key LJ_MAX_ASIZE (key_of_int (int j))" "arr_index (key_of_int (int j)) = j" if "j < LJ_MAX_ASIZE"
    using arr_key_of_int(1,2) [of j] that by simp_all
  ultimately show ?thesis using arr_key_index [of LJ_MAX_ASIZE k] by (auto simp: key_ints_def)
qed

lemma set_concat_key_ints:
  "\<forall>k\<in>fst ` set kvs. canon k = k \<Longrightarrow>
    set (concat (map (key_ints \<circ> fst) kvs)) = {j. j < LJ_MAX_ASIZE \<and> key_of_int (int j) \<in> fst ` set kvs}"
  by (induction kvs) (auto simp: key_ints_iff simp del: set_concat)

lemma distinct_concat_key_ints:
  "\<forall>k\<in>fst ` set kvs. canon k = k \<Longrightarrow> distinct (map fst kvs) \<Longrightarrow> distinct (concat (map (key_ints \<circ> fst) kvs))"
proof (induction kvs)
  case (Cons kv kvs)
  have "distinct (key_ints (fst kv))" by (simp add: key_ints_def)
  moreover have "set (key_ints (fst kv)) \<inter> set (concat (map (key_ints \<circ> fst) kvs)) = {}"
  proof -
    have "canon (fst kv) = fst kv" and kvs: "\<forall>k\<in>fst ` set kvs. canon k = k" and "fst kv \<notin> fst ` set kvs" using Cons.prems by simp_all
    then show ?thesis unfolding disjoint_iff set_concat_key_ints [OF kvs] mem_Collect_eq using key_ints_iff by metis
  qed
  ultimately show ?case using Cons by simp
qed simp

lemma node_ints:
  assumes ok: "tab_ok sh t"
  shows "distinct (concat (map (key_ints \<circ> fst) (node_pairs (node t))))"
    and "j \<in> set (concat (map (key_ints \<circ> fst) (node_pairs (node t)))) \<longleftrightarrow>
      length (array t) \<le> j \<and> j < LJ_MAX_ASIZE \<and> tab_val t (key_of_int (int j)) \<noteq> TNil"
proof -
  note D = tab_okD [OF ok] and N = node_keys_iff [OF ok]
  have c: "\<forall>k\<in>fst ` set (node_pairs (node t)). canon k = k" unfolding Ball_def N by blast
  show "distinct (concat (map (key_ints \<circ> fst) (node_pairs (node t))))"
    by (rule distinct_concat_key_ints [OF c map_of_node_pairs(2) [OF D(4), of "TBool True"]]) simp
  show "j \<in> set (concat (map (key_ints \<circ> fst) (node_pairs (node t)))) \<longleftrightarrow>
      length (array t) \<le> j \<and> j < LJ_MAX_ASIZE \<and> tab_val t (key_of_int (int j)) \<noteq> TNil"
  proof (cases "j < LJ_MAX_ASIZE")
    case True
    then have J: "j \<le> LJ_MAX_ASIZE" by simp
    show ?thesis unfolding set_concat_key_ints [OF c] mem_Collect_eq N using arr_key_of_int [OF J] True by (auto simp: tab_val_def)
  qed (simp only: set_concat_key_ints [OF c] mem_Collect_eq simp_thms)
qed

lemma below_index_keys:
  assumes ok: "tab_ok sh t" and n: "n \<le> LJ_MAX_ASIZE"
  shows "below (index_keys t TNil) n = index_cnt t n"
proof -
  note D = tab_okD [OF ok] and I = node_ints [OF ok]
  let ?A = "arr_live (array t) (length (array t))" let ?N = "concat (map (key_ints \<circ> fst) (node_pairs (node t)))"
  have nil: "key_ints TNil = []" by (simp add: key_ints_def arr_key_def int_key_def)
  have A: "j \<in> set ?A \<longleftrightarrow> j < length (array t) \<and> tab_val t (key_of_int (int j)) \<noteq> TNil" for j
  proof (cases "j < length (array t)")
    case True
    then have J: "j \<le> LJ_MAX_ASIZE" using D(2) by simp
    show ?thesis using arr_key_of_int [OF J] True by (simp add: arr_live_def tab_val_def)
  qed (auto dest: arr_live_less)
  have "set ?A \<inter> set ?N = {}" unfolding disjoint_iff A I(2) by simp
  moreover have "distinct ?A" by (simp add: arr_live_def)
  ultimately have "distinct (?A @ ?N)" unfolding distinct_append using I(1) by blast
  then have "distinct (filter (\<lambda>j. j < n) (?A @ ?N))" by (rule distinct_filter)
  then have "below (index_keys t TNil) n = card (set (filter (\<lambda>j. j < n) (?A @ ?N)))"
    unfolding below_def index_keys_def nil by (simp only: distinct_card append_Nil2)
  also have "set (filter (\<lambda>j. j < n) (?A @ ?N)) = {j. j < n \<and> tab_val t (key_of_int (int j)) \<noteq> TNil}"
    unfolding set_eq_iff set_filter mem_Collect_eq set_append Un_iff A I(2) using n by auto
  finally show ?thesis by (simp add: index_cnt_def)
qed

text \<open>
  Property C34. Rehashing a table keeps the value of every key. The array part it chooses has at least a
  quarter of its slots in use, and is the best of that kind: no array for the integers up to a power of two
  that was at least a quarter full would hold more values.\<close>
theorem lj_tab_rehash_correct:
  assumes "tab_ok sh t" and "card (live_keys t) < 2 ^ LJ_MAX_HBITS"
  shows "\<exists>t'. lj_tab_rehash sh t = Some (Inr t') \<and> tab_ok sh t' \<and> (\<forall>x. lj_tab_get sh t' x = lj_tab_get sh t x) \<and>
    length (array t') \<le> 4 * index_cnt t (length (array t')) \<and>
    (\<forall>b\<le>26. 2 ^ b < 2 * index_cnt t (2 * 2 ^ b + 1) \<longrightarrow> index_cnt t (2 * 2 ^ b + 1) \<le> index_cnt t (length (array t')))"
proof -
  have few: "live_cnt t < 2 ^ LJ_MAX_HBITS" using assms(2) card_live_keys(1) [OF assms(1)] by simp
  obtain t' na where t': "lj_tab_rehash sh t = Some (Inr t')" "tab_ok sh t'" "\<forall>x. tab_val t' x = tab_val t x"
      "\<forall>b. best (index_keys t TNil) b na (length (array t'))"
    using rehashtab_spec [OF assms(1) few, of 1 TNil] by (auto simp: lj_tab_rehash_def numeral_2_eq_2)
  have B: "\<And>b. best (index_keys t TNil) b na (length (array t'))" using t'(4) by blast
  note cnt = below_index_keys [OF assms(1)]
  have na: "na = index_cnt t (length (array t'))" "length (array t') \<le> 4 * na"
    using B [of 0] cnt [OF tab_okD(2) [OF t'(2)]] by (simp_all add: best_def)
  have "index_cnt t (2 * 2 ^ b + 1) \<le> na" if b: "b \<le> 26" "2 ^ b < 2 * index_cnt t (2 * 2 ^ b + 1)" for b
  proof -
    have "2 ^ b \<le> (2 ^ 26 :: nat)" using b(1) by (intro power_increasing) simp_all
    then have "2 * 2 ^ b + 1 \<le> LJ_MAX_ASIZE" by simp
    note c = cnt [OF this]
    show ?thesis using bestD [OF B [of "Suc b"], of b] b(2) unfolding c by simp
  qed
  then show ?thesis using t' na assms(1) by (intro exI [of _ t']) (simp add: lj_tab_get_spec)
qed

theorem lj_tab_rehash_correct_witness:
  "\<exists>t t1 t'. lj_tab_new 3 1 = Some (Inr t) \<and> store (\<lambda>_. 0) (TStr 5) (TBool True) t = Some (Inr t1) \<and>
    lj_tab_rehash (\<lambda>_. 0) t1 = Some (Inr t') \<and> lj_tab_get (\<lambda>_. 0) t' (TStr 5) = Some (TBool True) \<and>
    lj_tab_get (\<lambda>_. 0) t' (TStr 6) = Some TNil"
proof -
  obtain t where t: "lj_tab_new 3 1 = Some (Inr t)" "tab_ok (\<lambda>_. 0) t" "\<forall>x. tab_val t x = TNil" "live_keys t = {}"
    using lj_tab_new_ok [of 3 1 "\<lambda>_. 0"] by auto
  obtain t1 where t1: "store (\<lambda>_. 0) (TStr 5) (TBool True) t = Some (Inr t1)" "tab_ok (\<lambda>_. 0) t1"
      "val_set (TStr 5) (TBool True) t t1"
    using store_spec [OF t(2), of "TStr 5" "TBool True"] t(4) by (auto simp: proper_key_def)
  have v: "tab_val t1 (TStr 5) = TBool True" "tab_val t1 (TStr 6) = TNil"
    using t1(3) t(3) by (simp_all add: val_set_def proper_key_def canon_def)
  have "live_keys t1 \<subseteq> {TStr 5}" using val_set_live [OF t1(3)] t(4) by (simp add: canon_def)
  then have "card (live_keys t1) \<le> 1" using card_mono [of "{TStr 5}" "live_keys t1"] by simp
  then have few: "card (live_keys t1) < 2 ^ LJ_MAX_HBITS" by simp
  show ?thesis using lj_tab_rehash_correct [OF t1(2) few] t(1) t1(1) v by (auto simp: lj_tab_get_spec [OF t1(2)])
qed

section \<open>Traversal\<close>

definition hd_opt :: "'a list \<Rightarrow> 'a option" where
  "hd_opt xs = (case xs of [] \<Rightarrow> None | x # _ \<Rightarrow> Some x)"

lemma next_hd: "next_array i vs = hd_opt (arr_pairs i vs)" "next_node ns = hd_opt (node_pairs ns)"
proof -
  show "next_array i vs = hd_opt (arr_pairs i vs)" by (induction vs arbitrary: i) (simp_all add: hd_opt_def)
  show "next_node ns = hd_opt (node_pairs ns)" by (induction ns) (simp_all add: hd_opt_def node_pairs_def)
qed

text \<open>The pairs that a traversal has ahead of it at index \<open>i\<close>.\<close>

definition pairs_from :: "ltab \<Rightarrow> nat \<Rightarrow> (tvalue \<times> tvalue) list" where
  "pairs_from t i = arr_pairs i (drop i (array t)) @ node_pairs (drop (i - length (array t)) (node t))"

lemma lj_tab_next_pairs:
  assumes "keyindex sh t k = Some (Inr w)"
  shows "lj_tab_next sh t k = Some (Inr (hd_opt (pairs_from t (unat (w + 1)))))"
proof -
  have "max i a - a = i - a" for i a :: nat by simp
  then show ?thesis using assms by (simp add: lj_tab_next_def pairs_from_def next_hd Let_def hd_opt_def split: list.splits)
qed

lemma arr_pairs_Cons:
  "arr_pairs i vs = kv # rest \<Longrightarrow> \<exists>m<length vs. fst kv = key_of_int (int (i + m)) \<and> rest = arr_pairs (Suc (i + m)) (drop (Suc m) vs)"
proof (induction vs arbitrary: i)
  case (Cons v vs)
  show ?case
  proof (cases "v = TNil")
    case True
    then have "arr_pairs (Suc i) vs = kv # rest" using Cons.prems by simp
    from Cons.IH [OF this] obtain m where "m < length vs" "fst kv = key_of_int (int (Suc i + m))"
      "rest = arr_pairs (Suc (Suc i + m)) (drop (Suc m) vs)" by blast
    then show ?thesis by (intro exI [of _ "Suc m"]) simp
  qed (use Cons.prems in auto)
qed simp

lemma node_pairs_Cons:
  "node_pairs ns = kv # rest \<Longrightarrow>
    \<exists>m<length ns. fst kv = nkey (ns ! m) \<and> nval (ns ! m) \<noteq> TNil \<and> rest = node_pairs (drop (Suc m) ns)"
proof (induction ns)
  case (Cons n ns)
  show ?case
  proof (cases "nval n = TNil")
    case True
    then have "node_pairs ns = kv # rest" using Cons.prems by (simp add: node_pairs_def)
    then obtain m where "m < length ns" "fst kv = nkey (ns ! m)" "nval (ns ! m) \<noteq> TNil" "rest = node_pairs (drop (Suc m) ns)"
      using Cons.IH by blast
    then show ?thesis by (intro exI [of _ "Suc m"]) simp
  qed (use Cons.prems in \<open>auto simp: node_pairs_def\<close>)
qed (simp add: node_pairs_def)

lemma keyindex_array:
  assumes "tab_ok sh t" and "j < length (array t)"
  shows "keyindex sh t (key_of_int (int j)) = Some (Inr (of_nat j))"
proof -
  have "int j < 2 ^ 31" "int j mod 2 ^ 32 = int j" using tab_okD(2) [OF assms(1)] assms(2) by simp_all
  moreover then have "int_key (key_of_int (int j)) = Some (int j)" by (intro key_of_int_props) simp_all
  then have "num_eq (num_of_int (int j)) (num_of_int (lj_num2int (num_of_int (int j))))" "lj_num2int (num_of_int (int j)) = int j"
    by (auto simp: int_key_def key_of_int_def num_int_def split: if_splits)
  ultimately show ?thesis using assms(2) by (simp add: keyindex_def key_of_int_def inarray_def Let_def)
qed

lemma keyindex_node:
  assumes ok: "tab_ok sh t" and n: "n < length (node t)" "nval (node t ! n) \<noteq> TNil"
  shows "keyindex sh t (nkey (node t ! n)) = Some (Inr (of_nat (length (array t) + n)))"
proof -
  let ?k = "nkey (node t ! n)"
  note D = tab_okD [OF ok]
  have nn: "?k \<noteq> TNil" using keys_okD(1) [OF D(4) n(1)] n(2) by blast
  then have "?k \<in> hkeys (node t)" using n(1) by (auto simp: hkeys_iff)
  then have k: "proper_key ?k" "canon ?k = ?k" "\<not> arr_key (length (array t)) ?k" using D(7) by blast+
  obtain r where r: "find_key sh t ?k = Some r"
      "case r of None \<Rightarrow> canon ?k \<notin> hkeys (node t) | Some m \<Rightarrow> m < length (node t) \<and> nkey (node t ! m) = canon ?k"
    using find_key_spec [OF ok k(1)] by blast
  have "r = Some n"
  proof (cases r)
    case None
    then show ?thesis using r(2) k(2) \<open>?k \<in> hkeys (node t)\<close> by simp
  next
    case (Some m)
    then have "m < length (node t)" "nkey (node t ! m) = ?k" using r(2) k(2) by simp_all
    then have "m = n" using keys_okD(2) [OF D(4) _ n(1), of m] nn by simp
    then show ?thesis using Some by simp
  qed
  then have hash: "hash_index sh t ?k = Some (Inr (of_nat (length (array t) + n)))" using r(1) by (simp add: hash_index_def)
  show ?thesis
  proof (cases ?k)
    case (TNum u)
    have "\<not> (inarray t (lj_num2int u) \<and> num_eq u (num_of_int (lj_num2int u)))"
      using k(3) TNum inarray_key [of ?k "lj_num2int u" t] by (auto simp: int_key_def num_int_def)
    then show ?thesis using hash TNum by (auto simp: keyindex_def Let_def)
  qed (use hash nn in \<open>simp_all add: keyindex_def\<close>)
qed

lemma pairs_from_Cons:
  assumes ok: "tab_ok sh t" and "pairs_from t i = kv # rest"
  shows "\<exists>j. Suc j < 2 ^ 32 \<and> keyindex sh t (fst kv) = Some (Inr (of_nat j)) \<and> pairs_from t (Suc j) = rest"
proof (cases "arr_pairs i (drop i (array t))")
  case (Cons kv' r1)
  then have r1: "kv' = kv" "rest = r1 @ node_pairs (drop (i - length (array t)) (node t))" using assms(2) by (simp_all add: pairs_from_def)
  obtain m where m: "m < length (drop i (array t))" "fst kv = key_of_int (int (i + m))"
      "r1 = arr_pairs (Suc (i + m)) (drop (Suc m) (drop i (array t)))"
    using arr_pairs_Cons [OF Cons] r1(1) by blast
  then have "i + m < length (array t)" by simp
  moreover from this have "Suc (i + m) < 2 ^ 32" using tab_okD(2) [OF ok] by simp
  moreover have "pairs_from t (Suc (i + m)) = rest" using m r1(2) by (simp add: pairs_from_def add.commute)
  ultimately show ?thesis using keyindex_array [OF ok, of "i + m"] m(2) by (intro exI [of _ "i + m"]) simp
next
  case Nil
  let ?a = "length (array t)"
  have "node_pairs (drop (i - ?a) (node t)) = kv # rest" using assms(2) Nil by (simp add: pairs_from_def)
  then obtain m where m: "m < length (drop (i - ?a) (node t))" "fst kv = nkey (drop (i - ?a) (node t) ! m)"
      "nval (drop (i - ?a) (node t) ! m) \<noteq> TNil" "rest = node_pairs (drop (Suc m) (drop (i - ?a) (node t)))"
    using node_pairs_Cons by blast
  let ?n = "i - ?a + m"
  have n: "?n < length (node t)" "nval (node t ! ?n) \<noteq> TNil" "fst kv = nkey (node t ! ?n)" using m by auto
  have "length (node t) \<le> 2 ^ LJ_MAX_HBITS" using tab_okD(1) [OF ok] by (simp add: hash_ok_def)
  then have "Suc (?a + ?n) < 2 ^ 32" using n(1) tab_okD(2) [OF ok] by simp
  moreover have "pairs_from t (Suc (?a + ?n)) = rest" using m(4) by (simp add: pairs_from_def add.commute)
  ultimately show ?thesis using keyindex_node [OF ok n(1,2)] n(3) by (intro exI [of _ "?a + ?n"]) simp
qed

text \<open>The loop \<^verbatim>\<open>for k, v in next, t\<close>, with at most \<open>n\<close> calls of \<^verbatim>\<open>lj_tab_next\<close>.\<close>

fun traverse :: "(uint32 \<Rightarrow> uint32) \<Rightarrow> ltab \<Rightarrow> nat \<Rightarrow> tvalue \<Rightarrow> (tvalue \<times> tvalue) list res" where
  "traverse sh t 0 k = None"
| "traverse sh t (Suc n) k =
     bind_res (lj_tab_next sh t k) (\<lambda>r.
       case r of
         None \<Rightarrow> Some (Inr [])
       | Some kv \<Rightarrow> bind_res (traverse sh t n (fst kv)) (\<lambda>kvs. Some (Inr (kv # kvs))))"

lemma unat_of_nat_Suc: "Suc j < 2 ^ 32 \<Longrightarrow> unat (of_nat j + 1 :: uint32) = Suc j"
proof -
  assume j: "Suc j < 2 ^ 32"
  have "of_nat j + 1 = (of_nat (Suc j) :: uint32)" by (simp only: of_nat_Suc add.commute)
  moreover have "unat (of_nat (Suc j) :: uint32) = Suc j" by (rule unat_of_nat_small) (use j in simp)
  ultimately show ?thesis by (simp only:)
qed

lemma traverse_pairs:
  assumes ok: "tab_ok sh t"
  shows "keyindex sh t k = Some (Inr w) \<Longrightarrow> length (pairs_from t (unat (w + 1))) < n \<Longrightarrow>
    traverse sh t n k = Some (Inr (pairs_from t (unat (w + 1))))"
proof (induction n arbitrary: k w)
  case (Suc n)
  note nx = lj_tab_next_pairs [OF Suc.prems(1)]
  show ?case
  proof (cases "pairs_from t (unat (w + 1))")
    case Nil
    then show ?thesis using nx unfolding Nil by (simp add: hd_opt_def)
  next
    case (Cons kv rest)
    obtain j where j: "Suc j < 2 ^ 32" "keyindex sh t (fst kv) = Some (Inr (of_nat j))" "pairs_from t (Suc j) = rest"
      using pairs_from_Cons [OF ok Cons] by blast
    note u = unat_of_nat_Suc [OF j(1)]
    have "length rest < n" using Suc.prems(2) unfolding Cons by simp
    then have "traverse sh t n (fst kv) = Some (Inr rest)" using Suc.IH [OF j(2)] unfolding u j(3) by blast
    then show ?thesis using nx unfolding Cons by (simp add: hd_opt_def)
  qed
qed simp

text \<open>
  Property C35. A traversal with \<^verbatim>\<open>lj_tab_next\<close> from nil on ends, and visits every key that has a value
  exactly once, with its value.\<close>
theorem lj_tab_next_visits_all:
  assumes "tab_ok sh t" and "card (live_keys t) < n"
  shows "\<exists>kvs. traverse sh t n TNil = Some (Inr kvs) \<and> distinct (map fst kvs) \<and>
    set kvs = {(k, v). k \<in> live_keys t \<and> lj_tab_get sh t k = Some v}"
proof -
  note D = tab_okD [OF assms(1)]
  let ?A = "arr_pairs 0 (array t)" let ?N = "node_pairs (node t)"
  have L: "pairs_from t (unat (- 1 + 1 :: uint32)) = ?A @ ?N" by (simp add: pairs_from_def)
  have d: "distinct (map fst (?A @ ?N))"
    using distinct_arr_pairs [of 0 "array t"] D(2) map_of_node_pairs(2) [OF D(4), of "TBool True"] live_keys_pairs(2) [OF assms(1)] by simp
  have keys: "fst ` set (?A @ ?N) = live_keys t" using live_keys_pairs(1) [OF assms(1)] by (simp add: image_Un)
  have "card (live_keys t) = length (?A @ ?N)" using distinct_card [OF d] keys by (simp only: set_map length_map)
  then have run: "traverse sh t n TNil = Some (Inr (?A @ ?N))"
    using traverse_pairs [OF assms(1), of TNil "- 1" n] assms(2) unfolding L by (simp add: keyindex_def)
  have val: "v = tab_val t k" if kv: "(k, v) \<in> set (?A @ ?N)" for k v
  proof (cases "(k, v) \<in> set ?A")
    case True
    then obtain j where j: "k = key_of_int (int j)" "j < length (array t)" using arr_pairs_keys [of k v 0 "array t"] by auto
    then have J: "j \<le> LJ_MAX_ASIZE" using D(2) by simp
    have "map_of ?A k = Some v" using map_of_is_SomeI [OF _ True] d by simp
    then show ?thesis
      using map_of_arr_pairs [of 0 "array t", OF _ J] D(2) j arr_key_of_int [OF J] by (auto simp: tab_val_def split: if_splits)
  next
    case False
    then have n: "(k, v) \<in> set ?N" using kv by simp
    then have "k \<in> fst ` set ?N" by force
    then have k: "proper_key k" "canon k = k" "\<not> arr_key (length (array t)) k" unfolding node_keys_iff [OF assms(1)] by blast+
    have "map_of ?N k = Some v" using map_of_is_SomeI [OF _ n] d by simp
    then show ?thesis
      using map_of_node_pairs(1) [OF D(4), of k] proper_not_nil [OF k(1)] k by (auto simp: tab_val_def split: if_splits)
  qed
  have "set (?A @ ?N) = {(k, v). k \<in> live_keys t \<and> tab_val t k = v}"
    using val unfolding keys [symmetric] by force
  then show ?thesis using run d assms(1) by (intro exI [of _ "?A @ ?N"]) (simp only: lj_tab_get_spec option.inject simp_thms)
qed

theorem lj_tab_next_visits_all_witness:
  "\<exists>t t' kvs. lj_tab_new 0 0 = Some (Inr t) \<and> store (\<lambda>_. 0) (TStr 1) (TBool True) t = Some (Inr t') \<and>
    traverse (\<lambda>_. 0) t' 2 TNil = Some (Inr kvs) \<and> set kvs = {(TStr 1, TBool True)}"
proof -
  let ?sh = "\<lambda>_ :: uint32. 0 :: uint32"
  obtain t where t: "lj_tab_new 0 0 = Some (Inr t)" "tab_ok ?sh t" "\<forall>x. tab_val t x = TNil" "live_keys t = {}"
    using lj_tab_new_ok [of 0 0 ?sh] by auto
  have k: "proper_key (TStr 1)" "canon (TStr 1) = TStr 1" by (simp_all add: proper_key_def canon_def)
  obtain t' where t': "store ?sh (TStr 1) (TBool True) t = Some (Inr t')" "tab_ok ?sh t'" "val_set (TStr 1) (TBool True) t t'"
    using store_spec [OF t(2) _ k(1), of "TBool True"] t(4) by auto
  have v: "tab_val t' x = (if x = TStr 1 then TBool True else TNil)" if "proper_key x" "canon x = x" for x
    using t'(3) t(3) that k(2) by (simp add: val_set_def)
  then have live: "live_keys t' = {TStr 1}" using k by (auto simp: live_keys_def split: if_splits)
  then show ?thesis
    using lj_tab_next_visits_all [OF t'(2), of 2] t(1) t'(1) v [OF k] lj_tab_get_spec [OF t'(2), of "TStr 1"] by auto
qed

section \<open>Length\<close>

text \<open>A border: index \<open>n\<close> has a value, unless it is 0, and the next index has none.\<close>

definition has_index :: "ltab \<Rightarrow> nat \<Rightarrow> bool" where
  "has_index t i \<longleftrightarrow> tab_val t (key_of_int (int i)) \<noteq> TNil"

definition border :: "ltab \<Rightarrow> nat \<Rightarrow> bool" where
  "border t n \<longleftrightarrow> (n = 0 \<or> has_index t n) \<and> \<not> has_index t (n + 1)"

lemma getint_index:
  assumes ok: "tab_ok sh t" and i: "i < 2 ^ 31"
  shows "\<exists>tv. lj_tab_getint t (int i) = Some tv \<and> (present tv \<longleftrightarrow> has_index t i)"
proof -
  have "int i < 2 ^ 31" using i by simp
  then have "int_key (key_of_int (int i)) = Some (int i)" by (intro key_of_int_props) simp_all
  then have "num_eq (num_of_int (int i)) (num_of_int (lj_num2int (num_of_int (int i))))" "lj_num2int (num_of_int (int i)) = int i"
    by (auto simp: int_key_def key_of_int_def num_int_def split: if_splits)
  then have "map_option or_nil (lj_tab_getint t (int i)) = Some (tab_val t (key_of_int (int i)))"
    using lj_tab_get_spec [OF ok, of "key_of_int (int i)"] by (simp add: lj_tab_get_def key_of_int_def Let_def)
  then show ?thesis by (auto simp: has_index_def present_def or_nil_def split: option.splits)
qed

lemma missing_index:
  assumes ok: "tab_ok sh t"
  shows "\<exists>n. 0 < n \<and> n < 2 ^ 31 \<and> \<not> has_index t n"
proof (rule ccontr)
  assume "\<not> ?thesis"
  then have all: "has_index t n" if "0 < n" "n < 2 ^ 31" for n using that by blast
  let ?f = "\<lambda>n. key_of_int (int n)"
  have K: "int_key (?f n) = Some (int n)" "proper_key (?f n)" "canon (?f n) = ?f n" if "n < 2 ^ 31" for n
    using key_of_int_props [of "int n"] that by simp_all
  have "inj_on ?f {0<..<2 ^ 31}"
  proof (rule inj_onI)
    fix m n assume "m \<in> {0<..<2 ^ 31 :: nat}" "n \<in> {0<..<2 ^ 31 :: nat}" and eq: "?f m = ?f n"
    then have m: "m < 2 ^ 31" and n: "n < 2 ^ 31" by simp_all
    from eq have "int_key (?f m) = int_key (?f n)" by (rule arg_cong)
    then show "m = n" unfolding K(1) [OF m] K(1) [OF n] by simp
  qed
  then have "card (?f ` {0<..<2 ^ 31}) = 2 ^ 31 - 1" by (simp add: card_image)
  moreover have "?f ` {0<..<2 ^ 31} \<subseteq> live_keys t"
  proof
    fix k assume "k \<in> ?f ` {0<..<2 ^ 31}"
    then obtain n where "k = ?f n" "0 < n" "n < 2 ^ 31" by auto
    then show "k \<in> live_keys t" using K(2,3) [of n] all [of n] unfolding live_keys_def has_index_def by simp
  qed
  ultimately have "2 ^ 31 - 1 \<le> live_cnt t" using card_mono [OF card_live_keys(2) [OF ok]] card_live_keys(1) [OF ok] by metis
  moreover have "live_cnt t \<le> length (array t) + length (node t)" unfolding live_cnt_def by (intro add_mono length_filter_le)
  moreover have "length (node t) \<le> 2 ^ LJ_MAX_HBITS" using tab_okD(1) [OF ok] by (simp add: hash_ok_def)
  ultimately show False using tab_okD(2) [OF ok] by simp
qed

lemma linear_search_border:
  assumes ok: "tab_ok sh t"
  shows "0 < i \<Longrightarrow> i \<le> m \<Longrightarrow> m < 2 ^ 31 \<Longrightarrow> \<not> has_index t m \<Longrightarrow> i = 1 \<or> has_index t (i - 1) \<Longrightarrow>
    \<exists>n. linear_search t i = Some n \<and> border t n"
proof (induction "m - i" arbitrary: i rule: less_induct)
  case less
  then have "i < 2 ^ 31" by simp
  from getint_index [OF ok this] obtain tv where tv: "lj_tab_getint t (int i) = Some tv" "present tv \<longleftrightarrow> has_index t i" by blast
  show ?case
  proof (cases "has_index t i")
    case True
    then have "i < m" using less.prems(2,4) by (cases "i = m") auto
    then have "\<exists>n. linear_search t (Suc i) = Some n \<and> border t n" using less.hyps [of "Suc i"] less.prems True by simp
    then show ?thesis using tv True by (subst linear_search.simps) simp
  next
    case False
    then show ?thesis using tv less.prems by (subst linear_search.simps) (auto simp: border_def)
  qed
qed

lemma binary_search_border:
  assumes ok: "tab_ok sh t"
  shows "i < j \<Longrightarrow> j < 2 ^ 31 \<Longrightarrow> i = 0 \<or> has_index t i \<Longrightarrow> \<not> has_index t j \<Longrightarrow> \<exists>n. binary_search t i j = Some n \<and> border t n"
proof (induction "j - i" arbitrary: i j rule: less_induct)
  case less
  show ?case
  proof (cases "j - i > 1")
    case True
    let ?m = "(i + j) div 2"
    have m: "i < ?m" "?m < j" using True by linarith+
    then have "?m < 2 ^ 31" using less.prems(2) by linarith
    from getint_index [OF ok this] obtain tv where tv: "lj_tab_getint t (int ?m) = Some tv" "present tv \<longleftrightarrow> has_index t ?m" by blast
    show ?thesis
    proof (cases "has_index t ?m")
      case has: True
      have "\<exists>n. binary_search t ?m j = Some n \<and> border t n" using less.prems m has by (intro less.hyps) auto
      then show ?thesis using tv True has by (subst binary_search.simps) (simp add: Let_def)
    next
      case False
      have "\<exists>n. binary_search t i ?m = Some n \<and> border t n" using less.prems m False by (intro less.hyps) auto
      then show ?thesis using tv True False by (subst binary_search.simps) (simp add: Let_def)
    qed
  next
    case False
    then have "j = i + 1" using less.prems(1) by simp
    then show ?thesis using less.prems(3,4) False by (subst binary_search.simps) (simp add: border_def)
  qed
qed

lemma double_search_border:
  assumes ok: "tab_ok sh t"
  shows "i < j \<Longrightarrow> j \<le> 2147483645 \<Longrightarrow> i = 0 \<or> has_index t i \<Longrightarrow>
    \<exists>r. double_search t i j = Some r \<and>
      (case r of Inl n \<Rightarrow> border t n | Inr (i, j) \<Rightarrow> i < j \<and> j < 2 ^ 31 \<and> (i = 0 \<or> has_index t i) \<and> \<not> has_index t j)"
proof (induction "2147483645 - j" arbitrary: i j rule: less_induct)
  case less
  have "j < 2 ^ 31" using less.prems(2) by simp
  from getint_index [OF ok this] obtain tv where tv: "lj_tab_getint t (int j) = Some tv" "present tv \<longleftrightarrow> has_index t j" by blast
  show ?case
  proof (cases "has_index t j")
    case has: True
    show ?thesis
    proof (cases "j * 2 > 2147483645")
      case True
      obtain m where "0 < m" "m < 2 ^ 31" "\<not> has_index t m" using missing_index [OF ok] by blast
      then obtain n where "linear_search t 1 = Some n" "border t n" using linear_search_border [OF ok, of 1 m] by auto
      then show ?thesis using tv has True by (subst double_search.simps) simp
    next
      case False
      then have "\<exists>r. double_search t j (j * 2) = Some r \<and>
        (case r of Inl n \<Rightarrow> border t n | Inr (i, j) \<Rightarrow> i < j \<and> j < 2 ^ 31 \<and> (i = 0 \<or> has_index t i) \<and> \<not> has_index t j)"
        using less.prems has by (intro less.hyps) auto
      then show ?thesis using tv has False by (subst double_search.simps) simp
    qed
  next
    case False
    then show ?thesis using tv less.prems by (subst double_search.simps) auto
  qed
qed

lemma array_search_border:
  "0 < i \<Longrightarrow> i < j \<Longrightarrow> j \<le> length vs \<Longrightarrow> i = 1 \<or> vs ! (i - 1) \<noteq> TNil \<Longrightarrow> vs ! (j - 1) = TNil \<Longrightarrow>
    0 < array_search vs i j \<and> array_search vs i j < length vs \<and>
    (array_search vs i j = 1 \<or> vs ! (array_search vs i j - 1) \<noteq> TNil) \<and> vs ! array_search vs i j = TNil"
proof (induction vs i j rule: array_search.induct)
  case (1 vs i j)
  show ?case
  proof (cases "j - i > 1")
    case True
    let ?m = "(i + j) div 2"
    have m: "i < ?m" "?m < j" using True by linarith+
    show ?thesis
    proof (cases "vs ! (?m - 1) = TNil")
      case nil: True
      then show ?thesis using 1(1) [OF True refl] 1(3-) m True by (subst (1 2 3 4 5) array_search.simps) (simp add: Let_def)
    next
      case False
      then show ?thesis using 1(2) [OF True refl] 1(3-) m True by (subst (1 2 3 4 5) array_search.simps) (simp add: Let_def)
    qed
  next
    case False
    then have "j = i + 1" using 1(4) by simp
    then show ?thesis using 1(3-) False by (simp add: array_search.simps)
  qed
qed

text \<open>
  Property C36. The length of a table is a border: \<^verbatim>\<open>lj_tab_len\<close> returns, and its result \<open>n\<close> is 0 or an index
  with a value, and index \<open>n + 1\<close> has none.\<close>
theorem lj_tab_len_border:
  assumes ok: "tab_ok sh t"
  shows "\<exists>n. lj_tab_len t = Some n \<and> (n = 0 \<or> lj_tab_get sh t (key_of_int (int n)) \<noteq> Some TNil) \<and>
    lj_tab_get sh t (key_of_int (int (n + 1))) = Some TNil"
proof -
  note D = tab_okD [OF ok]
  let ?a = "length (array t)"
  have arr: "has_index t i \<longleftrightarrow> array t ! i \<noteq> TNil" if "i < ?a" for i
    using arr_key_of_int [of i] that D(2) by (simp add: has_index_def tab_val_def)
  have "\<exists>n. lj_tab_len t = Some n \<and> border t n"
  proof (cases "?a > 1 \<and> tvisnil (array t ! (?a - 1))")
    case True
    let ?s = "array_search (array t) 1 ?a"
    have s: "0 < ?s" "?s < ?a" "?s = 1 \<or> array t ! (?s - 1) \<noteq> TNil" "array t ! ?s = TNil"
      using array_search_border [of 1 ?a "array t"] True by auto
    then have "border t (?s - 1)" using arr [of ?s] arr [of "?s - 1"] by (auto simp: border_def)
    then show ?thesis using True by (simp add: lj_tab_len_def)
  next
    case False
    let ?j = "if ?a \<noteq> 0 then ?a - 1 else ?a"
    have j: "?j = 0 \<or> has_index t ?j" using False arr [of ?j] by auto
    show ?thesis
    proof (cases "hmask t = 0")
      case True
      then have "node t = [empty_node]" using D(1) by (simp add: hash_ok_def split: if_splits)
      then have nohash: "hval (node t) k = TNil" if "k \<noteq> TNil" for k using hval_none [OF _ that] by (simp add: hkeys_def empty_node_def)
      have "?j + 1 \<le> LJ_MAX_ASIZE" using D(2) by (cases "?a = 0") auto
      note K = arr_key_of_int [OF this]
      have "\<not> has_index t (?j + 1)" using K nohash proper_not_nil [OF K(3)] by (simp add: has_index_def tab_val_def)
      then show ?thesis using j False True by (auto simp: lj_tab_len_def border_def Let_def)
    next
      case hash: False
      have "?j + 1 \<le> 2147483645" using D(2) by (cases "?a = 0") auto
      then obtain r where r: "double_search t ?j (?j + 1) = Some r"
          "case r of Inl n \<Rightarrow> border t n | Inr (i, j) \<Rightarrow> i < j \<and> j < 2 ^ 31 \<and> (i = 0 \<or> has_index t i) \<and> \<not> has_index t j"
        using double_search_border [OF ok _ _ j] by force
      have "\<exists>n. unbound_search t ?j = Some n \<and> border t n"
        using r binary_search_border [OF ok] by (auto simp: unbound_search_def split: sum.splits)
      then show ?thesis using False hash by (auto simp: lj_tab_len_def Let_def)
    qed
  qed
  then show ?thesis by (auto simp: border_def has_index_def lj_tab_get_spec [OF ok])
qed

theorem lj_tab_len_border_witness:
  "\<exists>t. lj_tab_new 5 2 = Some (Inr t) \<and> (\<exists>n. lj_tab_len t = Some n \<and> (n = 0 \<or> lj_tab_get (\<lambda>_. 0) t (key_of_int (int n)) \<noteq> Some TNil))"
proof -
  obtain t where "lj_tab_new 5 2 = Some (Inr t)" "tab_ok (\<lambda>_. 0) t" using lj_tab_new_ok [of 5 2 "\<lambda>_. 0"] by auto
  then show ?thesis using lj_tab_len_border [of "\<lambda>_. 0" t] by blast
qed

end
