(* ===== verification/Lj_Str.thy ===== *)
theory Lj_Str
  imports Lj_Obj "HOL-Library.List_Lexorder" "HOL-Library.Monad_Syntax"
begin

text \<open>
  Lua strings at the level of bytes, the first half of \<^verbatim>\<open>core/luajit/src/lj_str.c\<close>: string
  objects, the comparison four bytes at a time \<^verbatim>\<open>lj_str_cmp\<close>, the test for equality
  \<^verbatim>\<open>str_fastcmp\<close> and the hash of a string. All of them load whole words, at
  the end of a string also up to three bytes behind it; the lemmas show that these bytes do
  not matter, that the comparison is the lexicographic order of the bytes, that the equality
  test decides equality and that neither it nor the hash leaves the pages of the
  string. The theory \<^verbatim>\<open>Lj_Intern\<close> has the table of interned strings.
\<close>

unbundle bit_operations_syntax

section \<open>The code\<close>

text \<open>
  A string object with its header. The payload follows the header, and \<^verbatim>\<open>strdata\<close> is the
  memory from there on: the bytes of the string, the terminating zero and whatever follows.
\<close>

record gcstr =
  str_nextgc :: uint32
  str_marked :: uint8
  str_gct :: uint8
  str_reserved :: uint8
  str_hash :: uint32
  str_len :: uint32
  strdata :: "nat \<Rightarrow> uint8"

abbreviation LJ_MAX_MEM :: nat where "LJ_MAX_MEM \<equiv> 0x7fffff00"
abbreviation LJ_MAX_STR :: nat where "LJ_MAX_STR \<equiv> LJ_MAX_MEM"
abbreviation LJ_PAGESIZE :: uint64 where "LJ_PAGESIZE \<equiv> 4096"

text \<open>A word in memory, the lowest byte first, and the exchange of its bytes.\<close>

definition le32 :: "uint8 \<Rightarrow> uint8 \<Rightarrow> uint8 \<Rightarrow> uint8 \<Rightarrow> uint32" where
  "le32 a b c d = ucast a OR push_bit 8 (ucast b) OR push_bit 16 (ucast c) OR push_bit 24 (ucast d)"

definition u32_at :: "(nat \<Rightarrow> uint8) \<Rightarrow> nat \<Rightarrow> uint32" where
  "u32_at d i = le32 (d i) (d (i + 1)) (d (i + 2)) (d (i + 3))"

definition lj_bswap :: "uint32 \<Rightarrow> uint32" where
  "lj_bswap x = push_bit 24 x OR push_bit 8 (x AND 0xff00) OR (drop_bit 8 x AND 0xff00) OR drop_bit 24 x"

text \<open>
  The loop of \<^verbatim>\<open>lj_str_cmp\<close> from index \<open>i\<close> on. The index wraps at 32 bits: on lengths
  near \<open>2 ^ 32\<close> it would not end.
\<close>

partial_function (option) str_cmp_from :: "gcstr \<Rightarrow> gcstr \<Rightarrow> uint32 \<Rightarrow> uint32 \<Rightarrow> int option" where
  "str_cmp_from a b n i =
     (if i < n then
        let va = u32_at (strdata a) (unat i); vb = u32_at (strdata b) (unat i)
        in if va \<noteq> vb then
             let va = lj_bswap va; vb = lj_bswap vb; i = i - n
             in if sint i \<ge> - 3 then
                  let s = unat (32 + push_bit 3 i); va = drop_bit s va; vb = drop_bit s vb
                  in if va = vb then Some (sint (str_len a - str_len b))
                     else Some (if va < vb then - 1 else 1)
                else Some (if va < vb then - 1 else 1)
           else str_cmp_from a b n (i + 4)
      else Some (sint (str_len a - str_len b)))"

definition lj_str_cmp :: "gcstr \<Rightarrow> gcstr \<Rightarrow> int option" where
  "lj_str_cmp a b = str_cmp_from a b (if str_len a > str_len b then str_len b else str_len a) 0"

text \<open>
  The memory a string to be interned lies in: the value of the byte at each address, or
  nothing where no page is mapped and a load is a fault.
\<close>

type_synonym memory = "uint64 \<Rightarrow> uint8 option"

definition lj_getu32 :: "memory \<Rightarrow> uint64 \<Rightarrow> uint32 option" where
  "lj_getu32 mem p = do { a \<leftarrow> mem p; b \<leftarrow> mem (p + 1); c \<leftarrow> mem (p + 2); d \<leftarrow> mem (p + 3); Some (le32 a b c d) }"

datatype str_err = LJ_ERR_STROV | LJ_ERR_ERRMEM | Segv | Not_string

text \<open>The value of the inner option is missing when a load faults, that of the outer one when the loop does not end.\<close>

partial_function (option) str_fastcmp_from ::
  "memory \<Rightarrow> uint64 \<Rightarrow> (nat \<Rightarrow> uint8) \<Rightarrow> uint32 \<Rightarrow> uint32 \<Rightarrow> int option option" where
  "str_fastcmp_from mem a b len i =
     (case lj_getu32 mem (a + ucast i) of
        None \<Rightarrow> Some None
      | Some w \<Rightarrow>
          let v = w XOR u32_at b (unat i)
          in if v \<noteq> 0 then
               let i = i - len
               in Some (Some (if sint i \<ge> - 3 then sint (push_bit (unat (32 + push_bit 3 i)) v) else 1))
             else if i + 4 < len then str_fastcmp_from mem a b len (i + 4) else Some (Some 0))"

definition str_fastcmp :: "memory \<Rightarrow> uint64 \<Rightarrow> (nat \<Rightarrow> uint8) \<Rightarrow> uint32 \<Rightarrow> int option option" where
  "str_fastcmp mem a b len = str_fastcmp_from mem a b len 0"

text \<open>\<^verbatim>\<open>memcmp\<close> reads the bytes one by one.\<close>

fun memcmp_from :: "memory \<Rightarrow> uint64 \<Rightarrow> (nat \<Rightarrow> uint8) \<Rightarrow> nat \<Rightarrow> nat \<Rightarrow> int option" where
  "memcmp_from mem a b i 0 = Some 0"
| "memcmp_from mem a b i (Suc n) =
     (case mem (a + of_nat i) of
        None \<Rightarrow> None
      | Some c \<Rightarrow> if c = b i then memcmp_from mem a b (i + 1) n else Some (if c < b i then - 1 else 1))"

definition memcmp :: "memory \<Rightarrow> uint64 \<Rightarrow> (nat \<Rightarrow> uint8) \<Rightarrow> uint32 \<Rightarrow> int option" where
  "memcmp mem a b len = memcmp_from mem a b 0 (unat len)"

text \<open>The hash of a string that is not empty; a fault is no value.\<close>

definition str_hash_mix :: "uint32 \<Rightarrow> uint32 \<Rightarrow> uint32 \<Rightarrow> uint32" where
  "str_hash_mix a b h =
     (let a = a XOR h; a = a - lj_rol h 11;
          b = b XOR a; b = b - lj_rol a 25;
          h = h XOR b; h = h - lj_rol b 16
      in h)"

definition str_hash_of :: "memory \<Rightarrow> uint64 \<Rightarrow> uint32 \<Rightarrow> uint32 option" where
  "str_hash_of mem str len =
     (if len \<ge> 4 then
        do { a \<leftarrow> lj_getu32 mem str;
             c \<leftarrow> lj_getu32 mem (str + ucast len - 4);
             b \<leftarrow> lj_getu32 mem (str + ucast (drop_bit 1 len) - 2);
             d \<leftarrow> lj_getu32 mem (str + ucast (drop_bit 2 len) - 1);
             let h = len XOR c; h = h XOR b; h = h - lj_rol b 14
             in Some (str_hash_mix a (b + d) h) }
      else
        do { a \<leftarrow> mem str;
             c \<leftarrow> mem (str + ucast len - 1);
             b \<leftarrow> mem (str + ucast (drop_bit 1 len));
             let h = len XOR ucast c; h = h XOR ucast b; h = h - lj_rol (ucast b) 14
             in Some (str_hash_mix (ucast a) (ucast b) h) })"

text \<open>Is the end of a string far enough from the end of its page to load a word there?\<close>

definition str_fast :: "uint64 \<Rightarrow> uint32 \<Rightarrow> bool" where
  "str_fast str len \<longleftrightarrow> (str + ucast len - 1) AND (LJ_PAGESIZE - 1) \<le> LJ_PAGESIZE - 4"

section \<open>Bytes and words\<close>

text \<open>The number whose digits to the base 256 are the bytes, the highest first.\<close>

definition be :: "uint8 list \<Rightarrow> nat" where
  "be xs = foldl (\<lambda>n b. n * 256 + unat b) 0 xs"

lemma be_foldl: "foldl (\<lambda>n b. n * 256 + unat b) n xs = n * 256 ^ length xs + be xs"
proof (induction xs arbitrary: n)
  case (Cons x xs)
  show ?case using Cons [of "n * 256 + unat x"] Cons [of "unat x"] by (simp add: be_def algebra_simps)
qed (simp add: be_def)

lemma be_simps [simp]: "be [] = 0" "be (x # xs) = unat x * 256 ^ length xs + be xs"
  using be_foldl [of "unat x" xs] by (simp_all add: be_def)

lemma be_append: "be (xs @ ys) = be xs * 256 ^ length ys + be ys"
  by (induction xs) (auto simp: algebra_simps power_add)

lemma unat_byte: "unat (x :: uint8) < 256" using unsigned_less [of x] by simp

lemma be_less: "be xs < 256 ^ length xs"
proof (induction xs)
  case (Cons x xs)
  have "unat x * 256 ^ length xs + be xs < (unat x + 1) * 256 ^ length xs" using Cons by simp
  also have "\<dots> \<le> 256 * 256 ^ length xs" using unat_byte [of x] by (intro mult_right_mono) auto
  finally show ?case by simp
qed simp

lemma be_less_iff: "length xs = length ys \<Longrightarrow> be xs < be ys \<longleftrightarrow> xs < ys"
proof (induction xs ys rule: list_induct2)
  case (Cons x xs y ys)
  have lt: "be (u # us) < be (v # vs)" if "u < v" and "length us = length vs" for u v :: uint8 and us vs
  proof -
    have "be (u # us) < (unat u + 1) * 256 ^ length us" using be_less [of us] by simp
    also have "\<dots> \<le> unat v * 256 ^ length us" using that(1) by (intro mult_right_mono) (auto simp: word_less_nat_alt)
    finally show ?thesis using that(2) by simp
  qed
  consider "x < y" | "x = y" | "y < x" by fastforce
  then show ?case using lt [of x y xs ys] lt [of y x ys xs] Cons by cases auto
qed simp

lemma be_eq_iff: "length xs = length ys \<Longrightarrow> be xs = be ys \<longleftrightarrow> xs = ys"
  using be_less_iff [of xs ys] be_less_iff [of ys xs] by (metis not_less_iff_gr_or_eq)

lemma be_prefix: "be (xs @ ys) div 256 ^ length ys = be xs"
  using be_less [of ys] by (simp add: be_append)

lemma bit_byte: "bit (x :: uint8) n \<Longrightarrow> n < 8" using bit_imp_le_length [of x n] by simp

lemma bit_le32:
  "bit (le32 a b c d) n \<longleftrightarrow>
     (if n < 8 then bit a n else if n < 16 then bit b (n - 8) else if n < 24 then bit c (n - 16) else bit d (n - 24))"
  using bit_byte [of a n] bit_byte [of b "n - 8"] bit_byte [of c "n - 16"] bit_byte [of d "n - 24"]
  by (auto simp: le32_def bit_simps)

lemma lj_bswap_le32: "lj_bswap (le32 a b c d) = le32 d c b a"
proof (rule bit_word_eqI)
  fix n :: nat assume n: "n < LENGTH(32)"
  have m: "0xff00 = push_bit 8 (mask 8 :: uint32)" by (simp add: mask_eq_exp_minus_1 push_bit_eq_mult)
  consider "n < 8" | "8 \<le> n" "n < 16" | "16 \<le> n" "n < 24" | "24 \<le> n" by linarith
  then show "bit (lj_bswap (le32 a b c d)) n \<longleftrightarrow> bit (le32 d c b a) n" using n bit_byte [of d n]
    by cases (auto simp: lj_bswap_def m bit_le32 bit_simps)
qed

lemma unat_or_push_bit:
  fixes x y :: uint32
  assumes x: "unat x < 2 ^ k" and y: "unat y * 2 ^ k + 2 ^ k \<le> 2 ^ 32"
  shows "unat (x OR push_bit k y) = unat x + unat y * 2 ^ k"
proof -
  have "take_bit k x = x" using x by (simp add: unat_less_power_iff_take_bit)
  moreover have "take_bit k x AND push_bit k y = 0" by (rule bit_word_eqI) (simp add: bit_simps)
  ultimately have "x OR push_bit k y = x + push_bit k y" by (simp add: disjunctive_add_eq_or)
  also have "\<dots> = of_nat (unat x + unat y * 2 ^ k)" by (simp add: push_bit_eq_mult)
  finally have "unat (x OR push_bit k y) = unat (of_nat (unat x + unat y * 2 ^ k) :: uint32)" by (rule arg_cong)
  also have "\<dots> = unat x + unat y * 2 ^ k" by (rule unat_of_nat_small) (use assms in simp)
  finally show ?thesis .
qed

lemma unat_le32: "unat (le32 d c b a) = be [a, b, c, d]"
proof -
  have u: "unat (ucast x :: uint32) = unat x" for x :: uint8 using unat_byte [of x] by (simp add: unsigned_ucast_eq take_bit_nat_eq_self)
  note bytes = unat_byte [of a] unat_byte [of b] unat_byte [of c] unat_byte [of d]
  have 1: "unat (ucast d OR push_bit 8 (ucast c) :: uint32) = unat d + unat c * 256"
    using unat_or_push_bit [of "ucast d" 8 "ucast c"] bytes by (simp add: u)
  have 2: "unat ((ucast d OR push_bit 8 (ucast c)) OR push_bit 16 (ucast b) :: uint32) = unat d + unat c * 256 + unat b * 65536"
    using unat_or_push_bit [of "ucast d OR push_bit 8 (ucast c)" 16 "ucast b"] bytes by (simp add: u 1)
  have "unat (((ucast d OR push_bit 8 (ucast c)) OR push_bit 16 (ucast b)) OR push_bit 24 (ucast a) :: uint32)
      = unat d + unat c * 256 + unat b * 65536 + unat a * 16777216"
    using unat_or_push_bit [of "(ucast d OR push_bit 8 (ucast c)) OR push_bit 16 (ucast b)" 24 "ucast a"] bytes
    by (simp only: u 2) simp
  then show ?thesis by (simp add: le32_def or.assoc)
qed

lemma le32_inject: "le32 a b c d = le32 a' b' c' d' \<longleftrightarrow> a = a' \<and> b = b' \<and> c = c' \<and> d = d'"
proof
  assume "le32 a b c d = le32 a' b' c' d'"
  then have "be [d, c, b, a] = be [d', c', b', a']" by (simp only: unat_le32 [symmetric])
  then show "a = a' \<and> b = b' \<and> c = c' \<and> d = d'" using be_eq_iff [of "[d, c, b, a]" "[d', c', b', a']"] by simp
qed simp

section \<open>The comparison is the lexicographic order\<close>

text \<open>The bytes at indices from \<open>i\<close> on.\<close>

definition seg :: "(nat \<Rightarrow> uint8) \<Rightarrow> nat \<Rightarrow> nat \<Rightarrow> uint8 list" where
  "seg d i r = map d [i..<i + r]"

lemma length_seg [simp]: "length (seg d i r) = r"
  by (simp add: seg_def)

definition str_bytes :: "gcstr \<Rightarrow> uint8 list" where
  "str_bytes s = seg (strdata s) 0 (unat (str_len s))"

lemma length_str_bytes [simp]: "length (str_bytes s) = unat (str_len s)"
  by (simp add: str_bytes_def)

lemma seg_eq_iff: "seg d i r = seg e i r \<longleftrightarrow> (\<forall>j<r. d (i + j) = e (i + j))"
proof -
  have "seg d i r = seg e i r \<longleftrightarrow> (\<forall>k\<in>{i..<i + r}. d k = e k)" by (auto simp: seg_def)
  also have "\<dots> \<longleftrightarrow> (\<forall>j<r. d (i + j) = e (i + j))"
    by (metis atLeastLessThan_iff le_add1 le_add_diff_inverse nat_add_left_cancel_less)
  finally show ?thesis .
qed

lemma seg_4: "seg d i 4 = [d i, d (i + 1), d (i + 2), d (i + 3)]"
  by (simp add: seg_def upt_rec numeral_eq_Suc)

lemma seg_split: "r \<le> n \<Longrightarrow> seg d i n = seg d i r @ seg d (i + r) (n - r)"
  using upt_add_eq_append [of i "i + r" "n - r"] by (simp add: seg_def)

lemma unat_bswap_at: "unat (lj_bswap (u32_at d i)) = be (seg d i 4)"
  by (simp only: u32_at_def lj_bswap_le32 unat_le32 seg_4)

text \<open>Shifting out the bytes behind the end leaves those of the string.\<close>

lemma unat_bswap_shift:
  assumes "r \<le> 4"
  shows "unat (drop_bit (8 * (4 - r)) (lj_bswap (u32_at d i))) = be (seg d i r)"
proof -
  have "256 ^ (4 - r) = (2 :: nat) ^ (8 * (4 - r))" by (simp add: power_mult)
  then have "unat (drop_bit (8 * (4 - r)) (lj_bswap (u32_at d i))) = be (seg d i 4) div 256 ^ (4 - r)"
    by (simp add: unat_drop_bit_eq drop_bit_eq_div unat_bswap_at del: be_simps flip: drop_bit_eq_div)
  also have "\<dots> = be (seg d i r)"
    using be_prefix [of "seg d i r" "seg d (i + r) (4 - r)"] assms by (simp add: seg_split [of r 4])
  finally show ?thesis .
qed

lemma u32_at_eq_iff: "u32_at d i = u32_at e i \<longleftrightarrow> seg d i 4 = seg e i 4"
  by (simp only: u32_at_def le32_inject seg_4 list.inject) simp

text \<open>The first difference decides.\<close>

lemma lex_first_difference:
  fixes u v :: "uint8 list"
  assumes "length u = length v" and "u \<noteq> v"
  shows "p @ u @ x < p @ v @ y \<longleftrightarrow> u < v" and "p @ u @ x \<noteq> p @ v @ y"
proof -
  have "u @ x < v @ y \<longleftrightarrow> u < v" using assms by (induction u v rule: list_induct2) auto
  then show "p @ u @ x < p @ v @ y \<longleftrightarrow> u < v" by (induction p) auto
  show "p @ u @ x \<noteq> p @ v @ y" using assms by simp
qed

definition cmp_ok :: "int \<Rightarrow> uint8 list \<Rightarrow> uint8 list \<Rightarrow> bool" where
  "cmp_ok r xs ys \<longleftrightarrow> (r < 0 \<longleftrightarrow> xs < ys) \<and> (r = 0 \<longleftrightarrow> xs = ys)"

lemma cmp_ok_difference:
  assumes "i + r \<le> unat (str_len a)" "i + r \<le> unat (str_len b)" and "seg (strdata a) 0 i = seg (strdata b) 0 i"
    and "seg (strdata a) i r \<noteq> seg (strdata b) i r"
  shows "cmp_ok (if be (seg (strdata a) i r) < be (seg (strdata b) i r) then - 1 else 1) (str_bytes a) (str_bytes b)"
proof -
  have "str_bytes s = seg (strdata s) 0 i @ seg (strdata s) i r @ seg (strdata s) (i + r) (unat (str_len s) - (i + r))"
    if "i + r \<le> unat (str_len s)" for s
    using that seg_split [of i "unat (str_len s)" "strdata s" 0] seg_split [of r "unat (str_len s) - i" "strdata s" i]
    by (simp add: str_bytes_def)
  note split = this [OF assms(1)] this [OF assms(2)]
  show ?thesis
    using lex_first_difference [of "seg (strdata a) i r" "seg (strdata b) i r"] assms(3,4)
    unfolding cmp_ok_def split by (simp add: be_less_iff)
qed

lemma sint_diff:
  assumes "unat x < 2 ^ 31" "unat y < 2 ^ 31"
  shows "sint (x - y :: uint32) = int (unat x) - int (unat y)"
proof -
  have "x - y = of_int (int (unat x) - int (unat y))" by simp
  then have "sint (x - y) = signed_take_bit 31 (int (unat x) - int (unat y))" by (simp only: signed_of_int) simp
  also have "\<dots> = int (unat x) - int (unat y)" using assms by (intro signed_take_bit_int_eq_self) (simp_all del: of_nat_unat)
  finally show ?thesis .
qed

text \<open>The index relative to the end, and the shift it gives.\<close>

lemma short_rest: "i < n \<Longrightarrow> unat n < 2 ^ 31 \<Longrightarrow> sint (i - n :: uint32) \<ge> - 3 \<longleftrightarrow> unat n - unat i \<le> 3"
  using sint_diff [of i n] by (auto simp: word_less_nat_alt simp del: of_nat_unat)

lemma shift_rest:
  assumes "i < n" and "unat n - unat i \<le> 3"
  shows "unat (32 + push_bit 3 (i - n :: uint32)) = 8 * (4 - (unat n - unat i))"
proof -
  have d: "i - n = - of_nat (unat n - unat i)"
    using assms(1) by (simp add: word_less_nat_alt of_nat_diff)
  consider "unat n - unat i = 1" | "unat n - unat i = 2" | "unat n - unat i = 3"
    using assms by (fastforce simp: word_less_nat_alt)
  then show ?thesis unfolding d by cases (simp_all add: push_bit_eq_mult)
qed

lemma prefix_cmp_ok:
  assumes "n = (if str_len a > str_len b then str_len b else str_len a)" and "unat (str_len a) < 2 ^ 31" "unat (str_len b) < 2 ^ 31"
    and "seg (strdata a) 0 (unat n) = seg (strdata b) 0 (unat n)"
  shows "cmp_ok (sint (str_len a - str_len b)) (str_bytes a) (str_bytes b)"
proof -
  let ?a = "unat (str_len a)" let ?b = "unat (str_len b)"
  have n: "unat n = min ?a ?b" using assms(1) by (simp add: word_less_nat_alt)
  have s: "str_bytes s = seg (strdata s) 0 (unat n) @ seg (strdata s) (unat n) (unat (str_len s) - unat n)" if "s = a \<or> s = b" for s
    using seg_split [of "unat n" "unat (str_len s)" "strdata s" 0] n that by (auto simp: str_bytes_def)
  have l: "p @ u < p @ v \<longleftrightarrow> length u < length v" "p @ u = p @ v \<longleftrightarrow> length u = length v"
    if "length u = 0 \<or> length v = 0" for p u v :: "uint8 list"
  proof -
    have "p @ u < p @ v \<longleftrightarrow> u < v" by (induction p) auto
    then show "p @ u < p @ v \<longleftrightarrow> length u < length v" using that by (cases u; cases v) auto
    show "p @ u = p @ v \<longleftrightarrow> length u = length v" using that by (cases u; cases v) auto
  qed
  let ?u = "seg (strdata a) (unat n) (?a - unat n)" let ?v = "seg (strdata b) (unat n) (?b - unat n)"
  have d: "length ?u = 0 \<or> length ?v = 0" "length ?u < length ?v \<longleftrightarrow> ?a < ?b" "length ?u = length ?v \<longleftrightarrow> ?a = ?b" using n by auto
  have "str_bytes a = seg (strdata b) 0 (unat n) @ ?u" "str_bytes b = seg (strdata b) 0 (unat n) @ ?v"
    using s [of a] s [of b] assms(4) by simp_all
  then have "str_bytes a < str_bytes b \<longleftrightarrow> ?a < ?b" and "str_bytes a = str_bytes b \<longleftrightarrow> ?a = ?b"
    using l [OF d(1)] d(2,3) by simp_all
  then show ?thesis using sint_diff [of "str_len a" "str_len b"] assms(2,3) by (simp add: cmp_ok_def del: of_nat_unat)
qed

lemma str_cmp_difference:
  assumes n: "n = (if str_len a > str_len b then str_len b else str_len a)"
    and len: "unat (str_len a) < 2 ^ 31" "unat (str_len b) < 2 ^ 31"
    and i: "i < n" and p: "seg (strdata a) 0 (unat i) = seg (strdata b) 0 (unat i)"
    and ne: "u32_at (strdata a) (unat i) \<noteq> u32_at (strdata b) (unat i)"
  shows "\<exists>r. str_cmp_from a b n i = Some r \<and> cmp_ok r (str_bytes a) (str_bytes b)"
proof -
  let ?a = "strdata a" let ?b = "strdata b"
  have nn: "unat n \<le> unat (str_len a)" "unat n \<le> unat (str_len b)" "unat n < 2 ^ 31" using n len by (auto simp: word_less_nat_alt)
  note defn = str_cmp_from.simps [of a b n i] and short = short_rest [OF i nn(3)]
  show ?thesis
  proof (cases "unat n - unat i \<le> 3")
    case False
    then have "cmp_ok (if be (seg ?a (unat i) 4) < be (seg ?b (unat i) 4) then - 1 else 1) (str_bytes a) (str_bytes b)"
      using nn ne p by (intro cmp_ok_difference) (auto simp: u32_at_eq_iff)
    then show ?thesis using defn i ne False short by (simp add: Let_def word_less_nat_alt unat_bswap_at)
  next
    case True
    define r where "r = unat n - unat i"
    have r: "r \<le> 4" "unat i + r = unat n" using True i by (auto simp: r_def word_less_nat_alt)
    let ?va = "drop_bit (8 * (4 - r)) (lj_bswap (u32_at ?a (unat i)))" let ?vb = "drop_bit (8 * (4 - r)) (lj_bswap (u32_at ?b (unat i)))"
    have v: "unat ?va = be (seg ?a (unat i) r)" "unat ?vb = be (seg ?b (unat i) r)" using r(1) by (simp_all add: unat_bswap_shift)
    have sh: "sint (i - n) \<ge> - 3" "unat (32 + push_bit 3 (i - n)) = 8 * (4 - r)" using short True shift_rest [OF i True] by (simp_all add: r_def)
    have step: "str_cmp_from a b n i = Some (if ?va = ?vb then sint (str_len a - str_len b) else if ?va < ?vb then - 1 else 1)"
      using defn i ne sh by (simp add: Let_def)
    have e: "?va = ?vb \<longleftrightarrow> seg ?a (unat i) r = seg ?b (unat i) r"
      using v be_eq_iff [of "seg ?a (unat i) r" "seg ?b (unat i) r"] by (simp add: word_unat_eq_iff)
    show ?thesis
    proof (cases "seg ?a (unat i) r = seg ?b (unat i) r")
      case True
      then have "seg ?a 0 (unat n) = seg ?b 0 (unat n)" using p seg_split [of "unat i" "unat i + r" _ 0] by (simp flip: r(2))
      then show ?thesis using step e True prefix_cmp_ok [OF n len] by simp
    next
      case False
      then have "cmp_ok (if be (seg ?a (unat i) r) < be (seg ?b (unat i) r) then - 1 else 1) (str_bytes a) (str_bytes b)"
        using r(2) nn p by (intro cmp_ok_difference) auto
      then show ?thesis using step e False by (simp add: word_less_nat_alt v)
    qed
  qed
qed

lemma str_cmp_from_ok:
  assumes n: "n = (if str_len a > str_len b then str_len b else str_len a)"
    and len: "unat (str_len a) < 2 ^ 31" "unat (str_len b) < 2 ^ 31"
    and eq: "seg (strdata a) 0 (min (unat i) (unat n)) = seg (strdata b) 0 (min (unat i) (unat n))"
  shows "\<exists>r. str_cmp_from a b n i = Some r \<and> cmp_ok r (str_bytes a) (str_bytes b)"
  using eq
proof (induction "unat n - unat i" arbitrary: i rule: less_induct)
  case less
  let ?a = "strdata a" let ?b = "strdata b"
  have nn: "unat n < 2 ^ 31" using n len by simp
  note defn = str_cmp_from.simps [of a b n i]
  show ?case
  proof (cases "i < n")
    case False
    then have "cmp_ok (sint (str_len a - str_len b)) (str_bytes a) (str_bytes b)"
      using less.prems by (intro prefix_cmp_ok [OF n len]) (simp add: word_less_nat_alt min_def split: if_splits)
    then show ?thesis using False defn by simp
  next
    case True
    then have i: "unat i < unat n" by (simp add: word_less_nat_alt)
    have p: "seg ?a 0 (unat i) = seg ?b 0 (unat i)" using less.prems i by (simp add: min_def)
    show ?thesis
    proof (cases "u32_at ?a (unat i) = u32_at ?b (unat i)")
      case eq: True
      have i4: "unat (i + 4) = unat i + 4" using i nn by (simp add: unat_word_ariths)
      have "seg ?a (unat i) 4 = seg ?b (unat i) 4" using eq by (simp add: u32_at_eq_iff)
      then have "seg ?a 0 (unat i + 4) = seg ?b 0 (unat i + 4)"
        using p seg_split [of "unat i" "unat i + 4" _ 0] by simp
      then have "seg ?a 0 (min (unat (i + 4)) (unat n)) = seg ?b 0 (min (unat (i + 4)) (unat n))"
        by (simp add: seg_eq_iff i4)
      then show ?thesis using less.hyps [of "i + 4"] i i4 eq True defn by (simp add: Let_def)
    qed (rule str_cmp_difference [OF n len True p])
  qed
qed

subsection \<open>The property\<close>

text \<open>
  Property C38. \<^verbatim>\<open>lj_str_cmp\<close> returns for all strings, and the sign of its result is that of the lexicographic
  comparison of their bytes, a proper prefix being less: the bytes behind the ends of the strings
  that it loads do not matter.
\<close>

theorem lj_str_cmp_correct:
  assumes "unat (str_len a) < LJ_MAX_STR" and "unat (str_len b) < LJ_MAX_STR"
  shows "\<exists>r. lj_str_cmp a b = Some r \<and> (r < 0 \<longleftrightarrow> str_bytes a < str_bytes b) \<and>
           (r = 0 \<longleftrightarrow> str_bytes a = str_bytes b) \<and> (r > 0 \<longleftrightarrow> str_bytes a > str_bytes b)"
proof -
  have "seg (strdata a) 0 0 = seg (strdata b) 0 0" by (simp add: seg_def)
  then obtain r where "lj_str_cmp a b = Some r" "cmp_ok r (str_bytes a) (str_bytes b)"
    using str_cmp_from_ok [OF refl, of a b 0] assms unfolding lj_str_cmp_def by auto
  then show ?thesis by (auto simp: cmp_ok_def)
qed

theorem lj_str_cmp_correct_witness:
  "let s = \<lambda>n d. \<lparr>str_nextgc = 0, str_marked = 1, str_gct = 4, str_reserved = 0, str_hash = 0, str_len = n, strdata = d\<rparr>;
       a = s 5 (\<lambda>i. if i < 4 then 97 else if i = 4 then 200 else if i = 5 then 0 else 255);
       b = s 6 (\<lambda>i. if i < 4 then 97 else if i = 4 then 201 else if i = 5 then 1 else 0)
   in \<exists>r. lj_str_cmp a b = Some r \<and> r < 0"
proof -
  let ?s = "\<lambda>n d. \<lparr>str_nextgc = 0, str_marked = 1, str_gct = 4, str_reserved = 0, str_hash = 0, str_len = n, strdata = d\<rparr>"
  let ?a = "?s 5 (\<lambda>i. if i < 4 then 97 else if i = 4 then 200 else if i = 5 then 0 else 255)"
  let ?b = "?s 6 (\<lambda>i. if i < 4 then 97 else if i = 4 then 201 else if i = 5 then 1 else 0)"
  have "str_bytes ?a < str_bytes ?b" by (simp add: str_bytes_def seg_def upt_rec)
  then show ?thesis using lj_str_cmp_correct [of ?a ?b] by (auto simp: Let_def)
qed

section \<open>Equality of strings in memory\<close>

text \<open>The first \<open>n\<close> bytes from an address on, and memory that is mapped by pages.\<close>

definition mem_at :: "memory \<Rightarrow> uint64 \<Rightarrow> (nat \<Rightarrow> uint8) \<Rightarrow> nat \<Rightarrow> bool" where
  "mem_at mem p d n \<longleftrightarrow> (\<forall>j<n. mem (p + of_nat j) = Some (d j))"

definition paged :: "memory \<Rightarrow> bool" where
  "paged mem \<longleftrightarrow> (\<forall>p q. drop_bit 12 p = drop_bit 12 q \<longrightarrow> (mem p = None \<longleftrightarrow> mem q = None))"

lemma mem_atD: "mem_at mem p d n \<Longrightarrow> j < n \<Longrightarrow> mem (p + of_nat j) = Some (d j)"
  by (simp add: mem_at_def)

lemma mem_at_mono: "mem_at mem p d n \<Longrightarrow> m \<le> n \<Longrightarrow> mem_at mem p d m"
  by (simp add: mem_at_def)

lemma lj_getu32_at: "mem_at mem p d n \<Longrightarrow> j + 4 \<le> n \<Longrightarrow> lj_getu32 mem (p + of_nat j) = Some (u32_at d j)"
  using mem_atD [of mem p d n j] mem_atD [of mem p d n "j + 1"] mem_atD [of mem p d n "j + 2"] mem_atD [of mem p d n "j + 3"]
  by (simp add: lj_getu32_def u32_at_def ac_simps)

lemma push_bit_zero_iff: "n \<le> 32 \<Longrightarrow> push_bit n v = 0 \<longleftrightarrow> take_bit (32 - n) v = 0" for v :: uint32
proof -
  assume n: "n \<le> 32"
  have "push_bit n v = 0 \<longleftrightarrow> (\<forall>k<32 - n. \<not> bit v k)"
    using n by (auto simp: bit_eq_iff bit_simps) (metis add_diff_cancel_right' le_add2 less_diff_conv)
  also have "\<dots> \<longleftrightarrow> take_bit (32 - n) v = 0"
    by (auto simp: bit_eq_iff bit_simps)
  finally show ?thesis .
qed

lemma xor_zero_iff: "x XOR y = 0 \<longleftrightarrow> x = y" for x y :: uint32
  by (auto simp: bit_eq_iff bit_xor_iff)

lemma unat_take_at: "r \<le> 4 \<Longrightarrow> unat (take_bit (8 * r) (u32_at d i)) = be (rev (seg d i r))"
proof -
  assume r: "r \<le> 4"
  have "unat (u32_at d i) = be (rev (seg d i 4))" by (simp only: u32_at_def unat_le32 seg_4) simp
  also have "\<dots> = be (rev (seg d (i + r) (4 - r))) * 256 ^ r + be (rev (seg d i r))"
    using r by (simp add: seg_split [of r 4] be_append del: be_simps)
  finally have "unat (u32_at d i) mod 256 ^ r = be (rev (seg d i r))" using be_less [of "rev (seg d i r)"] by simp
  moreover have "(256 :: nat) ^ r = 2 ^ (8 * r)" by (simp add: power_mult)
  ultimately show ?thesis by (simp add: unsigned_take_bit_eq flip: take_bit_eq_mod)
qed

lemma low_bytes_eq_iff:
  assumes "r \<le> 4"
  shows "take_bit (8 * r) (u32_at d i XOR u32_at e i) = 0 \<longleftrightarrow> seg d i r = seg e i r"
proof -
  have "take_bit (8 * r) (u32_at d i XOR u32_at e i) = 0 \<longleftrightarrow> take_bit (8 * r) (u32_at d i) = take_bit (8 * r) (u32_at e i)"
    by (simp add: take_bit_xor xor_zero_iff)
  also have "\<dots> \<longleftrightarrow> seg d i r = seg e i r"
    using be_eq_iff [of "rev (seg d i r)" "rev (seg e i r)"] by (simp add: word_unat_eq_iff unat_take_at [OF assms])
  finally show ?thesis .
qed

text \<open>The equality test on readable memory, from an index on.\<close>

lemma str_fastcmp_from_ok:
  assumes m: "mem_at mem a d (unat len + 3)" and len: "unat len < 2 ^ 31" and "i < len"
    and "seg d 0 (unat i) = seg b 0 (unat i)"
  shows "\<exists>r. str_fastcmp_from mem a b len i = Some (Some r) \<and> (r = 0 \<longleftrightarrow> seg d 0 (unat len) = seg b 0 (unat len))"
  using assms(3,4)
proof (induction "unat len - unat i" arbitrary: i rule: less_induct)
  case less
  let ?v = "u32_at d (unat i) XOR u32_at b (unat i)" let ?r = "min 4 (unat len - unat i)"
  have i: "unat i < unat len" using less.prems(1) by (simp add: word_less_nat_alt)
  have "lj_getu32 mem (a + ucast i) = Some (u32_at d (unat i))"
    using lj_getu32_at [OF m, of "unat i"] i by simp
  note defn = str_fastcmp_from.simps [of mem a b len i, unfolded this option.case]
  have v: "?v = 0 \<longleftrightarrow> seg d (unat i) 4 = seg b (unat i) 4" by (simp add: xor_zero_iff u32_at_eq_iff)
  have whole: "seg d 0 (unat i + r) = seg b 0 (unat i + r) \<longleftrightarrow> seg d (unat i) r = seg b (unat i) r" for r
    using less.prems(2) seg_split [of "unat i" "unat i + r" _ 0] by simp
  have short: "sint (i - len) \<ge> - 3 \<longleftrightarrow> unat len - unat i \<le> 3" by (rule short_rest [OF less.prems(1) len])
  show ?case
  proof (cases "?v = 0")
    case True
    show ?thesis
    proof (cases "i + 4 < len")
      case more: True
      have "unat (i + 4) = unat i + 4" using i len by (simp add: unat_word_ariths)
      then show ?thesis using less.hyps [of "i + 4"] more i True defn whole [of 4] v by (simp add: Let_def)
    next
      case False
      then have "unat len \<le> unat i + 4" using i len by (simp add: word_less_nat_alt unat_word_ariths)
      then have "seg d 0 (unat len) = seg b 0 (unat len)" using True v whole [of 4] by (simp add: seg_eq_iff)
      then show ?thesis using True False defn by (simp add: Let_def)
    qed
  next
    case False
    show ?thesis
    proof (cases "unat len - unat i \<le> 3")
      case True
      have e: "unat i + (unat len - unat i) = unat len" using i by simp
      have z: "sint x = 0 \<longleftrightarrow> x = 0" for x :: uint32 by (simp add: signed_eq_0_iff)
      have "32 - 8 * (4 - (unat len - unat i)) = 8 * (unat len - unat i)" using True by simp
      then have "push_bit (8 * (4 - (unat len - unat i))) ?v = 0 \<longleftrightarrow> seg d (unat i) (unat len - unat i) = seg b (unat i) (unat len - unat i)"
        using True push_bit_zero_iff [of "8 * (4 - (unat len - unat i))" ?v] low_bytes_eq_iff [of "unat len - unat i" d "unat i" b]
        by simp
      then have "push_bit (8 * (4 - (unat len - unat i))) ?v = 0 \<longleftrightarrow> seg d 0 (unat len) = seg b 0 (unat len)"
        using whole [of "unat len - unat i"] by (simp only: e)
      then show ?thesis using False True defn short shift_rest [OF less.prems(1) True] by (simp add: Let_def z)
    next
      case long: False
      then have "seg d 0 (unat len) \<noteq> seg b 0 (unat len)" using False v whole [of 4] by (auto simp: seg_eq_iff)
      then show ?thesis using False long defn short by (simp add: Let_def)
    qed
  qed
qed

lemma memcmp_from_ok:
  "mem_at mem a d (i + n) \<Longrightarrow>
     \<exists>r. memcmp_from mem a b i n = Some r \<and> (r = 0 \<longleftrightarrow> seg d i n = seg b i n)"
proof (induction n arbitrary: i)
  case (Suc n)
  have "mem (a + of_nat i) = Some (d i)" using mem_atD [OF Suc.prems, of i] by simp
  moreover have "seg d i (Suc n) = seg b i (Suc n) \<longleftrightarrow> d i = b i \<and> seg d (i + 1) n = seg b (i + 1) n"
    using seg_split [of 1 "Suc n" _ i] by (simp add: seg_def [of _ _ "Suc 0"])
  ultimately show ?case using Suc.IH [of "i + 1"] Suc.prems by auto
qed (simp add: seg_def)

text \<open>A string that ends far enough from the end of its page is followed by three readable bytes.\<close>

lemma same_page:
  fixes p :: uint64
  assumes "p AND (LJ_PAGESIZE - 1) \<le> LJ_PAGESIZE - 4" and "k \<le> 3"
  shows "drop_bit 12 (p + of_nat k) = drop_bit 12 p"
proof -
  have m: "LJ_PAGESIZE - 1 = mask 12" by (simp add: mask_eq_exp_minus_1)
  have "unat (p AND mask 12) = unat p mod 2 ^ 12"
    by (simp only: take_bit_eq_mask [symmetric] unsigned_take_bit_eq) (simp only: take_bit_eq_mod)
  then have p: "unat p mod 4096 + k < 4096" using assms unfolding m by (simp add: word_le_nat_alt)
  have "unat p + k = (unat p mod 4096 + k) + unat p div 4096 * 4096" using div_mult_mod_eq [of "unat p" 4096] by linarith
  then have s: "(unat p + k) div 4096 = unat p div 4096" using p div_mult_self1 [of 4096 "unat p mod 4096 + k" "unat p div 4096"] by (simp only: div_less)
  have "unat p < 4503599627370496 * 4096" using unat_uint64_less [of p] by simp
  then have "unat p div 4096 < 4503599627370496" by (rule less_mult_imp_div_less)
  then have "unat p + k < 18446744073709551616" using p div_mult_mod_eq [of "unat p" 4096] by linarith
  then have "unat (of_nat (unat p + k) :: uint64) = unat p + k" by (intro unat_of_nat_small) simp
  then have "unat (p + of_nat k) = unat p + k" by simp
  then show ?thesis using s by (simp only: word_unat_eq_iff unat_drop_bit_eq) (simp add: drop_bit_eq_div)
qed

lemma mem_at_extend:
  assumes "paged mem" and "str_fast a len" and m: "mem_at mem a d (unat len)" and "0 < len"
  shows "\<exists>d'. mem_at mem a d' (unat len + 3) \<and> (\<forall>j<unat len. d' j = d j)"
proof -
  have len: "0 < unat len" using assms(4) by (simp add: word_less_nat_alt)
  define e where "e = a + ucast len - 1"
  have e: "a + of_nat (unat len - 1 + k) = e + of_nat k" for k using len by (simp add: e_def of_nat_diff)
  have "mem e \<noteq> None" using mem_atD [OF m, of "unat len - 1"] len e [of 0] by simp
  then have k: "mem (e + of_nat k) \<noteq> None" if "k \<le> 3" for k
    using same_page [of e k] assms(1,2) that unfolding paged_def str_fast_def by (metis e_def)
  have r: "mem (a + of_nat j) \<noteq> None" if "unat len - 1 \<le> j" "j < unat len + 3" for j
  proof -
    have "unat len - 1 + (j - (unat len - 1)) = j" using that(1) by simp
    then have "a + of_nat j = e + of_nat (j - (unat len - 1))" using e [of "j - (unat len - 1)"] by (simp only:)
    moreover have "mem (e + of_nat (j - (unat len - 1))) \<noteq> None" using that by (intro k) simp
    ultimately show ?thesis by (simp only:) simp
  qed
  have "mem (a + of_nat j) = Some (the (mem (a + of_nat j)))" if "j < unat len + 3" for j
    using r [of j] mem_atD [OF m, of j] that by (cases "j < unat len") auto
  then show ?thesis using mem_atD [OF m] by (intro exI [of _ "\<lambda>j. the (mem (a + of_nat j))"]) (auto simp: mem_at_def)
qed

section \<open>The hash of a string\<close>

text \<open>The hash as a function of the bytes.\<close>

definition hash_bytes :: "(nat \<Rightarrow> uint8) \<Rightarrow> uint32 \<Rightarrow> uint32" where
  "hash_bytes d len =
     (let n = unat len
      in if n \<ge> 4
         then let b = u32_at d (n div 2 - 2)
              in str_hash_mix (u32_at d 0) (b + u32_at d (n div 4 - 1)) (((len XOR u32_at d (n - 4)) XOR b) - lj_rol b 14)
         else let b = ucast (d (n div 2))
              in str_hash_mix (ucast (d 0)) b (((len XOR ucast (d (n - 1))) XOR b) - lj_rol b 14))"

lemma u32_at_cong: "seg d 0 n = seg e 0 n \<Longrightarrow> i + 4 \<le> n \<Longrightarrow> u32_at d i = u32_at e i"
  by (simp add: u32_at_def seg_eq_iff)

lemma hash_bytes_cong:
  assumes "seg d 0 (unat len) = seg e 0 (unat len)" and "0 < len"
  shows "hash_bytes d len = hash_bytes e len"
proof -
  let ?n = "unat len"
  have n: "0 < ?n" using assms(2) by (simp add: word_less_nat_alt)
  have "d i = e i" if "i < ?n" for i using assms(1) that by (simp add: seg_eq_iff)
  then have "d 0 = e 0" "d (?n - 1) = e (?n - 1)" "d (?n div 2) = e (?n div 2)" using n by simp_all
  moreover have "u32_at d 0 = u32_at e 0" "u32_at d (?n - 4) = u32_at e (?n - 4)"
    "u32_at d (?n div 2 - 2) = u32_at e (?n div 2 - 2)" "u32_at d (?n div 4 - 1) = u32_at e (?n div 4 - 1)" if "4 \<le> ?n"
    using that by (intro u32_at_cong [OF assms(1)]; linarith)+
  ultimately show ?thesis by (cases "4 \<le> ?n") (simp_all add: hash_bytes_def Let_def)
qed

text \<open>All the words the hash loads lie within the string.\<close>

lemma str_hash_of_ok:
  assumes m: "mem_at mem p d (unat len)" and "0 < len"
  shows "str_hash_of mem p len = Some (hash_bytes d len)"
proof -
  let ?n = "unat len"
  have n: "0 < ?n" using assms(2) by (simp add: word_less_nat_alt)
  have u: "unat (drop_bit 1 len) = ?n div 2" "unat (drop_bit 2 len) = ?n div 4"
    by (simp_all only: unat_drop_bit_eq) (simp_all add: drop_bit_eq_div)
  have c: "(ucast w :: uint64) = of_nat (unat w)" for w :: uint32 by simp
  show ?thesis
  proof (cases "4 \<le> ?n")
    case True
    have a: "p + ucast len - 4 = p + of_nat (?n - 4)" "p + ucast (drop_bit 1 len) - 2 = p + of_nat (?n div 2 - 2)"
      "p + ucast (drop_bit 2 len) - 1 = p + of_nat (?n div 4 - 1)"
      using True by (simp_all only: c u) (simp_all add: of_nat_diff)
    have "lj_getu32 mem (p + ucast len - 4) = Some (u32_at d (?n - 4))"
      "lj_getu32 mem (p + ucast (drop_bit 1 len) - 2) = Some (u32_at d (?n div 2 - 2))"
      "lj_getu32 mem (p + ucast (drop_bit 2 len) - 1) = Some (u32_at d (?n div 4 - 1))"
      unfolding a using True by (intro lj_getu32_at [OF m]; linarith)+
    moreover have "lj_getu32 mem p = Some (u32_at d 0)" using lj_getu32_at [OF m, of 0] True by simp
    moreover have "4 \<le> len" using True by (simp add: word_le_nat_alt)
    ultimately show ?thesis using True by (simp add: str_hash_of_def hash_bytes_def Let_def)
  next
    case False
    have a: "p + ucast len - 1 = p + of_nat (?n - 1)" "p + ucast (drop_bit 1 len) = p + of_nat (?n div 2)"
      using n by (simp_all only: c u) (simp_all add: of_nat_diff)
    have "mem (p + ucast len - 1) = Some (d (?n - 1))" "mem (p + ucast (drop_bit 1 len)) = Some (d (?n div 2))"
      unfolding a using n by (intro mem_atD [OF m]; linarith)+
    moreover have "mem p = Some (d 0)" using mem_atD [OF m, of 0] n by simp
    moreover have "\<not> 4 \<le> len" using False by (simp add: word_le_nat_alt)
    ultimately show ?thesis using False n by (simp add: str_hash_of_def hash_bytes_def Let_def)
  qed
qed

end
