(* ===== verification/Lj_Intern.thy ===== *)
theory Lj_Intern
  imports Lj_Str "HOL-Library.Multiset"
begin

text \<open>
  The table of interned strings, \<^verbatim>\<open>core/luajit/src/lj_str.c\<close>: \<^verbatim>\<open>lj_str_new\<close>, \<^verbatim>\<open>lj_str_resize\<close> and
  \<^verbatim>\<open>lj_str_free\<close>, with the parts of the garbage collector \<^verbatim>\<open>lj_gc.c\<close> that work on the
  table: the sweep of its chains and its shrinking. The string objects lie in an explicit store and
  are linked through their headers.
\<close>

unbundle bit_operations_syntax

section \<open>The code\<close>

datatype gcstate = GCSpause | GCSpropagate | GCSatomic | GCSsweepstring | GCSsweep | GCSfinalize

text \<open>A resizable buffer; its size is the length of the list.\<close>

record sbuf =
  sb_buf :: "uint8 list"
  sb_n :: uint32

definition sb_sz :: "sbuf \<Rightarrow> uint32" where
  "sb_sz sb = of_nat (length (sb_buf sb))"

text \<open>
  The part of the global state that strings use: the anchors of the chains, the string objects by their
  reference (an object that is not allocated has none), the address of the empty string, the buffer and the
  state of the collector.
\<close>

record gstate =
  strhash :: "uint32 list"
  strmask :: uint32
  strnum :: uint32
  strempty :: uint32
  sobjs :: "uint32 \<Rightarrow> gcstr option"
  tmpbuf :: sbuf
  gc_total :: uint32
  gc_currentwhite :: uint8
  gc_state :: gcstate
  gc_sweepstr :: uint32
  gc_root :: uint32
  gc_estimate :: uint32

abbreviation LJ_MAX_STRTAB :: uint32 where "LJ_MAX_STRTAB \<equiv> 0x4000000"
abbreviation LJ_MIN_STRTAB :: uint32 where "LJ_MIN_STRTAB \<equiv> 256"
abbreviation LJ_MIN_SBUF :: uint32 where "LJ_MIN_SBUF \<equiv> 32"
abbreviation GCT_STR :: uint8 where "GCT_STR \<equiv> 4"
abbreviation LJ_GC_WHITE0 :: uint8 where "LJ_GC_WHITE0 \<equiv> 0x01"
abbreviation LJ_GC_WHITES :: uint8 where "LJ_GC_WHITES \<equiv> 0x03"
abbreviation LJ_GC_COLORS :: uint8 where "LJ_GC_COLORS \<equiv> 0x07"
abbreviation LJ_GC_FIXED :: uint8 where "LJ_GC_FIXED \<equiv> 0x20"

definition otherwhite :: "gstate \<Rightarrow> uint8" where
  "otherwhite g = gc_currentwhite g XOR LJ_GC_WHITES"

definition curwhite :: "gstate \<Rightarrow> uint8" where
  "curwhite g = gc_currentwhite g AND LJ_GC_WHITES"

definition isdead :: "gstate \<Rightarrow> gcstr \<Rightarrow> bool" where
  "isdead g s \<longleftrightarrow> str_marked s AND otherwhite g AND LJ_GC_WHITES \<noteq> 0"

definition flipwhite :: "gcstr \<Rightarrow> gcstr" where
  "flipwhite s = s\<lparr>str_marked := str_marked s XOR LJ_GC_WHITES\<rparr>"

definition makewhite :: "gstate \<Rightarrow> gcstr \<Rightarrow> gcstr" where
  "makewhite g s = s\<lparr>str_marked := (str_marked s AND NOT LJ_GC_COLORS) OR curwhite g\<rparr>"

definition sizestring :: "gcstr \<Rightarrow> uint32" where
  "sizestring s = 16 + str_len s + 1"

text \<open>
  The allocator is a function pointer of the state. It gets the state and the size and gives the
  address of a fragment with what its payload happens to hold, or no fragment.
\<close>

type_synonym allocator = "gstate \<Rightarrow> uint32 \<Rightarrow> (uint32 \<times> (nat \<Rightarrow> uint8)) option"

definition lj_mem_new :: "allocator \<Rightarrow> uint32 \<Rightarrow> gstate \<Rightarrow> (str_err + uint32 \<times> (nat \<Rightarrow> uint8)) \<times> gstate" where
  "lj_mem_new allocf n g =
     (case allocf g n of
        None \<Rightarrow> (Inl LJ_ERR_ERRMEM, g)
      | Some p \<Rightarrow> (Inr p, g\<lparr>gc_total := gc_total g + n\<rparr>))"

subsection \<open>Resizing\<close>

text \<open>Follow a chain and insert all its strings in front of the chains of the new table.\<close>

partial_function (option) reinsert_chain ::
  "uint32 \<Rightarrow> uint32 \<Rightarrow> uint32 list \<Rightarrow> (uint32 \<Rightarrow> gcstr option) \<Rightarrow> (str_err + uint32 list \<times> (uint32 \<Rightarrow> gcstr option)) option" where
  "reinsert_chain newmask p newhash ob =
     (if p = 0 then Some (Inr (newhash, ob))
      else case ob p of
        None \<Rightarrow> Some (Inl Segv)
      | Some s \<Rightarrow>
          let h = unat (str_hash s AND newmask)
          in if h < length newhash
             then reinsert_chain newmask (str_nextgc s) (newhash[h := p]) (ob(p \<mapsto> s\<lparr>str_nextgc := newhash ! h\<rparr>))
             else Some (Inl Segv))"

text \<open>The chains of the old table from the last one down to the first.\<close>

fun rehash_chains ::
  "uint32 \<Rightarrow> uint32 list \<Rightarrow> nat \<Rightarrow> uint32 list \<Rightarrow> (uint32 \<Rightarrow> gcstr option) \<Rightarrow> (str_err + uint32 list \<times> (uint32 \<Rightarrow> gcstr option)) option" where
  "rehash_chains newmask hash 0 newhash ob = Some (Inr (newhash, ob))"
| "rehash_chains newmask hash (Suc i) newhash ob =
     (if i < length hash then
        case reinsert_chain newmask (hash ! i) newhash ob of
          None \<Rightarrow> None
        | Some (Inl e) \<Rightarrow> Some (Inl e)
        | Some (Inr (newhash, ob)) \<Rightarrow> rehash_chains newmask hash i newhash ob
      else Some (Inl Segv))"

definition lj_str_resize :: "allocator \<Rightarrow> uint32 \<Rightarrow> gstate \<Rightarrow> ((str_err + unit) \<times> gstate) option" where
  "lj_str_resize allocf newmask g =
     (if gc_state g = GCSsweepstring \<or> newmask \<ge> LJ_MAX_STRTAB - 1 then Some (Inr (), g)
      else case lj_mem_new allocf ((newmask + 1) * 4) g of
        (Inl e, g) \<Rightarrow> Some (Inl e, g)
      | (Inr _, g) \<Rightarrow>
          (case rehash_chains newmask (strhash g) (unat (strmask g + 1)) (replicate (unat (newmask + 1)) 0) (sobjs g) of
             None \<Rightarrow> None
           | Some (Inl e) \<Rightarrow> Some (Inl e, g)
           | Some (Inr (newhash, ob)) \<Rightarrow>
               Some (Inr (), g\<lparr>sobjs := ob, gc_total := gc_total g - (strmask g + 1) * 4, strmask := newmask, strhash := newhash\<rparr>)))"

subsection \<open>Interning\<close>

text \<open>Search a chain with a comparison.\<close>

partial_function (option) str_lookup ::
  "(gcstr \<Rightarrow> int option option) \<Rightarrow> uint32 \<Rightarrow> (uint32 \<Rightarrow> gcstr option) \<Rightarrow> uint32 \<Rightarrow> (str_err + uint32) option" where
  "str_lookup cmp len ob p =
     (if p = 0 then Some (Inr 0)
      else case ob p of
        None \<Rightarrow> Some (Inl Segv)
      | Some sx \<Rightarrow>
          if str_len sx = len then
            (case cmp sx of
               None \<Rightarrow> None
             | Some None \<Rightarrow> Some (Inl Segv)
             | Some (Some c) \<Rightarrow> if c = 0 then Some (Inr p) else str_lookup cmp len ob (str_nextgc sx))
          else str_lookup cmp len ob (str_nextgc sx))"

definition str_same :: "memory \<Rightarrow> uint64 \<Rightarrow> uint32 \<Rightarrow> gcstr \<Rightarrow> int option option" where
  "str_same mem str len sx =
     (if str_fast str len then str_fastcmp mem str (strdata sx) len else Some (memcmp mem str (strdata sx) len))"

definition resurrect :: "uint32 \<Rightarrow> gstate \<Rightarrow> gstate" where
  "resurrect p g =
     (case sobjs g p of
        None \<Rightarrow> g
      | Some s \<Rightarrow> if isdead g s then g\<lparr>sobjs := (sobjs g)(p \<mapsto> flipwhite s)\<rparr> else g)"

definition memcpy :: "memory \<Rightarrow> uint64 \<Rightarrow> uint32 \<Rightarrow> uint8 list option" where
  "memcpy mem str len = those (map (\<lambda>i. mem (str + of_nat i)) [0..<unat len])"

text \<open>Create a new string, add it to its chain and grow the table when it is full.\<close>

definition str_create ::
  "allocator \<Rightarrow> memory \<Rightarrow> uint64 \<Rightarrow> uint32 \<Rightarrow> uint32 \<Rightarrow> gstate \<Rightarrow> ((str_err + uint32) \<times> gstate) option" where
  "str_create allocf mem str len h g =
     (case lj_mem_new allocf (16 + len + 1) g of
        (Inl e, g) \<Rightarrow> Some (Inl e, g)
      | (Inr (p, junk), g) \<Rightarrow>
          (case memcpy mem str len of
             None \<Rightarrow> Some (Inl Segv, g)
           | Some bs \<Rightarrow>
               let i = unat (h AND strmask g);
                   s = \<lparr>str_nextgc = strhash g ! i, str_marked = curwhite g, str_gct = GCT_STR, str_reserved = 0, str_hash = h, str_len = len,
                        strdata = (\<lambda>k. if k < unat len then bs ! k else if k = unat len then 0 else junk k)\<rparr>;
                   full = strnum g > strmask g;
                   g = g\<lparr>sobjs := (sobjs g)(p \<mapsto> s), strhash := (strhash g)[i := p], strnum := strnum g + 1\<rparr>
               in if full then
                    (case lj_str_resize allocf (push_bit 1 (strmask g) + 1) g of
                       None \<Rightarrow> None
                     | Some (Inl e, g) \<Rightarrow> Some (Inl e, g)
                     | Some (Inr _, g) \<Rightarrow> Some (Inr p, g))
                  else Some (Inr p, g)))"

definition lj_str_new :: "allocator \<Rightarrow> memory \<Rightarrow> uint64 \<Rightarrow> uint64 \<Rightarrow> gstate \<Rightarrow> ((str_err + uint32) \<times> gstate) option" where
  "lj_str_new allocf mem str lenx g =
     (let len = ucast lenx :: uint32
      in if lenx \<ge> of_nat LJ_MAX_STR then Some (Inl LJ_ERR_STROV, g)
         else if len = 0 then Some (Inr (strempty g), g)
         else case str_hash_of mem str len of
           None \<Rightarrow> Some (Inl Segv, g)
         | Some h \<Rightarrow>
             let i = unat (h AND strmask g)
             in if i < length (strhash g) then
                  (case str_lookup (str_same mem str len) len (sobjs g) (strhash g ! i) of
                     None \<Rightarrow> None
                   | Some (Inl e) \<Rightarrow> Some (Inl e, g)
                   | Some (Inr p) \<Rightarrow> if p \<noteq> 0 then Some (Inr p, resurrect p g) else str_create allocf mem str len h g)
                else Some (Inl Segv, g))"

subsection \<open>Collection\<close>

definition lj_str_free :: "uint32 \<Rightarrow> gcstr \<Rightarrow> gstate \<Rightarrow> gstate" where
  "lj_str_free p s g = g\<lparr>strnum := strnum g - 1, gc_total := gc_total g - sizestring s, sobjs := (sobjs g)(p := None)\<rparr>"

text \<open>A reference in a list of strings is an anchor of the table or the link of an object.\<close>

datatype sref = Anchor nat | Link uint32

fun sref_get :: "gstate \<Rightarrow> sref \<Rightarrow> uint32 option" where
  "sref_get g (Anchor i) = (if i < length (strhash g) then Some (strhash g ! i) else None)"
| "sref_get g (Link p) = map_option str_nextgc (sobjs g p)"

fun sref_set :: "sref \<Rightarrow> uint32 \<Rightarrow> gstate \<Rightarrow> gstate" where
  "sref_set (Anchor i) q g = g\<lparr>strhash := (strhash g)[i := q]\<rparr>"
| "sref_set (Link p) q g = g\<lparr>sobjs := (sobjs g)(p := map_option (\<lambda>s. s\<lparr>str_nextgc := q\<rparr>) (sobjs g p))\<rparr>"

text \<open>The sweep of a list of strings; an object of another type in such a list would be an error.\<close>

function gc_sweep :: "gstate \<Rightarrow> sref \<Rightarrow> nat \<Rightarrow> (str_err + sref) \<times> gstate" where
  "gc_sweep g p lim =
     (case sref_get g p of
        None \<Rightarrow> (Inl Segv, g)
      | Some x \<Rightarrow>
          if x = 0 \<or> lim = 0 then (Inr p, g)
          else case sobjs g x of
            None \<Rightarrow> (Inl Segv, g)
          | Some s \<Rightarrow>
              if str_gct s \<noteq> GCT_STR then (Inl Not_string, g)
              else if (str_marked s XOR LJ_GC_WHITES) AND otherwhite g \<noteq> 0
              then gc_sweep (g\<lparr>sobjs := (sobjs g)(x \<mapsto> makewhite g s)\<rparr>) (Link x) (lim - 1)
              else let g = sref_set p (str_nextgc s) g;
                       g = (if x = gc_root g then g\<lparr>gc_root := str_nextgc s\<rparr> else g)
                   in gc_sweep (lj_str_free x s g) p (lim - 1))"
  by pat_completeness auto
termination by (relation "measure (\<lambda>(g, p, lim). lim)") auto

declare gc_sweep.simps [simp del]

text \<open>The step of the collector in the state \<^verbatim>\<open>GCSsweepstring\<close> sweeps one chain.\<close>

definition gc_onestep_sweepstring :: "gstate \<Rightarrow> (str_err + unit) \<times> gstate" where
  "gc_onestep_sweepstring g =
     (let old = gc_total g; i = gc_sweepstr g
      in case gc_sweep (g\<lparr>gc_sweepstr := i + 1\<rparr>) (Anchor (unat i)) LJ_MAX_MEM of
           (Inl e, g) \<Rightarrow> (Inl e, g)
         | (Inr _, g) \<Rightarrow>
             let g = (if gc_sweepstr g > strmask g then g\<lparr>gc_state := GCSsweep\<rparr> else g)
             in (Inr (), g\<lparr>gc_estimate := gc_estimate g - (old - gc_total g)\<rparr>))"

definition lj_str_resizebuf :: "allocator \<Rightarrow> uint32 \<Rightarrow> gstate \<Rightarrow> (str_err + unit) \<times> gstate" where
  "lj_str_resizebuf allocf sz g =
     (case allocf g sz of
        None \<Rightarrow> (Inl LJ_ERR_ERRMEM, g)
      | Some (_, junk) \<Rightarrow>
          (Inr (), g\<lparr>gc_total := (gc_total g - sb_sz (tmpbuf g)) + sz,
             tmpbuf := (tmpbuf g)\<lparr>sb_buf := take (unat sz) (sb_buf (tmpbuf g)) @ map junk [length (sb_buf (tmpbuf g))..<unat sz]\<rparr>\<rparr>))"

definition gc_shrink :: "allocator \<Rightarrow> gstate \<Rightarrow> ((str_err + unit) \<times> gstate) option" where
  "gc_shrink allocf g =
     (let buf = (\<lambda>g. if sb_sz (tmpbuf g) > LJ_MIN_SBUF * 2 then lj_str_resizebuf allocf (drop_bit 1 (sb_sz (tmpbuf g))) g else (Inr (), g))
      in if strnum g \<le> drop_bit 2 (strmask g) \<and> strmask g > LJ_MIN_STRTAB * 2 - 1 then
           (case lj_str_resize allocf (drop_bit 1 (strmask g)) g of
              None \<Rightarrow> None
            | Some (Inl e, g) \<Rightarrow> Some (Inl e, g)
            | Some (Inr _, g) \<Rightarrow> Some (buf g))
         else Some (buf g))"

section \<open>Chains of strings\<close>

text \<open>The strings of a chain in order, and the chains of a table, which share no string.\<close>

fun str_chain :: "(uint32 \<Rightarrow> gcstr option) \<Rightarrow> uint32 \<Rightarrow> uint32 list \<Rightarrow> bool" where
  "str_chain ob p [] \<longleftrightarrow> p = 0"
| "str_chain ob p (q # qs) \<longleftrightarrow> p = q \<and> p \<noteq> 0 \<and> (case ob p of None \<Rightarrow> False | Some s \<Rightarrow> str_chain ob (str_nextgc s) qs)"

definition str_chains :: "(uint32 \<Rightarrow> gcstr option) \<Rightarrow> uint32 list \<Rightarrow> uint32 list list \<Rightarrow> bool" where
  "str_chains ob hs cs \<longleftrightarrow> list_all2 (str_chain ob) hs cs \<and> distinct (concat cs)"

lemma str_chain_null [simp]: "str_chain ob 0 qs \<longleftrightarrow> qs = []"
  by (cases qs) auto

lemma str_chain_ConsI: "p \<noteq> 0 \<Longrightarrow> ob p = Some s \<Longrightarrow> str_chain ob (str_nextgc s) qs \<Longrightarrow> str_chain ob p (p # qs)"
  by simp

lemma str_chain_nonnull:
  assumes "str_chain ob p qs" and "p \<noteq> 0"
  obtains s rs where "qs = p # rs" "ob p = Some s" "str_chain ob (str_nextgc s) rs"
  using assms by (cases qs) (auto split: option.splits)

lemma str_chain_cong: "(\<And>q. q \<in> set qs \<Longrightarrow> map_option str_nextgc (ob' q) = map_option str_nextgc (ob q)) \<Longrightarrow> str_chain ob' p qs = str_chain ob p qs"
proof (induction qs arbitrary: p)
  case (Cons q qs)
  have "map_option str_nextgc (ob' q) = map_option str_nextgc (ob q)" using Cons.prems by simp
  moreover have "str_chain ob' r qs = str_chain ob r qs" for r using Cons by simp
  ultimately show ?case by (cases "ob q"; cases "ob' q") auto
qed simp

lemma str_chain_fresh [simp]: "q \<notin> set qs \<Longrightarrow> str_chain (ob(q := x)) p qs = str_chain ob p qs"
  by (rule str_chain_cong) auto

lemma str_chain_member: "str_chain ob p qs \<Longrightarrow> q \<in> set qs \<Longrightarrow> q \<noteq> 0 \<and> (\<exists>s. ob q = Some s)"
  by (induction qs arbitrary: p) (auto split: option.splits)

lemma str_chains_length: "str_chains ob hs cs \<Longrightarrow> length cs = length hs"
  by (auto simp: str_chains_def dest: list_all2_lengthD)

lemma str_chains_nth: "str_chains ob hs cs \<Longrightarrow> i < length hs \<Longrightarrow> str_chain ob (hs ! i) (cs ! i)"
  by (auto simp: str_chains_def dest: list_all2_nthD)

lemma str_chains_distinct: "str_chains ob hs cs \<Longrightarrow> distinct (concat cs)"
  by (simp add: str_chains_def)

lemma str_chains_member: "str_chains ob hs cs \<Longrightarrow> q \<in> set (concat cs) \<Longrightarrow> q \<noteq> 0 \<and> (\<exists>s. ob q = Some s)"
  using str_chain_member by (fastforce simp: str_chains_def list_all2_conv_all_nth in_set_conv_nth)

lemma set_nth_concat: "i < length cs \<Longrightarrow> set (cs ! i) \<subseteq> set (concat cs)"
  by (metis UN_upper nth_mem set_concat)

lemma str_chains_cong:
  assumes "str_chains ob hs cs" and "\<And>q. q \<in> set (concat cs) \<Longrightarrow> map_option str_nextgc (ob' q) = map_option str_nextgc (ob q)"
  shows "str_chains ob' hs cs"
proof -
  have "str_chain ob' (hs ! i) (cs ! i)" if i: "i < length hs" for i
  proof -
    have "set (cs ! i) \<subseteq> set (concat cs)" using i str_chains_length [OF assms(1)] by (simp only: set_nth_concat)
    then have "str_chain ob' (hs ! i) (cs ! i) = str_chain ob (hs ! i) (cs ! i)" using assms(2) by (intro str_chain_cong) blast
    then show ?thesis using str_chains_nth [OF assms(1) i] by simp
  qed
  then show ?thesis using assms(1) by (auto simp: str_chains_def list_all2_conv_all_nth)
qed

text \<open>What the lists of a list of lists hold after one of them is replaced.\<close>

lemma mset_concat_update: "j < length cs \<Longrightarrow> mset (concat (cs[j := xs])) + mset (cs ! j) = mset (concat cs) + mset xs"
  by (induction cs arbitrary: j) (auto split: nat.splits simp: ac_simps)

lemma mset_concat_push: "j < length cs \<Longrightarrow> mset (concat (cs[j := p # cs ! j])) = add_mset p (mset (concat cs))"
  using mset_concat_update [of j cs "p # cs ! j"] by simp

lemma mset_concat_pop: "j < length cs \<Longrightarrow> cs ! j = p # xs \<Longrightarrow> mset (concat cs) = add_mset p (mset (concat (cs[j := xs])))"
  using mset_concat_update [of j cs xs] by simp

text \<open>Pushing a string onto a chain.\<close>

lemma str_chains_push:
  assumes "str_chains ob hs cs" and j: "j < length hs" and p: "p \<noteq> 0" "p \<notin> set (concat cs)" and s: "str_nextgc s = hs ! j"
  shows "str_chains (ob(p \<mapsto> s)) (hs[j := p]) (cs[j := p # cs ! j])"
proof -
  note l = str_chains_length [OF assms(1)]
  have nin: "p \<notin> set (cs ! i)" if "i < length cs" for i using p(2) that by auto
  have "str_chain (ob(p \<mapsto> s)) (hs[j := p] ! i) (cs[j := p # cs ! j] ! i)" if "i < length hs" for i
    using str_chains_nth [OF assms(1) that] p nin [of i] l s that by (cases "i = j") simp_all
  moreover have "distinct (concat (cs[j := p # cs ! j]))"
    using mset_concat_push [of j cs p] j l p(2) str_chains_distinct [OF assms(1)]
    by (metis distinct.simps(2) mset.simps(2) mset_eq_imp_distinct_iff)
  ultimately show ?thesis using l by (auto simp: str_chains_def list_all2_conv_all_nth)
qed

lemma str_chains_snoc:
  "str_chains ob (hs @ [p]) (ds @ [ps]) \<longleftrightarrow>
     str_chains ob hs ds \<and> str_chain ob p ps \<and> distinct ps \<and> set ps \<inter> set (concat ds) = {}"
proof (cases "length hs = length ds")
  case True
  then show ?thesis by (auto simp: str_chains_def list_all2_append)
next
  case False
  then have "\<not> list_all2 (str_chain ob) (hs @ [p]) (ds @ [ps])" "\<not> list_all2 (str_chain ob) hs ds" by (auto dest: list_all2_lengthD)
  then show ?thesis by (simp add: str_chains_def)
qed

text \<open>Two stores that differ in the links only, and strings that are in the chains of their hash.\<close>

definition same_strings :: "(uint32 \<Rightarrow> gcstr option) \<Rightarrow> (uint32 \<Rightarrow> gcstr option) \<Rightarrow> bool" where
  "same_strings ob ob' \<longleftrightarrow> (\<forall>q. map_option (str_nextgc_update (\<lambda>_. 0)) (ob' q) = map_option (str_nextgc_update (\<lambda>_. 0)) (ob q))"

definition placed :: "(uint32 \<Rightarrow> gcstr option) \<Rightarrow> uint32 \<Rightarrow> uint32 list list \<Rightarrow> bool" where
  "placed ob msk cs \<longleftrightarrow> (\<forall>i<length cs. \<forall>q\<in>set (cs ! i). \<forall>s. ob q = Some s \<longrightarrow> unat (str_hash s AND msk) = i)"

lemma same_strings_refl [simp]: "same_strings ob ob"
  by (simp add: same_strings_def)

lemma same_strings_trans: "same_strings a b \<Longrightarrow> same_strings b c \<Longrightarrow> same_strings a c"
  by (simp add: same_strings_def)

lemma same_strings_link: "ob p = Some s \<Longrightarrow> same_strings ob (ob(p \<mapsto> s\<lparr>str_nextgc := q\<rparr>))"
  by (simp add: same_strings_def)

lemma same_stringsD:
  assumes "same_strings ob ob'"
  shows "ob' q = None \<longleftrightarrow> ob q = None" and "ob' q = Some s' \<Longrightarrow> \<exists>s n. ob q = Some s \<and> s' = s\<lparr>str_nextgc := n\<rparr>"
proof -
  have q: "map_option (str_nextgc_update (\<lambda>_. 0)) (ob' q) = map_option (str_nextgc_update (\<lambda>_. 0)) (ob q)"
    using assms by (simp add: same_strings_def)
  then show "ob' q = None \<longleftrightarrow> ob q = None" by (metis option.map_disc_iff)
  assume "ob' q = Some s'"
  with q obtain s where s: "ob q = Some s" "s'\<lparr>str_nextgc := 0\<rparr> = s\<lparr>str_nextgc := 0\<rparr>" by (cases "ob q") auto
  then have "s' = s\<lparr>str_nextgc := str_nextgc s'\<rparr>" by (cases s; cases s') simp
  with s(1) show "\<exists>s n. ob q = Some s \<and> s' = s\<lparr>str_nextgc := n\<rparr>" by blast
qed

lemma placed_same: "placed ob msk cs \<Longrightarrow> same_strings ob ob' \<Longrightarrow> placed ob' msk cs"
  unfolding placed_def by (fastforce dest: same_stringsD(2))

lemma placed_push:
  assumes "placed ob msk cs" "j < length cs" and p: "ob p = Some s" "unat (str_hash s AND msk) = j"
  shows "placed ob msk (cs[j := p # cs ! j])"
  unfolding placed_def
proof (intro allI impI ballI)
  fix i q s' assume i: "i < length (cs[j := p # cs ! j])" "q \<in> set (cs[j := p # cs ! j] ! i)" "ob q = Some s'"
  then consider "i = j" "q = p" | "q \<in> set (cs ! i)" by (cases "i = j") auto
  then show "unat (str_hash s' AND msk) = i" using assms i unfolding placed_def by cases auto
qed

lemma reinsert_chain_ok:
  assumes "str_chains ob (nh @ hs @ [p]) (cs @ ds @ [ps])" and "length cs = length nh" and "length nh = unat newmask + 1"
    and "placed ob newmask cs"
  shows "\<exists>nh' ob' cs'. reinsert_chain newmask p nh ob = Some (Inr (nh', ob')) \<and> length nh' = length nh \<and> length cs' = length nh \<and>
           str_chains ob' (nh' @ hs) (cs' @ ds) \<and> mset (concat cs') = mset (concat cs) + mset ps \<and>
           same_strings ob ob' \<and> placed ob' newmask cs'"
  using assms
proof (induction ps arbitrary: p nh ob cs)
  case Nil
  then have "p = 0" "str_chains ob (nh @ hs) (cs @ ds)"
    using str_chains_snoc [of ob "nh @ hs" p "cs @ ds" "[]"] by simp_all
  then show ?case using Nil by (subst reinsert_chain.simps) auto
next
  case (Cons q ps)
  note defn = reinsert_chain.simps [of newmask p nh ob]
  have "str_chains ob ((nh @ hs) @ [p]) ((cs @ ds) @ [q # ps])" using Cons.prems(1) by simp
  then have d: "str_chains ob (nh @ hs) (cs @ ds)" "str_chain ob p (q # ps)" "distinct (q # ps)" "set (q # ps) \<inter> set (concat (cs @ ds)) = {}"
    unfolding str_chains_snoc by blast+
  from d(2) obtain s where p: "q = p" "p \<noteq> 0" "ob p = Some s" "str_chain ob (str_nextgc s) ps" by (auto split: option.splits)
  let ?h = "unat (str_hash s AND newmask)"
  have h: "?h < length nh" using Cons.prems(3) word_and_le1 [of "str_hash s" newmask] by (simp add: word_le_nat_alt)
  let ?ob = "ob(p \<mapsto> s\<lparr>str_nextgc := nh ! ?h\<rparr>)"
  have "str_chains ob (nh @ hs @ [str_nextgc s]) (cs @ ds @ [ps])" and nin: "p \<notin> set (concat (cs @ ds @ [ps]))"
    using d p str_chains_snoc [of ob "nh @ hs" "str_nextgc s" "cs @ ds" ps] by auto
  from str_chains_push [OF this(1) _ p(2) this(2), of ?h "s\<lparr>str_nextgc := nh ! ?h\<rparr>"]
  have c: "str_chains ?ob (nh[?h := p] @ hs @ [str_nextgc s]) (cs[?h := p # cs ! ?h] @ ds @ [ps])"
    using h Cons.prems(2) by (simp add: nth_append list_update_append)
  have ss: "same_strings ob ?ob" by (rule same_strings_link) (rule p(3))
  have "placed ?ob newmask (cs[?h := p # cs ! ?h])"
    using placed_same [OF Cons.prems(4) ss] h Cons.prems(2)
    by (intro placed_push [where s = "s\<lparr>str_nextgc := nh ! ?h\<rparr>"]) auto
  moreover have "length (cs[?h := p # cs ! ?h]) = length (nh[?h := p])" "length (nh[?h := p]) = unat newmask + 1"
    using Cons.prems(2,3) by simp_all
  ultimately obtain nh' ob' cs' where
    r: "reinsert_chain newmask (str_nextgc s) (nh[?h := p]) ?ob = Some (Inr (nh', ob'))" "length nh' = length nh" "length cs' = length nh"
      "str_chains ob' (nh' @ hs) (cs' @ ds)" "mset (concat cs') = mset (concat (cs[?h := p # cs ! ?h])) + mset ps"
      "same_strings ?ob ob'" "placed ob' newmask cs'"
    using Cons.IH [OF c] unfolding length_list_update by blast
  have "same_strings ob ob'" by (rule same_strings_trans [OF ss r(6)])
  moreover have "reinsert_chain newmask p nh ob = Some (Inr (nh', ob'))" using defn p h r(1) by (simp add: Let_def)
  moreover have "mset (concat cs') = mset (concat cs) + mset (q # ps)"
    using r(5) mset_concat_push [of ?h cs p] h Cons.prems(2) p(1) by simp
  ultimately show ?case using r by blast
qed

lemma rehash_chains_ok:
  assumes "str_chains ob (nh @ take i hs) (cs @ take i ds)" and "i \<le> length hs" "length ds = length hs"
    and "length cs = length nh" and "length nh = unat newmask + 1" and "placed ob newmask cs"
  shows "\<exists>nh' ob' cs'. rehash_chains newmask hs i nh ob = Some (Inr (nh', ob')) \<and> length nh' = length nh \<and>
           str_chains ob' nh' cs' \<and> mset (concat cs') = mset (concat cs) + mset (concat (take i ds)) \<and>
           same_strings ob ob' \<and> placed ob' newmask cs'"
  using assms
proof (induction i arbitrary: nh ob cs)
  case 0
  then show ?case by auto
next
  case (Suc i)
  have "take (Suc i) hs = take i hs @ [hs ! i]" "take (Suc i) ds = take i ds @ [ds ! i]"
    using Suc.prems(2,3) by (simp_all add: take_Suc_conv_app_nth)
  note t = this
  obtain nh1 ob1 cs1 where 1: "reinsert_chain newmask (hs ! i) nh ob = Some (Inr (nh1, ob1))" "length nh1 = length nh" "length cs1 = length nh"
      "str_chains ob1 (nh1 @ take i hs) (cs1 @ take i ds)" "mset (concat cs1) = mset (concat cs) + mset (ds ! i)"
      "same_strings ob ob1" "placed ob1 newmask cs1"
    using reinsert_chain_ok [of ob nh "take i hs" "hs ! i" cs "take i ds" "ds ! i" newmask] Suc.prems t by auto
  obtain nh2 ob2 cs2 where 2: "rehash_chains newmask hs i nh1 ob1 = Some (Inr (nh2, ob2))" "length nh2 = length nh1"
      "str_chains ob2 nh2 cs2" "mset (concat cs2) = mset (concat cs1) + mset (concat (take i ds))"
      "same_strings ob1 ob2" "placed ob2 newmask cs2"
    using Suc.IH [OF 1(4) _ _ _ _ 1(7)] Suc.prems 1 by auto
  have "rehash_chains newmask hs (Suc i) nh ob = Some (Inr (nh2, ob2))" using 1(1) 2(1) Suc.prems(2) by simp
  moreover have "mset (concat cs2) = mset (concat cs) + mset (concat (take (Suc i) ds))" using 1(5) 2(4) t by simp
  ultimately show ?case using 1(2) 2 same_strings_trans [OF 1(6) 2(5)] by auto
qed

section \<open>The invariant of the table\<close>

text \<open>
  A string in the table is not empty and not too long, has its hash and is terminated; no two of them have the
  same bytes. The strings hang in the chain of their hash, their number is counted, and they are aligned.
  There are no other strings but the empty one.
\<close>

definition str_wf :: "gcstr \<Rightarrow> bool" where
  "str_wf s \<longleftrightarrow> 0 < str_len s \<and> unat (str_len s) < LJ_MAX_STR \<and> str_gct s = GCT_STR \<and>
     str_hash s = hash_bytes (strdata s) (str_len s) \<and> strdata s (unat (str_len s)) = 0"

definition obj_bytes :: "(uint32 \<Rightarrow> gcstr option) \<Rightarrow> uint32 \<Rightarrow> uint8 list" where
  "obj_bytes ob p = (case ob p of None \<Rightarrow> [] | Some s \<Rightarrow> str_bytes s)"

definition strings_ok :: "(uint32 \<Rightarrow> gcstr option) \<Rightarrow> uint32 set \<Rightarrow> bool" where
  "strings_ok ob P \<longleftrightarrow> (\<forall>p\<in>P. \<exists>s. ob p = Some s \<and> str_wf s) \<and> inj_on (obj_bytes ob) P"

definition str_inv :: "gstate \<Rightarrow> uint32 list list \<Rightarrow> bool" where
  "str_inv g cs \<longleftrightarrow>
     length (strhash g) = unat (strmask g) + 1 \<and> strmask g < LJ_MAX_STRTAB - 1 \<and>
     str_chains (sobjs g) (strhash g) cs \<and> placed (sobjs g) (strmask g) cs \<and>
     strnum g = of_nat (length (concat cs)) \<and> strings_ok (sobjs g) (set (concat cs)) \<and>
     obj_bytes (sobjs g) (strempty g) = [] \<and> (\<forall>p. sobjs g p \<noteq> None \<longleftrightarrow> p = strempty g \<or> p \<in> set (concat cs)) \<and> (\<forall>p\<in>set (concat cs). 8 dvd unat p)"

lemmas str_invD = str_inv_def [THEN iffD1]

lemma str_wf_link [simp]: "str_wf (s\<lparr>str_nextgc := n\<rparr>) = str_wf s" "str_bytes (s\<lparr>str_nextgc := n\<rparr>) = str_bytes s"
  by (simp_all add: str_wf_def str_bytes_def)

lemma str_wf_marked [simp]: "str_wf (s\<lparr>str_marked := m\<rparr>) = str_wf s" "str_bytes (s\<lparr>str_marked := m\<rparr>) = str_bytes s"
  by (simp_all add: str_wf_def str_bytes_def)

lemma same_strings_bytes: "same_strings ob ob' \<Longrightarrow> obj_bytes ob' = obj_bytes ob"
proof
  fix p assume s: "same_strings ob ob'"
  show "obj_bytes ob' p = obj_bytes ob p"
    using same_stringsD [OF s, of p] by (cases "ob' p") (auto simp: obj_bytes_def)
qed

lemma strings_okD: "strings_ok ob P \<Longrightarrow> p \<in> P \<Longrightarrow> \<exists>s. ob p = Some s \<and> str_wf s"
  by (simp add: strings_ok_def)

lemma strings_ok_same:
  assumes "strings_ok ob P" and s: "same_strings ob ob'"
  shows "strings_ok ob' P"
proof -
  have "\<exists>s'. ob' p = Some s' \<and> str_wf s'" if pP: "p \<in> P" for p
  proof -
    obtain u where "ob p = Some u" "str_wf u" using strings_okD [OF assms(1) pP] by blast
    then show ?thesis using same_stringsD [OF s, of p] by (cases "ob' p") auto
  qed
  then show ?thesis using assms same_strings_bytes [OF s] by (simp add: strings_ok_def)
qed

lemma strmask_length: "strmask g < LJ_MAX_STRTAB - 1 \<Longrightarrow> unat (strmask g + 1) = unat (strmask g) + 1"
  by (simp add: word_less_nat_alt unat_word_ariths)

text \<open>What an operation leaves of the state of the collector; a table that is being swept keeps its size.\<close>

definition same_gc :: "gstate \<Rightarrow> gstate \<Rightarrow> bool" where
  "same_gc g g' \<longleftrightarrow> strempty g' = strempty g \<and> tmpbuf g' = tmpbuf g \<and> gc_currentwhite g' = gc_currentwhite g \<and>
     gc_state g' = gc_state g \<and> gc_sweepstr g' = gc_sweepstr g \<and> gc_root g' = gc_root g \<and> gc_estimate g' = gc_estimate g \<and>
     (gc_state g = GCSsweepstring \<longrightarrow> strmask g' = strmask g)"

text \<open>Resizing keeps all the strings; it fails without memory only, and then changes nothing.\<close>

lemma lj_str_resize_ok:
  assumes inv: "str_inv g cs"
  shows "\<exists>r g' cs'. lj_str_resize allocf newmask g = Some (r, g') \<and> r \<in> {Inr (), Inl LJ_ERR_ERRMEM} \<and>
           str_inv g' cs' \<and> mset (concat cs') = mset (concat cs) \<and> same_strings (sobjs g) (sobjs g') \<and> same_gc g g'"
proof (cases "gc_state g = GCSsweepstring \<or> newmask \<ge> LJ_MAX_STRTAB - 1 \<or> allocf g ((newmask + 1) * 4) = None")
  case True
  then have "lj_str_resize allocf newmask g \<in> {Some (Inr (), g), Some (Inl LJ_ERR_ERRMEM, g)}"
    by (auto simp: lj_str_resize_def lj_mem_new_def)
  then show ?thesis using inv by (auto simp: same_gc_def)
next
  case False
  note i = str_invD [OF inv]
  then obtain p where p: "allocf g ((newmask + 1) * 4) = Some p" using False by auto
  have m: "unat (newmask + 1) = unat newmask + 1" using False by (simp add: word_less_nat_alt word_le_nat_alt unat_word_ariths)
  let ?nh = "replicate (unat newmask + 1) 0 :: uint32 list" let ?cs = "replicate (unat newmask + 1) [] :: uint32 list list"
  have l: "length cs = length (strhash g)" using i str_chains_length by blast
  have e: "concat ?cs = []" by simp
  have "list_all2 (str_chain (sobjs g)) ?nh ?cs" by (auto intro: list_all2_all_nthI simp del: replicate.simps)
  then have "str_chains (sobjs g) (?nh @ strhash g) (?cs @ cs)" using i by (simp add: str_chains_def list_all2_appendI del: replicate.simps)
  moreover have "placed (sobjs g) newmask ?cs" by (simp add: placed_def del: replicate.simps)
  ultimately obtain nh' ob' cs' where
    r: "rehash_chains newmask (strhash g) (unat (strmask g) + 1) ?nh (sobjs g) = Some (Inr (nh', ob'))" "length nh' = unat newmask + 1"
      "str_chains ob' nh' cs'" "mset (concat cs') = mset (concat cs)" "same_strings (sobjs g) ob'" "placed ob' newmask cs'"
    using rehash_chains_ok [of "sobjs g" ?nh "unat (strmask g) + 1" "strhash g" ?cs cs newmask] i l
    by (auto simp del: replicate.simps)
  let ?g = "g\<lparr>gc_total := gc_total g + (newmask + 1) * 4 - (strmask g + 1) * 4, sobjs := ob', strmask := newmask, strhash := nh'\<rparr>"
  have "lj_str_resize allocf newmask g = Some (Inr (), ?g)"
    using False p r(1) m strmask_length [of g] i by (simp add: lj_str_resize_def lj_mem_new_def del: replicate.simps)
  moreover have "str_inv ?g cs'"
    using i r False strings_ok_same [OF _ r(5)] same_strings_bytes [OF r(5)] same_stringsD(1) [OF r(5)]
      mset_eq_setD [OF r(4)] mset_eq_length [OF r(4)]
    by (simp add: str_inv_def not_le del: set_concat)
  ultimately show ?thesis using r False by (intro exI) (auto simp: same_gc_def)
qed

section \<open>Interning\<close>

lemma str_same_ok:
  assumes "paged mem" and m: "mem_at mem str d (unat len)" and len: "0 < len" "unat len < 2 ^ 31" and s: "str_len s = len"
  shows "\<exists>c. str_same mem str len s = Some (Some c) \<and> (c = 0 \<longleftrightarrow> str_bytes s = seg d 0 (unat len))"
proof (cases "str_fast str len")
  case True
  obtain d' where d: "mem_at mem str d' (unat len + 3)" "\<forall>j<unat len. d' j = d j"
    using mem_at_extend [OF assms(1) True m len(1)] by blast
  have e: "seg d' 0 (unat len) = seg d 0 (unat len)" using d(2) by (simp add: seg_eq_iff)
  have "seg d' 0 (unat 0) = seg (strdata s) 0 (unat (0 :: uint32))" by (simp add: seg_def)
  from str_fastcmp_from_ok [OF d(1) len(2,1) this] show ?thesis
    using True s by (auto simp: str_same_def str_fastcmp_def str_bytes_def e)
next
  case False
  then show ?thesis
    using memcmp_from_ok [of mem str d 0 "unat len" "strdata s"] m s by (auto simp: str_same_def memcmp_def str_bytes_def)
qed

lemma str_lookup_ok:
  assumes "str_chain ob p ps"
    and "\<And>q s. q \<in> set ps \<Longrightarrow> ob q = Some s \<Longrightarrow> str_len s = len \<Longrightarrow> \<exists>c. cmp s = Some (Some c) \<and> (c = 0 \<longleftrightarrow> str_bytes s = bs)"
    and "length bs = unat len"
  shows "\<exists>q. str_lookup cmp len ob p = Some (Inr q) \<and>
           (if q = 0 then \<forall>r\<in>set ps. obj_bytes ob r \<noteq> bs else q \<in> set ps \<and> obj_bytes ob q = bs)"
  using assms(1,2)
proof (induction ps arbitrary: p)
  case Nil
  then show ?case by (subst str_lookup.simps) simp
next
  case (Cons x ps)
  obtain s where s: "x = p" "p \<noteq> 0" "ob p = Some s" "str_chain ob (str_nextgc s) ps"
    using Cons.prems(1) by (auto split: option.splits)
  note defn = str_lookup.simps [of cmp len ob p]
  have "\<exists>q. str_lookup cmp len ob (str_nextgc s) = Some (Inr q) \<and>
      (if q = 0 then \<forall>r\<in>set ps. obj_bytes ob r \<noteq> bs else q \<in> set ps \<and> obj_bytes ob q = bs)"
    by (rule Cons.IH [OF s(4)]) (rule Cons.prems(2), simp_all)
  then obtain q where q: "str_lookup cmp len ob (str_nextgc s) = Some (Inr q)"
    "if q = 0 then \<forall>r\<in>set ps. obj_bytes ob r \<noteq> bs else q \<in> set ps \<and> obj_bytes ob q = bs" by blast
  have b: "obj_bytes ob p = str_bytes s" using s(3) by (simp add: obj_bytes_def)
  show ?case
  proof (cases "str_bytes s = bs")
    case True
    then have "unat (str_len s) = unat len" using assms(3) length_str_bytes [of s] by simp
    then have "str_len s = len" by (simp add: word_unat_eq_iff)
    then have "str_lookup cmp len ob p = Some (Inr p)" using Cons.prems(2) [of p s] s True defn by auto
    then show ?thesis using s(1,2) b True by auto
  next
    case False
    have "str_lookup cmp len ob p = Some (Inr q)"
    proof (cases "str_len s = len")
      case True
      then show ?thesis using Cons.prems(2) [of p s] s False q(1) defn by auto
    qed (use s q(1) defn in simp)
    then show ?thesis using q(2) b False s(1) by (intro exI [of _ q]) auto
  qed
qed

text \<open>The allocator hands out aligned fragments that are not in use.\<close>

definition alloc_fresh :: "allocator \<Rightarrow> bool" where
  "alloc_fresh allocf \<longleftrightarrow> (\<forall>g n p junk. allocf g n = Some (p, junk) \<longrightarrow> p \<noteq> 0 \<and> sobjs g p = None \<and> 8 dvd unat p)"

lemma memcpy_ok: "mem_at mem str d (unat len) \<Longrightarrow> memcpy mem str len = Some (seg d 0 (unat len))"
proof -
  assume m: "mem_at mem str d (unat len)"
  have t: "those (map (\<lambda>i. Some (d i)) xs) = Some (map d xs)" for xs by (induction xs) auto
  have "map (\<lambda>i. mem (str + of_nat i)) [0..<unat len] = map (\<lambda>i. Some (d i)) [0..<unat len]" using m by (auto simp: mem_at_def)
  then show ?thesis by (simp only: memcpy_def seg_def t add_0)
qed

text \<open>The new string in its chain.\<close>

lemma str_inv_insert:
  assumes inv: "str_inv g cs" and p: "p \<noteq> 0" "sobjs g p = None" "8 dvd unat p"
    and s: "str_wf s" "str_nextgc s = strhash g ! i" "i = unat (str_hash s AND strmask g)"
    and new: "\<forall>q\<in>set (concat cs). obj_bytes (sobjs g) q \<noteq> str_bytes s"
  shows "str_inv (g\<lparr>gc_total := t, sobjs := (sobjs g)(p \<mapsto> s), strhash := (strhash g)[i := p], strnum := strnum g + 1\<rparr>) (cs[i := p # cs ! i])"
proof -
  note v = str_invD [OF inv]
  let ?ob = "(sobjs g)(p \<mapsto> s)"
  have i: "i < length (strhash g)" using s(3) word_and_le1 [of "str_hash s" "strmask g"] v by (simp add: word_le_nat_alt)
  have l: "length cs = length (strhash g)" using v str_chains_length by blast
  have nin: "p \<notin> set (concat cs)" using str_chains_member [of "sobjs g" "strhash g" cs p] v p(2) by auto
  have ms: "mset (concat (cs[i := p # cs ! i])) = mset (p # concat cs)" using mset_concat_push [of i cs p] i l by simp
  note st = mset_eq_setD [OF ms] and ln = mset_eq_length [OF ms]
  have b: "obj_bytes ?ob q = (if q = p then str_bytes s else obj_bytes (sobjs g) q)" for q by (simp add: obj_bytes_def)
  have "placed ?ob (strmask g) cs" using v nin unfolding placed_def by (metis fun_upd_other set_nth_concat subset_iff)
  then have "placed ?ob (strmask g) (cs[i := p # cs ! i])" using i l s(3) by (intro placed_push [where s = s]) auto
  moreover have "inj_on (obj_bytes ?ob) (insert p (set (concat cs)))"
  proof -
    have "inj_on (obj_bytes ?ob) (set (concat cs))" using v nin unfolding strings_ok_def by (metis (no_types, lifting) b inj_on_cong)
    moreover have "obj_bytes ?ob p \<notin> obj_bytes ?ob ` (set (concat cs))" using new nin by (auto simp: b simp del: set_concat)
    ultimately show ?thesis using nin by (simp add: inj_on_insert del: set_concat)
  qed
  moreover have "\<exists>s. ?ob q = Some s \<and> str_wf s" if "q \<in> insert p (set (concat cs))" for q
    using v s(1) that unfolding strings_ok_def by (cases "q = p") auto
  moreover have "str_chains ?ob ((strhash g)[i := p]) (cs[i := p # cs ! i])"
    using v i p(1) nin s(2) by (intro str_chains_push) auto
  moreover have "p \<noteq> strempty g" using v p(2) by blast
  ultimately show ?thesis using v i l p(3) by (simp add: str_inv_def strings_ok_def st ln b del: set_concat length_concat)
qed

lemma str_create_ok:
  assumes inv: "str_inv g cs" and alloc: "alloc_fresh allocf" and m: "mem_at mem str d (unat len)"
    and len: "0 < len" "unat len < LJ_MAX_STR" and new: "\<forall>q\<in>set (concat cs). obj_bytes (sobjs g) q \<noteq> seg d 0 (unat len)"
  shows "\<exists>r g'. str_create allocf mem str len (hash_bytes d len) g = Some (r, g') \<and> same_gc g g' \<and>
     (r = Inl LJ_ERR_ERRMEM \<and> g' = g \<or>
      (\<exists>p s cs'. r \<in> {Inr p, Inl LJ_ERR_ERRMEM} \<and> p \<noteq> 0 \<and> sobjs g p = None \<and> str_bytes s = seg d 0 (unat len) \<and> str_marked s = curwhite g \<and>
         str_inv g' cs' \<and> mset (concat cs') = mset (p # concat cs) \<and> same_strings ((sobjs g)(p \<mapsto> s)) (sobjs g')))"
proof (cases "allocf g (16 + len + 1)")
  case None
  then show ?thesis by (auto simp: str_create_def lj_mem_new_def same_gc_def)
next
  case (Some a)
  then obtain p junk where a: "allocf g (16 + len + 1) = Some (p, junk)" by (cases a) auto
  then have p: "p \<noteq> 0" "sobjs g p = None" "8 dvd unat p" using alloc by (auto simp: alloc_fresh_def)
  let ?h = "hash_bytes d len" let ?n = "unat len"
  let ?i = "unat (?h AND strmask g)"
  let ?d = "\<lambda>k. if k < ?n then seg d 0 ?n ! k else if k = ?n then 0 else junk k"
  let ?s = "\<lparr>str_nextgc = strhash g ! ?i, str_marked = curwhite g, str_gct = GCT_STR, str_reserved = 0, str_hash = ?h, str_len = len, strdata = ?d\<rparr>"
  let ?g = "g\<lparr>gc_total := gc_total g + (16 + len + 1), sobjs := (sobjs g)(p \<mapsto> ?s), strhash := (strhash g)[?i := p], strnum := strnum g + 1\<rparr>"
  have e: "seg ?d 0 ?n = seg d 0 ?n" by (simp add: seg_eq_iff seg_def)
  have b: "str_bytes ?s = seg d 0 ?n" using e by (simp add: str_bytes_def)
  have wf: "str_wf ?s" using len hash_bytes_cong [OF e len(1)] by (simp add: str_wf_def)
  have v: "str_inv ?g (cs[?i := p # cs ! ?i])" using new b by (intro str_inv_insert [OF inv p wf]) auto
  have ms: "mset (concat (cs[?i := p # cs ! ?i])) = mset (p # concat cs)"
  proof -
    have "?i < length cs" using str_invD [OF inv] str_chains_length [of "sobjs g" "strhash g" cs] word_and_le1 [of ?h "strmask g"]
      by (simp add: word_le_nat_alt)
    then show ?thesis using mset_concat_push [of ?i cs p] by simp
  qed
  have gc: "same_gc g ?g" by (simp add: same_gc_def)
  have eq: "str_create allocf mem str len ?h g =
      (if strnum g > strmask g then
         (case lj_str_resize allocf (push_bit 1 (strmask g) + 1) ?g of
            None \<Rightarrow> None | Some (Inl e, g) \<Rightarrow> Some (Inl e, g) | Some (Inr _, g) \<Rightarrow> Some (Inr p, g))
       else Some (Inr p, ?g))"
    using a by (simp add: str_create_def lj_mem_new_def memcpy_ok [OF m] Let_def curwhite_def)
  show ?thesis
  proof (cases "strnum g > strmask g")
    case False
    then have "str_create allocf mem str len ?h g = Some (Inr p, ?g)" using eq by simp
    then show ?thesis using gc p v ms b
      by (intro exI [of _ "Inr p"] exI [of _ ?g] conjI disjI2 exI [of _ p] exI [of _ ?s] exI [of _ "cs[?i := p # cs ! ?i]"]) auto
  next
    case True
    from lj_str_resize_ok [OF v, of allocf "push_bit 1 (strmask g) + 1"] obtain r g' cs' where
      r: "lj_str_resize allocf (push_bit 1 (strmask g) + 1) ?g = Some (r, g')" "r \<in> {Inr (), Inl LJ_ERR_ERRMEM}" "str_inv g' cs'"
        "mset (concat cs') = mset (concat (cs[?i := p # cs ! ?i]))" "same_strings (sobjs ?g) (sobjs g')" "same_gc ?g g'" by blast
    let ?r = "if r = Inr () then Inr p else Inl LJ_ERR_ERRMEM"
    have "str_create allocf mem str len ?h g = Some (?r, g')" unfolding eq r(1) using True r(2) by auto
    moreover have "same_gc g g'" using gc r(6) by (simp add: same_gc_def)
    ultimately show ?thesis using p b r(3,4,5) ms
      by (intro exI [of _ ?r] exI [of _ g'] conjI disjI2 exI [of _ p] exI [of _ ?s] exI [of _ cs']) auto
  qed
qed

text \<open>The colours of the strings do not matter to the table.\<close>

definition recoloured :: "(uint32 \<Rightarrow> gcstr option) \<Rightarrow> (uint32 \<Rightarrow> gcstr option) \<Rightarrow> bool" where
  "recoloured ob ob' \<longleftrightarrow> (\<forall>q. map_option (str_marked_update (\<lambda>_. 0)) (ob' q) = map_option (str_marked_update (\<lambda>_. 0)) (ob q))"

lemma recoloured_refl [simp]: "recoloured ob ob"
  by (simp add: recoloured_def)

lemma recolouredD:
  assumes "recoloured ob ob'"
  shows "ob' q = None \<longleftrightarrow> ob q = None" and "ob' q = Some s' \<Longrightarrow> \<exists>s m. ob q = Some s \<and> s' = s\<lparr>str_marked := m\<rparr>"
proof -
  have q: "map_option (str_marked_update (\<lambda>_. 0)) (ob' q) = map_option (str_marked_update (\<lambda>_. 0)) (ob q)"
    using assms by (simp add: recoloured_def)
  then show "ob' q = None \<longleftrightarrow> ob q = None" by (metis option.map_disc_iff)
  assume "ob' q = Some s'"
  with q obtain s where s: "ob q = Some s" "s'\<lparr>str_marked := 0\<rparr> = s\<lparr>str_marked := 0\<rparr>" by (cases "ob q") auto
  then have "s' = s\<lparr>str_marked := str_marked s'\<rparr>" by (cases s; cases s') simp
  with s(1) show "\<exists>s m. ob q = Some s \<and> s' = s\<lparr>str_marked := m\<rparr>" by blast
qed

lemma recoloured_bytes: "recoloured ob ob' \<Longrightarrow> obj_bytes ob' = obj_bytes ob"
proof
  fix p assume r: "recoloured ob ob'"
  show "obj_bytes ob' p = obj_bytes ob p" using recolouredD [OF r, of p] by (cases "ob' p") (auto simp: obj_bytes_def)
qed

lemma recoloured_next: "recoloured ob ob' \<Longrightarrow> map_option str_nextgc (ob' q) = map_option str_nextgc (ob q)"
proof -
  assume r: "recoloured ob ob'"
  show ?thesis using recolouredD [OF r, of q] by (cases "ob' q") auto
qed

lemma recoloured_placed: "placed ob msk cs \<Longrightarrow> recoloured ob ob' \<Longrightarrow> placed ob' msk cs"
  unfolding placed_def by (fastforce dest: recolouredD(2))

lemma recoloured_strings_ok:
  assumes "strings_ok ob P" and r: "recoloured ob ob'"
  shows "strings_ok ob' P"
proof -
  have "\<exists>s'. ob' p = Some s' \<and> str_wf s'" if pP: "p \<in> P" for p
  proof -
    obtain u where "ob p = Some u" "str_wf u" using strings_okD [OF assms(1) pP] by blast
    then show ?thesis using recolouredD [OF r, of p] by (cases "ob' p") auto
  qed
  then show ?thesis using assms recoloured_bytes [OF r] by (simp add: strings_ok_def)
qed

lemma str_inv_recoloured:
  assumes "str_inv g cs" and r: "recoloured (sobjs g) ob"
  shows "str_inv (g\<lparr>sobjs := ob\<rparr>) cs"
proof -
  have "ob p \<noteq> None \<longleftrightarrow> sobjs g p \<noteq> None" for p using recolouredD(1) [OF r, of p] by simp
  then show ?thesis
    using str_invD [OF assms(1)] str_chains_cong [OF _ recoloured_next [OF r], where cs = cs and hs = "strhash g"]
      recoloured_placed [OF _ r, of "strmask g" cs] recoloured_strings_ok [OF _ r, of "set (concat cs)"] recoloured_bytes [OF r]
    by (simp add: str_inv_def del: set_concat length_concat)
qed

text \<open>The abstraction: the strings of the table by their bytes, and the empty string.\<close>

definition interned :: "gstate \<Rightarrow> (uint8 list \<Rightarrow> uint32 option) \<Rightarrow> bool" where
  "interned g M \<longleftrightarrow>
     (\<exists>cs. str_inv g cs \<and>
        (\<forall>bs p. M bs = Some p \<longleftrightarrow> p \<in> set (concat cs) \<and> obj_bytes (sobjs g) p = bs \<or> bs = [] \<and> p = strempty g))"

lemma str_inv_nonempty: "str_inv g cs \<Longrightarrow> p \<in> set (concat cs) \<Longrightarrow> obj_bytes (sobjs g) p \<noteq> []"
proof -
  assume inv: "str_inv g cs" and p: "p \<in> set (concat cs)"
  obtain s where s: "sobjs g p = Some s" "str_wf s" using strings_okD [of "sobjs g" "set (concat cs)" p] str_invD [OF inv] p by blast
  then have "0 < unat (str_len s)" by (simp add: str_wf_def word_less_nat_alt)
  then show ?thesis using s(1) length_str_bytes [of s] by (auto simp: obj_bytes_def simp del: length_str_bytes)
qed

text \<open>What a reference stands for, as long as it is in the table.\<close>

lemma interned_bytes:
  assumes "interned g M" and "M bs = Some p"
  shows "sobjs g p \<noteq> None" and "obj_bytes (sobjs g) p = bs"
proof -
  obtain cs where c: "str_inv g cs" "M bs = Some p \<longleftrightarrow> p \<in> set (concat cs) \<and> obj_bytes (sobjs g) p = bs \<or> bs = [] \<and> p = strempty g"
    using assms(1) unfolding interned_def by blast
  note v = str_invD [OF c(1)]
  consider "p \<in> set (concat cs)" "obj_bytes (sobjs g) p = bs" | "bs = []" "p = strempty g" using c(2) assms(2) by blast
  then have "sobjs g p \<noteq> None \<and> obj_bytes (sobjs g) p = bs"
  proof cases
    case 1
    then show ?thesis using strings_okD [of "sobjs g" "set (concat cs)" p] v by blast
  next
    case 2
    then show ?thesis using v by simp
  qed
  then show "sobjs g p \<noteq> None" "obj_bytes (sobjs g) p = bs" by simp_all
qed

lemma interned_inject: "interned g M \<Longrightarrow> M bs = Some p \<Longrightarrow> M bs' = Some p \<Longrightarrow> bs = bs'"
  using interned_bytes(2) by blast

text \<open>A string that is not dead survives the sweep, and a string handed out is not dead.\<close>

definition survives :: "gstate \<Rightarrow> gcstr \<Rightarrow> bool" where
  "survives g s \<longleftrightarrow> (str_marked s XOR LJ_GC_WHITES) AND otherwhite g \<noteq> 0"

definition one_white :: "gstate \<Rightarrow> bool" where
  "one_white g \<longleftrightarrow> curwhite g \<in> {1, 2}"

lemma whites_mask: "LJ_GC_WHITES = mask 2"
  by (simp add: mask_eq_exp_minus_1)

lemma one_white_bits: "one_white g \<Longrightarrow> bit (gc_currentwhite g) 0 \<noteq> bit (gc_currentwhite g) (Suc 0)"
proof -
  assume "one_white g"
  then have w: "gc_currentwhite g AND LJ_GC_WHITES = 1 \<or> gc_currentwhite g AND LJ_GC_WHITES = 2" by (simp add: one_white_def curwhite_def)
  have b: "bit (gc_currentwhite g) n = bit (gc_currentwhite g AND LJ_GC_WHITES) n" if "n < 2" for n
    using that unfolding whites_mask by (simp add: bit_and_iff bit_mask_iff)
  show ?thesis using w by (auto simp: b [of 0] b [of "Suc 0"])
qed

lemma isdead_bits:
  "isdead g s \<longleftrightarrow> bit (str_marked s) 0 \<and> \<not> bit (gc_currentwhite g) 0 \<or> bit (str_marked s) (Suc 0) \<and> \<not> bit (gc_currentwhite g) (Suc 0)"
proof -
  have "isdead g s \<longleftrightarrow> (\<exists>n<8. bit (str_marked s) n \<and> (bit (gc_currentwhite g) n \<noteq> (n < 2)) \<and> n < 2)"
    unfolding isdead_def otherwhite_def whites_mask by (auto simp: bit_eq_iff bit_simps)
  also have "\<dots> \<longleftrightarrow> (\<exists>n<2. bit (str_marked s) n \<and> \<not> bit (gc_currentwhite g) n)"
  proof -
    have "n < 8" if "n < 2" for n :: nat using that by simp
    then show ?thesis by blast
  qed
  finally show ?thesis by (auto simp: numeral_2_eq_2 less_Suc_eq)
qed

lemma not_dead_survives: "one_white g \<Longrightarrow> \<not> isdead g s \<Longrightarrow> survives g s"
proof -
  assume w: "one_white g" and d: "\<not> isdead g s"
  from one_white_bits [OF w] have "\<exists>n<2. \<not> bit (gc_currentwhite g) n" 
    by (cases "bit (gc_currentwhite g) 0") (auto intro: exI [of _ 0] exI [of _ "Suc 0"])
  then obtain n where n: "n < 2" "\<not> bit (gc_currentwhite g) n" by blast
  then have "\<not> bit (str_marked s) n" using d by (auto simp: isdead_bits numeral_2_eq_2 less_Suc_eq)
  then have "bit ((str_marked s XOR LJ_GC_WHITES) AND otherwhite g) n" 
    using n unfolding otherwhite_def whites_mask by (simp add: bit_simps)
  then show ?thesis by (auto simp: survives_def)
qed

lemma flipwhite_not_dead: "one_white g \<Longrightarrow> isdead g s \<Longrightarrow> \<not> isdead g (flipwhite s)"
  using one_white_bits [of g] unfolding isdead_bits flipwhite_def whites_mask by (auto simp: bit_simps)

lemma curwhite_not_dead: "str_marked s = curwhite g \<Longrightarrow> \<not> isdead g s"
  by (simp add: isdead_bits curwhite_def bit_simps)

subsection \<open>A call\<close>

text \<open>The result of a call, by the bytes: the string that is there, or a new one, or no memory.\<close>

definition new_result :: "gstate \<Rightarrow> (uint8 list \<Rightarrow> uint32 option) \<Rightarrow> uint8 list \<Rightarrow> str_err + uint32 \<Rightarrow> gstate \<Rightarrow> bool" where
  "new_result g M bs r g' \<longleftrightarrow>
     (case M bs of
        Some p \<Rightarrow> r = Inr p \<and> interned g' M
      | None \<Rightarrow> r = Inl LJ_ERR_ERRMEM \<and> interned g' M \<or>
          (\<exists>p. r \<in> {Inr p, Inl LJ_ERR_ERRMEM} \<and> sobjs g p = None \<and> interned g' (M(bs \<mapsto> p))))"

text \<open>The strings that are not dead stay so.\<close>

definition stays :: "gstate \<Rightarrow> gstate \<Rightarrow> bool" where
  "stays g g' \<longleftrightarrow> (\<forall>q s. sobjs g q = Some s \<and> \<not> isdead g s \<longrightarrow> (\<exists>s'. sobjs g' q = Some s' \<and> \<not> isdead g' s'))"

lemma stays_refl [simp]: "stays g g"
  by (simp add: stays_def)

lemma isdead_cong: "gc_currentwhite g' = gc_currentwhite g \<Longrightarrow> str_marked s' = str_marked s \<Longrightarrow> isdead g' s' = isdead g s"
  by (simp add: isdead_def otherwhite_def)

lemma stays_created:
  assumes "sobjs g p = None" and same: "same_strings ((sobjs g)(p \<mapsto> s)) (sobjs g')" "same_gc g g'"
  shows "stays g g'"
  unfolding stays_def
proof (intro allI impI, elim conjE)
  fix q u assume q: "sobjs g q = Some u" "\<not> isdead g u"
  have "q \<noteq> p" using q(1) assms(1) by auto
  then have o: "((sobjs g)(p \<mapsto> s)) q = Some u" using q(1) by simp
  obtain u' where u': "sobjs g' q = Some u'" using same_stringsD(1) [OF same(1), of q] o by auto
  obtain n where "u' = u\<lparr>str_nextgc := n\<rparr>" using same_stringsD(2) [OF same(1) u'] o by auto
  then have "\<not> isdead g' u'" using q(2) isdead_cong [of g' g u' u] same(2) by (simp add: same_gc_def)
  then show "\<exists>s'. sobjs g' q = Some s' \<and> \<not> isdead g' s'" using u' by blast
qed

lemma interned_found:
  assumes "str_inv g cs" and "\<forall>bs p. M bs = Some p \<longleftrightarrow> p \<in> set (concat cs) \<and> obj_bytes (sobjs g) p = bs \<or> bs = [] \<and> p = strempty g"
    and "p \<in> set (concat cs)" "obj_bytes (sobjs g) p = bs"
  shows "new_result g M bs (Inr p) (resurrect p g)" and "same_gc g (resurrect p g)"
    and "one_white g \<Longrightarrow> \<exists>s. sobjs (resurrect p g) p = Some s \<and> \<not> isdead (resurrect p g) s" and "stays g (resurrect p g)"
proof -
  obtain s where s: "sobjs g p = Some s" using str_inv_nonempty [OF assms(1,3)] by (auto simp: obj_bytes_def split: option.splits)
  let ?ob = "if isdead g s then (sobjs g)(p \<mapsto> flipwhite s) else sobjs g"
  have r: "resurrect p g = g\<lparr>sobjs := ?ob\<rparr>" using s by (simp add: resurrect_def)
  have rc: "recoloured (sobjs g) ?ob" using s by (simp add: recoloured_def flipwhite_def)
  have "M bs = Some p" using assms(2,3,4) by blast
  moreover have "interned (resurrect p g) M"
    unfolding interned_def r using str_inv_recoloured [OF assms(1) rc] assms(2) recoloured_bytes [OF rc] by auto
  ultimately show "new_result g M bs (Inr p) (resurrect p g)" by (simp add: new_result_def)
  show "same_gc g (resurrect p g)" by (simp add: r same_gc_def)
  have d: "isdead (resurrect p g) = isdead g" by (rule ext) (simp add: r isdead_def otherwhite_def)
  show "\<exists>s. sobjs (resurrect p g) p = Some s \<and> \<not> isdead (resurrect p g) s" if "one_white g"
    unfolding d using s flipwhite_not_dead [OF that, of s] by (simp add: r)
  show "stays g (resurrect p g)" unfolding stays_def d using s by (auto simp: r)
qed

lemma interned_created:
  assumes inv: "str_inv g cs" and M: "\<forall>bs p. M bs = Some p \<longleftrightarrow> p \<in> set (concat cs) \<and> obj_bytes (sobjs g) p = bs \<or> bs = [] \<and> p = strempty g"
    and new: "\<forall>q\<in>set (concat cs). obj_bytes (sobjs g) q \<noteq> bs" and "bs \<noteq> []" and p: "sobjs g p = None" "str_bytes s = bs"
    and inv': "str_inv g' cs'" and cs': "mset (concat cs') = mset (p # concat cs)" and same: "same_strings ((sobjs g)(p \<mapsto> s)) (sobjs g')" "same_gc g g'"
  shows "M bs = None" and "interned g' (M(bs \<mapsto> p))"
proof -
  show "M bs = None" using M new assms(4) by (cases "M bs") auto
  have st: "set (concat cs') = insert p (set (concat cs))" using mset_eq_setD [OF cs'] by simp
  have b: "obj_bytes (sobjs g') q = (if q = p then bs else obj_bytes (sobjs g) q)" for q
    using same_strings_bytes [OF same(1)] p(2) by (simp add: obj_bytes_def)
  have e: "strempty g' = strempty g" using same(2) by (simp add: same_gc_def)
  have nin: "p \<notin> set (concat cs)" using str_invD [OF inv] p(1) str_chains_member [of "sobjs g" "strhash g" cs p] by auto
  have "(M(bs \<mapsto> p)) bs' = Some q \<longleftrightarrow> q \<in> set (concat cs') \<and> obj_bytes (sobjs g') q = bs' \<or> bs' = [] \<and> q = strempty g'" for bs' q
  proof (cases "bs' = bs")
    case True
    then show ?thesis using assms(4) new nin by (auto simp: st b e simp del: set_concat)
  next
    case False
    then have "(M(bs \<mapsto> p)) bs' = Some q \<longleftrightarrow> q \<in> set (concat cs) \<and> obj_bytes (sobjs g) q = bs' \<or> bs' = [] \<and> q = strempty g" using M by simp
    then show ?thesis using False nin by (auto simp: st b e simp del: set_concat)
  qed
  then show "interned g' (M(bs \<mapsto> p))" unfolding interned_def using inv' by blast
qed

lemma created_not_dead:
  assumes "same_strings (ob(q \<mapsto> s)) (sobjs g')" and "str_marked s = curwhite g" and "same_gc g g'"
  shows "\<exists>s. sobjs g' q = Some s \<and> \<not> isdead g' s"
proof -
  obtain s' where s': "sobjs g' q = Some s'" using same_stringsD(1) [OF assms(1), of q] by auto
  then obtain n where "s' = s\<lparr>str_nextgc := n\<rparr>" using same_stringsD(2) [OF assms(1) s'] by auto
  moreover have "curwhite g' = curwhite g" using assms(3) by (simp add: same_gc_def curwhite_def)
  ultimately have "str_marked s' = curwhite g'" using assms(2) by simp
  then show ?thesis using s' curwhite_not_dead by blast
qed

lemma str_create_result:
  assumes inv: "str_inv g cs"
    and M: "\<forall>bs p. M bs = Some p \<longleftrightarrow> p \<in> set (concat cs) \<and> obj_bytes (sobjs g) p = bs \<or> bs = [] \<and> p = strempty g"
    and alloc: "alloc_fresh allocf" and m: "mem_at mem str d (unat len)" and len: "0 < len" "unat len < LJ_MAX_STR"
    and new: "\<forall>q\<in>set (concat cs). obj_bytes (sobjs g) q \<noteq> seg d 0 (unat len)" and ne: "seg d 0 (unat len) \<noteq> []" and "interned g M"
  shows "\<exists>r g'. str_create allocf mem str len (hash_bytes d len) g = Some (r, g') \<and> same_gc g g' \<and> new_result g M (seg d 0 (unat len)) r g' \<and>
           stays g g' \<and> (\<forall>p. r = Inr p \<longrightarrow> (\<exists>s. sobjs g' p = Some s \<and> \<not> isdead g' s))"
proof -
  let ?bs = "seg d 0 (unat len)"
  have Mbs: "M ?bs = None" using M ne new by (cases "M ?bs") auto
  from str_create_ok [OF inv alloc m len new] obtain r g' where
    c: "str_create allocf mem str len (hash_bytes d len) g = Some (r, g')" "same_gc g g'"
    and res: "r = Inl LJ_ERR_ERRMEM \<and> g' = g \<or>
      (\<exists>p s cs'. r \<in> {Inr p, Inl LJ_ERR_ERRMEM} \<and> p \<noteq> 0 \<and> sobjs g p = None \<and> str_bytes s = ?bs \<and> str_marked s = curwhite g \<and>
         str_inv g' cs' \<and> mset (concat cs') = mset (p # concat cs) \<and> same_strings ((sobjs g)(p \<mapsto> s)) (sobjs g'))" by blast
  from res show ?thesis
  proof (elim disjE exE conjE)
    assume "r = Inl LJ_ERR_ERRMEM" "g' = g"
    then show ?thesis using c assms(9) Mbs by (auto simp: new_result_def)
  next
    fix q s cs' assume r: "r \<in> {Inr q, Inl LJ_ERR_ERRMEM}" "sobjs g q = None" "str_bytes s = ?bs" "str_marked s = curwhite g"
      "str_inv g' cs'" "mset (concat cs') = mset (q # concat cs)" "same_strings ((sobjs g)(q \<mapsto> s)) (sobjs g')"
    have "interned g' (M(?bs \<mapsto> q))" by (rule interned_created(2) [OF inv M new ne r(2,3,5,6,7) c(2)])
    then have "new_result g M ?bs r g'" using Mbs r(1,2) by (auto simp: new_result_def)
    then show ?thesis using c r(1) created_not_dead [OF r(7,4) c(2)] stays_created [OF r(2,7) c(2)] by auto
  qed
qed

lemma placed_by_bytes:
  assumes inv: "str_inv g cs" and q: "q \<in> set (concat cs)" and b: "obj_bytes (sobjs g) q = seg d 0 (unat len)" and pos: "0 < len"
  shows "q \<in> set (cs ! unat (hash_bytes d len AND strmask g))"
proof -
  note v = str_invD [OF inv]
  obtain s where s: "sobjs g q = Some s" "str_wf s" using strings_okD [of "sobjs g" "set (concat cs)" q] v q by blast
  then have sb: "str_bytes s = seg d 0 (unat len)" using b by (simp add: obj_bytes_def)
  then have "unat (str_len s) = unat len" using length_str_bytes [of s] by simp
  then have l: "str_len s = len" by (simp add: word_unat_eq_iff)
  then have "str_hash s = hash_bytes d len"
    using s(2) sb hash_bytes_cong [of "strdata s" len d] pos by (simp add: str_wf_def str_bytes_def)
  moreover obtain c where "c \<in> set cs" "q \<in> set c" using q by auto
  then obtain j where j: "j < length cs" "q \<in> set (cs ! j)" by (metis in_set_conv_nth)
  moreover have "unat (str_hash s AND strmask g) = j" using v j s(1) unfolding placed_def by blast
  ultimately show ?thesis by simp
qed

lemma lj_str_new_ok:
  assumes "interned g M" and alloc: "alloc_fresh allocf" and mem: "paged mem" "mem_at mem str d (unat lenx)" and lenx: "unat lenx < LJ_MAX_STR"
  defines "bs \<equiv> seg d 0 (unat lenx)"
  shows "\<exists>r g'. lj_str_new allocf mem str lenx g = Some (r, g') \<and> same_gc g g' \<and> new_result g M bs r g' \<and> stays g g' \<and>
           (\<forall>p. r = Inr p \<and> one_white g \<and> bs \<noteq> [] \<longrightarrow> (\<exists>s. sobjs g' p = Some s \<and> \<not> isdead g' s))"
proof -
  obtain cs where inv: "str_inv g cs"
    and M: "\<forall>bs p. M bs = Some p \<longleftrightarrow> p \<in> set (concat cs) \<and> obj_bytes (sobjs g) p = bs \<or> bs = [] \<and> p = strempty g"
    using assms(1) unfolding interned_def by blast
  note v = str_invD [OF inv]
  define len where "len = (ucast lenx :: uint32)"
  have l: "unat len = unat lenx" using lenx by (simp add: len_def unsigned_ucast_eq take_bit_nat_eq_self)
  have ov: "\<not> lenx \<ge> of_nat LJ_MAX_STR" using lenx by (simp add: word_le_nat_alt)
  note defn = lj_str_new_def [of allocf mem str lenx g, folded len_def, unfolded Let_def if_not_P [OF ov]]
  show ?thesis
  proof (cases "len = 0")
    case True
    then have e: "bs = []" using l by (simp add: bs_def seg_def)
    then have "M bs = Some (strempty g)" using M by blast
    then have "new_result g M bs (Inr (strempty g)) g" using assms(1) by (simp add: new_result_def)
    then show ?thesis using defn True e by (auto simp: same_gc_def)
  next
    case False
    then have pos: "0 < len" by (simp add: word_neq_0_conv)
    have m: "mem_at mem str d (unat len)" and ll: "unat len < LJ_MAX_STR" and lb: "length bs = unat len" and bs: "bs = seg d 0 (unat len)"
      using mem(2) l lenx by (simp_all add: bs_def)
    have ne: "bs \<noteq> []" using lb pos by (auto simp: word_less_nat_alt)
    let ?h = "hash_bytes d len" let ?i = "unat (?h AND strmask g)"
    have i: "?i < length (strhash g)" using word_and_le1 [of ?h "strmask g"] v by (simp add: word_le_nat_alt)
    then have ch: "str_chain (sobjs g) (strhash g ! ?i) (cs ! ?i)" using v str_chains_nth by blast
    have sub: "set (cs ! ?i) \<subseteq> set (concat cs)" using i v str_chains_length by (metis set_nth_concat)
    have "\<exists>c. str_same mem str len s = Some (Some c) \<and> (c = 0 \<longleftrightarrow> str_bytes s = bs)" if "str_len s = len" for s
      unfolding bs using str_same_ok [OF mem(1) m pos _ that] ll by simp
    from str_lookup_ok [OF ch this lb] obtain p where
      p: "str_lookup (str_same mem str len) len (sobjs g) (strhash g ! ?i) = Some (Inr p)"
        "if p = 0 then \<forall>r\<in>set (cs ! ?i). obj_bytes (sobjs g) r \<noteq> bs else p \<in> set (cs ! ?i) \<and> obj_bytes (sobjs g) p = bs" by blast
    have eq: "lj_str_new allocf mem str lenx g = (if p \<noteq> 0 then Some (Inr p, resurrect p g) else str_create allocf mem str len ?h g)"
      using defn False str_hash_of_ok [OF m pos] i p(1) by simp
    show ?thesis
    proof (cases "p = 0")
      case False
      then have "p \<in> set (concat cs)" "obj_bytes (sobjs g) p = bs" using p(2) sub by auto
      from interned_found [OF inv M this] show ?thesis using eq False by auto
    next
      case True
      have new: "\<forall>q\<in>set (concat cs). obj_bytes (sobjs g) q \<noteq> bs"
        using placed_by_bytes [OF inv _ _ pos, of _ d] p(2) True unfolding bs by auto
      have "\<exists>r g'. str_create allocf mem str len ?h g = Some (r, g') \<and> same_gc g g' \<and> new_result g M bs r g' \<and>
          stays g g' \<and> (\<forall>p. r = Inr p \<longrightarrow> (\<exists>s. sobjs g' p = Some s \<and> \<not> isdead g' s))"
        unfolding bs using new ne assms(1) by (intro str_create_result [OF inv M alloc m pos ll]) (simp_all add: bs)
      then show ?thesis using eq True by auto
    qed
  qed
qed

end
