(* ===== verification/Lj_Sweep.thy ===== *)
theory Lj_Sweep
  imports Lj_Intern
begin

text \<open>
  Sweeping the table of interned strings while strings are interned: a chain is left with its
  living strings, and a string handed out during the sweep survives it. The properties of the
  string table.
\<close>

section \<open>Sweeping a chain\<close>

definition head :: "uint32 list \<Rightarrow> uint32" where
  "head qs = (case qs of [] \<Rightarrow> 0 | q # _ \<Rightarrow> q)"

lemma head_simps [simp]: "head [] = 0" "head (q # qs) = q"
  by (simp_all add: head_def)

lemma str_chain_head: "str_chain ob p qs \<Longrightarrow> p = head qs"
  by (cases qs) auto

definition alive :: "gstate \<Rightarrow> uint32 \<Rightarrow> bool" where
  "alive g q \<longleftrightarrow> (case sobjs g q of None \<Rightarrow> False | Some s \<Rightarrow> survives g s)"

text \<open>What a sweep of the strings \<open>ps\<close> from the reference \<open>p\<close> on leaves.\<close>

definition swept :: "gstate \<Rightarrow> sref \<Rightarrow> uint32 list \<Rightarrow> gstate \<Rightarrow> bool" where
  "swept g p ps g' \<longleftrightarrow>
     (let live = filter (alive g) ps
      in str_chain (sobjs g') (head live) live \<and>
         (\<forall>q. q \<notin> set ps \<and> p \<noteq> Link q \<longrightarrow> sobjs g' q = sobjs g q) \<and>
         (\<forall>q\<in>set ps. map_option (str_nextgc_update (\<lambda>_. 0)) (sobjs g' q) =
            (if alive g q then map_option (\<lambda>s. (makewhite g s)\<lparr>str_nextgc := 0\<rparr>) (sobjs g q) else None)) \<and>
         (case p of
            Anchor i \<Rightarrow> strhash g' = (strhash g)[i := head live]
          | Link q \<Rightarrow> strhash g' = strhash g \<and> sobjs g' q = map_option (\<lambda>s. s\<lparr>str_nextgc := head live\<rparr>) (sobjs g q)) \<and>
         strnum g' + of_nat (length ps) = strnum g + of_nat (length live) \<and>
         strmask g' = strmask g \<and> strempty g' = strempty g \<and> tmpbuf g' = tmpbuf g \<and> gc_currentwhite g' = gc_currentwhite g \<and>
         gc_state g' = gc_state g \<and> gc_sweepstr g' = gc_sweepstr g)"

lemma survives_cong: "gc_currentwhite g' = gc_currentwhite g \<Longrightarrow> survives g' = survives g"
  by (simp add: survives_def otherwhite_def fun_eq_iff)

lemma makewhite_cong: "gc_currentwhite g' = gc_currentwhite g \<Longrightarrow> makewhite g' = makewhite g"
  by (simp add: makewhite_def curwhite_def fun_eq_iff)

lemma alive_cong: "gc_currentwhite g' = gc_currentwhite g \<Longrightarrow> sobjs g' q = sobjs g q \<Longrightarrow> alive g' q = alive g q"
  using survives_cong [of g' g] by (simp only: alive_def)

lemma filter_alive_cong:
  "gc_currentwhite g' = gc_currentwhite g \<Longrightarrow> (\<And>q. q \<in> set ps \<Longrightarrow> sobjs g' q = sobjs g q) \<Longrightarrow> filter (alive g') ps = filter (alive g) ps"
  by (rule filter_cong [OF refl], rule alive_cong) simp_all

text \<open>The step over a living string.\<close>

lemma swept_live:
  assumes x: "sobjs g x = Some s" "survives g s" "x \<noteq> 0" "x \<notin> set ps" and p: "sref_get g p = Some x" "\<And>q. p = Link q \<Longrightarrow> q \<notin> set (x # ps)"
    and sw: "swept (g\<lparr>sobjs := (sobjs g)(x \<mapsto> makewhite g s)\<rparr>) (Link x) ps g'"
  shows "swept g p (x # ps) g'"
proof -
  let ?g = "g\<lparr>sobjs := (sobjs g)(x \<mapsto> makewhite g s)\<rparr>" let ?live = "filter (alive g) ps"
  have f: "filter (alive ?g) ps = ?live" using x(4) by (intro filter_alive_cong) auto
  have a: "alive ?g q = alive g q" if "q \<in> set ps" for q using x(4) that by (intro alive_cong) auto
  have ax: "alive g x" using x by (simp add: alive_def)
  have mw: "makewhite ?g = makewhite g" by (rule makewhite_cong) simp
  note w = sw [unfolded swept_def Let_def f sref.case mw]
  have sx: "sobjs g' x = Some ((makewhite g s)\<lparr>str_nextgc := head ?live\<rparr>)" using w by simp
  have "str_chain (sobjs g') x (x # ?live)" using w sx x(3) by simp
  moreover have "sobjs g' q = sobjs g q" if "q \<notin> set (x # ps)" for q
  proof -
    have "x \<noteq> q" "q \<notin> set ps" using that by auto
    then show ?thesis using w by simp
  qed
  moreover have "map_option (str_nextgc_update (\<lambda>_. 0)) (sobjs g' q) = (if alive g q then map_option (\<lambda>s. (makewhite g s)\<lparr>str_nextgc := 0\<rparr>) (sobjs g q) else None)"
    if "q \<in> set (x # ps)" for q
  proof (cases "q = x")
    case True
    then show ?thesis using ax sx x(1) by simp
  next
    case False
    then have "q \<in> set ps" using that by simp
    then show ?thesis using w a [of q] False by simp
  qed
  moreover have "case p of Anchor i \<Rightarrow> strhash g' = (strhash g)[i := x]
      | Link q \<Rightarrow> strhash g' = strhash g \<and> sobjs g' q = map_option (\<lambda>s. s\<lparr>str_nextgc := x\<rparr>) (sobjs g q)"
  proof (cases p)
    case (Anchor i)
    then show ?thesis using w p(1) by (auto split: if_splits)
  next
    case (Link q)
    then obtain u where "sobjs g q = Some u" "str_nextgc u = x" using p(1) by auto
    then show ?thesis using w p(2) [OF Link] Link by auto
  qed
  moreover have fx: "filter (alive g) (x # ps) = x # ?live" using ax by simp
  ultimately show ?thesis using w unfolding swept_def Let_def fx head_simps by (simp add: algebra_simps)
qed

text \<open>The step over a dead string.\<close>

definition unlink :: "sref \<Rightarrow> uint32 \<Rightarrow> gcstr \<Rightarrow> gstate \<Rightarrow> gstate" where
  "unlink p x s g =
     (let g = sref_set p (str_nextgc s) g; g = (if x = gc_root g then g\<lparr>gc_root := str_nextgc s\<rparr> else g) in lj_str_free x s g)"

lemma unlink_simps:
  "strhash (unlink p x s g) = (case p of Anchor i \<Rightarrow> (strhash g)[i := str_nextgc s] | Link _ \<Rightarrow> strhash g)"
  "sobjs (unlink p x s g) q =
     (if q = x then None else if p = Link q then map_option (\<lambda>u. u\<lparr>str_nextgc := str_nextgc s\<rparr>) (sobjs g q) else sobjs g q)"
  "strnum (unlink p x s g) = strnum g - 1" "strmask (unlink p x s g) = strmask g" "strempty (unlink p x s g) = strempty g"
  "tmpbuf (unlink p x s g) = tmpbuf g" "gc_currentwhite (unlink p x s g) = gc_currentwhite g"
  "gc_state (unlink p x s g) = gc_state g" "gc_sweepstr (unlink p x s g) = gc_sweepstr g"
  by (cases p; simp add: unlink_def lj_str_free_def Let_def)+

lemma swept_dead:
  assumes x: "sobjs g x = Some s" "\<not> survives g s" "x \<noteq> 0" "x \<notin> set ps" and p: "sref_get g p = Some x" "\<And>q. p = Link q \<Longrightarrow> q \<notin> set (x # ps)"
    and sw: "swept (unlink p x s g) p ps g'"
  shows "swept g p (x # ps) g'"
proof -
  let ?g = "unlink p x s g" let ?live = "filter (alive g) ps"
  have o: "sobjs ?g q = sobjs g q" if "q \<in> set ps" for q using x(4) that p(2) by (auto simp: unlink_simps)
  have f: "filter (alive ?g) ps = ?live" using o by (intro filter_alive_cong) (auto simp: unlink_simps)
  have a: "alive ?g q = alive g q" if "q \<in> set ps" for q using o [OF that] by (intro alive_cong) (auto simp: unlink_simps)
  have ax: "\<not> alive g x" using x by (simp add: alive_def)
  have mw: "makewhite ?g = makewhite g" by (intro makewhite_cong) (simp add: unlink_simps)
  note w = sw [unfolded swept_def Let_def f mw]
  have "p \<noteq> Link x" using p(2) by auto
  then have "sobjs g' x = None" using w x(4) by (simp add: unlink_simps)
  moreover have "sobjs g' q = sobjs g q" if "q \<notin> set (x # ps)" "p \<noteq> Link q" for q using w that by (simp add: unlink_simps)
  moreover have "map_option (str_nextgc_update (\<lambda>_. 0)) (sobjs g' q) = (if alive g q then map_option (\<lambda>s. (makewhite g s)\<lparr>str_nextgc := 0\<rparr>) (sobjs g q) else None)"
    if "q \<in> set ps" for q
    using w that a [OF that] o [OF that] by simp
  moreover have "case p of Anchor i \<Rightarrow> strhash g' = (strhash g)[i := head ?live]
      | Link q \<Rightarrow> strhash g' = strhash g \<and> sobjs g' q = map_option (\<lambda>s. s\<lparr>str_nextgc := head ?live\<rparr>) (sobjs g q)"
  proof (cases p)
    case (Anchor i)
    then show ?thesis using w by (simp add: unlink_simps)
  next
    case (Link q)
    then have "q \<noteq> x" using p(2) by auto
    then show ?thesis using w Link by (simp add: unlink_simps option.map_comp comp_def)
  qed
  moreover have fx: "filter (alive g) (x # ps) = ?live" using ax by simp
  ultimately show ?thesis using w unfolding swept_def Let_def fx by (simp add: unlink_simps ax algebra_simps)
qed

lemma gc_sweep_ok:
  assumes "sref_get g p = Some x" "str_chain (sobjs g) x ps" "distinct ps" "\<And>q. p = Link q \<Longrightarrow> q \<notin> set ps"
    and "\<And>q s. q \<in> set ps \<Longrightarrow> sobjs g q = Some s \<Longrightarrow> str_gct s = GCT_STR" and "length ps \<le> lim"
  shows "\<exists>p' g'. gc_sweep g p lim = (Inr p', g') \<and> swept g p ps g'"
  using assms
proof (induction ps arbitrary: g p x lim)
  case Nil
  then have "gc_sweep g p lim = (Inr p, g)" by (simp add: gc_sweep.simps)
  moreover have "swept g p [] g"
  proof (cases p)
    case (Anchor i)
    then have "(strhash g)[i := 0] = strhash g" using Nil(1,2) by (metis list_update_id option.inject option.simps(3) sref_get.simps(1) str_chain.simps(1))
    then show ?thesis using Anchor by (simp add: swept_def)
  next
    case (Link q)
    then show ?thesis using Nil by (auto simp: swept_def)
  qed
  ultimately show ?case by blast
next
  case (Cons y ps)
  obtain s where s: "y = x" "x \<noteq> 0" "sobjs g x = Some s" "str_chain (sobjs g) (str_nextgc s) ps" using Cons.prems(2) by (auto split: option.splits)
  have t: "str_gct s = GCT_STR" and nin: "x \<notin> set ps" and d: "distinct ps" and lim: "lim \<noteq> 0" "length ps \<le> lim - 1"
    using Cons.prems(3,5,6) s by auto
  have pl: "\<And>q. p = Link q \<Longrightarrow> q \<notin> set (x # ps)" using Cons.prems(4) s(1) by simp
  note defn = gc_sweep.simps [of g p lim]
  show ?case
  proof (cases "survives g s")
    case True
    let ?g = "g\<lparr>sobjs := (sobjs g)(x \<mapsto> makewhite g s)\<rparr>"
    have ch: "str_chain (sobjs ?g) (str_nextgc s) ps" using s(4) nin by simp
    have "str_gct u = GCT_STR" if "q \<in> set ps" "sobjs ?g q = Some u" for q u
      using Cons.prems(5) [of q u] that nin by (cases "q = x") auto
    then have "\<exists>p' g'. gc_sweep ?g (Link x) (lim - 1) = (Inr p', g') \<and> swept ?g (Link x) ps g'"
      using nin by (intro Cons.IH [OF _ ch d _ _ lim(2)]) (simp_all add: makewhite_def)
    then obtain p' g' where r: "gc_sweep ?g (Link x) (lim - 1) = (Inr p', g')" "swept ?g (Link x) ps g'" by blast
    have "gc_sweep g p lim = (Inr p', g')" using defn Cons.prems(1) s lim t True r(1) by (simp add: survives_def)
    then show ?thesis using swept_live [OF s(3) True s(2) nin Cons.prems(1) pl r(2)] s(1) by blast
  next
    case False
    let ?g = "unlink p x s g"
    have o: "sobjs ?g q = sobjs g q" if "q \<in> set ps" for q using nin that pl by (auto simp: unlink_simps)
    have "str_chain (sobjs ?g) (str_nextgc s) ps" using s(4) o by (subst str_chain_cong [of ps "sobjs ?g" "sobjs g"]) auto
    moreover have "sref_get ?g p = Some (str_nextgc s)" using Cons.prems(1) pl by (cases p) (auto simp: unlink_simps split: if_splits)
    ultimately have "\<exists>p' g'. gc_sweep ?g p (lim - 1) = (Inr p', g') \<and> swept ?g p ps g'"
      using d lim pl Cons.prems(5) o by (intro Cons.IH [of _ _ "str_nextgc s"]) auto
    then obtain p' g' where r: "gc_sweep ?g p (lim - 1) = (Inr p', g')" "swept ?g p ps g'" by blast
    have "gc_sweep g p lim = (Inr p', g')"
      using defn Cons.prems(1) s lim t False r(1) by (simp add: survives_def unlink_def Let_def)
    then show ?thesis using swept_dead [OF s(3) False s(2) nin Cons.prems(1) pl r(2)] s(1) by blast
  qed
qed

section \<open>Sweeping the table\<close>

lemma concat_around:
  assumes "i < length cs"
  shows "concat cs = concat (take i cs) @ cs ! i @ concat (drop (Suc i) cs)"
    and "concat (cs[i := xs]) = concat (take i cs) @ xs @ concat (drop (Suc i) cs)"
proof -
  have "concat cs = concat (take i cs @ cs ! i # drop (Suc i) cs)" using id_take_nth_drop [OF assms] by simp
  then show "concat cs = concat (take i cs) @ cs ! i @ concat (drop (Suc i) cs)" by simp
  show "concat (cs[i := xs]) = concat (take i cs) @ xs @ concat (drop (Suc i) cs)" using assms by (simp add: upd_conv_take_nth_drop)
qed

text \<open>A string that stays after the sweep of its chain or is in another chain.\<close>

lemma swept_kept:
  assumes "swept g (Anchor i) ps g'" and "q \<notin> set ps \<or> alive g q" and "sobjs g q = Some s"
  shows "\<exists>n m. sobjs g' q = Some (s\<lparr>str_nextgc := n, str_marked := m\<rparr>)"
proof (cases "q \<in> set ps")
  case False
  then have "sobjs g' q = Some s" using assms by (simp add: swept_def Let_def)
  then show ?thesis by (intro exI [of _ "str_nextgc s"] exI [of _ "str_marked s"]) simp
next
  case True
  then have "map_option (str_nextgc_update (\<lambda>_. 0)) (sobjs g' q) = Some ((makewhite g s)\<lparr>str_nextgc := 0\<rparr>)"
    using assms by (simp add: swept_def Let_def)
  then obtain s' where s': "sobjs g' q = Some s'" "s'\<lparr>str_nextgc := 0\<rparr> = (makewhite g s)\<lparr>str_nextgc := 0\<rparr>" by auto
  then have "s' = s\<lparr>str_nextgc := str_nextgc s', str_marked := str_marked s'\<rparr>" by (cases s; cases s') (simp add: makewhite_def)
  then show ?thesis using s'(1) by metis
qed

lemma swept_object:
  "swept g (Anchor i) ps g' \<Longrightarrow> q \<in> set ps \<Longrightarrow>
     map_option (str_nextgc_update (\<lambda>_. 0)) (sobjs g' q) = (if alive g q then map_option (\<lambda>s. (makewhite g s)\<lparr>str_nextgc := 0\<rparr>) (sobjs g q) else None)"
  unfolding swept_def Let_def by (elim conjE) (rule bspec)

lemma swept_gone: "swept g (Anchor i) ps g' \<Longrightarrow> q \<in> set ps \<Longrightarrow> sobjs g' q \<noteq> None \<longleftrightarrow> alive g q"
  using swept_object [of g i ps g' q] by (cases "sobjs g' q"; cases "sobjs g q") (auto simp: alive_def split: if_splits)

lemma chains_disjoint:
  assumes "distinct (concat cs)" and "i < length cs" "j < length cs" "i \<noteq> j"
  shows "set (cs ! i) \<inter> set (cs ! j) = {}"
proof -
  have d: "set (cs ! a) \<inter> set (cs ! b) = {}" if "a < b" "b < length cs" for a b
  proof -
    have "cs ! a \<in> set (take b cs)" using that by (auto simp: in_set_conv_nth)
    then have "set (cs ! a) \<subseteq> set (concat (take b cs))" by auto
    then show ?thesis using assms(1) concat_around(1) [OF that(2)] by auto
  qed
  show ?thesis using d [of i j] d [of j i] assms by (cases "i < j") auto
qed

lemma str_inv_swept:
  assumes inv: "str_inv g cs" and i: "i < length (strhash g)" and sw: "swept g (Anchor i) (cs ! i) g'"
  shows "str_inv g' (cs[i := filter (alive g) (cs ! i)])"
proof -
  note v = str_invD [OF inv] and w = sw [unfolded swept_def Let_def sref.case]
  let ?live = "filter (alive g) (cs ! i)" let ?cs = "cs[i := ?live]"
  have l: "length cs = length (strhash g)" using v str_chains_length by blast
  have il: "i < length cs" using i l by simp
  let ?A = "concat (take i cs)" let ?B = "concat (drop (Suc i) cs)"
  have c: "concat cs = ?A @ cs ! i @ ?B" and c': "concat ?cs = ?A @ ?live @ ?B" using concat_around [OF il] by simp_all
  have dist: "distinct (?A @ cs ! i @ ?B)" using v str_chains_distinct c by metis
  have sub: "set (concat ?cs) \<subseteq> set (concat cs)" unfolding c c' by auto
  have out: "q \<notin> set (cs ! i) \<or> alive g q" if "q \<in> set (concat ?cs)" for q
    using that dist unfolding c' by auto
  have obj: "\<exists>s n m. sobjs g q = Some s \<and> str_wf s \<and> sobjs g' q = Some (s\<lparr>str_nextgc := n, str_marked := m\<rparr>)" if q: "q \<in> set (concat ?cs)" for q
  proof -
    obtain s where "sobjs g q = Some s" "str_wf s" using strings_okD [of "sobjs g" "set (concat cs)" q] v sub q by blast
    then show ?thesis using swept_kept [OF sw out [OF q]] by blast
  qed
  have b: "obj_bytes (sobjs g') q = obj_bytes (sobjs g) q" if "q \<in> set (concat ?cs)" for q
    using obj [OF that] by (auto simp: obj_bytes_def)
  have "strings_ok (sobjs g') (set (concat ?cs))"
  proof -
    have "inj_on (obj_bytes (sobjs g)) (set (concat ?cs))" using v sub unfolding strings_ok_def by (meson inj_on_subset)
    then have "inj_on (obj_bytes (sobjs g')) (set (concat ?cs))" using b by (simp add: inj_on_def del: set_concat)
    moreover have "\<exists>s. sobjs g' q = Some s \<and> str_wf s" if "q \<in> set (concat ?cs)" for q using obj [OF that] by auto
    ultimately show ?thesis by (simp add: strings_ok_def del: set_concat)
  qed
  moreover have "str_chains (sobjs g') (strhash g') ?cs"
  proof -
    have "distinct (concat ?cs)" using dist unfolding c' by auto
    moreover have "str_chain (sobjs g') (strhash g' ! j) (?cs ! j)" if j: "j < length (strhash g)" for j
    proof (cases "j = i")
      case True
      then show ?thesis using w i il by simp
    next
      case False
      have ch: "str_chain (sobjs g) (strhash g ! j) (cs ! j)" using v str_chains_nth j by blast
      have "set (cs ! j) \<inter> set (cs ! i) = {}" using v False j i l by (intro chains_disjoint) (simp_all add: str_chains_def)
      then have "map_option str_nextgc (sobjs g' q) = map_option str_nextgc (sobjs g q)" if "q \<in> set (cs ! j)" for q
        using w that by auto
      then show ?thesis using ch str_chain_cong [of "cs ! j" "sobjs g'" "sobjs g" "strhash g ! j"] w False by simp
    qed
    ultimately show ?thesis using w l by (simp add: str_chains_def list_all2_conv_all_nth)
  qed
  moreover have "placed (sobjs g') (strmask g') ?cs"
    unfolding placed_def
  proof (intro allI impI ballI)
    fix j q s' assume j: "j < length ?cs" and q: "q \<in> set (?cs ! j)" and s': "sobjs g' q = Some s'"
    have "q \<in> set (concat ?cs)" using q set_nth_concat [OF j] by blast
    then obtain s n m where s: "sobjs g q = Some s" "sobjs g' q = Some (s\<lparr>str_nextgc := n, str_marked := m\<rparr>)" using obj by blast
    have "q \<in> set (cs ! j)" using q il by (cases "j = i") auto
    then have "unat (str_hash s AND strmask g) = j" using v s(1) j unfolding placed_def by auto
    then show "unat (str_hash s' AND strmask g') = j" using s(2) s' w by simp
  qed
  moreover have "strnum g' = of_nat (length (concat ?cs))"
  proof -
    have "strnum g' + of_nat (length (cs ! i)) = of_nat (length (concat cs)) + of_nat (length ?live)" using v w by simp
    then show ?thesis unfolding c c' by (simp add: algebra_simps del: length_concat)
  qed
  moreover have e: "strempty g \<notin> set (cs ! i)"
    using v str_inv_nonempty [OF inv] set_nth_concat [OF il] by blast
  moreover have "sobjs g' p \<noteq> None \<longleftrightarrow> p = strempty g \<or> p \<in> set (concat ?cs)" for p
  proof (cases "p \<in> set (cs ! i)")
    case True
    have "sobjs g' p \<noteq> None \<longleftrightarrow> alive g p" by (rule swept_gone [OF sw True])
    moreover have "p \<in> set (concat ?cs) \<longleftrightarrow> alive g p" using True dist unfolding c' by auto
    ultimately show ?thesis using e True by blast
  next
    case False
    have "sobjs g p \<noteq> None \<longleftrightarrow> p = strempty g \<or> p \<in> set (concat cs)" using v by blast
    moreover have "p \<in> set (concat ?cs) \<longleftrightarrow> p \<in> set (concat cs)" using False unfolding c c' by auto
    ultimately show ?thesis using w False by simp
  qed
  moreover have "\<forall>p\<in>set (concat ?cs). 8 dvd unat p" using v sub by blast
  ultimately show ?thesis using v w by (simp add: str_inv_def obj_bytes_def del: set_concat length_concat)
qed

text \<open>One step of the collector sweeps the chain it has reached.\<close>

lemma gc_onestep_ok:
  assumes inv: "str_inv g cs" and i: "gc_sweepstr g \<le> strmask g" and n: "length (cs ! unat (gc_sweepstr g)) \<le> LJ_MAX_MEM"
  defines "k \<equiv> unat (gc_sweepstr g)"
  shows "\<exists>g'. gc_onestep_sweepstring g = (Inr (), g') \<and> str_inv g' (cs[k := filter (alive g) (cs ! k)]) \<and>
           gc_sweepstr g' = gc_sweepstr g + 1 \<and> strmask g' = strmask g \<and> gc_currentwhite g' = gc_currentwhite g \<and> strempty g' = strempty g \<and>
           gc_state g' = (if gc_sweepstr g + 1 > strmask g then GCSsweep else gc_state g) \<and>
           (\<forall>q. q \<notin> set (cs ! k) \<longrightarrow> sobjs g' q = sobjs g q) \<and> (\<forall>q\<in>set (cs ! k). \<not> alive g q \<longrightarrow> sobjs g' q = None) \<and>
           (\<forall>q\<in>set (cs ! k). \<forall>s. alive g q \<and> sobjs g q = Some s \<longrightarrow> (\<exists>n. sobjs g' q = Some ((makewhite g s)\<lparr>str_nextgc := n\<rparr>)))"
proof -
  note v = str_invD [OF inv]
  let ?g = "g\<lparr>gc_sweepstr := gc_sweepstr g + 1\<rparr>"
  have k: "k < length (strhash g)" using i v by (simp add: k_def word_le_nat_alt)
  have l: "length cs = length (strhash g)" using v str_chains_length by blast
  have inv1: "str_inv ?g cs" using inv by (simp add: str_inv_def)
  have al: "alive ?g = alive g" using alive_cong [of ?g g] by (auto simp: fun_eq_iff)
  have mw: "makewhite ?g = makewhite g" by (rule makewhite_cong) simp
  have sub: "set (cs ! k) \<subseteq> set (concat cs)" using k l by (simp only: set_nth_concat)
  have "str_gct s = GCT_STR" if "q \<in> set (cs ! k)" "sobjs ?g q = Some s" for q s
    using strings_okD [of "sobjs g" "set (concat cs)" q] v sub that by (auto simp: str_wf_def simp del: set_concat)
  moreover have "str_chain (sobjs ?g) (strhash g ! k) (cs ! k)" using v str_chains_nth k by simp
  moreover have "distinct (cs ! k)" using v k l concat_around(1) [of k cs] by (metis distinct_append str_chains_distinct)
  ultimately obtain p g' where r: "gc_sweep ?g (Anchor k) LJ_MAX_MEM = (Inr p, g')" "swept ?g (Anchor k) (cs ! k) g'"
    using gc_sweep_ok [of ?g "Anchor k" "strhash g ! k" "cs ! k" LJ_MAX_MEM] k n by (auto simp: k_def)
  note w = r(2) [unfolded swept_def Let_def sref.case]
  have inv2: "str_inv g' (cs[k := filter (alive g) (cs ! k)])" using str_inv_swept [OF inv1 _ r(2)] k al by simp
  let ?st = "if gc_sweepstr g + 1 > strmask g then GCSsweep else gc_state g"
  let ?h = "g'\<lparr>gc_state := ?st, gc_estimate := gc_estimate g' - (gc_total g - gc_total g')\<rparr>"
  have "gc_onestep_sweepstring g = (Inr (), ?h)"
    using r(1) w by (auto simp: gc_onestep_sweepstring_def k_def Let_def)
  moreover have "str_inv ?h (cs[k := filter (alive g) (cs ! k)])" using inv2 by (simp add: str_inv_def)
  moreover have e: "map_option (str_nextgc_update (\<lambda>_. 0)) (sobjs g' q) = (if alive g q then map_option (\<lambda>s. (makewhite g s)\<lparr>str_nextgc := 0\<rparr>) (sobjs g q) else None)"
    if "q \<in> set (cs ! k)" for q using w that al mw by simp
  moreover have "sobjs g' q = None" if "q \<in> set (cs ! k)" "\<not> alive g q" for q using e [OF that(1)] that(2) by simp
  moreover have "\<exists>n. sobjs g' q = Some ((makewhite g s)\<lparr>str_nextgc := n\<rparr>)" if "q \<in> set (cs ! k)" "alive g q" "sobjs g q = Some s" for q s
  proof -
    have "map_option (str_nextgc_update (\<lambda>_. 0)) (sobjs g' q) = Some ((makewhite g s)\<lparr>str_nextgc := 0\<rparr>)" using e [OF that(1)] that by simp
    then obtain s' where s': "sobjs g' q = Some s'" "s'\<lparr>str_nextgc := 0\<rparr> = (makewhite g s)\<lparr>str_nextgc := 0\<rparr>" by auto
    then have "s' = (makewhite g s)\<lparr>str_nextgc := str_nextgc s'\<rparr>" by (cases s; cases s') (simp add: makewhite_def)
    then show ?thesis using s'(1) by metis
  qed
  ultimately show ?thesis using w by (intro exI [of _ ?h]) simp
qed

end
