(* ===== verification/Lj_Strings.thy ===== *)
theory Lj_Strings
  imports Lj_Sweep
begin

text \<open>
  The properties of the string table over all its histories: the states it reaches from the state
  \<^verbatim>\<open>lua_newstate\<close> sets up by interning strings, by the steps of the garbage collector that
  sweep and shrink the table, and by whatever the collector does to the colours of strings in its other phases.
\<close>

unbundle bit_operations_syntax

section \<open>Histories of the table\<close>

text \<open>The state \<^verbatim>\<open>lua_newstate\<close> makes: no table yet, and the empty string at an address of the state.\<close>

definition strempty0 :: "(nat \<Rightarrow> uint8) \<Rightarrow> gcstr" where
  "strempty0 d = \<lparr>str_nextgc = 0, str_marked = LJ_GC_WHITE0, str_gct = GCT_STR, str_reserved = 0, str_hash = 0, str_len = 0, strdata = d\<rparr>"

definition newstate :: "uint32 \<Rightarrow> (nat \<Rightarrow> uint8) \<Rightarrow> uint32 \<Rightarrow> uint32 \<Rightarrow> gstate" where
  "newstate e d n root =
     \<lparr>strhash = [], strmask = NOT 0, strnum = 0, strempty = e, sobjs = [e \<mapsto> strempty0 d], tmpbuf = \<lparr>sb_buf = [], sb_n = 0\<rparr>,
      gc_total = n, gc_currentwhite = LJ_GC_WHITE0 OR LJ_GC_FIXED, gc_state = GCSpause, gc_sweepstr = 0, gc_root = root, gc_estimate = 0\<rparr>"

text \<open>A string in memory as the argument of \<^verbatim>\<open>lj_str_new\<close>: the memory, the address and the bytes there.\<close>

type_synonym str_arg = "memory \<times> uint64 \<times> uint8 list"

definition arg_ok :: "str_arg \<Rightarrow> bool" where
  "arg_ok x \<longleftrightarrow> (case x of (mem, str, bs) \<Rightarrow> paged mem \<and> mem_at mem str ((!) bs) (length bs) \<and> length bs < LJ_MAX_STR)"

definition arg_bytes :: "str_arg \<Rightarrow> uint8 list" where
  "arg_bytes x = snd (snd x)"

definition str_intern :: "allocator \<Rightarrow> str_arg \<Rightarrow> gstate \<Rightarrow> ((str_err + uint32) \<times> gstate) option" where
  "str_intern allocf x g = (case x of (mem, str, bs) \<Rightarrow> lj_str_new allocf mem str (of_nat (length bs)) g)"

text \<open>
  The histories. In the phases other than the sweep of the strings the collector changes their colours and its own
  state; exactly one white is current, and when it starts to sweep them it starts with the first chain.
\<close>

inductive str_reach :: "allocator \<Rightarrow> gstate \<Rightarrow> bool" for allocf where
  init: "lj_str_resize allocf (LJ_MIN_STRTAB - 1) (newstate e d n root) = Some (Inr (), g) \<Longrightarrow> str_reach allocf g"
| intern: "str_reach allocf g \<Longrightarrow> arg_ok x \<Longrightarrow> str_intern allocf x g = Some (r, g') \<Longrightarrow> str_reach allocf g'"
| sweep: "str_reach allocf g \<Longrightarrow> gc_state g = GCSsweepstring \<Longrightarrow> gc_onestep_sweepstring g = (r, g') \<Longrightarrow> str_reach allocf g'"
| shrink: "str_reach allocf g \<Longrightarrow> gc_state g = GCSsweep \<Longrightarrow> gc_shrink allocf g = Some (r, g') \<Longrightarrow> str_reach allocf g'"
| colour: "str_reach allocf g \<Longrightarrow> gc_state g \<noteq> GCSsweepstring \<Longrightarrow> recoloured (sobjs g) ob \<Longrightarrow> (st = GCSsweepstring \<longrightarrow> i = 0) \<Longrightarrow>
    w AND LJ_GC_WHITES \<in> {1, 2} \<Longrightarrow>
    str_reach allocf (g\<lparr>sobjs := ob, gc_currentwhite := w, gc_state := st, gc_sweepstr := i\<rparr>)"

section \<open>The invariant along histories\<close>

lemma aligned_card: "card {p :: uint32. 8 dvd unat p} \<le> 2 ^ 29"
proof -
  have "{p :: uint32. 8 dvd unat p} \<subseteq> (\<lambda>k. of_nat (8 * k)) ` {..<2 ^ 29}"
  proof
    fix p :: uint32 assume "p \<in> {p. 8 dvd unat p}"
    then obtain k where k: "unat p = 8 * k" by auto
    have "unat p < 2 ^ 32" using unsigned_less [of p] by simp
    then have "k < 2 ^ 29" using k by simp
    moreover have "p = of_nat (8 * k)" by (simp flip: k)
    ultimately show "p \<in> (\<lambda>k. of_nat (8 * k)) ` {..<2 ^ 29}" by blast
  qed
  then have "card {p :: uint32. 8 dvd unat p} \<le> card {..<(2 :: nat) ^ 29}" by (rule surj_card_le [OF finite_lessThan])
  then show ?thesis by (simp only: card_lessThan)
qed

lemma str_inv_count:
  assumes "str_inv g cs"
  shows "length (concat cs) < LJ_MAX_MEM"
proof -
  have d: "distinct (concat cs)" and a: "set (concat cs) \<subseteq> {p. 8 dvd unat p}" using str_invD [OF assms] str_chains_distinct by blast+
  have "length (concat cs) = card (set (concat cs))" using distinct_card [OF d] by simp
  also have "\<dots> \<le> card {p :: uint32. 8 dvd unat p}" using a by (rule card_mono [rotated]) simp
  also have "\<dots> \<le> 2 ^ 29" by (rule aligned_card)
  finally show ?thesis by simp
qed

lemma str_inv_chain_length: "str_inv g cs \<Longrightarrow> k < length cs \<Longrightarrow> length (cs ! k) \<le> LJ_MAX_MEM"
  using str_inv_count [of g cs] concat_around(1) [of k cs] by (simp del: length_concat)

lemma str_inv_newstate:
  assumes "lj_str_resize allocf (LJ_MIN_STRTAB - 1) (newstate e d n root) = Some (Inr (), g)"
  shows "str_inv g (replicate 256 [])" and "gc_state g = GCSpause" and "one_white g"
proof -
  obtain p where "allocf (newstate e d n root) 1024 = Some p"
    using assms by (auto simp: lj_str_resize_def lj_mem_new_def newstate_def split: option.splits)
  then have g: "g = (newstate e d n root)\<lparr>gc_total := n + 1024, strmask := 255, strhash := replicate 256 0\<rparr>"
    using assms by (simp add: lj_str_resize_def lj_mem_new_def newstate_def)
  have e: "concat (replicate 256 []) = ([] :: uint32 list)" by simp
  have "list_all2 (str_chain ob) (replicate 256 0) (replicate 256 [])" for ob by (rule list_all2_all_nthI) simp_all
  then have "str_chains ob (replicate 256 0) (replicate 256 [])" for ob by (simp add: str_chains_def)
  moreover have "placed ob m (replicate 256 [])" for ob m by (simp add: placed_def)
  ultimately show "str_inv g (replicate 256 [])"
    by (simp add: str_inv_def g newstate_def strings_ok_def obj_bytes_def strempty0_def str_bytes_def seg_def)
  show "gc_state g = GCSpause" "one_white g" by (simp_all add: g newstate_def one_white_def curwhite_def)
qed

lemma str_inv_interned: "str_inv g cs \<Longrightarrow> \<exists>M. interned g M"
proof -
  assume inv: "str_inv g cs"
  let ?P = "set (concat cs)" let ?f = "obj_bytes (sobjs g)"
  define M where "M = (\<lambda>bs. if bs = [] then Some (strempty g) else if bs \<in> ?f ` ?P then Some (the_inv_into ?P ?f bs) else None)"
  have inj: "inj_on ?f ?P" using str_invD [OF inv] by (simp add: strings_ok_def)
  have "M bs = Some p \<longleftrightarrow> p \<in> ?P \<and> ?f p = bs \<or> bs = [] \<and> p = strempty g" for bs p
    using str_inv_nonempty [OF inv] the_inv_into_f_f [OF inj] by (auto simp: M_def simp del: set_concat dest: inj_onD [OF inj])
  then show ?thesis using inv unfolding interned_def by blast
qed

lemma interned_str_inv: "interned g M \<Longrightarrow> \<exists>cs. str_inv g cs"
  by (auto simp: interned_def)

text \<open>A call of \<^verbatim>\<open>lj_str_new\<close> on an argument in memory.\<close>

lemma str_intern_ok:
  assumes "interned g M" and "alloc_fresh allocf" and "arg_ok x"
  shows "\<exists>r g'. str_intern allocf x g = Some (r, g') \<and> same_gc g g' \<and> new_result g M (arg_bytes x) r g' \<and> stays g g' \<and>
           (\<forall>p. r = Inr p \<and> one_white g \<and> arg_bytes x \<noteq> [] \<longrightarrow> (\<exists>s. sobjs g' p = Some s \<and> \<not> isdead g' s))"
proof -
  obtain mem str bs where x: "x = (mem, str, bs)" by (cases x)
  have n: "unat (of_nat (length bs) :: uint64) = length bs" using assms(3) x by (simp add: arg_ok_def unat_of_nat_small)
  have b: "seg ((!) bs) 0 (length bs) = bs" by (simp add: seg_def map_nth)
  show ?thesis using lj_str_new_ok [OF assms(1,2), of mem str "(!) bs" "of_nat (length bs)"] assms(3) n b x
    by (simp add: arg_ok_def str_intern_def arg_bytes_def)
qed

lemma new_result_map:
  assumes "new_result g M bs r g'" "interned g M"
  shows "\<exists>M'. interned g' M' \<and> M \<subseteq>\<^sub>m M' \<and> (r = Inl LJ_ERR_ERRMEM \<or> (\<exists>p. r = Inr p \<and> M' bs = Some p))"
proof (cases "M bs")
  case (Some p)
  then show ?thesis using assms by (auto simp: new_result_def)
next
  case None
  then consider "r = Inl LJ_ERR_ERRMEM" "interned g' M" | p where "r \<in> {Inr p, Inl LJ_ERR_ERRMEM}" "interned g' (M(bs \<mapsto> p))"
    using assms(1) by (auto simp: new_result_def)
  then show ?thesis
  proof cases
    case (2 p)
    have "M \<subseteq>\<^sub>m M(bs \<mapsto> p)" using None by (auto simp: map_le_def)
    then show ?thesis using 2 by (intro exI [of _ "M(bs \<mapsto> p)"]) auto
  qed auto
qed

definition reach_inv :: "gstate \<Rightarrow> bool" where
  "reach_inv g \<longleftrightarrow> (\<exists>cs. str_inv g cs) \<and> one_white g \<and> (gc_state g = GCSsweepstring \<longrightarrow> gc_sweepstr g \<le> strmask g)"

lemma str_inv_tmpbuf [simp]: "str_inv (g\<lparr>gc_total := t, tmpbuf := b\<rparr>) cs = str_inv g cs"
  by (simp add: str_inv_def)

lemma gc_shrink_ok:
  assumes "str_inv g cs"
  shows "\<exists>r g' cs'. gc_shrink allocf g = Some (r, g') \<and> r \<in> {Inr (), Inl LJ_ERR_ERRMEM} \<and> str_inv g' cs' \<and>
           mset (concat cs') = mset (concat cs) \<and> same_strings (sobjs g) (sobjs g') \<and> gc_state g' = gc_state g \<and> gc_currentwhite g' = gc_currentwhite g"
proof -
  let ?buf = "\<lambda>g. if sb_sz (tmpbuf g) > LJ_MIN_SBUF * 2 then lj_str_resizebuf allocf (drop_bit 1 (sb_sz (tmpbuf g))) g else (Inr (), g)"
  have b: "\<exists>r h'. ?buf h = (r, h') \<and> r \<in> {Inr (), Inl LJ_ERR_ERRMEM} \<and> str_inv h' ds \<and> sobjs h' = sobjs h \<and> gc_state h' = gc_state h \<and> gc_currentwhite h' = gc_currentwhite h" if "str_inv h ds" for h ds
    using that by (auto simp: lj_str_resizebuf_def split: option.splits)
  show ?thesis
  proof (cases "strnum g \<le> drop_bit 2 (strmask g) \<and> strmask g > LJ_MIN_STRTAB * 2 - 1")
    case True
    obtain r g' cs' where r: "lj_str_resize allocf (drop_bit 1 (strmask g)) g = Some (r, g')" "r \<in> {Inr (), Inl LJ_ERR_ERRMEM}"
        "str_inv g' cs'" "mset (concat cs') = mset (concat cs)" "same_strings (sobjs g) (sobjs g')" "same_gc g g'"
      using lj_str_resize_ok [OF assms] by blast
    have "gc_state g' = gc_state g" "gc_currentwhite g' = gc_currentwhite g" using r(6) by (simp_all add: same_gc_def)
    then show ?thesis using r(1-5) True b [OF r(3)] unfolding gc_shrink_def Let_def by (cases r) fastforce+
  next
    case False
    then have "gc_shrink allocf g = Some (?buf g)" unfolding gc_shrink_def Let_def by (simp only: if_False)
    then show ?thesis using b [OF assms] by fastforce
  qed
qed

lemma reach_inv_interned: "reach_inv g \<Longrightarrow> \<exists>M. interned g M"
  unfolding reach_inv_def using str_inv_interned by blast

lemma one_white_cong: "gc_currentwhite g' = gc_currentwhite g \<Longrightarrow> one_white g' = one_white g"
  by (simp add: one_white_def curwhite_def)

lemma str_reach_inv: "str_reach allocf g \<Longrightarrow> alloc_fresh allocf \<Longrightarrow> reach_inv g"
proof (induction rule: str_reach.induct)
  case (init e d n root g)
  then show ?case using str_inv_newstate [OF init.hyps] by (auto simp: reach_inv_def)
next
  case (intern g x r g')
  then have iv: "reach_inv g" by simp
  then obtain M where M: "interned g M" using reach_inv_interned by blast
  obtain r2 g2 where r: "str_intern allocf x g = Some (r2, g2)" "same_gc g g2" "new_result g M (arg_bytes x) r2 g2"
    using str_intern_ok [OF M intern.prems intern.hyps(2)] by blast
  then have "g' = g2" using intern.hyps(3) by simp
  moreover have "\<exists>cs. str_inv g2 cs" using new_result_map [OF r(3) M] interned_str_inv by blast
  moreover have "gc_state g2 = GCSsweepstring \<longrightarrow> gc_sweepstr g2 \<le> strmask g2" "one_white g2"
    using r(2) iv one_white_cong [of g2 g] by (simp_all add: same_gc_def reach_inv_def)
  ultimately show ?case by (simp add: reach_inv_def)
next
  case (sweep g r g')
  then obtain cs where inv: "str_inv g cs" and le: "gc_sweepstr g \<le> strmask g" by (auto simp: reach_inv_def)
  have "length cs = unat (strmask g) + 1" using str_invD [OF inv] str_chains_length by metis
  then have n: "length (cs ! unat (gc_sweepstr g)) \<le> LJ_MAX_MEM" using str_inv_chain_length [OF inv] le by (simp add: word_le_nat_alt)
  have ow: "one_white g" using sweep by (simp add: reach_inv_def)
  obtain h where h: "gc_onestep_sweepstring g = (Inr (), h)" "str_inv h (cs[unat (gc_sweepstr g) := filter (alive g) (cs ! unat (gc_sweepstr g))])"
      "gc_sweepstr h = gc_sweepstr g + 1" "strmask h = strmask g" "gc_currentwhite h = gc_currentwhite g"
      "gc_state h = (if gc_sweepstr g + 1 > strmask g then GCSsweep else gc_state g)"
    using gc_onestep_ok [OF inv le n] by blast
  then show ?case using sweep.hyps(3) ow one_white_cong [of h g] by (auto simp: reach_inv_def)
next
  case (shrink g r g')
  then obtain cs where inv: "str_inv g cs" and "one_white g" by (auto simp: reach_inv_def)
  then show ?case using gc_shrink_ok [OF inv, of allocf] shrink.hyps(2,3) one_white_cong [of g' g] by (auto simp: reach_inv_def)
next
  case (colour g ob st i w)
  then obtain cs where "str_inv g cs" by (auto simp: reach_inv_def)
  from str_inv_recoloured [OF this colour.hyps(3)] have "str_inv (g\<lparr>sobjs := ob, gc_currentwhite := w, gc_state := st, gc_sweepstr := i\<rparr>) cs"
    by (simp add: str_inv_def)
  then show ?case using colour.hyps(4,5) by (auto simp: reach_inv_def one_white_def curwhite_def)
qed

lemma str_reach_interned: "str_reach allocf g \<Longrightarrow> alloc_fresh allocf \<Longrightarrow> \<exists>M. interned g M"
  using str_reach_inv reach_inv_interned by blast

section \<open>Interning as an interface\<close>

text \<open>
  What the rest of the runtime relies on: keys get references, a key keeps its reference, and a reference
  stands for one key only. Then references can be compared in place of keys.
\<close>

fun intern_all :: "('x \<Rightarrow> 's \<Rightarrow> (('e + 'r) \<times> 's) option) \<Rightarrow> 'x list \<Rightarrow> 's \<Rightarrow> (('e + 'r) list \<times> 's) option" where
  "intern_all f [] s = Some ([], s)"
| "intern_all f (x # xs) s =
     (case f x s of
        None \<Rightarrow> None
      | Some (r, s) \<Rightarrow> (case intern_all f xs s of None \<Rightarrow> None | Some (rs, s) \<Rightarrow> Some (r # rs, s)))"

locale interner =
  fixes intern :: "'x \<Rightarrow> 's \<Rightarrow> (('e + 'r) \<times> 's) option"
    and key :: "'x \<Rightarrow> 'k"
    and valid :: "'x \<Rightarrow> bool"
    and rep :: "'s \<Rightarrow> ('k \<Rightarrow> 'r option) \<Rightarrow> bool"
    and oom :: "'e"
  assumes intern_rep: "rep s M \<Longrightarrow> valid x \<Longrightarrow>
      \<exists>r s' M'. intern x s = Some (r, s') \<and> rep s' M' \<and> M \<subseteq>\<^sub>m M' \<and> (r = Inl oom \<or> (\<exists>p. r = Inr p \<and> M' (key x) = Some p))"
    and rep_inject: "rep s M \<Longrightarrow> M k = Some p \<Longrightarrow> M k' = Some p \<Longrightarrow> k = k'"
begin

lemma intern_all_rep:
  assumes "rep s M" and "list_all valid xs"
  shows "\<exists>rs s' M'. intern_all intern xs s = Some (rs, s') \<and> rep s' M' \<and> M \<subseteq>\<^sub>m M' \<and>
           list_all2 (\<lambda>x r. r = Inl oom \<or> (\<exists>p. r = Inr p \<and> M' (key x) = Some p)) xs rs"
  using assms
proof (induction xs arbitrary: s M)
  case Nil
  then show ?case by auto
next
  case (Cons x xs)
  then obtain r s1 M1 where 1: "intern x s = Some (r, s1)" "rep s1 M1" "M \<subseteq>\<^sub>m M1" "r = Inl oom \<or> (\<exists>p. r = Inr p \<and> M1 (key x) = Some p)"
    using intern_rep [of s M x] by auto
  obtain rs s2 M2 where 2: "intern_all intern xs s1 = Some (rs, s2)" "rep s2 M2" "M1 \<subseteq>\<^sub>m M2"
      "list_all2 (\<lambda>x r. r = Inl oom \<or> (\<exists>p. r = Inr p \<and> M2 (key x) = Some p)) xs rs"
    using Cons.IH [OF 1(2)] Cons.prems(2) by auto
  have "r = Inl oom \<or> (\<exists>p. r = Inr p \<and> M2 (key x) = Some p)" using 1(4) 2(3) by (metis domI map_le_def)
  then show ?case using 1 2 map_le_trans [OF 1(3) 2(3)] by auto
qed

lemma references_identify:
  assumes "rep s M" and "list_all valid xs"
  shows "\<exists>rs s' M'. intern_all intern xs s = Some (rs, s') \<and> rep s' M' \<and> length rs = length xs \<and>
           (\<forall>i<length xs. rs ! i = Inl oom \<or> (\<exists>p. rs ! i = Inr p \<and> M' (key (xs ! i)) = Some p)) \<and>
           (\<forall>i<length xs. \<forall>j<length xs. \<forall>p q. rs ! i = Inr p \<and> rs ! j = Inr q \<longrightarrow> (p = q \<longleftrightarrow> key (xs ! i) = key (xs ! j)))"
proof -
  obtain rs s' M' where r: "intern_all intern xs s = Some (rs, s')" "rep s' M'"
      "list_all2 (\<lambda>x r. r = Inl oom \<or> (\<exists>p. r = Inr p \<and> M' (key x) = Some p)) xs rs"
    using intern_all_rep [OF assms] by blast
  then have n: "rs ! i = Inl oom \<or> (\<exists>p. rs ! i = Inr p \<and> M' (key (xs ! i)) = Some p)" if "i < length xs" for i
    using that by (auto simp: list_all2_conv_all_nth)
  have "p = q \<longleftrightarrow> key (xs ! i) = key (xs ! j)" if "i < length xs" "j < length xs" "rs ! i = Inr p" "rs ! j = Inr q" for i j p q
    using n [OF that(1)] n [OF that(2)] that rep_inject [OF r(2)] by auto
  then show ?thesis using r(1,2) n list_all2_lengthD [OF r(3)] by (intro exI [of _ rs] exI [of _ s'] exI [of _ M']) auto
qed

end

interpretation str: interner "str_intern allocf" arg_bytes arg_ok "\<lambda>g M. alloc_fresh allocf \<and> interned g M" LJ_ERR_ERRMEM
proof unfold_locales
  fix g M x assume a: "alloc_fresh allocf \<and> interned g M" "arg_ok x"
  then obtain r g' where r: "str_intern allocf x g = Some (r, g')" "new_result g M (arg_bytes x) r g'" using str_intern_ok [of g M allocf x] by blast
  then show "\<exists>r g' M'. str_intern allocf x g = Some (r, g') \<and> (alloc_fresh allocf \<and> interned g' M') \<and> M \<subseteq>\<^sub>m M' \<and>
      (r = Inl LJ_ERR_ERRMEM \<or> (\<exists>p. r = Inr p \<and> M' (arg_bytes x) = Some p))"
    using new_result_map [OF r(2)] a(1) by blast
next
  fix g M k p k' assume "alloc_fresh allocf \<and> interned g M" "M k = Some p" "M k' = Some p"
  then show "k = k'" using interned_inject by blast
qed

section \<open>The sweep and the strings in use\<close>

lemma interned_object: "interned g M \<Longrightarrow> sobjs g p \<noteq> None \<Longrightarrow> M (obj_bytes (sobjs g) p) = Some p"
  unfolding interned_def using str_invD by (metis (no_types, lifting))

lemma makewhite_not_dead: "gc_currentwhite g' = gc_currentwhite g \<Longrightarrow> \<not> isdead g' ((makewhite g s)\<lparr>str_nextgc := n\<rparr>)"
proof -
  have c: "LJ_GC_COLORS = mask 3" by (simp add: mask_eq_exp_minus_1)
  have "bit (str_marked (makewhite g s)) k \<longleftrightarrow> bit (gc_currentwhite g) k" if "k < 2" for k
    using that unfolding makewhite_def curwhite_def c whites_mask by (auto simp: bit_simps)
  then show "gc_currentwhite g' = gc_currentwhite g \<Longrightarrow> ?thesis" by (simp add: isdead_bits)
qed

text \<open>A string that is there and not dead.\<close>

definition in_use :: "gstate \<Rightarrow> uint32 \<Rightarrow> uint8 list \<Rightarrow> bool" where
  "in_use g p bs \<longleftrightarrow> (case sobjs g p of None \<Rightarrow> False | Some s \<Rightarrow> str_bytes s = bs \<and> \<not> isdead g s)"

text \<open>Strings are interned while the chains are swept one by one.\<close>

inductive str_step :: "allocator \<Rightarrow> gstate \<Rightarrow> gstate \<Rightarrow> bool" for allocf where
  intern: "arg_ok x \<Longrightarrow> str_intern allocf x g = Some (r, g') \<Longrightarrow> str_step allocf g g'"
| sweep: "gc_state g = GCSsweepstring \<Longrightarrow> gc_onestep_sweepstring g = (r, g') \<Longrightarrow> str_step allocf g g'"

lemma str_step_reach: "str_step allocf g g' \<Longrightarrow> str_reach allocf g \<Longrightarrow> str_reach allocf g'"
  by (induction rule: str_step.induct) (auto intro: str_reach.intros)

lemma str_reach_sweepable:
  assumes "str_reach allocf g" "alloc_fresh allocf" "gc_state g = GCSsweepstring"
  obtains cs where "str_inv g cs" "gc_sweepstr g \<le> strmask g" "unat (gc_sweepstr g) < length cs"
    "length (cs ! unat (gc_sweepstr g)) \<le> LJ_MAX_MEM"
proof -
  obtain cs where inv: "str_inv g cs" and le: "gc_sweepstr g \<le> strmask g" using str_reach_inv [OF assms(1,2)] assms(3) by (auto simp: reach_inv_def)
  have "unat (gc_sweepstr g) < length cs" using str_invD [OF inv] str_chains_length [of "sobjs g" "strhash g" cs] le by (simp add: word_le_nat_alt)
  then show thesis using that inv le str_inv_chain_length [OF inv] by blast
qed

lemma in_use_step:
  assumes "str_step allocf g g'" and "str_reach allocf g" and alloc: "alloc_fresh allocf" and "in_use g p bs"
  shows "in_use g' p bs"
  using assms(1)
proof cases
  case (intern x r)
  obtain M where M: "interned g M" using str_reach_interned [OF assms(2) alloc] by blast
  obtain s where s: "sobjs g p = Some s" "str_bytes s = bs" "\<not> isdead g s" using assms(4) by (auto simp: in_use_def split: option.splits)
  then have Mp: "M bs = Some p" using interned_object [OF M, of p] by (simp add: obj_bytes_def)
  obtain r2 g2 where r: "str_intern allocf x g = Some (r2, g2)" "new_result g M (arg_bytes x) r2 g2" "stays g g2"
    using str_intern_ok [OF M alloc intern(1)] by blast
  then have g2: "g' = g2" using intern(2) by simp
  obtain M' where M': "interned g2 M'" "M \<subseteq>\<^sub>m M'" using new_result_map [OF r(2) M] by blast
  have "M' bs = Some p" using M'(2) Mp by (metis domI map_le_def)
  then have "obj_bytes (sobjs g2) p = bs" using interned_bytes(2) [OF M'(1)] by simp
  moreover obtain s' where "sobjs g2 p = Some s'" "\<not> isdead g2 s'" using r(3) s unfolding stays_def by blast
  ultimately show ?thesis using g2 by (simp add: in_use_def obj_bytes_def)
next
  case (sweep r)
  obtain cs where cs: "str_inv g cs" "gc_sweepstr g \<le> strmask g" "length (cs ! unat (gc_sweepstr g)) \<le> LJ_MAX_MEM"
    using str_reach_sweepable [OF assms(2) alloc sweep(1)] by blast
  have ow: "one_white g" using str_reach_inv [OF assms(2) alloc] by (simp add: reach_inv_def)
  obtain s where s: "sobjs g p = Some s" "str_bytes s = bs" "\<not> isdead g s" using assms(4) by (auto simp: in_use_def split: option.splits)
  then have al: "alive g p" using not_dead_survives [OF ow s(3)] by (simp add: alive_def)
  from gc_onestep_ok [OF cs] sweep(2) have
    h: "gc_currentwhite g' = gc_currentwhite g" "\<forall>q. q \<notin> set (cs ! unat (gc_sweepstr g)) \<longrightarrow> sobjs g' q = sobjs g q"
      "\<forall>q\<in>set (cs ! unat (gc_sweepstr g)). \<forall>s. alive g q \<and> sobjs g q = Some s \<longrightarrow> (\<exists>n. sobjs g' q = Some ((makewhite g s)\<lparr>str_nextgc := n\<rparr>))"
    by auto
  show ?thesis
  proof (cases "p \<in> set (cs ! unat (gc_sweepstr g))")
    case True
    then obtain n where "sobjs g' p = Some ((makewhite g s)\<lparr>str_nextgc := n\<rparr>)" using h(3) al s(1) by blast
    then show ?thesis using makewhite_not_dead [OF h(1)] s(2) by (simp add: in_use_def makewhite_def)
  next
    case False
    then show ?thesis using h(1,2) s isdead_cong [of g' g s s] by (simp add: in_use_def)
  qed
qed

lemma in_use_steps:
  "(str_step allocf)\<^sup>*\<^sup>* g g' \<Longrightarrow> str_reach allocf g \<Longrightarrow> alloc_fresh allocf \<Longrightarrow> in_use g p bs \<Longrightarrow> str_reach allocf g' \<and> in_use g' p bs"
  by (induction rule: rtranclp_induct) (auto intro: in_use_step str_step_reach)

text \<open>The steps from the first chain to the last.\<close>

fun sweep_strings :: "nat \<Rightarrow> gstate \<Rightarrow> (str_err + unit) \<times> gstate" where
  "sweep_strings 0 g = (Inr (), g)"
| "sweep_strings (Suc n) g = (case gc_onestep_sweepstring g of (Inl e, g) \<Rightarrow> (Inl e, g) | (Inr _, g) \<Rightarrow> sweep_strings n g)"

definition swept_to :: "gstate \<Rightarrow> uint32 \<Rightarrow> gstate \<Rightarrow> bool" where
  "swept_to g q g' \<longleftrightarrow>
     (if alive g q then \<exists>s n. sobjs g q = Some s \<and> sobjs g' q = Some ((makewhite g s)\<lparr>str_nextgc := n\<rparr>) else sobjs g' q = None)"

lemma swept_to_cong:
  "gc_currentwhite h = gc_currentwhite g \<Longrightarrow> sobjs h q = sobjs g q \<Longrightarrow> swept_to h q g' = swept_to g q g'"
  using alive_cong [of h g q] makewhite_cong [of h g] by (simp add: swept_to_def)

lemma sweep_strings_ok:
  assumes "str_inv g cs" and "gc_sweepstr g \<le> strmask g" and "n = unat (strmask g) + 1 - unat (gc_sweepstr g)"
  shows "\<exists>g'. sweep_strings n g = (Inr (), g') \<and> gc_state g' = GCSsweep \<and> (\<exists>cs'. str_inv g' cs') \<and> gc_currentwhite g' = gc_currentwhite g \<and>
           (\<forall>j. unat (gc_sweepstr g) \<le> j \<and> j < length cs \<longrightarrow> (\<forall>q\<in>set (cs ! j). swept_to g q g')) \<and>
           (\<forall>q. (\<forall>j. unat (gc_sweepstr g) \<le> j \<and> j < length cs \<longrightarrow> q \<notin> set (cs ! j)) \<longrightarrow> sobjs g' q = sobjs g q)"
  using assms
proof (induction n arbitrary: g cs)
  case 0
  then show ?case by (simp add: word_le_nat_alt)
next
  case (Suc n)
  note inv = Suc.prems(1) and v = str_invD [OF Suc.prems(1)]
  define k where "k = unat (gc_sweepstr g)"
  have l: "length cs = unat (strmask g) + 1" using v str_chains_length by metis
  have k: "k < length cs" using Suc.prems(2) l by (simp add: k_def word_le_nat_alt)
  have dis: "set (cs ! j) \<inter> set (cs ! k) = {}" if "j < length cs" "j \<noteq> k" for j
    using chains_disjoint [of cs j k] that k v str_chains_distinct by blast
  from gc_onestep_ok [OF inv Suc.prems(2) str_inv_chain_length [OF inv], folded k_def, OF k] obtain h where
    h: "gc_onestep_sweepstring g = (Inr (), h)" "str_inv h (cs[k := filter (alive g) (cs ! k)])"
      "gc_sweepstr h = gc_sweepstr g + 1" "strmask h = strmask g" "gc_currentwhite h = gc_currentwhite g"
      "gc_state h = (if gc_sweepstr g + 1 > strmask g then GCSsweep else gc_state g)"
    and out: "\<forall>q. q \<notin> set (cs ! k) \<longrightarrow> sobjs h q = sobjs g q"
    and sw: "\<forall>q\<in>set (cs ! k). \<not> alive g q \<longrightarrow> sobjs h q = None"
      "\<forall>q\<in>set (cs ! k). \<forall>s. alive g q \<and> sobjs g q = Some s \<longrightarrow> (\<exists>n. sobjs h q = Some ((makewhite g s)\<lparr>str_nextgc := n\<rparr>))" by blast
  have swk: "swept_to g q h" if "q \<in> set (cs ! k)" for q
    using sw that by (auto simp: swept_to_def alive_def split: option.splits)
  have m: "unat (strmask g) < 2 ^ 26" using v by (simp add: word_less_nat_alt)
  have k1: "unat (gc_sweepstr g + 1) = k + 1" using k l m by (simp add: k_def unat_word_ariths)
  show ?case
  proof (cases "n = 0")
    case True
    then have last: "k + 1 = length cs" using Suc.prems(3) l k by (simp add: k_def)
    then have "gc_sweepstr g + 1 > strmask g" using k1 l by (simp add: word_less_nat_alt)
    moreover have "j = k" if "k \<le> j" "j < length cs" for j using that last by simp
    ultimately show ?thesis using True h(1,2,5,6) swk out k by (auto simp flip: k_def)
  next
    case False
    then have le: "gc_sweepstr h \<le> strmask h" using Suc.prems(3) k1 h(3,4) by (simp add: word_le_nat_alt flip: k_def)
    have "n = unat (strmask h) + 1 - unat (gc_sweepstr h)" using Suc.prems(3) k1 h(3,4) by (simp flip: k_def)
    from Suc.IH [OF h(2) le this] obtain g' where
      g': "sweep_strings n h = (Inr (), g')" "gc_state g' = GCSsweep" "\<exists>cs'. str_inv g' cs'" "gc_currentwhite g' = gc_currentwhite h"
        and later: "\<forall>j. k + 1 \<le> j \<and> j < length cs \<longrightarrow> (\<forall>q\<in>set (cs[k := filter (alive g) (cs ! k)] ! j). swept_to h q g')"
        and rest: "\<forall>q. (\<forall>j. k + 1 \<le> j \<and> j < length cs \<longrightarrow> q \<notin> set (cs[k := filter (alive g) (cs ! k)] ! j)) \<longrightarrow> sobjs g' q = sobjs h q"
      unfolding h(3) k1 length_list_update by blast
    have "swept_to g q g'" if j: "k \<le> j" "j < length cs" "q \<in> set (cs ! j)" for j q
    proof (cases "j = k")
      case True
      have "q \<notin> set (cs[k := filter (alive g) (cs ! k)] ! i)" if "k + 1 \<le> i" "i < length cs" for i
        using dis [of i] that j(3) True by auto
      then have "sobjs g' q = sobjs h q" using rest by blast
      then have "swept_to g q g' = swept_to g q h" by (simp add: swept_to_def)
      then show ?thesis using swk j(3) True by simp
    next
      case False
      then have "q \<in> set (cs[k := filter (alive g) (cs ! k)] ! j)" "k + 1 \<le> j" using j by simp_all
      then have "swept_to h q g'" using later j(2) by blast
      moreover have "sobjs h q = sobjs g q" using out dis [OF j(2) False] j(3) by blast
      ultimately show ?thesis using swept_to_cong [OF h(5)] by blast
    qed
    moreover have "sobjs g' q = sobjs g q" if q: "\<forall>j. k \<le> j \<and> j < length cs \<longrightarrow> q \<notin> set (cs ! j)" for q
    proof -
      have "q \<notin> set (cs[k := filter (alive g) (cs ! k)] ! i)" if "k + 1 \<le> i" "i < length cs" for i using q that by simp
      then have "sobjs g' q = sobjs h q" using rest by blast
      then show ?thesis using out q k by auto
    qed
    ultimately show ?thesis using g' h(1,5) unfolding k_def by auto
  qed
qed
text \<open>The strings the sweep keeps: those not dead and the fixed ones.\<close>

lemma survives_iff:
  assumes "one_white g"
  shows "survives g s \<longleftrightarrow> \<not> (isdead g s \<and> str_marked s AND gc_currentwhite g AND NOT LJ_GC_WHITES = 0)"
proof -
  have "survives g s \<longleftrightarrow> (\<exists>n<8. (bit (str_marked s) n \<noteq> (n < 2)) \<and> (bit (gc_currentwhite g) n \<noteq> (n < 2)))"
    unfolding survives_def otherwhite_def whites_mask by (auto simp: bit_eq_iff bit_simps)
  also have "\<dots> \<longleftrightarrow> (\<exists>n<2. \<not> bit (str_marked s) n \<and> \<not> bit (gc_currentwhite g) n) \<or> (\<exists>n<8. \<not> n < 2 \<and> bit (str_marked s) n \<and> bit (gc_currentwhite g) n)"
  proof -
    have "n < 8" if "n < 2" for n :: nat using that by simp
    then show ?thesis by blast
  qed
  also have "(\<exists>n<2. \<not> bit (str_marked s) n \<and> \<not> bit (gc_currentwhite g) n) \<longleftrightarrow> \<not> isdead g s"
    using one_white_bits [OF assms] by (auto simp: isdead_bits numeral_2_eq_2 less_Suc_eq)
  also have "(\<exists>n<8. \<not> n < 2 \<and> bit (str_marked s) n \<and> bit (gc_currentwhite g) n) \<longleftrightarrow> str_marked s AND gc_currentwhite g AND NOT LJ_GC_WHITES \<noteq> 0"
    unfolding whites_mask by (auto simp: bit_eq_iff bit_simps)
  finally show ?thesis by blast
qed

section \<open>Properties\<close>

text \<open>An allocator, a memory and a table for the witnesses: two mapped pages with a string at the end of the second one.\<close>

definition ex_alloc :: allocator where
  "ex_alloc g n = map_option (\<lambda>p. (p, \<lambda>_. 0xAA)) (find (\<lambda>p. sobjs g p = None) [8, 16, 24, 32])"

definition ex_mem :: memory where
  "ex_mem a =
     (if drop_bit 12 a \<le> 1 then Some (if a \<in> {100, 8190} then 97 else if a \<in> {101, 8191} then 98 else 0) else None)"

definition ex_tab :: gstate where
  "ex_tab = (newstate 4096 (\<lambda>_. 0) 5000 0)\<lparr>gc_total := 6024, strmask := 255, strhash := replicate 256 0\<rparr>"

lemma ex_alloc_fresh: "alloc_fresh ex_alloc"
  by (auto simp: alloc_fresh_def ex_alloc_def find_Some_iff nth_Cons' split: if_splits)

lemma ex_mem_paged: "paged ex_mem"
  by (simp add: paged_def ex_mem_def)

lemma ex_args: "list_all arg_ok [(ex_mem, 8190, [97, 98]), (ex_mem, 100, [97, 98]), (ex_mem, 100, [97])]"
  using ex_mem_paged by (auto simp: arg_ok_def mem_at_def ex_mem_def less_Suc_eq)

lemma ex_tab_reach: "str_reach ex_alloc ex_tab"
proof (rule str_reach.init)
  show "lj_str_resize ex_alloc (LJ_MIN_STRTAB - 1) (newstate 4096 (\<lambda>_. 0) 5000 0) = Some (Inr (), ex_tab)"
    by (simp add: lj_str_resize_def lj_mem_new_def newstate_def ex_alloc_def ex_tab_def)
qed

lemma ex_sweep_reach: "str_reach ex_alloc (ex_tab\<lparr>gc_currentwhite := 2, gc_state := GCSsweepstring\<rparr>)"
  using str_reach.colour [OF ex_tab_reach, of "sobjs ex_tab" GCSsweepstring 0 2] by (simp add: ex_tab_def newstate_def)

text \<open>Interning a string in an empty table, at any phase.\<close>

lemma ex_intern:
  "\<exists>g s. str_intern ex_alloc (ex_mem, 100, [97]) (ex_tab\<lparr>gc_currentwhite := w, gc_state := st\<rparr>) = Some (Inr 8, g) \<and>
     gc_state g = st \<and> strmask g = 255 \<and> strempty g = 4096 \<and> sobjs g 8 = Some s \<and> str_marked s = w AND LJ_GC_WHITES"
proof -
  have m: "mem_at ex_mem 100 (\<lambda>_. 97) (unat (1 :: uint32))" by (simp add: mem_at_def ex_mem_def)
  obtain h where h: "str_hash_of ex_mem 100 1 = Some h" using str_hash_of_ok [OF m] by simp
  have i: "unat (h AND 255) < 256" using word_and_le1 [of h 255] by (simp add: word_le_nat_alt)
  have c: "memcpy ex_mem 100 1 = Some [97]" using memcpy_ok [OF m] by (simp add: seg_def)
  have ov: "\<not> (1 :: uint64) \<ge> 2147483392" by (simp add: word_le_nat_alt)
  show ?thesis
    by (simp add: str_intern_def lj_str_new_def h i c ov ex_tab_def newstate_def str_lookup.simps str_create_def lj_mem_new_def
      ex_alloc_def Let_def curwhite_def del: replicate_Suc)
qed

text \<open>
  Property C7. In every state the string table can reach, interning any list of strings returns for each of them, never faults and
  fails for want of memory only, although it loads words behind the ends of strings, also of strings at the very end of the mapped memory. Each
  reference returned stands for an object that still holds the bytes of its string after all of them have been interned, through
  collisions and growths of the table, and two references are equal exactly when the strings are.
\<close>

theorem lj_str_new_correct:
  assumes "alloc_fresh allocf" and "str_reach allocf g" and "list_all arg_ok xs"
  shows "\<exists>rs g'. intern_all (str_intern allocf) xs g = Some (rs, g') \<and> length rs = length xs \<and>
     (\<forall>i<length xs. rs ! i = Inl LJ_ERR_ERRMEM \<or>
        (\<exists>p s. rs ! i = Inr p \<and> sobjs g' p = Some s \<and> str_bytes s = arg_bytes (xs ! i))) \<and>
     (\<forall>i<length xs. \<forall>j<length xs. \<forall>p q. rs ! i = Inr p \<and> rs ! j = Inr q \<longrightarrow>
        (p = q \<longleftrightarrow> arg_bytes (xs ! i) = arg_bytes (xs ! j)))"
proof -
  obtain M where M: "interned g M" using str_reach_interned [OF assms(2,1)] by blast
  obtain rs g' M' where r: "intern_all (str_intern allocf) xs g = Some (rs, g')" "interned g' M'" "length rs = length xs"
    and each: "\<forall>i<length xs. rs ! i = Inl LJ_ERR_ERRMEM \<or> (\<exists>p. rs ! i = Inr p \<and> M' (arg_bytes (xs ! i)) = Some p)"
    and same: "\<forall>i<length xs. \<forall>j<length xs. \<forall>p q. rs ! i = Inr p \<and> rs ! j = Inr q \<longrightarrow> (p = q \<longleftrightarrow> arg_bytes (xs ! i) = arg_bytes (xs ! j))"
    using str.references_identify [of allocf g M xs, OF conjI [OF assms(1) M] assms(3)] by (elim exE conjE) (rule that)
  have "\<exists>s. sobjs g' p = Some s \<and> str_bytes s = bs" if "M' bs = Some p" for bs p
    using interned_bytes [OF r(2) that] by (auto simp: obj_bytes_def split: option.splits)
  then have "rs ! i = Inl LJ_ERR_ERRMEM \<or> (\<exists>p s. rs ! i = Inr p \<and> sobjs g' p = Some s \<and> str_bytes s = arg_bytes (xs ! i))"
    if "i < length xs" for i using each [rule_format, OF that] by (elim disjE exE conjE) auto
  then show ?thesis using r(1,3) same by (intro exI [of _ rs] exI [of _ g'] conjI) auto
qed

theorem lj_str_new_correct_witness:
  "\<exists>rs g' s. intern_all (str_intern ex_alloc) [(ex_mem, 100, [97]), (ex_mem, 8190, [97, 98])] ex_tab = Some (rs, g') \<and>
     length rs = 2 \<and> rs ! 0 = Inr 8 \<and> sobjs g' 8 = Some s \<and> str_bytes s = [97] \<and> rs ! 1 \<noteq> Inr 8"
proof -
  let ?xs = "[(ex_mem, 100, [97]), (ex_mem, 8190, [97, 98])] :: str_arg list"
  have e: "ex_tab\<lparr>gc_currentwhite := 0x21, gc_state := GCSpause\<rparr> = ex_tab" by (simp add: ex_tab_def newstate_def)
  obtain g where i: "str_intern ex_alloc (ex_mem, 100, [97]) ex_tab = Some (Inr 8, g)" using ex_intern [where w = "0x21" and st = GCSpause] unfolding e by blast
  have "list_all arg_ok ?xs" using ex_args by simp
  from lj_str_new_correct [OF ex_alloc_fresh ex_tab_reach this] obtain rs g' where
    r: "intern_all (str_intern ex_alloc) ?xs ex_tab = Some (rs, g')" "length rs = length ?xs"
    and each: "\<forall>i<length ?xs. rs ! i = Inl LJ_ERR_ERRMEM \<or> (\<exists>p s. rs ! i = Inr p \<and> sobjs g' p = Some s \<and> str_bytes s = arg_bytes (?xs ! i))"
    and same: "\<forall>i<length ?xs. \<forall>j<length ?xs. \<forall>p q. rs ! i = Inr p \<and> rs ! j = Inr q \<longrightarrow> (p = q \<longleftrightarrow> arg_bytes (?xs ! i) = arg_bytes (?xs ! j))"
    by (elim exE conjE) (rule that)
  have r0: "rs ! 0 = Inr 8" using r(1) i by (auto split: option.splits prod.splits)
  then obtain s where "sobjs g' 8 = Some s" "str_bytes s = [97]" using each [rule_format, of 0] by (auto simp: arg_bytes_def)
  moreover have "rs ! 1 \<noteq> Inr 8" using same [rule_format, of 0 1 8 8] r0 by (auto simp: arg_bytes_def)
  ultimately show ?thesis using r r0 by auto
qed

text \<open>
  Strings that are dead but not yet swept are found in the table and brought back to life, also when they are not fixed: the comment
  in \<^verbatim>\<open>lj_str_new\<close> says that only fixed strings can be.
\<close>

lemma lj_str_new_resurrects_unfixed:
  "\<exists>g s g' s'. str_reach ex_alloc g \<and> gc_state g = GCSsweepstring \<and> sobjs g 8 = Some s \<and> isdead g s \<and> str_marked s AND LJ_GC_FIXED = 0 \<and>
     str_intern ex_alloc (ex_mem, 100, [97]) g = Some (Inr 8, g') \<and> sobjs g' 8 = Some s' \<and> \<not> isdead g' s'"
proof -
  have e: "ex_tab\<lparr>gc_currentwhite := 0x21, gc_state := GCSpause\<rparr> = ex_tab" by (simp add: ex_tab_def newstate_def)
  obtain g s where g: "str_intern ex_alloc (ex_mem, 100, [97]) ex_tab = Some (Inr 8, g)" "gc_state g = GCSpause" "sobjs g 8 = Some s" "str_marked s = 1"
    using ex_intern [where w = "0x21" and st = GCSpause] unfolding e by auto
  let ?g = "g\<lparr>gc_currentwhite := 2, gc_state := GCSsweepstring, gc_sweepstr := 0\<rparr>"
  have a: "arg_ok (ex_mem, 100, [97])" "arg_bytes (ex_mem, 100, [97]) = [97]" using ex_args by (simp_all add: arg_bytes_def)
  obtain M0 where M0: "interned ex_tab M0" using str_reach_interned [OF ex_tab_reach ex_alloc_fresh] by blast
  have "new_result ex_tab M0 [97] (Inr 8) g" using str_intern_ok [OF M0 ex_alloc_fresh a(1)] g(1) a(2) by auto
  from new_result_map [OF this M0] obtain M1 where M1: "interned g M1" "M1 [97] = Some 8" by auto
  have s: "str_bytes s = [97]" using interned_bytes(2) [OF M1] g(3) by (simp add: obj_bytes_def)
  have gr: "str_reach ex_alloc g" using str_reach.intern [OF ex_tab_reach a(1) g(1)] .
  then have r: "str_reach ex_alloc ?g" using str_reach.colour [of ex_alloc g "sobjs g" GCSsweepstring 0 2] g(2) by simp
  obtain M where M: "interned ?g M" using str_reach_interned [OF r ex_alloc_fresh] by blast
  have m: "M [97] = Some 8" using interned_object [OF M, of 8] g(3) s by (simp add: obj_bytes_def)
  have ow: "one_white ?g" using str_reach_inv [OF r ex_alloc_fresh] by (simp add: reach_inv_def)
  obtain r' g' where i: "str_intern ex_alloc (ex_mem, 100, [97]) ?g = Some (r', g')" "new_result ?g M [97] r' g'"
      "\<forall>p. r' = Inr p \<and> one_white ?g \<and> arg_bytes (ex_mem, 100, [97]) \<noteq> [] \<longrightarrow> (\<exists>s. sobjs g' p = Some s \<and> \<not> isdead g' s)"
    using str_intern_ok [OF M ex_alloc_fresh a(1)] a(2) by auto
  have r8: "r' = Inr 8" using i(2) m by (simp add: new_result_def)
  then obtain s' where "sobjs g' 8 = Some s'" "\<not> isdead g' s'" using i(3) ow a(2) by auto
  moreover have "isdead ?g s" using g(4) by (simp add: isdead_def otherwhite_def)
  ultimately show ?thesis using r i(1) r8 g(3,4) by (intro exI [of _ ?g] exI [of _ s] exI [of _ g'] exI [of _ s']) simp
qed

text \<open>
  Property C8. A string that \<^verbatim>\<open>lj_str_new\<close> hands out while the collector sweeps the string table is not swept: through any
  further sweep steps and calls its object stays and keeps its bytes, and interning the same string again gives the same
  reference. A dead string that the sweep has not reached yet is brought back to life.
\<close>

theorem lj_str_new_survives_sweep:
  assumes "alloc_fresh allocf" and "str_reach allocf g" and "arg_ok x" and "arg_bytes x \<noteq> []"
    and "str_intern allocf x g = Some (Inr p, g1)" and "(str_step allocf)\<^sup>*\<^sup>* g1 g2"
  shows "(\<exists>s. sobjs g2 p = Some s \<and> str_bytes s = arg_bytes x) \<and> (\<exists>g3. str_intern allocf x g2 = Some (Inr p, g3))"
proof -
  have ow: "one_white g" using str_reach_inv [OF assms(2,1)] by (simp add: reach_inv_def)
  obtain M where M: "interned g M" using str_reach_interned [OF assms(2,1)] by blast
  obtain s where n: "new_result g M (arg_bytes x) (Inr p) g1" and s: "sobjs g1 p = Some s" "\<not> isdead g1 s"
    using str_intern_ok [OF M assms(1,3)] assms(4,5) ow by auto
  obtain M1 where "interned g1 M1" "M1 (arg_bytes x) = Some p" using new_result_map [OF n M] by auto
  then have "in_use g1 p (arg_bytes x)" using interned_bytes(2) [of g1 M1 "arg_bytes x" p] s by (simp add: in_use_def obj_bytes_def)
  then have u: "str_reach allocf g2" "in_use g2 p (arg_bytes x)"
    using in_use_steps [OF assms(6) str_reach.intern [OF assms(2,3,5)] assms(1)] by blast+
  obtain s2 where s2: "sobjs g2 p = Some s2" "str_bytes s2 = arg_bytes x" using u(2) by (auto simp: in_use_def split: option.splits)
  obtain M2 where M2: "interned g2 M2" using str_reach_interned [OF u(1) assms(1)] by blast
  then have "M2 (arg_bytes x) = Some p" using interned_object [OF M2, of p] s2 by (simp add: obj_bytes_def)
  then have "\<exists>g3. str_intern allocf x g2 = Some (Inr p, g3)" using str_intern_ok [OF M2 assms(1,3)] by (auto simp: new_result_def)
  then show ?thesis using s2 by blast
qed

theorem lj_str_new_survives_sweep_witness:
  "\<exists>g1 r g2 g3. str_intern ex_alloc (ex_mem, 100, [97]) (ex_tab\<lparr>gc_currentwhite := 2, gc_state := GCSsweepstring\<rparr>) = Some (Inr 8, g1) \<and>
     gc_onestep_sweepstring g1 = (r, g2) \<and> str_intern ex_alloc (ex_mem, 100, [97]) g2 = Some (Inr 8, g3)"
proof -
  obtain g1 where g1: "str_intern ex_alloc (ex_mem, 100, [97]) (ex_tab\<lparr>gc_currentwhite := 2, gc_state := GCSsweepstring\<rparr>) = Some (Inr 8, g1)"
      "gc_state g1 = GCSsweepstring" using ex_intern [where w = 2 and st = GCSsweepstring] by blast
  have a: "arg_ok (ex_mem, 100, [97])" "arg_bytes (ex_mem, 100, [97]) \<noteq> []" using ex_args by (simp_all add: arg_bytes_def)
  obtain r g2 where g2: "gc_onestep_sweepstring g1 = (r, g2)" by (cases "gc_onestep_sweepstring g1")
  then have "(str_step ex_alloc)\<^sup>*\<^sup>* g1 g2" using str_step.sweep [OF g1(2)] by blast
  then show ?thesis using lj_str_new_survives_sweep [OF ex_alloc_fresh ex_sweep_reach a g1(1)] g1(1) g2 by blast
qed

text \<open>
  Property C9. The steps of the collector over all chains of the string table sweep it completely, without a fault: every string that
  is dead and not fixed is freed and every other one is kept with its bytes and made white, and then the collector goes on to its next phase.
\<close>

theorem gc_sweepstring_correct:
  assumes "alloc_fresh allocf" and "str_reach allocf g" and "gc_state g = GCSsweepstring" and "gc_sweepstr g = 0"
  shows "\<exists>g'. sweep_strings (unat (strmask g) + 1) g = (Inr (), g') \<and> gc_state g' = GCSsweep \<and>
     (\<forall>p s. sobjs g p = Some s \<and> p \<noteq> strempty g \<longrightarrow>
        (if isdead g s \<and> str_marked s AND gc_currentwhite g AND NOT LJ_GC_WHITES = 0 then sobjs g' p = None
         else \<exists>s'. sobjs g' p = Some s' \<and> str_bytes s' = str_bytes s \<and> \<not> isdead g' s'))"
proof -
  obtain cs where inv: "str_inv g cs" and ow: "one_white g" using str_reach_inv [OF assms(2,1)] by (auto simp: reach_inv_def)
  obtain g' where g': "sweep_strings (unat (strmask g) + 1) g = (Inr (), g')" "gc_state g' = GCSsweep" "gc_currentwhite g' = gc_currentwhite g"
    and sw: "\<forall>j. j < length cs \<longrightarrow> (\<forall>q\<in>set (cs ! j). swept_to g q g')"
    using sweep_strings_ok [OF inv _ refl] assms(4) by auto
  have "swept_to g p g'" if "sobjs g p \<noteq> None" "p \<noteq> strempty g" for p
  proof -
    have "p \<in> set (concat cs)" using str_invD [OF inv] that by blast
    then obtain c where "c \<in> set cs" "p \<in> set c" by auto
    then show ?thesis using sw by (metis in_set_conv_nth)
  qed
  note st = this
  have "if isdead g s \<and> str_marked s AND gc_currentwhite g AND NOT LJ_GC_WHITES = 0 then sobjs g' p = None
      else \<exists>s'. sobjs g' p = Some s' \<and> str_bytes s' = str_bytes s \<and> \<not> isdead g' s'" if sp: "sobjs g p = Some s" "p \<noteq> strempty g" for p s
  proof (cases "survives g s")
    case True
    then obtain n where "sobjs g' p = Some ((makewhite g s)\<lparr>str_nextgc := n\<rparr>)" using st [of p] sp by (auto simp: swept_to_def alive_def)
    then show ?thesis using survives_iff [OF ow, of s] True makewhite_not_dead [OF g'(3)] by (simp add: makewhite_def)
  next
    case False
    then have "sobjs g' p = None" using st [of p] sp by (simp add: swept_to_def alive_def)
    then show ?thesis using survives_iff [OF ow, of s] False by simp
  qed
  then show ?thesis using g'(1,2) by blast
qed

theorem gc_sweepstring_correct_witness:
  "\<exists>g g'. str_intern ex_alloc (ex_mem, 100, [97]) ex_tab = Some (Inr 8, g) \<and>
     sweep_strings 256 (g\<lparr>gc_currentwhite := 2, gc_state := GCSsweepstring, gc_sweepstr := 0\<rparr>) = (Inr (), g') \<and>
     sobjs g 8 \<noteq> None \<and> sobjs g' 8 = None"
proof -
  have e: "ex_tab\<lparr>gc_currentwhite := 0x21, gc_state := GCSpause\<rparr> = ex_tab" by (simp add: ex_tab_def newstate_def)
  obtain g s where g: "str_intern ex_alloc (ex_mem, 100, [97]) ex_tab = Some (Inr 8, g)" "gc_state g = GCSpause" "strmask g = 255"
      "strempty g = 4096" "sobjs g 8 = Some s" "str_marked s = 1"
    using ex_intern [where w = "0x21" and st = GCSpause] unfolding e by auto
  let ?g = "g\<lparr>gc_currentwhite := 2, gc_state := GCSsweepstring, gc_sweepstr := 0\<rparr>"
  have "str_reach ex_alloc g" using str_reach.intern [OF ex_tab_reach _ g(1)] ex_args by simp
  then have r: "str_reach ex_alloc ?g" using str_reach.colour [of ex_alloc g "sobjs g" GCSsweepstring 0 2] g(2) by simp
  have d: "isdead ?g s" using g(6) by (simp add: isdead_def otherwhite_def)
  obtain g' where g': "sweep_strings (unat (strmask ?g) + 1) ?g = (Inr (), g')"
    and f: "\<forall>p s. sobjs ?g p = Some s \<and> p \<noteq> strempty ?g \<longrightarrow>
        (if isdead ?g s \<and> str_marked s AND gc_currentwhite ?g AND NOT LJ_GC_WHITES = 0 then sobjs g' p = None
         else \<exists>s'. sobjs g' p = Some s' \<and> str_bytes s' = str_bytes s \<and> \<not> isdead g' s')"
    using gc_sweepstring_correct [OF ex_alloc_fresh r] by auto
  have "sobjs g' 8 = None" using f [rule_format, of 8 s] g d by simp
  then show ?thesis using g g' by auto
qed

end
