(* ===== verification/Lj_Fmt.thy ===== *)
theory Lj_Fmt
  imports Lj_Strings
begin

text \<open>
  The conversions of numbers to strings and the formatted messages of \<^verbatim>\<open>core/luajit/src/lj_str.c\<close>: integers
  printed into a buffer from its end, the resizable buffer of the state, and \<^verbatim>\<open>lj_str_pushvf\<close>, which
  builds a message in that buffer and interns it.
\<close>

unbundle bit_operations_syntax

section \<open>The code\<close>

subsection \<open>Numbers\<close>

text \<open>
  The digits are stored from the end of the buffer towards its start; a store in front of it or behind it is
  undefined behaviour. The result is the buffer and the index of the first character. The negation of the least
  integer, which C leaves undefined, wraps around.
\<close>

function bufint_digits :: "uint8 list \<Rightarrow> nat \<Rightarrow> uint32 \<Rightarrow> (uint8 list \<times> nat) option" where
  "bufint_digits buf p u =
     (if p = 0 \<or> length buf < p then None
      else let buf = buf[p - 1 := 48 + ucast (u mod 10)]; u = u div 10
           in if u \<noteq> 0 then bufint_digits buf (p - 1) u else Some (buf, p - 1))"
  by pat_completeness auto
termination by (relation "measure (\<lambda>(buf, p, u). p)") auto

declare bufint_digits.simps [simp del]

abbreviation LJ_STR_INTBUF :: nat where "LJ_STR_INTBUF \<equiv> 11"

definition lj_str_bufint :: "uint8 list \<Rightarrow> uint32 \<Rightarrow> (uint8 list \<times> nat) option" where
  "lj_str_bufint buf k =
     (case bufint_digits buf LJ_STR_INTBUF (if sint k < 0 then - k else k) of
        None \<Rightarrow> None
      | Some (buf, p) \<Rightarrow>
          if sint k < 0 then (if p = 0 then None else Some (buf[p - 1 := 45], p - 1)) else Some (buf, p))"

text \<open>
  Finite numbers are printed by the C library; the others have fixed names.
\<close>

definition lj_str_bufnum :: "(uint64 \<Rightarrow> uint8 list) \<Rightarrow> uint64 \<Rightarrow> uint8 list" where
  "lj_str_bufnum number2str n =
     (let hi = ucast (drop_bit 32 n) :: uint32; lo = ucast n :: uint32
      in if push_bit 1 hi < 0xffe00000 then number2str n
         else if (hi AND 0x000fffff) OR lo \<noteq> 0 then [110, 97, 110]
         else if hi AND 0x80000000 = 0 then [105, 110, 102]
         else [45, 105, 110, 102])"

subsection \<open>The buffer\<close>

text \<open>A step, and what follows when it does not fail.\<close>

type_synonym 'a act = "((str_err + 'a) \<times> gstate) option"

definition seq :: "'a act \<Rightarrow> ('a \<Rightarrow> gstate \<Rightarrow> 'b act) \<Rightarrow> 'b act" where
  "seq a f = (case a of None \<Rightarrow> None | Some (Inl e, g) \<Rightarrow> Some (Inl e, g) | Some (Inr v, g) \<Rightarrow> f v g)"

definition lj_str_needbuf :: "allocator \<Rightarrow> uint32 \<Rightarrow> gstate \<Rightarrow> unit act" where
  "lj_str_needbuf allocf sz g =
     (if sz > sb_sz (tmpbuf g) then Some (lj_str_resizebuf allocf (if sz < LJ_MIN_SBUF then LJ_MIN_SBUF else sz) g)
      else Some (Inr (), g))"

definition lj_str_resetbuf :: "gstate \<Rightarrow> gstate" where
  "lj_str_resetbuf g = g\<lparr>tmpbuf := (tmpbuf g)\<lparr>sb_n := 0\<rparr>\<rparr>"

text \<open>The size is doubled until it is enough; the size zero would be doubled forever.\<close>

partial_function (option) grow_to :: "uint32 \<Rightarrow> uint32 \<Rightarrow> uint32 option" where
  "grow_to need sz = (if need > sz then grow_to need (sz * 2) else Some sz)"

text \<open>Store at the end of the buffer; a store behind it is a fault.\<close>

definition sb_store :: "uint8 list \<Rightarrow> gstate \<Rightarrow> unit act" where
  "sb_store str g =
     (let sb = tmpbuf g; n = unat (sb_n sb)
      in if n + length str \<le> length (sb_buf sb)
         then Some (Inr (), g\<lparr>tmpbuf := \<lparr>sb_buf = take n (sb_buf sb) @ str @ drop (n + length str) (sb_buf sb), sb_n = sb_n sb + of_nat (length str)\<rparr>\<rparr>)
         else Some (Inl Segv, g))"

definition addstr :: "allocator \<Rightarrow> uint8 list \<Rightarrow> gstate \<Rightarrow> unit act" where
  "addstr allocf str g =
     (let sb = tmpbuf g; need = sb_n sb + of_nat (length str)
      in if need > sb_sz sb
         then (case grow_to need (sb_sz sb * 2) of
                 None \<Rightarrow> None
               | Some sz \<Rightarrow> seq (Some (lj_str_resizebuf allocf sz g)) (\<lambda>_ g. sb_store str g))
         else sb_store str g)"

definition addchar :: "allocator \<Rightarrow> uint8 \<Rightarrow> gstate \<Rightarrow> unit act" where
  "addchar allocf c g =
     (let sb = tmpbuf g
      in if sb_n sb + 1 > sb_sz sb
         then seq (Some (lj_str_resizebuf allocf (sb_sz sb * 2) g)) (\<lambda>_ g. sb_store [c] g)
         else sb_store [c] g)"

subsection \<open>Formatted messages\<close>

text \<open>The variable arguments: a C string or the null pointer, an integer, a number, a pointer.\<close>

datatype va = VStr "uint8 list option" | VInt uint32 | VNum uint64 | VPtr uint64

definition hexdigit :: "uint64 \<Rightarrow> uint8" where
  "hexdigit d = (if d < 10 then 48 + ucast d else 87 + ucast d)"

fun ptr_digits :: "nat \<Rightarrow> uint64 \<Rightarrow> uint8 list" where
  "ptr_digits 0 p = []"
| "ptr_digits (Suc i) p = ptr_digits i (signed_drop_bit 4 p) @ [hexdigit (p AND 15)]"

definition ptr_text :: "uint64 \<Rightarrow> uint8 list" where
  "ptr_text p =
     (if p = 0 then [78, 85, 76, 76]
      else let h = signed_drop_bit 32 p;
               lasti = 2 + 2 * 4 + (if h \<noteq> 0 then 2 + 2 * (lj_fls (unat (ucast h :: uint32)) div 8) else 0)
           in [48, 120] @ ptr_digits (lasti - 2) p)"

text \<open>One conversion; a missing argument or one of another type is undefined behaviour.\<close>

definition fmt_conv ::
  "allocator \<Rightarrow> (uint64 \<Rightarrow> uint8 list) \<Rightarrow> uint8 \<Rightarrow> va list \<Rightarrow> gstate \<Rightarrow> va list act" where
  "fmt_conv allocf number2str c args g =
     (let put = (\<lambda>str args. seq (addstr allocf str g) (\<lambda>_ g. Some (Inr args, g)))
      in if c = 115 then
           (case args of VStr s # args \<Rightarrow> put (case s of None \<Rightarrow> [40, 110, 117, 108, 108, 41] | Some s \<Rightarrow> s) args | _ \<Rightarrow> Some (Inl Segv, g))
         else if c = 99 then
           (case args of VInt k # args \<Rightarrow> seq (addchar allocf (ucast k) g) (\<lambda>_ g. Some (Inr args, g)) | _ \<Rightarrow> Some (Inl Segv, g))
         else if c = 100 then
           (case args of
              VInt k # args \<Rightarrow>
                (case lj_str_bufint (replicate LJ_STR_INTBUF 0) k of
                   None \<Rightarrow> Some (Inl Segv, g)
                 | Some (buf, p) \<Rightarrow> put (drop p buf) args)
            | _ \<Rightarrow> Some (Inl Segv, g))
         else if c = 102 then
           (case args of VNum n # args \<Rightarrow> put (lj_str_bufnum number2str n) args | _ \<Rightarrow> Some (Inl Segv, g))
         else if c = 112 then
           (case args of VPtr p # args \<Rightarrow> put (ptr_text p) args | _ \<Rightarrow> Some (Inl Segv, g))
         else if c = 37 then seq (addchar allocf 37 g) (\<lambda>_ g. Some (Inr args, g))
         else seq (addchar allocf 37 g) (\<lambda>_ g. seq (addchar allocf c g) (\<lambda>_ g. Some (Inr args, g))))"

text \<open>
  The loop over the format. Behind a per cent sign at the very end the loop would go on behind the terminator.
\<close>

function fmt_loop ::
  "allocator \<Rightarrow> (uint64 \<Rightarrow> uint8 list) \<Rightarrow> uint8 list \<Rightarrow> va list \<Rightarrow> gstate \<Rightarrow> unit act" where
  "fmt_loop allocf number2str fmt args g =
     (case dropWhile (\<lambda>c. c \<noteq> 37) fmt of
        [] \<Rightarrow> addstr allocf fmt g
      | e # rest \<Rightarrow>
          seq (addstr allocf (takeWhile (\<lambda>c. c \<noteq> 37) fmt) g)
            (\<lambda>_ g. case rest of
               [] \<Rightarrow> Some (Inl Segv, g)
             | c # fmt \<Rightarrow> seq (fmt_conv allocf number2str c args g) (\<lambda>args g. fmt_loop allocf number2str fmt args g)))"
  by pat_completeness auto
termination
proof (relation "measure (\<lambda>(allocf, number2str, fmt, args, g). length fmt)")
  fix allocf :: allocator and number2str :: "uint64 \<Rightarrow> uint8 list" and fmt fmt' :: "uint8 list" and args args' :: "va list"
    and g g' :: gstate and e c :: uint8 and rest :: "uint8 list"
  assume "dropWhile (\<lambda>c. c \<noteq> 37) fmt = e # rest" "rest = c # fmt'"
  moreover have "length (dropWhile (\<lambda>c. c \<noteq> 37) fmt) \<le> length fmt" by (rule length_dropWhile_le)
  ultimately show "((allocf, number2str, fmt', args', g'), allocf, number2str, fmt, args, g) \<in> measure (\<lambda>(allocf, number2str, fmt, args, g). length fmt)" by simp
qed simp

declare fmt_loop.simps [simp del]

text \<open>
  The message is interned from the memory the buffer lies in. The result is the string that is pushed on the Lua stack.
\<close>

definition lj_str_pushvf ::
  "allocator \<Rightarrow> (uint64 \<Rightarrow> uint8 list) \<Rightarrow> (uint8 list \<Rightarrow> memory \<times> uint64) \<Rightarrow> uint8 list \<Rightarrow> va list \<Rightarrow> gstate \<Rightarrow> uint32 act" where
  "lj_str_pushvf allocf number2str bufmem fmt args g =
     seq (lj_str_needbuf allocf (of_nat (length fmt)) g)
       (\<lambda>_ g. seq (fmt_loop allocf number2str fmt args (lj_str_resetbuf g))
          (\<lambda>_ g. case bufmem (sb_buf (tmpbuf g)) of (mem, buf) \<Rightarrow> lj_str_new allocf mem buf (ucast (sb_n (tmpbuf g))) g))"

definition lj_str_fromint :: "allocator \<Rightarrow> (uint8 list \<Rightarrow> memory \<times> uint64) \<Rightarrow> uint32 \<Rightarrow> gstate \<Rightarrow> uint32 act" where
  "lj_str_fromint allocf bufmem k g =
     (case lj_str_bufint (replicate (1 + 10) 0) k of
        None \<Rightarrow> Some (Inl Segv, g)
      | Some (s, p) \<Rightarrow> (case bufmem s of (mem, a) \<Rightarrow> lj_str_new allocf mem (a + of_nat p) (of_nat (length s - p)) g))"

definition lj_str_fromnum :: "allocator \<Rightarrow> (uint64 \<Rightarrow> uint8 list) \<Rightarrow> (uint8 list \<Rightarrow> memory \<times> uint64) \<Rightarrow> uint64 \<Rightarrow> gstate \<Rightarrow> uint32 act" where
  "lj_str_fromnum allocf number2str bufmem n g =
     (let s = lj_str_bufnum number2str n in case bufmem s of (mem, a) \<Rightarrow> lj_str_new allocf mem a (of_nat (length s)) g)"

text \<open>On this target numbers are always doubles, and the test for an integer fails.\<close>

abbreviation LJ_DUALNUM :: bool where "LJ_DUALNUM \<equiv> False"
abbreviation LJ_TISNUM :: uint32 where "LJ_TISNUM \<equiv> 0xfffeffff"

definition lj_str_fromnumber :: "allocator \<Rightarrow> (uint64 \<Rightarrow> uint8 list) \<Rightarrow> (uint8 list \<Rightarrow> memory \<times> uint64) \<Rightarrow> uint64 \<Rightarrow> gstate \<Rightarrow> uint32 act" where
  "lj_str_fromnumber allocf number2str bufmem o' g =
     (if LJ_DUALNUM \<and> ucast (drop_bit 32 o') = LJ_TISNUM then lj_str_fromint allocf bufmem (ucast o') g
      else lj_str_fromnum allocf number2str bufmem o' g)"

definition lj_str_pushf ::
  "allocator \<Rightarrow> (uint64 \<Rightarrow> uint8 list) \<Rightarrow> (uint8 list \<Rightarrow> memory \<times> uint64) \<Rightarrow> uint8 list \<Rightarrow> va list \<Rightarrow> gstate \<Rightarrow> uint32 act" where
  "lj_str_pushf allocf number2str bufmem fmt argp g = lj_str_pushvf allocf number2str bufmem fmt argp g"

section \<open>Integers in decimal\<close>

text \<open>The decimal digits of a number, and what a decimal text stands for.\<close>

fun dec :: "nat \<Rightarrow> uint8 list" where
  "dec n = (if n < 10 then [48 + of_nat n] else dec (n div 10) @ [48 + of_nat (n mod 10)])"

declare dec.simps [simp del]

definition dec_int :: "int \<Rightarrow> uint8 list" where
  "dec_int k = (if k < 0 then 45 # dec (nat (- k)) else dec (nat k))"

definition dec_value :: "uint8 list \<Rightarrow> nat option" where
  "dec_value ds =
     (if ds \<noteq> [] \<and> (\<forall>d\<in>set ds. 48 \<le> d \<and> d \<le> 57) then Some (foldl (\<lambda>n d. n * 10 + unat (d - 48)) 0 ds) else None)"

definition int_value :: "uint8 list \<Rightarrow> int option" where
  "int_value ds = (case ds of c # cs \<Rightarrow> if c = 45 then map_option (\<lambda>n. - int n) (dec_value cs) else map_option int (dec_value ds) | [] \<Rightarrow> None)"

lemma digit_byte: "d < 10 \<Longrightarrow> 48 \<le> (48 + of_nat d :: uint8) \<and> (48 + of_nat d :: uint8) \<le> 57 \<and> unat (48 + of_nat d - 48 :: uint8) = d \<and> (48 + of_nat d :: uint8) \<noteq> 45"
proof -
  assume d: "d < 10"
  then have "unat (48 + of_nat d :: uint8) = 48 + d" by (simp add: unat_word_ariths unat_of_nat)
  then show ?thesis using d by (auto simp: word_le_nat_alt word_unat_eq_iff unat_of_nat)
qed

lemma dec_digits:
  "dec n \<noteq> [] \<and> (\<forall>d\<in>set (dec n). 48 \<le> d \<and> d \<le> 57) \<and> foldl (\<lambda>n d. n * 10 + unat (d - 48)) 0 (dec n) = n"
proof (induction n rule: dec.induct)
  case (1 n)
  show ?case
  proof (cases "n < 10")
    case True
    then show ?thesis using digit_byte [OF True] by (simp add: dec.simps)
  next
    case False
    have "n mod 10 < 10" by simp
    note b = digit_byte [OF this]
    from False have "dec n = dec (n div 10) @ [48 + of_nat (n mod 10)]" by (subst dec.simps) simp
    then show ?thesis using 1 [OF False] b by (auto simp: )
  qed
qed

lemma dec_value_dec: "dec_value (dec n) = Some n"
  using dec_digits [of n] by (simp add: dec_value_def)

lemma int_value_dec_int: "int_value (dec_int k) = Some k"
proof (cases "k < 0")
  case True
  then show ?thesis by (simp add: int_value_def dec_int_def dec_value_dec)
next
  case False
  obtain c cs where c: "dec (nat k) = c # cs" using dec_digits [of "nat k"] by (cases "dec (nat k)") auto
  then have "48 \<le> c" using dec_digits [of "nat k"] by auto
  then have "c \<noteq> 45" by (auto simp: word_le_nat_alt)
  then show ?thesis using False c dec_value_dec [of "nat k"] by (simp add: int_value_def dec_int_def)
qed

text \<open>The length of the digits.\<close>

lemma dec_length: "n < 10 ^ k \<Longrightarrow> 0 < k \<Longrightarrow> length (dec n) \<le> k"
proof (induction k arbitrary: n)
  case (Suc k)
  show ?case
  proof (cases "n < 10")
    case False
    then have "0 < k" using Suc.prems(1) by (cases k) auto
    moreover have "n div 10 < 10 ^ k" using Suc.prems(1) by (simp add: less_mult_imp_div_less mult.commute)
    ultimately have "length (dec (n div 10)) \<le> k" using Suc.IH by blast
    then show ?thesis using False by (subst dec.simps) simp
  qed (simp add: dec.simps)
qed simp

lemma bufint_digits_ok:
  assumes "length (dec (unat u)) \<le> p" and "p \<le> length buf"
  shows "\<exists>buf'. bufint_digits buf p u = Some (buf', p - length (dec (unat u))) \<and> length buf' = length buf \<and>
           drop (p - length (dec (unat u))) buf' = dec (unat u) @ drop p buf"
  using assms
proof (induction buf p u rule: bufint_digits.induct)
  case (1 buf p u)
  have l: "0 < length (dec (unat u))" using dec_digits [of "unat u"] by simp
  then have p: "0 < p" using "1.prems"(1) by linarith
  let ?b = "buf[p - 1 := 48 + ucast (u mod 10)]"
  have d: "48 + ucast (u mod 10) = (48 + of_nat (unat u mod 10) :: uint8)" 
  proof -
    have "unat (u mod 10) = unat u mod 10" by (simp add: unat_mod)
    then have "(ucast (u mod 10) :: uint8) = of_nat (unat u mod 10)" by (metis of_nat_unat)
    then show ?thesis by (simp only:)
  qed
  have dr: "drop (p - 1) ?b = (48 + of_nat (unat u mod 10)) # drop p buf"
    using p "1.prems"(2) d by (simp add: Cons_nth_drop_Suc [symmetric] drop_update_swap)
  have u10: "unat (u div 10) = unat u div 10" by (simp add: unat_div)
  have z: "u div 10 \<noteq> 0 \<longleftrightarrow> \<not> unat u < 10" using u10 by (auto simp: word_unat_eq_iff)
  show ?case
  proof (cases "unat u < 10")
    case True
    then show ?thesis using p z dr "1.prems"(2) by (subst bufint_digits.simps) (simp add: dec.simps [of "unat u"])
  next
    case False
    then have dc: "dec (unat u) = dec (unat u div 10) @ [48 + of_nat (unat u mod 10)]" by (subst dec.simps) simp
    have "length (dec (unat (u div 10))) \<le> p - 1" "p - 1 \<le> length ?b" using "1.prems" dc u10 by simp_all
    from "1.IH" [OF _ refl refl _ this] p z False "1.prems"(2) obtain b' where
      b': "bufint_digits ?b (p - 1) (u div 10) = Some (b', p - 1 - length (dec (unat (u div 10))))" "length b' = length ?b"
        "drop (p - 1 - length (dec (unat (u div 10)))) b' = dec (unat (u div 10)) @ drop (p - 1) ?b" by auto
    have "bufint_digits buf p u = bufint_digits ?b (p - 1) (u div 10)" using p z False "1.prems"(2) by (subst bufint_digits.simps) (simp add: Let_def)
    then show ?thesis using b' dc u10 dr by simp
  qed
qed
lemma unat_abs_sint:
  fixes k :: uint32
  shows "int (unat (if sint k < 0 then - k else k)) = \<bar>sint k\<bar>"
proof -
  have r: "- (2 ^ 31) \<le> sint k" "sint k < 2 ^ 31" using sint_range_size [of k] by (simp_all add: word_size)
  have k: "k = word_of_int (sint k)" by simp
  show ?thesis
  proof (cases "sint k < 0")
    case True
    have "uint (- k) = (- sint k) mod 2 ^ 32" by (subst k) (simp only: wi_hom_neg uint_word_of_int len_of_numeral_defs, simp)
    then have "uint (- k) = - sint k" using True r by simp
    then show ?thesis using True by simp
  next
    case False
    have "uint k = sint k mod 2 ^ 32" by (subst k) (simp only: uint_word_of_int, simp)
    then show ?thesis using False r by simp
  qed
qed

lemma lj_str_bufint_ok:
  assumes "length buf = LJ_STR_INTBUF"
  shows "\<exists>buf' p. lj_str_bufint buf k = Some (buf', p) \<and> length buf' = LJ_STR_INTBUF \<and> drop p buf' = dec_int (sint k)"
proof -
  let ?u = "if sint k < 0 then - k else k"
  have u: "int (unat ?u) = \<bar>sint k\<bar>" by (rule unat_abs_sint)
  have "- (2 ^ 31) \<le> sint k" "sint k < 2 ^ 31" using sint_range_size [of k] by (simp_all add: word_size)
  then have "\<bar>sint k\<bar> \<le> 2 ^ 31" by linarith
  then have "int (unat ?u) \<le> 2 ^ 31" using u by (simp only:)
  then have "unat ?u \<le> 2 ^ 31" by (simp only: of_nat_le_iff [symmetric, where 'a = int] of_nat_power of_nat_numeral)
  then have "unat ?u < 10 ^ 10" by (rule le_less_trans) simp
  then have l: "length (dec (unat ?u)) \<le> 10" by (intro dec_length) simp_all
  then obtain b where b: "bufint_digits buf LJ_STR_INTBUF ?u = Some (b, 11 - length (dec (unat ?u)))" "length b = 11"
      "drop (11 - length (dec (unat ?u))) b = dec (unat ?u)"
    using bufint_digits_ok [of ?u 11 buf] assms by auto
  have n: "unat ?u = nat \<bar>sint k\<bar>" using u by linarith
  show ?thesis
  proof (cases "sint k < 0")
    case False
    then show ?thesis using b n by (simp add: lj_str_bufint_def dec_int_def)
  next
    case True
    define p where "p = 11 - length (dec (unat ?u))"
    have p: "0 < p" "p \<le> 11" using l by (auto simp: p_def)
    have "drop (p - 1) (b[p - 1 := 45]) = 45 # drop p b"
      using p b(2) by (simp add: Cons_nth_drop_Suc [symmetric] drop_update_swap)
    moreover have "bufint_digits buf LJ_STR_INTBUF (- k) = Some (b, p)" using b(1) True by (simp add: p_def)
    moreover have "drop p b = dec (nat (- sint k))" using b(3) n True by (simp add: p_def)
    ultimately show ?thesis using b(2) True p by (simp add: lj_str_bufint_def dec_int_def)
  qed
qed

section \<open>The buffer\<close>

text \<open>The operations on the buffer touch nothing else.\<close>

definition buf_only :: "gstate \<Rightarrow> gstate \<Rightarrow> bool" where
  "buf_only g g' \<longleftrightarrow> g' = g\<lparr>gc_total := gc_total g', tmpbuf := tmpbuf g'\<rparr>"

lemma buf_only_refl [simp]: "buf_only g g"
  by (simp add: buf_only_def)

lemma buf_only_upd [simp]: "buf_only g (g\<lparr>gc_total := t, tmpbuf := b\<rparr>)" "buf_only g (g\<lparr>tmpbuf := b\<rparr>)"
  by (simp_all add: buf_only_def)

lemma buf_only_trans: "buf_only g h \<Longrightarrow> buf_only h k \<Longrightarrow> buf_only g k"
  by (cases g; cases h; cases k) (auto simp: buf_only_def)

lemma interned_buf_only:
  assumes "buf_only g g'" and "interned g M"
  shows "interned g' M"
proof -
  have g: "g' = g\<lparr>gc_total := gc_total g', tmpbuf := tmpbuf g'\<rparr>" using assms(1) by (simp add: buf_only_def)
  have "str_inv g' cs = str_inv g cs" for cs by (subst g) simp
  moreover have "sobjs g' = sobjs g" "strempty g' = strempty g" by (subst g, simp)+
  ultimately show ?thesis using assms(2) by (simp add: interned_def)
qed

text \<open>The text collected so far.\<close>

definition buf_is :: "gstate \<Rightarrow> uint8 list \<Rightarrow> bool" where
  "buf_is g t \<longleftrightarrow> (let sb = tmpbuf g in length t \<le> length (sb_buf sb) \<and> length (sb_buf sb) < 2 ^ 32 \<and>
     sb_n sb = of_nat (length t) \<and> take (length t) (sb_buf sb) = t)"

lemma unat_sb_sz: "length (sb_buf sb) < 2 ^ 32 \<Longrightarrow> unat (sb_sz sb) = length (sb_buf sb)"
  by (simp add: sb_sz_def unat_of_nat_small)

lemma unat_double: "unat w = n \<Longrightarrow> n < 2 ^ 31 \<Longrightarrow> unat (w * 2) = 2 * n" for w :: uint32
  by (simp add: unat_word_ariths)

lemma grow_to_ok:
  assumes "0 < sz" "unat need \<le> 2 ^ 31"
  shows "\<exists>s. grow_to need sz = Some s \<and> need \<le> s \<and> sz \<le> s"
  using assms(1)
proof (induction "unat need - unat sz" arbitrary: sz rule: less_induct)
  case less
  show ?case
  proof (cases "need > sz")
    case True
    have pos: "0 < unat sz" using less.prems by (simp add: word_less_nat_alt)
    have d: "unat (sz * 2) = 2 * unat sz" using True assms(2) by (simp add: word_less_nat_alt unat_word_ariths)
    have "\<exists>s. grow_to need (sz * 2) = Some s \<and> need \<le> s \<and> sz * 2 \<le> s"
      using True pos d by (intro less.hyps) (simp_all add: word_less_nat_alt)
    moreover have "sz \<le> sz * 2" using d by (simp add: word_le_nat_alt)
    ultimately show ?thesis using True by (subst grow_to.simps) auto
  next
    case False
    then show ?thesis by (subst grow_to.simps) auto
  qed
qed

lemma sb_store_ok:
  assumes "buf_is g t" and "length t + length str \<le> length (sb_buf (tmpbuf g))"
  shows "\<exists>g'. sb_store str g = Some (Inr (), g') \<and> buf_only g g' \<and> buf_is g' (t @ str) \<and> length (sb_buf (tmpbuf g')) = length (sb_buf (tmpbuf g))"
proof -
  have "unat (sb_n (tmpbuf g)) = length t" using assms by (auto simp: buf_is_def Let_def unat_of_nat_small)
  then show ?thesis using assms by (auto simp: sb_store_def buf_is_def Let_def)
qed

lemma lj_str_resizebuf_ok:
  assumes "buf_is g t" and "sb_sz (tmpbuf g) \<le> sz"
  shows "\<exists>r g'. lj_str_resizebuf allocf sz g = (r, g') \<and> buf_only g g' \<and>
           (r = Inl LJ_ERR_ERRMEM \<or> r = Inr () \<and> buf_is g' t \<and> length (sb_buf (tmpbuf g')) = unat sz)"
proof -
  have b: "length (sb_buf (tmpbuf g)) \<le> unat sz" "length t \<le> length (sb_buf (tmpbuf g))" "take (length t) (sb_buf (tmpbuf g)) = t"
    "sb_n (tmpbuf g) = of_nat (length t)"
    using assms unat_sb_sz [of "tmpbuf g"] by (auto simp: buf_is_def Let_def word_le_nat_alt)
  have "unat sz < 2 ^ 32" using unsigned_less [of sz] by simp
  then show ?thesis using b by (cases "allocf g sz") (auto simp: lj_str_resizebuf_def buf_is_def Let_def)
qed

text \<open>What an operation adds, if there is memory.\<close>

definition adds :: "'v \<Rightarrow> gstate \<Rightarrow> uint8 list \<Rightarrow> 'v act \<Rightarrow> bool" where
  "adds v g t a \<longleftrightarrow> (\<exists>r g'. a = Some (r, g') \<and> buf_only g g' \<and>
     (r = Inl LJ_ERR_ERRMEM \<or> r = Inr v \<and> buf_is g' t \<and> length (sb_buf (tmpbuf g)) \<le> length (sb_buf (tmpbuf g'))))"

lemma adds_store: "buf_is g t \<Longrightarrow> length t + length str \<le> length (sb_buf (tmpbuf g)) \<Longrightarrow> adds () g (t @ str) (sb_store str g)"
  using sb_store_ok [of g t str] by (auto simp: adds_def)

lemma adds_grow_store:
  assumes "buf_is g t" and "sb_sz (tmpbuf g) \<le> sz" and "length t + length str \<le> unat sz"
  shows "adds () g (t @ str) (seq (Some (lj_str_resizebuf allocf sz g)) (\<lambda>_ g. sb_store str g))"
proof -
  obtain r h where r: "lj_str_resizebuf allocf sz g = (r, h)" "buf_only g h"
      "r = Inl LJ_ERR_ERRMEM \<or> r = Inr () \<and> buf_is h t \<and> length (sb_buf (tmpbuf h)) = unat sz"
    using lj_str_resizebuf_ok [OF assms(1,2)] by blast
  from r(3) show ?thesis
  proof (elim disjE conjE)
    assume "r = Inl LJ_ERR_ERRMEM"
    then show ?thesis using r(1,2) by (auto simp: adds_def seq_def)
  next
    assume h: "r = Inr ()" "buf_is h t" "length (sb_buf (tmpbuf h)) = unat sz"
    have "length (sb_buf (tmpbuf g)) \<le> unat sz" using assms(1,2) unat_sb_sz [of "tmpbuf g"] by (auto simp: buf_is_def Let_def word_le_nat_alt)
    then show ?thesis using sb_store_ok [OF h(2), of str] assms(3) h r(1) buf_only_trans [OF r(2)] by (auto simp: adds_def seq_def)
  qed
qed

lemma addstr_ok:
  assumes "buf_is g t" and "str = [] \<or> sb_buf (tmpbuf g) \<noteq> []" and "length t + length str < 2 ^ 31"
  shows "adds () g (t @ str) (addstr allocf str g)"
proof -
  let ?sb = "tmpbuf g" let ?need = "sb_n ?sb + of_nat (length str)"
  have sz: "unat (sb_sz ?sb) = length (sb_buf ?sb)" using assms(1) by (intro unat_sb_sz) (simp add: buf_is_def Let_def)
  have "?need = of_nat (length t + length str)" using assms(1) by (simp add: buf_is_def Let_def)
  then have need: "unat ?need = length t + length str" using assms(3) unat_of_nat_small [where 'a = 32, of "length t + length str"] by (simp only:) (simp del: of_nat_add)
  show ?thesis
  proof (cases "?need > sb_sz ?sb")
    case False
    then have "length t + length str \<le> length (sb_buf ?sb)" using need sz by (simp add: word_less_nat_alt)
    then show ?thesis using adds_store [OF assms(1)] False by (simp add: addstr_def Let_def)
  next
    case True
    then have lt: "length (sb_buf ?sb) < length t + length str" using need sz by (simp add: word_less_nat_alt)
    then have "sb_buf ?sb \<noteq> []" using assms(1,2) by (auto simp: buf_is_def Let_def)
    then have d: "unat (sb_sz ?sb * 2) = 2 * length (sb_buf ?sb)" "0 < length (sb_buf ?sb)" using lt assms(3) sz by (simp_all add: unat_word_ariths)
    then obtain s where s: "grow_to ?need (sb_sz ?sb * 2) = Some s" "?need \<le> s" "sb_sz ?sb * 2 \<le> s"
      using grow_to_ok [of "sb_sz ?sb * 2" ?need] need assms(3) by (auto simp: word_less_nat_alt)
    have "sb_sz ?sb \<le> s" "length t + length str \<le> unat s" using s(2,3) need d sz by (simp_all add: word_le_nat_alt)
    then show ?thesis using adds_grow_store [OF assms(1)] s(1) True by (simp add: addstr_def Let_def)
  qed
qed

lemma addchar_ok:
  assumes "buf_is g t" and "sb_buf (tmpbuf g) \<noteq> []" and "length t + 1 < 2 ^ 31"
  shows "adds () g (t @ [c]) (addchar allocf c g)"
proof -
  let ?sb = "tmpbuf g"
  have sz: "unat (sb_sz ?sb) = length (sb_buf ?sb)" using assms(1) by (intro unat_sb_sz) (simp add: buf_is_def Let_def)
  have "sb_n ?sb + 1 = of_nat (length t + 1)" using assms(1) by (simp add: buf_is_def Let_def)
  then have need: "unat (sb_n ?sb + 1) = length t + 1" using assms(3) unat_of_nat_small [where 'a = 32, of "length t + 1"] by (simp del: of_nat_add of_nat_Suc)
  show ?thesis
  proof (cases "sb_n ?sb + 1 > sb_sz ?sb")
    case False
    then have "length t + length [c] \<le> length (sb_buf ?sb)" using need sz by (simp add: word_less_nat_alt)
    then show ?thesis using adds_store [OF assms(1)] False by (simp add: addchar_def Let_def)
  next
    case True
    then have l: "length (sb_buf ?sb) \<le> length t" using need sz by (simp add: word_less_nat_alt)
    have p: "0 < length (sb_buf ?sb)" using assms(2) by simp
    have d: "unat (sb_sz ?sb * 2) = 2 * length (sb_buf ?sb)" by (rule unat_double) (use l assms(3) sz in linarith)+
    have "length t \<le> length (sb_buf ?sb)" using assms(1) by (simp add: buf_is_def Let_def)
    with l have "length t = length (sb_buf ?sb)" by (rule le_antisym [rotated])
    then have "sb_sz ?sb \<le> sb_sz ?sb * 2" "length t + length [c] \<le> unat (sb_sz ?sb * 2)" using d sz p by (simp_all add: word_le_nat_alt Suc_le_eq)
    then show ?thesis using adds_grow_store [OF assms(1)] True by (simp add: addchar_def Let_def)
  qed
qed

lemma addsI: "buf_is g t \<Longrightarrow> adds v g t (Some (Inr v, g))"
  by (auto simp: adds_def)

lemma adds_seq:
  assumes "adds u g t a" and "\<And>h. buf_is h t \<Longrightarrow> length (sb_buf (tmpbuf g)) \<le> length (sb_buf (tmpbuf h)) \<Longrightarrow> adds v h t' (f u h)"
  shows "adds v g t' (seq a f)"
proof -
  obtain r h where a: "a = Some (r, h)" "buf_only g h"
      and r: "r = Inl LJ_ERR_ERRMEM \<or> r = Inr u \<and> buf_is h t \<and> length (sb_buf (tmpbuf g)) \<le> length (sb_buf (tmpbuf h))"
    using assms(1) by (auto simp: adds_def)
  from r show ?thesis
  proof (elim disjE conjE)
    assume "r = Inl LJ_ERR_ERRMEM"
    then show ?thesis using a by (simp add: adds_def seq_def)
  next
    assume h: "r = Inr u" "buf_is h t" "length (sb_buf (tmpbuf g)) \<le> length (sb_buf (tmpbuf h))"
    obtain q k where k: "f u h = Some (q, k)" "buf_only h k" "q = Inl LJ_ERR_ERRMEM \<or> q = Inr v \<and> buf_is k t' \<and> length (sb_buf (tmpbuf h)) \<le> length (sb_buf (tmpbuf k))"
      using assms(2) [OF h(2,3)] by (auto simp: adds_def)
    then show ?thesis using a h buf_only_trans [OF a(2) k(2)] by (auto simp: adds_def seq_def)
  qed
qed

section \<open>What a format stands for\<close>

text \<open>
  The text of one conversion with the arguments left, and the text of a format. Nothing is said when an argument is missing
  or has another type, and when the format ends in a per cent sign.
\<close>

definition conv_text :: "(uint64 \<Rightarrow> uint8 list) \<Rightarrow> uint8 \<Rightarrow> va list \<Rightarrow> (uint8 list \<times> va list) option" where
  "conv_text number2str c args =
     (if c = 115 then (case args of VStr None # as \<Rightarrow> Some ([40, 110, 117, 108, 108, 41], as) | VStr (Some s) # as \<Rightarrow> Some (s, as) | _ \<Rightarrow> None)
      else if c = 99 then (case args of VInt k # as \<Rightarrow> Some ([ucast k], as) | _ \<Rightarrow> None)
      else if c = 100 then (case args of VInt k # as \<Rightarrow> Some (dec_int (sint k), as) | _ \<Rightarrow> None)
      else if c = 102 then (case args of VNum n # as \<Rightarrow> Some (lj_str_bufnum number2str n, as) | _ \<Rightarrow> None)
      else if c = 112 then (case args of VPtr p # as \<Rightarrow> Some (ptr_text p, as) | _ \<Rightarrow> None)
      else if c = 37 then Some ([37], args)
      else Some ([37, c], args))"

fun fmt_text :: "(uint64 \<Rightarrow> uint8 list) \<Rightarrow> uint8 list \<Rightarrow> va list \<Rightarrow> uint8 list option" where
  "fmt_text number2str [] args = Some []"
| "fmt_text number2str [c] args = (if c = 37 then None else Some [c])"
| "fmt_text number2str (c # d # fmt) args =
     (if c = 37 then Option.bind (conv_text number2str d args) (\<lambda>(s, args). map_option ((@) s) (fmt_text number2str fmt args))
      else map_option ((#) c) (fmt_text number2str (d # fmt) args))"

lemma fmt_text_plain: "c \<noteq> 37 \<Longrightarrow> fmt_text n (c # fmt) args = map_option ((#) c) (fmt_text n fmt args)"
  by (cases fmt) auto

lemma fmt_text_prefix: "37 \<notin> set s \<Longrightarrow> fmt_text n (s @ fmt) args = map_option ((@) s) (fmt_text n fmt args)"
  by (induction s; cases "fmt_text n fmt args") (auto simp: fmt_text_plain)

text \<open>Each conversion adds its text.\<close>

lemma put_ok:
  assumes "buf_is g t" "sb_buf (tmpbuf g) \<noteq> []" "length t + length s < 2 ^ 31"
  shows "adds v g (t @ s) (seq (addstr allocf s g) (\<lambda>_ g. Some (Inr v, g)))"
proof (rule adds_seq)
  show "adds () g (t @ s) (addstr allocf s g)" using assms by (intro addstr_ok) auto
qed (rule addsI)

lemma putc_ok:
  assumes "buf_is g t" "sb_buf (tmpbuf g) \<noteq> []" "length t + 1 < 2 ^ 31"
  shows "adds v g (t @ [c]) (seq (addchar allocf c g) (\<lambda>_ g. Some (Inr v, g)))"
  by (rule adds_seq [OF addchar_ok [OF assms]]) (rule addsI)

lemma fmt_conv_ok:
  assumes "buf_is g t" "sb_buf (tmpbuf g) \<noteq> []" "length t + length s < 2 ^ 31" "conv_text number2str c args = Some (s, as)"
  shows "adds as g (t @ s) (fmt_conv allocf number2str c args g)"
proof -
  note put = put_ok [OF assms(1-3)]
  consider (str) o' where "c = 115" "args = VStr o' # as" "s = (case o' of None \<Rightarrow> [40, 110, 117, 108, 108, 41] | Some s \<Rightarrow> s)"
    | (chr) k where "c = 99" "args = VInt k # as" "s = [ucast k]"
    | (dcm) k where "c = 100" "args = VInt k # as" "s = dec_int (sint k)"
    | (num) n where "c = 102" "args = VNum n # as" "s = lj_str_bufnum number2str n"
    | (ptr) p where "c = 112" "args = VPtr p # as" "s = ptr_text p"
    | (pct) "c = 37" "args = as" "s = [37]"
    | (oth) "c \<notin> {115, 99, 100, 102, 112, 37}" "args = as" "s = [37, c]"
    using assms(4) by (auto simp: conv_text_def split: if_splits list.splits va.splits option.splits)
  then show ?thesis
  proof cases
    case str
    then show ?thesis using put by (simp add: fmt_conv_def)
  next
    case chr
    then show ?thesis using putc_ok [OF assms(1,2)] assms(3) by (simp add: fmt_conv_def)
  next
    case dcm
    obtain b p where "lj_str_bufint (replicate LJ_STR_INTBUF 0) k = Some (b, p)" "drop p b = s"
      using lj_str_bufint_ok [of "replicate LJ_STR_INTBUF 0" k] dcm by auto
    then show ?thesis using put dcm by (simp add: fmt_conv_def)
  next
    case num
    then show ?thesis using put by (simp add: fmt_conv_def)
  next
    case ptr
    then show ?thesis using put by (simp add: fmt_conv_def)
  next
    case pct
    then show ?thesis using putc_ok [OF assms(1,2)] assms(3) by (simp add: fmt_conv_def)
  next
    case oth
    have "adds as g ((t @ [37]) @ [c]) (seq (addchar allocf 37 g) (\<lambda>_ g. seq (addchar allocf c g) (\<lambda>_ g. Some (Inr as, g))))"
    proof (rule adds_seq)
      show "adds () g (t @ [37]) (addchar allocf 37 g)" using assms(1-3) oth by (intro addchar_ok) auto
      fix h assume "buf_is h (t @ [37])" "length (sb_buf (tmpbuf g)) \<le> length (sb_buf (tmpbuf h))"
      then show "adds as h ((t @ [37]) @ [c]) (seq (addchar allocf c h) (\<lambda>_ g. Some (Inr as, g)))"
        using assms(2,3) oth by (intro putc_ok) auto
    qed
    then show ?thesis using oth by (simp add: fmt_conv_def)
  qed
qed

lemma fmt_loop_ok:
  assumes "buf_is g t" "fmt = [] \<or> sb_buf (tmpbuf g) \<noteq> []" "fmt_text number2str fmt args = Some s" "length t + length s < 2 ^ 31"
  shows "adds () g (t @ s) (fmt_loop allocf number2str fmt args g)"
  using assms
proof (induction "length fmt" arbitrary: fmt args g t s rule: less_induct)
  case less
  let ?pre = "takeWhile (\<lambda>c. c \<noteq> 37) fmt"
  have pre: "37 \<notin> set ?pre" by (auto dest: set_takeWhileD)
  show ?case
  proof (cases "dropWhile (\<lambda>c. c \<noteq> 37) fmt")
    case Nil
    then have "37 \<notin> set fmt" by (auto simp: dropWhile_eq_Nil_conv)
    then have "s = fmt" using fmt_text_prefix [of fmt number2str "[]" args] less.prems(3) by simp
    then show ?thesis using addstr_ok [OF less.prems(1,2)] less.prems(4) Nil by (subst fmt_loop.simps) (simp del: dropWhile_eq_Nil_conv)
  next
    case (Cons e rest)
    have e: "e = 37" using hd_dropWhile [of "\<lambda>c. c \<noteq> 37" fmt] Cons by simp
    have fmt: "fmt = ?pre @ 37 # rest" using takeWhile_dropWhile_id [of "\<lambda>c. c \<noteq> 37" fmt] Cons e by simp
    then have ne: "sb_buf (tmpbuf g) \<noteq> []" using less.prems(2) by auto
    have "fmt_text number2str fmt args = map_option ((@) ?pre) (fmt_text number2str (37 # rest) args)"
      using fmt_text_prefix [OF pre, of number2str "37 # rest" args] fmt by (simp only: flip: fmt)
    with less.prems(3) obtain s' where s': "fmt_text number2str (37 # rest) args = Some s'" "s = ?pre @ s'" by auto
    then obtain c fmt' s1 as s2 where r: "rest = c # fmt'" "conv_text number2str c args = Some (s1, as)"
        "fmt_text number2str fmt' as = Some s2" "s' = s1 @ s2"
      by (cases rest) (auto simp: bind_eq_Some_conv)
    have len: "length fmt' < length fmt" using arg_cong [OF fmt, of length] r(1) by simp
    have l: "length t + length ?pre + length s1 + length s2 < 2 ^ 31" using less.prems(4) s'(2) r(4) by simp
    have "adds () g (((t @ ?pre) @ s1) @ s2) (seq (addstr allocf ?pre g)
            (\<lambda>_ g. seq (fmt_conv allocf number2str c args g) (\<lambda>args g. fmt_loop allocf number2str fmt' args g)))"
    proof (rule adds_seq)
      show "adds () g (t @ ?pre) (addstr allocf ?pre g)" using less.prems(1) ne l by (intro addstr_ok) auto
      fix h assume h: "buf_is h (t @ ?pre)" "length (sb_buf (tmpbuf g)) \<le> length (sb_buf (tmpbuf h))"
      have hne: "sb_buf (tmpbuf h) \<noteq> []" using h(2) ne by auto
      show "adds () h (((t @ ?pre) @ s1) @ s2) (seq (fmt_conv allocf number2str c args h) (\<lambda>args g. fmt_loop allocf number2str fmt' args g))"
      proof (rule adds_seq)
        show "adds as h ((t @ ?pre) @ s1) (fmt_conv allocf number2str c args h)" using h hne l r(2) by (intro fmt_conv_ok) auto
        fix k assume k: "buf_is k ((t @ ?pre) @ s1)" "length (sb_buf (tmpbuf h)) \<le> length (sb_buf (tmpbuf k))"
        then have "sb_buf (tmpbuf k) \<noteq> []" using hne by auto
        then show "adds () k (((t @ ?pre) @ s1) @ s2) (fmt_loop allocf number2str fmt' as k)"
          using k(1) r(3) l len by (intro less.hyps) auto
      qed
    qed
    then show ?thesis using Cons r s' by (subst fmt_loop.simps) simp
  qed
qed

section \<open>Pointers\<close>

text \<open>The number that the digits of a pointer stand for.\<close>

definition hex_value :: "uint8 list \<Rightarrow> nat" where
  "hex_value ds = foldl (\<lambda>n d. n * 16 + (if d < 97 then unat (d - 48) else unat (d - 87))) 0 ds"

lemma hexdigit_value:
  assumes "d < 16"
  shows "(if hexdigit d < 97 then unat (hexdigit d - 48) else unat (hexdigit d - 87)) = unat d"
proof -
  have d: "unat d < 16" using assms by (simp add: word_less_nat_alt)
  then have c: "unat (ucast d :: uint8) = unat d" by (simp add: unsigned_ucast_eq take_bit_nat_eq_self)
  show ?thesis
  proof (cases "d < 10")
    case True
    then have "unat (48 + ucast d :: uint8) = 48 + unat d" using c by (simp add: unat_word_ariths word_less_nat_alt)
    then show ?thesis using True c by (auto simp: hexdigit_def word_less_nat_alt)
  next
    case False
    then have "unat (87 + ucast d :: uint8) = 87 + unat d" using c d by (simp add: unat_word_ariths word_less_nat_alt)
    then show ?thesis using False c by (auto simp: hexdigit_def word_less_nat_alt)
  qed
qed

lemma hex_value_append: "hex_value (ds @ [hexdigit d]) = hex_value ds * 16 + unat d" if "d < 16"
  using hexdigit_value [OF that] by (simp add: hex_value_def)

lemma unat_signed_drop_mod:
  fixes p :: uint64
  assumes "j + m \<le> 64"
  shows "unat (signed_drop_bit m p) mod 2 ^ j = unat p div 2 ^ m mod 2 ^ j"
proof -
  have "take_bit j (unat (signed_drop_bit m p)) = take_bit j (drop_bit m (unat p))"
  proof (rule bit_eqI)
    fix k
    show "bit (take_bit j (unat (signed_drop_bit m p))) k = bit (take_bit j (drop_bit m (unat p))) k"
      using assms by (auto simp: bit_simps)
  qed
  then show ?thesis by (simp only: take_bit_eq_mod drop_bit_eq_div)
qed

lemma ptr_digits_value: "4 * n \<le> 64 \<Longrightarrow> hex_value (ptr_digits n p) = unat p mod 16 ^ n"
proof (induction n arbitrary: p)
  case 0
  show ?case by (simp add: hex_value_def)
next
  case (Suc n)
  have "(15 :: uint64) = mask 4" by (simp add: mask_eq_exp_minus_1)
  then have a: "p AND 15 = p mod 16" using take_bit_eq_mask [of 4 p] take_bit_eq_mod [of 4 p] by simp
  have "(p AND 15) < 16" by (simp add: a word_less_nat_alt unat_mod)
  moreover have "hex_value (ptr_digits n (signed_drop_bit 4 p)) = unat p div 16 mod 16 ^ n"
    using Suc unat_signed_drop_mod [of "4 * n" 4 p] by (simp add: power_mult)
  moreover have "unat (p AND 15) = unat p mod 16" by (simp add: a unat_mod)
  ultimately show ?case using mod_mult2_eq [of "unat p" 16 "16 ^ n"] by (simp add: hex_value_append)
qed

text \<open>The shortened text of a pointer has all of its digits.\<close>

lemma ptr_text_value:
  assumes "p \<noteq> 0"
  shows "\<exists>ds. ptr_text p = [48, 120] @ ds \<and> hex_value ds = unat p"
proof -
  define h where "h = (ucast (signed_drop_bit 32 p :: uint64) :: uint32)"
  have h: "unat h = unat p div 2 ^ 32"
  proof -
    have "unat h = unat (signed_drop_bit 32 p) mod 2 ^ 32" by (simp add: h_def unsigned_ucast_eq take_bit_eq_mod)
    also have "\<dots> = unat p div 2 ^ 32 mod 2 ^ 32" by (rule unat_signed_drop_mod) simp
    finally show ?thesis using unat_uint64_less [of p] by (simp add: less_mult_imp_div_less)
  qed
  let ?n = "2 * 4 + (if signed_drop_bit 32 p \<noteq> 0 then 2 + 2 * (lj_fls (unat h) div 8) else 0)"
  have t: "ptr_text p = [48, 120] @ ptr_digits ?n p" using assms by (simp add: ptr_text_def h_def Let_def)
  have "unat p < 16 ^ ?n \<and> 4 * ?n \<le> 64"
  proof (cases "unat h = 0")
    case True
    then have "unat p < 2 ^ 32" using h by simp
    then have "take_bit 32 p = p" by (simp only: unat_less_power_iff_take_bit)
    then have "\<not> bit p k" if "32 \<le> k" for k using that bit_take_bit_iff [of 32 p k] by simp
    then have "signed_drop_bit 32 p = 0" by (intro bit_word_eqI) (simp add: bit_simps)
    then show ?thesis using \<open>unat p < 2 ^ 32\<close> by simp
  next
    case False
    define e where "e = lj_fls (unat h)"
    have e: "2 ^ e \<le> unat h" "unat h < 2 ^ Suc e" using lj_fls_bounds [of "unat h"] False by (simp_all add: e_def)
    have "unat h < 2 ^ 32" using unsigned_less [of h] by simp
    with e(1) have "(2 :: nat) ^ e < 2 ^ 32" by (rule le_less_trans)
    then have e32: "e < 32" by (simp only: power_strict_increasing_iff)
    have "unat p < (unat h + 1) * 2 ^ 32" using h by (simp add: dividend_less_div_times)
    also have "\<dots> \<le> 2 ^ Suc e * 2 ^ 32" using e(2) by (intro mult_right_mono) simp_all
    also have "\<dots> = 2 ^ (Suc e + 32)" by (simp only: power_add)
    also have "\<dots> \<le> 2 ^ (4 * (10 + 2 * (e div 8)))" by (intro power_increasing) (presburger | simp)+
    also have "\<dots> = 16 ^ (10 + 2 * (e div 8))" by (simp only: power_mult) simp
    finally have "unat p < 16 ^ (10 + 2 * (e div 8))" .
    moreover have "signed_drop_bit 32 p \<noteq> 0" using False by (auto simp: h_def)
    ultimately show ?thesis using e32 by (simp add: e_def [symmetric])
  qed
  then show ?thesis using t ptr_digits_value [of ?n p] by simp
qed

section \<open>Formatted strings\<close>

lemma resizebuf_length:
  assumes "length (sb_buf (tmpbuf g)) \<le> unat sz"
  shows "\<exists>r g'. lj_str_resizebuf allocf sz g = (r, g') \<and> buf_only g g' \<and>
           (r = Inl LJ_ERR_ERRMEM \<or> r = Inr () \<and> length (sb_buf (tmpbuf g')) = unat sz)"
  using assms by (cases "allocf g sz") (auto simp: lj_str_resizebuf_def)

lemma lj_str_needbuf_ok:
  assumes "length (sb_buf (tmpbuf g)) < 2 ^ 32" and "n < 2 ^ 32"
  shows "\<exists>r g'. lj_str_needbuf allocf (of_nat n) g = Some (r, g') \<and> buf_only g g' \<and>
           (r = Inl LJ_ERR_ERRMEM \<or> r = Inr () \<and> n \<le> length (sb_buf (tmpbuf g')) \<and> length (sb_buf (tmpbuf g')) < 2 ^ 32)"
proof -
  let ?sz = "if of_nat n < LJ_MIN_SBUF then LJ_MIN_SBUF else of_nat n :: uint32"
  have n: "unat (of_nat n :: uint32) = n" using assms(2) by (simp add: unat_of_nat_small)
  have sz: "unat (sb_sz (tmpbuf g)) = length (sb_buf (tmpbuf g))" by (rule unat_sb_sz [OF assms(1)])
  show ?thesis
  proof (cases "of_nat n > sb_sz (tmpbuf g)")
    case False
    then show ?thesis using n sz assms(1) by (simp add: lj_str_needbuf_def word_less_nat_alt)
  next
    case True
    have l: "length (sb_buf (tmpbuf g)) < n" using True n sz by (simp add: word_less_nat_alt)
    have s: "n \<le> unat ?sz" using n by (simp add: word_less_nat_alt)
    have u: "unat ?sz < 2 ^ 32" using unsigned_less [of ?sz] by simp
    have "lj_str_needbuf allocf (of_nat n) g = Some (lj_str_resizebuf allocf ?sz g)" using True by (simp add: lj_str_needbuf_def)
    moreover obtain r g' where "lj_str_resizebuf allocf ?sz g = (r, g')" "buf_only g g'"
        "r = Inl LJ_ERR_ERRMEM \<or> r = Inr () \<and> length (sb_buf (tmpbuf g')) = unat ?sz"
      using resizebuf_length [of g ?sz allocf] l s by (meson less_imp_le_nat order_trans)
    ultimately show ?thesis using s u by auto
  qed
qed

text \<open>Where the buffer lies in memory when it is interned.\<close>

definition places :: "(uint8 list \<Rightarrow> memory \<times> uint64) \<Rightarrow> bool" where
  "places bufmem \<longleftrightarrow> (\<forall>bs mem a. length bs < 2 ^ 32 \<and> bufmem bs = (mem, a) \<longrightarrow> paged mem \<and> mem_at mem a ((!) bs) (length bs))"

definition ex_places :: "uint8 list \<Rightarrow> memory \<times> uint64" where
  "ex_places bs = (\<lambda>a. if drop_bit 12 a < 2 ^ 20 then Some (if unat a < length bs then bs ! unat a else 0) else None, 0)"

lemma ex_places_ok: "places ex_places"
proof -
  have "drop_bit 12 (of_nat j :: uint64) < 2 ^ 20" if "j < 2 ^ 32" for j
  proof -
    have "unat (of_nat j :: uint64) = j" using that by (simp add: unat_of_nat_small)
    then show ?thesis using that by (simp add: word_less_nat_alt unat_div drop_bit_eq_div less_mult_imp_div_less)
  qed
  then show ?thesis by (auto simp: places_def ex_places_def paged_def mem_at_def unat_of_nat_small)
qed

lemma placesD: "places bufmem \<Longrightarrow> bufmem bs = (mem, a) \<Longrightarrow> length bs < 2 ^ 32 \<Longrightarrow> paged mem \<and> mem_at mem a ((!) bs) (length bs)"
  by (simp add: places_def)

lemma intern_text_ok:
  assumes "alloc_fresh allocf" and "interned g M" and "paged mem" and "mem_at mem a ((!) bs) (length txt)"
    and "length txt < LJ_MAX_STR" and "length txt \<le> length bs" and "take (length txt) bs = txt"
  shows "\<exists>r g'. lj_str_new allocf mem a (of_nat (length txt)) g = Some (r, g') \<and>
           (r = Inl LJ_ERR_ERRMEM \<or> (\<exists>p s. r = Inr p \<and> sobjs g' p = Some s \<and> str_bytes s = txt)) \<and>
           (\<forall>q s. sobjs g q = Some s \<longrightarrow> (\<exists>s'. sobjs g' q = Some s' \<and> str_bytes s' = str_bytes s))"
proof -
  have n: "unat (of_nat (length txt) :: uint64) = length txt" using assms(5) by (simp add: unat_of_nat_small)
  have "take (length txt) bs = map ((!) bs) [0..<length txt]" using assms(6) by (intro nth_equalityI) simp_all
  then have sg: "seg ((!) bs) 0 (length txt) = txt" using assms(7) by (simp add: seg_def)
  obtain r g' where r: "lj_str_new allocf mem a (of_nat (length txt)) g = Some (r, g')" "new_result g M txt r g'"
    using lj_str_new_ok [OF assms(2,1,3), of a "(!) bs" "of_nat (length txt)"] assms(4,5) n sg by auto
  obtain M' where M': "interned g' M'" "M \<subseteq>\<^sub>m M'" "r = Inl LJ_ERR_ERRMEM \<or> (\<exists>p. r = Inr p \<and> M' txt = Some p)"
    using new_result_map [OF r(2) assms(2)] by blast
  have ob: "\<exists>s. sobjs g' p = Some s \<and> str_bytes s = bs" if "M' bs = Some p" for bs p
    using interned_bytes [OF M'(1) that] by (auto simp: obj_bytes_def split: option.splits)
  have "\<exists>s'. sobjs g' q = Some s' \<and> str_bytes s' = str_bytes s" if "sobjs g q = Some s" for q s
  proof -
    have "M (str_bytes s) = Some q" using interned_object [OF assms(2), of q] that by (simp add: obj_bytes_def)
    then have "M' (str_bytes s) = Some q" using M'(2) by (auto simp: map_le_def dom_def)
    then show ?thesis by (rule ob)
  qed
  then show ?thesis using r(1) M'(3) ob by (intro exI [of _ r] exI [of _ g']) auto
qed

lemma buf_only_sobjs: "buf_only g g' \<Longrightarrow> sobjs g' = sobjs g"
  by (cases g; cases g') (simp add: buf_only_def)

section \<open>Properties\<close>

text \<open>
  Property C40. Converting an integer to a string gives, in every state of the string table and for all integers down to the least one, a reference
  to an object whose text is the integer in decimal: it reads back as the same integer. The digits never leave the
  buffer of eleven characters, and the only error is a lack of memory.
\<close>

theorem lj_str_fromint_correct:
  assumes "alloc_fresh allocf" and "str_reach allocf g" and "places bufmem"
  shows "\<exists>r g'. lj_str_fromint allocf bufmem k g = Some (r, g') \<and>
     (r = Inl LJ_ERR_ERRMEM \<or> (\<exists>p s. r = Inr p \<and> sobjs g' p = Some s \<and> int_value (str_bytes s) = Some (sint k)))"
proof -
  obtain M where M: "interned g M" using str_reach_interned [OF assms(2,1)] by blast
  obtain buf p where b: "lj_str_bufint (replicate 11 0) k = Some (buf, p)" "length buf = 11" "drop p buf = dec_int (sint k)"
    using lj_str_bufint_ok [of "replicate 11 0" k] by auto
  obtain mem a where m: "bufmem buf = (mem, a)" by (cases "bufmem buf")
  then have pl: "paged mem" "mem_at mem a ((!) buf) 11" using placesD [OF assms(3) m] b(2) by auto
  have at: "mem_at mem (a + of_nat p) ((!) (drop p buf)) (length (drop p buf))"
    using pl(2) b(2) by (auto simp: mem_at_def add.assoc simp flip: of_nat_add)
  have "length (drop p buf) < LJ_MAX_STR" using b(2) by simp
  from intern_text_ok [OF assms(1) M pl(1) at this _ _] obtain r g' where
    "lj_str_new allocf mem (a + of_nat p) (of_nat (length (drop p buf))) g = Some (r, g')"
    "r = Inl LJ_ERR_ERRMEM \<or> (\<exists>q s. r = Inr q \<and> sobjs g' q = Some s \<and> str_bytes s = drop p buf)" by auto
  moreover have "length (drop p buf) = 11 - p" using b(2) by simp
  moreover have "int_value (drop p buf) = Some (sint k)" by (simp only: b(3) int_value_dec_int)
  ultimately show ?thesis using b(1,2) m by (auto simp: lj_str_fromint_def)
qed

text \<open>
  Property C39. \<^verbatim>\<open>lj_str_pushvf\<close> gives the text that the format stands for: the plain parts with every conversion replaced by the text of its
  argument, in order, although the buffer is resized on the way. It returns, never stores behind the end of the buffer, fails for want of
  memory only, and keeps all strings there are.
\<close>

theorem lj_str_pushvf_correct:
  assumes "alloc_fresh allocf" and "str_reach allocf g" and "places bufmem" and "length (sb_buf (tmpbuf g)) < 2 ^ 32"
    and "fmt_text number2str fmt args = Some txt" and "length fmt < LJ_MAX_STR" and "length txt < LJ_MAX_STR"
  shows "\<exists>r g'. lj_str_pushvf allocf number2str bufmem fmt args g = Some (r, g') \<and>
     (r = Inl LJ_ERR_ERRMEM \<or> (\<exists>p s. r = Inr p \<and> sobjs g' p = Some s \<and> str_bytes s = txt)) \<and>
     (\<forall>q s. sobjs g q = Some s \<longrightarrow> (\<exists>s'. sobjs g' q = Some s' \<and> str_bytes s' = str_bytes s))"
proof -
  obtain M where M: "interned g M" using str_reach_interned [OF assms(2,1)] by blast
  obtain r1 g1 where r1: "lj_str_needbuf allocf (of_nat (length fmt)) g = Some (r1, g1)" "buf_only g g1"
      "r1 = Inl LJ_ERR_ERRMEM \<or> r1 = Inr () \<and> length fmt \<le> length (sb_buf (tmpbuf g1)) \<and> length (sb_buf (tmpbuf g1)) < 2 ^ 32"
    using lj_str_needbuf_ok [OF assms(4), of "length fmt" allocf] assms(6) by auto
  show ?thesis
  proof (cases "r1 = Inr ()")
    case False
    then show ?thesis using r1 buf_only_sobjs [OF r1(2)] by (auto simp: lj_str_pushvf_def seq_def)
  next
    case True
    let ?h = "lj_str_resetbuf g1"
    have h: "buf_only g ?h" using buf_only_trans [OF r1(2)] by (simp add: lj_str_resetbuf_def)
    have "buf_is ?h []" "fmt = [] \<or> sb_buf (tmpbuf ?h) \<noteq> []" using r1(3) True by (auto simp: buf_is_def lj_str_resetbuf_def)
    from fmt_loop_ok [OF this assms(5), of allocf] assms(7) have "adds () ?h txt (fmt_loop allocf number2str fmt args ?h)" by simp
    then obtain r2 g2 where r2: "fmt_loop allocf number2str fmt args ?h = Some (r2, g2)" "buf_only ?h g2" "r2 = Inl LJ_ERR_ERRMEM \<or> r2 = Inr () \<and> buf_is g2 txt"
      by (auto simp: adds_def)
    have g2: "buf_only g g2" by (rule buf_only_trans [OF h r2(2)])
    show ?thesis
    proof (cases "r2 = Inr ()")
      case False
      then show ?thesis using r1 True r2 buf_only_sobjs [OF g2] by (auto simp: lj_str_pushvf_def seq_def)
    next
      case ok: True
      let ?buf = "sb_buf (tmpbuf g2)"
      have b: "length txt \<le> length ?buf" "length ?buf < 2 ^ 32" "sb_n (tmpbuf g2) = of_nat (length txt)" "take (length txt) ?buf = txt"
        using r2(3) ok by (auto simp: buf_is_def Let_def)
      obtain mem a where m: "bufmem ?buf = (mem, a)" by (cases "bufmem ?buf")
      have pl: "paged mem" "mem_at mem a ((!) ?buf) (length txt)" using placesD [OF assms(3) m b(2)] b(1) by (auto simp: mem_at_def)
      have "unat (sb_n (tmpbuf g2)) = length txt" using b(3) assms(7) by (simp add: unat_of_nat_small)
      then have n: "(ucast (sb_n (tmpbuf g2)) :: uint64) = of_nat (length txt)" by (metis of_nat_unat)
      show ?thesis using intern_text_ok [OF assms(1) interned_buf_only [OF g2 M] pl assms(7) b(1,4)] r1 True r2(1) ok m n buf_only_sobjs [OF g2]
        by (simp add: lj_str_pushvf_def seq_def)
    qed
  qed
qed

theorem lj_str_fromint_correct_witness:
  "\<exists>r g'. lj_str_fromint ex_alloc ex_places (- 2147483648) ex_tab = Some (r, g') \<and>
     (r = Inl LJ_ERR_ERRMEM \<or> (\<exists>p s. r = Inr p \<and> sobjs g' p = Some s \<and> int_value (str_bytes s) = Some (- 2147483648)))"
  using lj_str_fromint_correct [OF ex_alloc_fresh ex_tab_reach ex_places_ok, of "- 2147483648"] by simp

theorem lj_str_pushvf_correct_witness:
  "\<exists>r g'. lj_str_pushvf ex_alloc (\<lambda>_. []) ex_places [61, 37, 100, 37, 115, 37, 37] [VInt (- 42), VStr (Some [97, 98])] ex_tab = Some (r, g') \<and>
     (r = Inl LJ_ERR_ERRMEM \<or> (\<exists>p s. r = Inr p \<and> sobjs g' p = Some s \<and> str_bytes s = [61, 45, 52, 50, 97, 98, 37]))"
proof -
  let ?fmt = "[61, 37, 100, 37, 115, 37, 37] :: uint8 list" and ?txt = "[61, 45, 52, 50, 97, 98, 37] :: uint8 list"
  have t: "fmt_text (\<lambda>_. []) ?fmt [VInt (- 42), VStr (Some [97, 98])] = Some ?txt" by (simp add: conv_text_def dec_int_def dec.simps)
  have l: "length (sb_buf (tmpbuf ex_tab)) < 2 ^ 32" "length ?fmt < LJ_MAX_STR" "length ?txt < LJ_MAX_STR" by (simp_all add: ex_tab_def newstate_def)
  show ?thesis using lj_str_pushvf_correct [OF ex_alloc_fresh ex_tab_reach ex_places_ok l(1) t l(2,3)] by (elim exE conjE) (intro exI conjI)
qed

end
