(* ===== verification/Spec2Isabelle.thy ===== *)
theory Spec2Isabelle
  imports Uv_Core Uv_Pool Uv_Inet Bpf_File Lj_Map Lj_Fmt
begin

text \<open>
  A verification development for shark, a tracing tool that is scripted in Lua. A script
  runs in LuaJIT on top of a libuv event loop. It hands BPF programs to the kernel and
  reads and writes their maps as if they were Lua tables.

  \<^bold>\<open>The program and the theories.\<close> Every theory states at its top what it models; the
  definitions keep the names of the C functions.

  \<^item> \<^verbatim>\<open>Shark_Prelude\<close>: fixed-width integers, C strings, collections and lemmas that all share.

  \<^item> The libuv event loop (\<^verbatim>\<open>core/libuv/src\<close>). \<^verbatim>\<open>Uv_Queue\<close> is \<^verbatim>\<open>queue.h\<close>, circular lists in a
  memory of next and previous pointers; \<^verbatim>\<open>Uv_Heap\<close> is \<^verbatim>\<open>heap-inl.h\<close>, a binary heap of nodes with
  left, right and parent pointers. \<^verbatim>\<open>Uv_Loop\<close> has the records of \<^verbatim>\<open>uv_loop_t\<close> and
  \<^verbatim>\<open>uv_handle_t\<close> and the handle macros of \<^verbatim>\<open>uv-common.h\<close>. \<^verbatim>\<open>Uv_Timer\<close> (\<^verbatim>\<open>unix/timer.c\<close>) keeps its timers
  in the heap, \<^verbatim>\<open>Uv_Watcher\<close> (\<^verbatim>\<open>unix/loop-watcher.c\<close>) its idle, prepare and check handles in
  queues. \<^verbatim>\<open>Uv_Io\<close> has the I/O watchers of \<^verbatim>\<open>unix/core.c\<close>, \<^verbatim>\<open>Uv_Poll\<close> the function \<^verbatim>\<open>uv__io_poll\<close> of
  \<^verbatim>\<open>unix/linux-core.c\<close> and the handles of \<^verbatim>\<open>unix/poll.c\<close>. \<^verbatim>\<open>Uv_Core\<close> puts them together: closing
  of handles and \<^verbatim>\<open>uv_run\<close>. \<^verbatim>\<open>Uv_Work\<close> is the thread pool (\<^verbatim>\<open>threadpool.c\<close>) with the wakeup of the
  loop (\<^verbatim>\<open>unix/async.c\<close>), and \<^verbatim>\<open>Uv_Pool\<close> its proofs. \<^verbatim>\<open>Uv_Inet\<close> is \<^verbatim>\<open>inet.c\<close> with the address functions of \<^verbatim>\<open>uv-common.c\<close>.

  \<^item> BPF (\<^verbatim>\<open>bpf\<close>). \<^verbatim>\<open>Lua_State\<close> has the stack, values and API functions of Lua that the C code
  calls; \<^verbatim>\<open>Bpf_Kernel\<close> the system call and its wrappers (\<^verbatim>\<open>libbpf/libbpf.c\<close>); \<^verbatim>\<open>Bpf_Map\<close> the maps as
  Lua tables (\<^verbatim>\<open>bpf.c\<close> and the generated access functions); \<^verbatim>\<open>Bpf_Load\<close> the ELF loader
  (\<^verbatim>\<open>libbpf/bpf_load.c\<close>), and \<^verbatim>\<open>Bpf_File\<close> the proofs on loading a whole file.

  \<^item> Lua tables (\<^verbatim>\<open>core/luajit/src\<close>). \<^verbatim>\<open>Lj_Obj\<close> has the values (\<^verbatim>\<open>lj_obj.h\<close>, \<^verbatim>\<open>lj_obj.c\<close>), \<^verbatim>\<open>Lj_Tab\<close> the
  code of \<^verbatim>\<open>lj_tab.c\<close>. Its proofs are in four steps: \<^verbatim>\<open>Lj_Chain\<close>, the collision chains;
  \<^verbatim>\<open>Lj_Table\<close>, tables as maps and the reinsertion of all values; \<^verbatim>\<open>Lj_Rehash\<close>, the choice of the
  sizes; \<^verbatim>\<open>Lj_Map\<close>, the contract.

  \<^item> Lua strings (\<^verbatim>\<open>core/luajit/src/lj_str.c\<close>). \<^verbatim>\<open>Lj_Str\<close> has the string objects and the code that works on
  bytes: comparison, equality and hash, which load whole words. \<^verbatim>\<open>Lj_Intern\<close> has the table of interned strings, from
  \<^verbatim>\<open>lj_str_new\<close> and \<^verbatim>\<open>lj_str_resize\<close> to the sweep of strings in \<^verbatim>\<open>lj_gc.c\<close>; \<^verbatim>\<open>Lj_Sweep\<close> the proofs on the sweep;
  \<^verbatim>\<open>Lj_Strings\<close> the histories of the table, from the state that \<^verbatim>\<open>lj_state.c\<close> sets up. \<^verbatim>\<open>Lj_Fmt\<close> has the
  conversions of numbers, the resizable buffer and the formatted messages.

  \<^bold>\<open>How the code is modelled.\<close> A C struct is a record, and a function that changes the state
  takes it and returns the new one. Pointers between queue nodes, heap nodes and nodes of
  hash chains are kept as addresses or indices, so that aliasing and dangling links are
  visible. A result \<open>None\<close> stands for undefined behaviour, a failed assertion, an abort or a loop
  that does not end; errors are values. One exception: \<^verbatim>\<open>lj_str_bufint\<close> negates the least integer, which C leaves undefined and
  which wraps around in \<^verbatim>\<open>Lj_Fmt\<close>, as it does in machine code. Integers are words where they can wrap around. The
  kernel, the clock, libelf and the callbacks of the user are arguments, with what the code
  relies on as named predicates, each shown to be satisfiable by a witness; so are the memory that the
  arguments of \<^verbatim>\<open>lj_str_new\<close> lie in (mapped by pages: a load elsewhere is a fault), the allocator of LuaJIT (a fragment
  it gives is not in use, and it may give none) and the printing of finite numbers by the C library. Threads are program
  counters: a step relation takes one step of one thread, a critical section of the pool's
  mutex or one access to what is shared outside of it.

  \<^bold>\<open>Loops.\<close> A loop whose end depends on the data is a \<^verbatim>\<open>partial_function (option)\<close>: walks over
  queues, sifting in the heap, \<^verbatim>\<open>uv__run_timers\<close>, \<^verbatim>\<open>uv__io_poll\<close>, \<^verbatim>\<open>uv_run\<close>, collision chains and
  the searches of \<^verbatim>\<open>lj_tab_len\<close>, the comparison of strings, the chains of the string table and the growth of the buffer. The properties state that the result is there. One
  recursion has fuel: \<^verbatim>\<open>lj_tab_newkey\<close> calls the rehash, which inserts keys again. Depth two is
  enough, because the rehash makes room for all keys before it inserts any (\<open>rehashtab_spec\<close>), so that
  the inner calls find a free node.

  \<^bold>\<open>What is shown.\<close>

  \<^item> Timers: the heap stays a complete tree in order; the timeout handed to the kernel is the time to the first timer. A run over
  the timers is described for callbacks that may start, stop and restart a given set of timers, but let none expire at once: it
  returns, no due timer runs twice, all that the callbacks leave alone run once, in order of expiry, and the repeating ones
  expire next after their repeat value. With a callback that restarts its timer with timeout 0 it does not return.

  \<^item> Handles: the count of active referenced handles is exact over all operations; a walk
  over loop watchers calls each once, and when it does not (callbacks that stop others or
  restart themselves) the properties show it.

  \<^item> Polling: the kernel watches what was asked for, events are dispatched in order, each with the bits that its watcher is to be
  told of, closed watchers are not called, \<^verbatim>\<open>uv__io_poll\<close> returns; callbacks of the batch leave the watchers alone here, but for the one that closes.
  \<^verbatim>\<open>uv_run\<close> on timers that do not repeat, with callbacks that leave the loop alone, ends with
  each called once; closing a handle calls its callback once.

  \<^item> Threads: for every interleaving of workers and loop, each request is run and done once or is
  cancelled before it runs, and all are done after finitely many steps (\<^verbatim>\<open>Uv_Pool\<close>).

  \<^item> Addresses: printing and parsing are inverse, for IPv4 and IPv6.

  \<^item> BPF: a write from Lua asks the kernel for exactly the bytes of key and value, and if the kernel accepts, the value is read
  back, with the exceptions the code has (keys that are strings, absent keys, signed bytes); iterating over a map; relocation of
  programs; loading of any file that fits the loader's arrays returns and records its programs, and where the arrays overflow.

  \<^item> Lua tables: sequences of assignments refine updates of a map, through collisions and
  rehashes; the array size that is chosen; traversal; the length; errors.

  \<^item> Lua strings: \<^verbatim>\<open>lj_str_cmp\<close> is the lexicographic order; interning gives equal references exactly for equal strings in every
  state of the table, never faults, and what it hands out during a sweep survives it; the sweep frees exactly the dead
  strings; an integer reads back from its text; a formatted message is what its format says.

  \<^item> Across components, at the end of this theory: by the contracts of the string table and of Lua tables, a Lua table indexed by strings is a map
  from byte strings.

  \<^bold>\<open>Interfaces.\<close> Locales state what one component promises another, and are interpreted on the model:
  the order that the heap needs, the main position that chains need, the bounded table that
  clients of Lua tables rely on, the interning of keys that lets references be compared in place of strings, and those of queues and watchers in their theories.

  \<^bold>\<open>Bounds.\<close> Array parts have up to \<^verbatim>\<open>2^27 + 1\<close> slots and hash parts up to \<^verbatim>\<open>2^26\<close> nodes, as in
  \<^verbatim>\<open>lj_def.h\<close>; the theorems on assignment ask for fewer than \<^verbatim>\<open>2^26\<close> values, beyond which the
  code may report an overflow of the table. The limits of the BPF loader (32 programs and
  maps) are those of the code.

  \<^bold>\<open>Not modelled.\<close> The interpreter, just-in-time compiler, parser, allocator and libraries of
  LuaJIT, and its garbage collector but for strings: machine code, raw memory, or no part of the tool's own work. What the
  collector does to strings while it marks is any change of their colours. Streams, sockets, processes, files and signals of libuv and the
  files for other systems: system calls around the loop that is modelled, or not compiled on
  Linux. The luv bindings and shark's main program: glue around the Lua interpreter. perf is there
  as a binary only. Of modelled parts, memory is never exhausted but in the theories on strings, tables have no metatables
  in \<^verbatim>\<open>Lua_State\<close>, and the state after an error of \<^verbatim>\<open>lj_tab.c\<close> is not described.
\<close>

section \<open>Tables indexed by strings\<close>

text \<open>
  A table finds a string by its reference and by the hash kept in its object. What scripts rely on is that the bytes decide, as
  the two contracts together give it.
\<close>

definition str_hash_at :: "gstate \<Rightarrow> uint32 \<Rightarrow> uint32" where
  "str_hash_at g p = (case sobjs g p of None \<Rightarrow> 0 | Some s \<Rightarrow> str_hash s)"

lemma map_of_inj_keys:
  assumes "\<forall>(i, v)\<in>set ops. f i = f j \<longleftrightarrow> h i = h j"
  shows "map_of (map (\<lambda>(i, v). (f i, v)) ops) (f j) = map_of (map (\<lambda>(i, v). (h i, v)) ops) (h j)"
  using assms
proof (induction ops)
  case (Cons a ops)
  obtain i v where a: "a = (i, v)" by (cases a)
  have "\<forall>(i, v)\<in>set ops. f i = f j \<longleftrightarrow> h i = h j" using Cons.prems by simp
  note ih = Cons.IH [OF this]
  have "f i = f j \<longleftrightarrow> h i = h j" using Cons.prems a by simp
  then show ?case using ih by (cases "h i = h j") (simp_all add: a eq_commute [of "f j"] eq_commute [of "h j"])
qed simp

text \<open>
  Property C5. A Lua table indexed by strings is a finite map from byte strings. Intern any strings, wherever they lie in memory and in any state
  of the string table, and assign to a new table any values under them, up to 2^26 times: all assignments succeed, and the value that is then
  found under a string is the last one assigned under a string of the same bytes, or nil, although hashes collide and both tables grow.
\<close>

theorem lua_tables_by_bytes:
  assumes "alloc_fresh allocf" and "str_reach allocf g" and "list_all arg_ok xs"
    and "intern_all (str_intern allocf) xs g = Some (map Inr ps, g')"
    and "asize \<le> LJ_MAX_ASIZE" and "hbits \<le> LJ_MAX_HBITS" and "length ops \<le> 2 ^ LJ_MAX_HBITS"
    and "\<forall>(i, v)\<in>set ops. i < length xs"
  shows "\<exists>t t'. lj_tab_new asize hbits = Some (Inr t) \<and>
     run_stores (store (str_hash_at g')) (map (\<lambda>(i, v). (TStr (ps ! i), v)) ops) t = Some (Inr t') \<and>
     (\<forall>j<length xs. lj_tab_get (str_hash_at g') t' (TStr (ps ! j)) =
        Some (case map_of (rev (map (\<lambda>(i, v). (arg_bytes (xs ! i), v)) ops)) (arg_bytes (xs ! j)) of None \<Rightarrow> TNil | Some v \<Rightarrow> v))"
proof -
  let ?sh = "str_hash_at g'" and ?kvs = "map (\<lambda>(i, v). (TStr (ps ! i), v)) ops"
  obtain M where M: "interned g M" using str_reach_interned [OF assms(2,1)] by blast
  obtain rs h where r: "intern_all (str_intern allocf) xs g = Some (rs, h)" "length rs = length xs"
    and same: "\<forall>i<length xs. \<forall>j<length xs. \<forall>p q. rs ! i = Inr p \<and> rs ! j = Inr q \<longrightarrow> (p = q \<longleftrightarrow> arg_bytes (xs ! i) = arg_bytes (xs ! j))"
    using str.references_identify [of allocf g M xs, OF conjI [OF assms(1) M] assms(3)] by (elim exE conjE) (rule that)
  have rs: "rs = map Inr ps" "length ps = length xs" using r assms(4) by auto
  have ident: "ps ! i = ps ! j \<longleftrightarrow> arg_bytes (xs ! i) = arg_bytes (xs ! j)" if "i < length xs" "j < length xs" for i j
    using same [rule_format, OF that, of "ps ! i" "ps ! j"] rs that by simp
  have keys: "\<forall>(k, v)\<in>set ?kvs. proper_key k" by (auto simp: proper_key_def)
  obtain t where t: "lj_tab_new asize hbits = Some (Inr t)" "tab_ok ?sh t" "\<And>x. tab_val t x = TNil" "live_keys t = {}"
    using lj_tab_new_ok [OF assms(5,6), of ?sh] by blast
  obtain t' where t': "run_stores (store ?sh) ?kvs t = Some (Inr t')" "tab_ok ?sh t'"
      "\<And>x. proper_key x \<Longrightarrow> tab_val t' x = (case map_of (rev (map (apfst canon) ?kvs)) (canon x) of None \<Rightarrow> tab_val t x | Some v \<Rightarrow> v)"
    using lua.run_stores_spec [OF t(2) _ keys] assms(7) t(4) by auto
  have c: "rev (map (apfst canon) ?kvs) = map (\<lambda>(i, v). (TStr (ps ! i), v)) (rev ops)" by (auto simp: rev_map canon_def)
  have "lj_tab_get ?sh t' (TStr (ps ! j)) =
      Some (case map_of (rev (map (\<lambda>(i, v). (arg_bytes (xs ! i), v)) ops)) (arg_bytes (xs ! j)) of None \<Rightarrow> TNil | Some v \<Rightarrow> v)"
    if j: "j < length xs" for j
  proof -
    have "map_of (map (\<lambda>(i, v). (TStr (ps ! i), v)) (rev ops)) (TStr (ps ! j)) = map_of (map (\<lambda>(i, v). (arg_bytes (xs ! i), v)) (rev ops)) (arg_bytes (xs ! j))"
      by (rule map_of_inj_keys) (use assms(8) ident [OF _ j] in auto)
    moreover have "canon (TStr (ps ! j)) = TStr (ps ! j)" "proper_key (TStr (ps ! j))" by (simp_all add: canon_def proper_key_def)
    ultimately show ?thesis using t'(3) [of "TStr (ps ! j)", unfolded c] t(3) by (simp add: lj_tab_get_spec [OF t'(2)] rev_map split: option.split)
  qed
  then show ?thesis using t(1) t'(1) by blast
qed

theorem lua_tables_by_bytes_witness:
  "\<exists>g' t t'. intern_all (str_intern ex_alloc) [(ex_mem, 100, [97])] ex_tab = Some ([Inr 8], g') \<and> lj_tab_new 0 0 = Some (Inr t) \<and>
     run_stores (store (str_hash_at g')) [(TStr 8, TBool True), (TStr 8, TBool False)] t = Some (Inr t') \<and>
     lj_tab_get (str_hash_at g') t' (TStr 8) = Some (TBool False)"
proof -
  have e: "ex_tab\<lparr>gc_currentwhite := 0x21, gc_state := GCSpause\<rparr> = ex_tab" by (simp add: ex_tab_def newstate_def)
  obtain g' where "str_intern ex_alloc (ex_mem, 100, [97]) ex_tab = Some (Inr 8, g')"
    using ex_intern [where w = "0x21" and st = GCSpause] unfolding e by blast
  then have i: "intern_all (str_intern ex_alloc) [(ex_mem, 100, [97])] ex_tab = Some (map Inr [8], g')" by simp
  have a: "list_all arg_ok [(ex_mem, 100, [97])]" using ex_args by simp
  show ?thesis using lua_tables_by_bytes [OF ex_alloc_fresh ex_tab_reach a i, of 0 0 "[(0, TBool True), (0, TBool False)]"] i by auto
qed

end
